(* ===== verification/Aether_Prelude.thy ===== *)
theory Aether_Prelude
  imports Main "HOL-Library.Word" "HOL-Library.AList"
begin

unbundle bit_operations_syntax

text \<open>
  Shared vocabulary of the AetherDB development.

  \<^item> The integer types and constants of \<^verbatim>\<open>common/include/common/types.hpp\<close>: a
    \<open>page_id\<close> is a 32-bit word, a raw \<open>char\<close> of a page is an 8-bit word.
  \<^item> Errors as values (\<open>err\<close>): the two exception classes the storage code throws, a null
    dereference and an access outside an object (undefined behaviour, which the model stops at),
    a call or a loop that never returns, and the death of the process by a signal.
  \<^item> Operations with state and exceptions (\<open>('s, 'a) comp\<close>): the state reached is kept even
    when an exception is thrown, because C++ does not roll back what was done before a throw.
  \<^item> Little-endian encodings of machine words and the overlay of fields on a byte buffer, which
    is how the code reads and writes pages (\<^verbatim>\<open>memcpy\<close>, \<^verbatim>\<open>reinterpret_cast\<close>).
\<close>

section \<open>Rule collections\<close>

named_theorems comp_simps \<open>unfolding of computations with state and exceptions\<close>
named_theorems layout_simps \<open>field access on byte buffers\<close>

section \<open>Core types\<close>

type_synonym byte = "8 word"
type_synonym page_id = "32 word"
type_synonym frame_id = int

definition PAGE_SIZE :: nat where
  "PAGE_SIZE = 4096"

definition INVALID_PAGE_ID :: page_id where
  "INVALID_PAGE_ID = 0xFFFFFFFF"

record RID =
  rid_page_id :: page_id
  rid_slot_num :: "32 word"

definition RID_default :: RID where
  "RID_default = \<lparr>rid_page_id = INVALID_PAGE_ID, rid_slot_num = 0\<rparr>"

definition RID_eq :: "RID \<Rightarrow> RID \<Rightarrow> bool" where
  "RID_eq a b \<longleftrightarrow> rid_page_id a = rid_page_id b \<and> rid_slot_num a = rid_slot_num b"

lemma PAGE_SIZE_pos [simp]: "0 < PAGE_SIZE"
  by (simp add: PAGE_SIZE_def)

lemma PAGE_SIZE_neq_0 [simp]: "PAGE_SIZE \<noteq> 0"
  by (simp add: PAGE_SIZE_def)

lemma unat_INVALID_PAGE_ID: "unat INVALID_PAGE_ID = 4294967295"
  by (simp add: INVALID_PAGE_ID_def)

lemma INVALID_minus_one: "INVALID_PAGE_ID = - 1"
  by (simp add: INVALID_PAGE_ID_def)

lemma less_INVALID_iff: "(p :: page_id) < INVALID_PAGE_ID \<longleftrightarrow> p \<noteq> INVALID_PAGE_ID"
  unfolding INVALID_minus_one by (metis word_order.not_eq_extremum)

lemma unat_inject: "unat a = unat b \<longleftrightarrow> a = b" for a b :: "'a::len word"
  by (simp add: word_unat_eq_iff)

lemma unat_Suc_page_id: "p \<noteq> INVALID_PAGE_ID \<Longrightarrow> unat (p + 1) = Suc (unat p)"
  by (metis INVALID_minus_one add.commute add_eq_0_iff unatSuc)

lemma below_not_INVALID: "(p :: page_id) < q \<Longrightarrow> p \<noteq> INVALID_PAGE_ID"
  using less_INVALID_iff by (metis (no_types) not_less_iff_gr_or_eq order_less_trans)

lemma RID_collapse [simp]: "\<lparr>rid_page_id = rid_page_id r, rid_slot_num = rid_slot_num r\<rparr> = r"
  by (cases r) simp

lemma RID_eq_iff: "RID_eq a b \<longleftrightarrow> a = b"
  by (cases a; cases b) (simp add: RID_eq_def)

section \<open>Errors and computations\<close>

datatype err =
    OutOfRange string
  | RuntimeError string
  | NullDeref
  | MemFault
  | NoReturn
  | Killed

text \<open>A handler \<^verbatim>\<open>catch (const std::exception&)\<close> sees the first two only.\<close>

fun is_std_exception :: "err \<Rightarrow> bool" where
  "is_std_exception (OutOfRange _) = True"
| "is_std_exception (RuntimeError _) = True"
| "is_std_exception _ = False"

type_synonym ('s, 'a) comp = "'s \<Rightarrow> (err + 'a) \<times> 's"

definition ret :: "'a \<Rightarrow> ('s, 'a) comp" where
  "ret a s = (Inr a, s)"

definition throw :: "err \<Rightarrow> ('s, 'a) comp" where
  "throw e s = (Inl e, s)"

definition bind :: "('s, 'a) comp \<Rightarrow> ('a \<Rightarrow> ('s, 'b) comp) \<Rightarrow> ('s, 'b) comp" where
  "bind m f s = (case m s of (Inl e, s') \<Rightarrow> (Inl e, s') | (Inr a, s') \<Rightarrow> f a s')"

lemma ret_apply [simp, comp_simps]: "ret a s = (Inr a, s)"
  by (simp add: ret_def)

lemma throw_apply [simp, comp_simps]: "throw e s = (Inl e, s)"
  by (simp add: throw_def)

lemma bind_Inr [simp]: "m s = (Inr a, s') \<Longrightarrow> bind m f s = f a s'"
  by (simp add: bind_def)

lemma bind_Inl [simp]: "m s = (Inl e, s') \<Longrightarrow> bind m f s = (Inl e, s')"
  by (simp add: bind_def)

lemma bind_Inr_iff:
  "bind m f s = (Inr b, s'') \<longleftrightarrow> (\<exists>a s'. m s = (Inr a, s') \<and> f a s' = (Inr b, s''))"
  by (auto simp: bind_def split: prod.splits sum.splits)

lemma bind_assoc: "bind (bind m f) g = bind m (\<lambda>a. bind (f a) g)"
  by (rule ext) (simp add: bind_def split: prod.splits sum.splits)

section \<open>Lists\<close>

lemma take_drop_append_mid [simp]:
  "length a = n \<Longrightarrow> length b = k \<Longrightarrow> take k (drop n (a @ b @ c)) = b"
  by simp

lemma nth_map_upt [simp]: "i < n \<Longrightarrow> map f [0..<n] ! i = f i"
  by simp

lemma distinct_map_of_inj:
  assumes "distinct (map snd xs)" "map_of xs a = Some v" "map_of xs b = Some v"
  shows "a = b"
proof -
  from assms(2,3) have "(a, v) \<in> set xs" and "(b, v) \<in> set xs"
    by (auto dest: map_of_SomeD)
  with assms(1) show ?thesis
    by (fastforce simp: distinct_map inj_on_def)
qed

lemma ran_delete_insert:
  assumes "m p = Some f"
  shows "insert f (ran (m(p := None))) = ran m"
proof (intro set_eqI iffI)
  fix g assume "g \<in> ran m"
  then obtain q where "m q = Some g" by (auto simp: ran_def)
  then show "g \<in> insert f (ran (m(p := None)))"
    using assms by (cases "q = p") (auto intro: ranI [of _ q])
next
  fix g assume "g \<in> insert f (ran (m(p := None)))"
  then show "g \<in> ran m"
    using assms by (auto simp: ran_def split: if_splits)
qed

section \<open>Little-endian encodings\<close>

text \<open>
  \<open>le_bytes n w\<close> is what \<^verbatim>\<open>memcpy(dest, &w, n)\<close> stores on a little-endian machine;
  \<open>le_word\<close> reads such bytes back.
\<close>

definition le_bytes :: "nat \<Rightarrow> 'a::len word \<Rightarrow> byte list" where
  "le_bytes n w = map (\<lambda>i. ucast (drop_bit (8 * i) w)) [0..<n]"

fun le_word :: "byte list \<Rightarrow> 'a::len word" where
  "le_word [] = 0"
| "le_word (b # bs) = ucast b OR push_bit 8 (le_word bs)"

lemma length_le_bytes [simp]: "length (le_bytes n w) = n"
  by (simp add: le_bytes_def)

lemma bit_le_word:
  "bit (le_word bs :: 'a::len word) k \<longleftrightarrow>
     k < LENGTH('a) \<and> k < 8 * length bs \<and> bit (bs ! (k div 8)) (k mod 8)"
proof (induction bs arbitrary: k)
  case Nil
  then show ?case by simp
next
  case (Cons b bs)
  show ?case
  proof (cases "k < 8")
    case True
    then show ?thesis
      by (auto simp: bit_or_iff bit_push_bit_iff bit_ucast_iff)
  next
    case False
    then have eq: "(b # bs) ! (k div 8) = bs ! ((k - 8) div 8)"
      by (simp add: le_div_geq)
    have mod_eq: "k mod 8 = (k - 8) mod 8"
      using False by (simp add: le_mod_geq)
    have big: "\<not> bit b k"
      using False bit_imp_le_length [of b k] by auto
    show ?thesis
      using False Cons.IH [of "k - 8"] big
      by (auto simp: bit_or_iff bit_push_bit_iff bit_ucast_iff eq mod_eq simp del: nth_Cons_numeral)
  qed
qed

lemma le_word_le_bytes:
  fixes w :: "'a::len word"
  assumes "LENGTH('a) \<le> 8 * n"
  shows "le_word (le_bytes n w) = w"
proof (rule bit_word_eqI)
  fix k
  assume k: "k < LENGTH('a)"
  with assms have "k div 8 < n" by simp
  moreover have "8 * (k div 8) + k mod 8 = k" by simp
  ultimately show "bit (le_word (le_bytes n w) :: 'a word) k \<longleftrightarrow> bit w k"
    using k assms
    by (auto simp: bit_le_word le_bytes_def bit_ucast_iff bit_drop_bit_eq)
qed

lemma le_bytes_le_word:
  assumes "8 * length bs \<le> LENGTH('a)"
  shows "le_bytes (length bs) (le_word bs :: 'a::len word) = bs"
proof (rule nth_equalityI)
  show "length (le_bytes (length bs) (le_word bs :: 'a word)) = length bs" by simp
next
  fix i
  assume "i < length (le_bytes (length bs) (le_word bs :: 'a word))"
  then have i: "i < length bs" by simp
  show "le_bytes (length bs) (le_word bs :: 'a word) ! i = bs ! i"
  proof (rule bit_word_eqI)
    fix k :: nat
    assume "k < LENGTH(8)"
    then have k: "k < 8" by simp
    then have "(8 * i + k) div 8 = i" and "(8 * i + k) mod 8 = k" and "8 * i + k < 8 * length bs"
      using i by auto
    then show "bit (le_bytes (length bs) (le_word bs :: 'a word) ! i) k \<longleftrightarrow> bit (bs ! i) k"
      using i k assms by (auto simp: le_bytes_def bit_ucast_iff bit_drop_bit_eq bit_le_word)
  qed
qed

section \<open>Byte buffers and field overlays\<close>

definition load :: "nat \<Rightarrow> byte list \<Rightarrow> nat \<Rightarrow> byte list" where
  "load n d off = take n (drop off d)"

definition store :: "byte list \<Rightarrow> nat \<Rightarrow> byte list \<Rightarrow> byte list" where
  "store d off bs = take off d @ bs @ drop (off + length bs) d"

text \<open>A \<^verbatim>\<open>memcpy\<close> into a buffer; outside the buffer the C++ program has no defined result.\<close>

definition memcpy_to :: "byte list \<Rightarrow> nat \<Rightarrow> byte list \<Rightarrow> byte list option" where
  "memcpy_to d off bs = (if off + length bs \<le> length d then Some (store d off bs) else None)"

definition get_u32 :: "byte list \<Rightarrow> nat \<Rightarrow> 32 word" where
  "get_u32 d off = le_word (load 4 d off)"

definition set_u32 :: "byte list \<Rightarrow> nat \<Rightarrow> 32 word \<Rightarrow> byte list" where
  "set_u32 d off w = store d off (le_bytes 4 w)"

definition get_i64 :: "byte list \<Rightarrow> nat \<Rightarrow> 64 word" where
  "get_i64 d off = le_word (load 8 d off)"

definition set_i64 :: "byte list \<Rightarrow> nat \<Rightarrow> 64 word \<Rightarrow> byte list" where
  "set_i64 d off w = store d off (le_bytes 8 w)"

definition zero_page :: "byte list" where
  "zero_page = replicate PAGE_SIZE 0"

lemma length_zero_page [simp, layout_simps]: "length zero_page = PAGE_SIZE"
  by (simp add: zero_page_def)

lemma length_load: "off + n \<le> length d \<Longrightarrow> length (load n d off) = n"
  by (simp add: load_def)

lemma length_store [layout_simps]:
  "off + length bs \<le> length d \<Longrightarrow> length (store d off bs) = length d"
  by (simp add: store_def)

lemma nth_store:
  "off + length bs \<le> length d \<Longrightarrow> i < length d \<Longrightarrow>
   store d off bs ! i =
     (if off \<le> i \<and> i < off + length bs then bs ! (i - off) else d ! i)"
  by (auto simp: store_def nth_append min_def)

lemma load_store_same [layout_simps]:
  "off + length bs \<le> length d \<Longrightarrow> load (length bs) (store d off bs) off = bs"
  by (simp add: load_def store_def)

lemma load_store_disjoint [layout_simps]:
  assumes "off + length bs \<le> length d" and "off' + n \<le> off \<or> off + length bs \<le> off'"
  shows "load n (store d off bs) off' = load n d off'"
proof (rule nth_equalityI)
  show "length (load n (store d off bs) off') = length (load n d off')"
    using assms(1) by (simp add: load_def length_store)
next
  fix i
  assume "i < length (load n (store d off bs) off')"
  then have "i < n" and "off' + i < length (store d off bs)"
    by (auto simp: load_def)
  then show "load n (store d off bs) off' ! i = load n d off' ! i"
    using assms by (auto simp: load_def nth_store length_store)
qed

lemma load_store_inside:
  assumes "off + length bs \<le> length d" and "off \<le> off'" and "off' + n \<le> off + length bs"
  shows "load n (store d off bs) off' = load n bs (off' - off)"
proof (rule nth_equalityI)
  show "length (load n (store d off bs) off') = length (load n bs (off' - off))"
    using assms by (simp add: load_def length_store)
next
  fix i
  assume "i < length (load n (store d off bs) off')"
  then have "i < n" and "off' + i < length (store d off bs)"
    by (auto simp: load_def)
  then show "load n (store d off bs) off' ! i = load n bs (off' - off) ! i"
    using assms by (auto simp: load_def nth_store length_store)
qed

lemma length_set_u32 [layout_simps]: "off + 4 \<le> length d \<Longrightarrow> length (set_u32 d off w) = length d"
  by (simp add: set_u32_def length_store)

lemma length_set_i64 [layout_simps]: "off + 8 \<le> length d \<Longrightarrow> length (set_i64 d off w) = length d"
  by (simp add: set_i64_def length_store)

lemma get_set_u32_same [layout_simps]: "off + 4 \<le> length d \<Longrightarrow> get_u32 (set_u32 d off w) off = w"
  using load_store_same [of off "le_bytes 4 w" d]
  by (simp add: get_u32_def set_u32_def le_word_le_bytes)

lemma get_set_i64_same [layout_simps]: "off + 8 \<le> length d \<Longrightarrow> get_i64 (set_i64 d off w) off = w"
  using load_store_same [of off "le_bytes 8 w" d]
  by (simp add: get_i64_def set_i64_def le_word_le_bytes)

lemma get_set_u32_other [layout_simps]:
  "off + 4 \<le> length d \<Longrightarrow> off' + 4 \<le> off \<or> off + 4 \<le> off' \<Longrightarrow>
   get_u32 (set_u32 d off w) off' = get_u32 d off'"
  by (simp add: get_u32_def set_u32_def load_store_disjoint)

lemma load_set_u32_other [layout_simps]:
  "off + 4 \<le> length d \<Longrightarrow> off' + n \<le> off \<or> off + 4 \<le> off' \<Longrightarrow>
   load n (set_u32 d off w) off' = load n d off'"
  by (simp add: set_u32_def load_store_disjoint)

lemma get_u32_store_other [layout_simps]:
  "off + length bs \<le> length d \<Longrightarrow> off' + 4 \<le> off \<or> off + length bs \<le> off' \<Longrightarrow>
   get_u32 (store d off bs) off' = get_u32 d off'"
  by (simp add: get_u32_def load_store_disjoint)

lemma load_set_i64_other [layout_simps]:
  "off + 8 \<le> length d \<Longrightarrow> off' + n \<le> off \<or> off + 8 \<le> off' \<Longrightarrow>
   load n (set_i64 d off w) off' = load n d off'"
  by (simp add: set_i64_def load_store_disjoint)

lemma get_set_i64_other [layout_simps]:
  "off + 8 \<le> length d \<Longrightarrow> off' + 8 \<le> off \<or> off + 8 \<le> off' \<Longrightarrow>
   get_i64 (set_i64 d off w) off' = get_i64 d off'"
  by (simp add: get_i64_def load_set_i64_other)

lemma get_i64_set_u32_other [layout_simps]:
  "off + 4 \<le> length d \<Longrightarrow> off' + 8 \<le> off \<or> off + 4 \<le> off' \<Longrightarrow>
   get_i64 (set_u32 d off w) off' = get_i64 d off'"
  by (simp add: get_i64_def load_set_u32_other)

lemma get_u32_set_i64_other [layout_simps]:
  "off + 8 \<le> length d \<Longrightarrow> off' + 4 \<le> off \<or> off + 8 \<le> off' \<Longrightarrow>
   get_u32 (set_i64 d off w) off' = get_u32 d off'"
  by (simp add: get_u32_def load_set_i64_other)

lemma set_get_u32:
  assumes "off + 4 \<le> length d"
  shows "set_u32 d off (get_u32 d off) = d"
proof -
  have "le_bytes 4 (le_word (load 4 d off) :: 32 word) = load 4 d off"
    using le_bytes_le_word [of "load 4 d off", where 'a = 32] assms by (simp add: length_load)
  moreover have "take off d @ load 4 d off @ drop (off + 4) d = d"
    using assms by (simp add: load_def flip: drop_drop add.commute)
      (metis append_take_drop_id drop_drop add.commute)
  ultimately show ?thesis
    using assms by (simp add: set_u32_def get_u32_def store_def length_load)
qed

end
