(* ===== verification/Disk_Manager.thy ===== *)
theory Disk_Manager
  imports Aether_Prelude
begin

text \<open>
  The page allocator and page I/O of \<^verbatim>\<open>disk_manager.hpp\<close> and \<^verbatim>\<open>disk_manager.cpp\<close>. The
  database file is the list of its bytes; a \<^verbatim>\<open>std::fstream\<close> in binary mode is a seek
  followed by a read that fails unless all bytes are there, or by a write that extends the file
  (filling a gap with zeros). On a closed stream reads fail and writes have no effect. Each
  public method holds \<^verbatim>\<open>db_io_lck_\<close> and is one atomic operation. The locale \<open>page_store\<close>
  is the interface the buffer pool relies on.
\<close>

section \<open>State and file access\<close>

record disk_manager =
  db_file :: "byte list"
  db_open :: bool
  free_list_head :: page_id
  num_pages :: "32 word"

definition file_store :: "byte list \<Rightarrow> nat \<Rightarrow> byte list \<Rightarrow> byte list" where
  "file_store f off bs = store (f @ replicate (off + length bs - length f) 0) off bs"

definition file_read :: "nat \<Rightarrow> nat \<Rightarrow> disk_manager \<Rightarrow> byte list option" where
  "file_read off n d =
     (if db_open d \<and> off + n \<le> length (db_file d) then Some (load n (db_file d) off) else None)"

definition file_write :: "nat \<Rightarrow> byte list \<Rightarrow> disk_manager \<Rightarrow> disk_manager" where
  "file_write off bs d =
     (if db_open d then d\<lparr>db_file := file_store (db_file d) off bs\<rparr> else d)"

definition page_offset :: "page_id \<Rightarrow> nat" where
  "page_offset p = unat p * PAGE_SIZE"

section \<open>Operations\<close>

definition ReadMetadata :: "(disk_manager, unit) comp" where
  "ReadMetadata d =
     (case file_read 0 4 d of
        None \<Rightarrow> (Inl (RuntimeError ''Failed to read database metadata''), d)
      | Some a \<Rightarrow>
         (let d1 = d\<lparr>free_list_head := le_word a\<rparr> in
          case file_read 4 4 d1 of
            None \<Rightarrow> (Inl (RuntimeError ''Failed to read database metadata''), d1)
          | Some b \<Rightarrow> (Inr (), d1\<lparr>num_pages := le_word b\<rparr>)))"

definition WriteMetadata :: "disk_manager \<Rightarrow> disk_manager" where
  "WriteMetadata d =
     file_write 4 (le_bytes 4 (num_pages d)) (file_write 0 (le_bytes 4 (free_list_head d)) d)"

text \<open>
  The constructor. \<open>existing\<close> is the content of the file when it can be opened for reading and
  writing; \<open>can_create\<close> and \<open>can_reopen\<close> say whether the operating system lets the file be
  created and then opened again.
\<close>

definition DiskManager_new :: "byte list option \<Rightarrow> bool \<Rightarrow> bool \<Rightarrow> err + disk_manager" where
  "DiskManager_new existing can_create can_reopen =
     (case existing of
        None \<Rightarrow>
          if \<not> can_create then Inl (RuntimeError ''Failed to create database file'')
          else if \<not> can_reopen then Inl (RuntimeError ''Failed to re-open database file'')
          else
            (let metadata_page = set_u32 (set_u32 zero_page 0 INVALID_PAGE_ID) 4 1 in
             Inr (file_write 0 metadata_page
                    \<lparr>db_file = [], db_open = True, free_list_head = INVALID_PAGE_ID, num_pages = 1\<rparr>))
      | Some f \<Rightarrow>
          (case ReadMetadata
                  \<lparr>db_file = f, db_open = True, free_list_head = INVALID_PAGE_ID, num_pages = 0\<rparr> of
             (Inl e, _) \<Rightarrow> Inl e
           | (Inr _, d) \<Rightarrow> Inr d))"

definition Close :: "disk_manager \<Rightarrow> disk_manager" where
  "Close d = (if db_open d then d\<lparr>db_open := False\<rparr> else d)"

definition ReadPage :: "page_id \<Rightarrow> (disk_manager, byte list) comp" where
  "ReadPage p d =
     (if num_pages d \<le> p then (Inl (OutOfRange ''ReadPage page_id out of bounds''), d)
      else case file_read (page_offset p) PAGE_SIZE d of
             None \<Rightarrow> (Inr zero_page, d)
           | Some bs \<Rightarrow> (Inr bs, d))"

definition WritePage :: "page_id \<Rightarrow> byte list \<Rightarrow> (disk_manager, unit) comp" where
  "WritePage p bs d =
     (if num_pages d \<le> p then (Inl (OutOfRange ''WritePage page_id out of bounds''), d)
      else (Inr (), file_write (page_offset p) bs d))"

definition AllocatePage :: "(disk_manager, page_id) comp" where
  "AllocatePage d =
     (if free_list_head d \<noteq> INVALID_PAGE_ID then
        (let allocated_id = free_list_head d in
         case file_read (page_offset allocated_id) 4 d of
           None \<Rightarrow> (Inl (RuntimeError ''Corrupted database free list''), d)
         | Some bs \<Rightarrow> (Inr allocated_id, WriteMetadata (d\<lparr>free_list_head := le_word bs\<rparr>)))
      else
        (let allocated_id = num_pages d;
             d1 = WriteMetadata (d\<lparr>num_pages := num_pages d + 1\<rparr>)
         in (Inr allocated_id, file_write (page_offset allocated_id) zero_page d1)))"

definition DeallocatePage :: "page_id \<Rightarrow> disk_manager \<Rightarrow> disk_manager" where
  "DeallocatePage p d =
     (if num_pages d \<le> p \<or> p = 0 then d
      else
        (let page_data = set_u32 zero_page 0 (free_list_head d);
             d1 = file_write (page_offset p) page_data d
         in WriteMetadata (d1\<lparr>free_list_head := p\<rparr>)))"

definition GetNumPages :: "disk_manager \<Rightarrow> 32 word" where
  "GetNumPages d = num_pages d"

section \<open>Representation invariant\<close>

definition page_content :: "disk_manager \<Rightarrow> page_id \<Rightarrow> byte list" where
  "page_content d p = load PAGE_SIZE (db_file d) (page_offset p)"

definition next_free :: "disk_manager \<Rightarrow> page_id \<Rightarrow> page_id" where
  "next_free d p = get_u32 (db_file d) (page_offset p)"

text \<open>\<open>free_chain d h fl\<close>: following the links on disk from \<open>h\<close> visits exactly \<open>fl\<close>.\<close>

fun free_chain :: "disk_manager \<Rightarrow> page_id \<Rightarrow> page_id list \<Rightarrow> bool" where
  "free_chain d h [] \<longleftrightarrow> h = INVALID_PAGE_ID"
| "free_chain d h (p # ps) \<longleftrightarrow>
     h = p \<and> p \<noteq> 0 \<and> p < num_pages d \<and> free_chain d (next_free d p) ps"

definition metadata_synced :: "disk_manager \<Rightarrow> bool" where
  "metadata_synced d \<longleftrightarrow>
     get_u32 (db_file d) 0 = free_list_head d \<and> get_u32 (db_file d) 4 = num_pages d"

definition disk_rep :: "disk_manager \<Rightarrow> page_id list \<Rightarrow> bool" where
  "disk_rep d fl \<longleftrightarrow>
     db_open d \<and> num_pages d \<noteq> 0 \<and> length (db_file d) = page_offset (num_pages d) \<and>
     metadata_synced d \<and> distinct fl \<and> free_chain d (free_list_head d) fl"

definition live_pages :: "disk_manager \<Rightarrow> page_id list \<Rightarrow> page_id set" where
  "live_pages d fl = {p. p \<noteq> 0 \<and> p < num_pages d} - set fl"

subsection \<open>Offsets\<close>

lemma page_offset_0 [simp]: "page_offset 0 = 0"
  by (simp add: page_offset_def)

lemma page_offset_less:
  assumes "p < q"
  shows "page_offset p + PAGE_SIZE \<le> page_offset q"
proof -
  have "Suc (unat p) * PAGE_SIZE \<le> unat q * PAGE_SIZE"
    using assms by (intro mult_le_mono1) (simp add: word_less_nat_alt)
  then show ?thesis by (simp add: page_offset_def)
qed

lemma page_offset_disjoint:
  "p \<noteq> q \<Longrightarrow> page_offset p + PAGE_SIZE \<le> page_offset q \<or> page_offset q + PAGE_SIZE \<le> page_offset p"
  by (metis linorder_neqE page_offset_less)

lemma page_offset_pos: "p \<noteq> 0 \<Longrightarrow> PAGE_SIZE \<le> page_offset p"
  using page_offset_less [of 0 p] by (simp add: word_neq_0_conv)

lemma page_offset_Suc: "p \<noteq> INVALID_PAGE_ID \<Longrightarrow> page_offset (p + 1) = page_offset p + PAGE_SIZE"
  by (simp add: page_offset_def unat_Suc_page_id)

subsection \<open>Files\<close>

lemma length_file_store [simp]: "length (file_store f off bs) = max (length f) (off + length bs)"
  by (simp add: file_store_def length_store)

lemma file_store_within: "off + length bs \<le> length f \<Longrightarrow> file_store f off bs = store f off bs"
  by (simp add: file_store_def)

lemma load_file_store_same [simp]: "load (length bs) (file_store f off bs) off = bs"
  by (simp add: file_store_def load_store_same)

lemma load_append_left: "off + n \<le> length f \<Longrightarrow> load n (f @ g) off = load n f off"
  by (simp add: load_def)

lemma load_file_store_before:
  assumes "off' + n \<le> length f" "off' + n \<le> off \<or> off + length bs \<le> off'"
  shows "load n (file_store f off bs) off' = load n f off'"
  using assms by (simp add: file_store_def load_store_disjoint load_append_left)

lemma get_u32_load: "off + 4 \<le> n \<Longrightarrow> get_u32 (load n f o') off = get_u32 f (o' + off)"
  by (simp add: get_u32_def load_def take_drop add.commute)

lemma file_write_simps [simp]:
  "db_open (file_write off bs d) = db_open d"
  "free_list_head (file_write off bs d) = free_list_head d"
  "num_pages (file_write off bs d) = num_pages d"
  by (simp_all add: file_write_def)

lemma WriteMetadata_simps [simp]:
  "db_open (WriteMetadata d) = db_open d"
  "free_list_head (WriteMetadata d) = free_list_head d"
  "num_pages (WriteMetadata d) = num_pages d"
  by (simp_all add: WriteMetadata_def)

lemma WriteMetadata_file:
  assumes "db_open d" "8 \<le> length (db_file d)"
  shows "db_file (WriteMetadata d) = set_u32 (set_u32 (db_file d) 0 (free_list_head d)) 4 (num_pages d)"
  using assms
  by (simp add: WriteMetadata_def file_write_def file_store_within set_u32_def length_store)

lemma WriteMetadata_synced:
  assumes "db_open d" "8 \<le> length (db_file d)"
  shows "metadata_synced (WriteMetadata d)" "length (db_file (WriteMetadata d)) = length (db_file d)"
  using assms by (simp_all add: metadata_synced_def WriteMetadata_file layout_simps)

lemma WriteMetadata_load:
  assumes "db_open d" "8 \<le> length (db_file d)" "8 \<le> off"
  shows "load n (db_file (WriteMetadata d)) off = load n (db_file d) off"
  using assms by (simp add: WriteMetadata_file layout_simps)

lemma WriteMetadata_content:
  assumes "db_open d" "8 \<le> length (db_file d)" "p \<noteq> 0"
  shows "page_content (WriteMetadata d) p = page_content d p" "next_free (WriteMetadata d) p = next_free d p"
proof -
  have "8 \<le> page_offset p"
    using page_offset_pos [OF assms(3)] by (simp add: PAGE_SIZE_def)
  then show "page_content (WriteMetadata d) p = page_content d p"
    and "next_free (WriteMetadata d) p = next_free d p"
    using assms by (simp_all add: page_content_def next_free_def get_u32_def WriteMetadata_load)
qed

subsection \<open>Whole-page writes\<close>

lemma page_write_file:
  assumes "db_open d" "length (db_file d) = page_offset (num_pages d)" "p < num_pages d"
    "length bs = PAGE_SIZE"
  shows "db_file (file_write (page_offset p) bs d) = store (db_file d) (page_offset p) bs"
    "page_offset p + length bs \<le> length (db_file d)"
  using assms page_offset_less [OF assms(3)] by (simp_all add: file_write_def file_store_within)

lemma page_write_content:
  assumes "db_open d" "length (db_file d) = page_offset (num_pages d)" "p < num_pages d"
    "length bs = PAGE_SIZE"
  shows "page_content (file_write (page_offset p) bs d) = (page_content d)(p := bs)"
proof
  fix q
  note f = page_write_file [OF assms]
  show "page_content (file_write (page_offset p) bs d) q = ((page_content d)(p := bs)) q"
  proof (cases "q = p")
    case True
    then show ?thesis
      using f load_store_same [OF f(2)] assms(4) by (simp add: page_content_def)
  next
    case False
    then show ?thesis
      using f page_offset_disjoint [OF False] assms(4)
      by (simp add: page_content_def load_store_disjoint)
  qed
qed

lemma next_free_content:
  assumes "page_offset p + 4 \<le> length (db_file d)"
  shows "next_free d p = get_u32 (page_content d p) 0"
  by (simp add: next_free_def page_content_def get_u32_load PAGE_SIZE_def)

lemma page_write_synced:
  assumes "db_open d" "length (db_file d) = page_offset (num_pages d)" "p < num_pages d"
    "length bs = PAGE_SIZE" "p \<noteq> 0" "metadata_synced d"
  shows "metadata_synced (file_write (page_offset p) bs d)"
proof -
  have "8 \<le> page_offset p"
    using page_offset_pos [OF assms(5)] by (simp add: PAGE_SIZE_def)
  then show ?thesis
    using page_write_file [OF assms(1-4)] assms(6)
    by (simp add: metadata_synced_def get_u32_store_other)
qed

lemma free_chain_mono:
  assumes "free_chain d h fl" "\<And>p. p \<in> set fl \<Longrightarrow> next_free d' p = next_free d p"
    "num_pages d \<le> num_pages d'"
  shows "free_chain d' h fl"
  using assms
proof (induction fl arbitrary: h)
  case Nil
  then show ?case by simp
next
  case (Cons p ps)
  then show ?case by (auto intro: less_le_trans)
qed

lemma free_chain_bound: "free_chain d h fl \<Longrightarrow> p \<in> set fl \<Longrightarrow> p \<noteq> 0 \<and> p < num_pages d"
  by (induction fl arbitrary: h) auto

lemma disk_rep_file: "disk_rep d fl \<Longrightarrow> db_open d \<and> length (db_file d) = page_offset (num_pages d)"
  by (simp add: disk_rep_def)

lemma disk_rep_header: "disk_rep d fl \<Longrightarrow> 8 \<le> length (db_file d)"
  using page_offset_pos [of "num_pages d"] by (simp add: disk_rep_def PAGE_SIZE_def)

lemma disk_rep_page:
  assumes "disk_rep d fl" "p < num_pages d"
  shows "page_offset p + PAGE_SIZE \<le> length (db_file d)"
  using assms page_offset_less by (simp add: disk_rep_def)

section \<open>Operations on the representation\<close>

lemma disk_rep_new:
  "\<exists>d. DiskManager_new None True True = Inr d \<and> disk_rep d [] \<and> num_pages d = 1"
proof -
  define m where "m = set_u32 (set_u32 zero_page 0 INVALID_PAGE_ID) 4 1"
  define d where "d = file_write 0 m
    \<lparr>db_file = [], db_open = True, free_list_head = INVALID_PAGE_ID, num_pages = 1\<rparr>"
  have m: "length m = PAGE_SIZE" "get_u32 m 0 = INVALID_PAGE_ID" "get_u32 m 4 = 1"
    by (simp_all add: m_def layout_simps PAGE_SIZE_def)
  have f: "db_file d = m"
    by (simp add: d_def file_write_def file_store_def store_def)
  have "disk_rep d []"
    using m by (simp add: disk_rep_def metadata_synced_def f) (simp add: d_def file_write_def page_offset_def)
  moreover have "DiskManager_new None True True = Inr d"
    by (simp add: DiskManager_new_def d_def m_def)
  moreover have "num_pages d = 1" by (simp add: d_def)
  ultimately show ?thesis by blast
qed

lemma ReadPage_ok:
  assumes "disk_rep d fl" "p < num_pages d"
  shows "ReadPage p d = (Inr (page_content d p), d)"
  using assms disk_rep_page [OF assms]
  by (simp add: ReadPage_def file_read_def disk_rep_def page_content_def)

lemma ReadPage_out_of_range:
  "num_pages d \<le> p \<Longrightarrow> ReadPage p d = (Inl (OutOfRange ''ReadPage page_id out of bounds''), d)"
  by (simp add: ReadPage_def)

lemma WritePage_ok:
  assumes rep: "disk_rep d fl" and p: "p < num_pages d" "p \<noteq> 0" "p \<notin> set fl"
    and len: "length bs = PAGE_SIZE"
  shows "\<exists>d'. WritePage p bs d = (Inr (), d') \<and> disk_rep d' fl \<and> num_pages d' = num_pages d \<and>
              page_content d' = (page_content d)(p := bs)"
proof -
  let ?d = "file_write (page_offset p) bs d"
  note fl = disk_rep_file [OF rep, THEN conjunct1] disk_rep_file [OF rep, THEN conjunct2]
  note c = page_write_content [OF fl p(1) len]
  have len': "length (db_file ?d) = length (db_file d)"
    using page_write_file [OF fl p(1) len] by (simp add: length_store)
  have "next_free ?d q = next_free d q" if "q \<in> set fl" for q
  proof -
    have "q < num_pages d" using rep that free_chain_bound by (auto simp: disk_rep_def)
    then have "page_offset q + 4 \<le> length (db_file d)"
      using disk_rep_page [OF rep] by (fastforce simp: PAGE_SIZE_def)
    then show ?thesis
      using that p(3) by (auto simp: next_free_content len' c)
  qed
  then have "free_chain ?d (free_list_head d) fl"
    using rep by (auto simp: disk_rep_def elim: free_chain_mono)
  then have "disk_rep ?d fl"
    using rep page_write_synced [OF fl p(1) len p(2)] len' by (auto simp: disk_rep_def)
  then show ?thesis
    using p(1) c by (intro exI [of _ ?d]) (simp add: WritePage_def)
qed

lemma WritePage_out_of_range:
  "num_pages d \<le> p \<Longrightarrow> WritePage p bs d = (Inl (OutOfRange ''WritePage page_id out of bounds''), d)"
  by (simp add: WritePage_def)

lemma AllocatePage_pop:
  assumes rep: "disk_rep d (p # fl)"
  shows "\<exists>d'. AllocatePage d = (Inr p, d') \<and> disk_rep d' fl \<and> num_pages d' = num_pages d \<and>
              (\<forall>q. q \<noteq> 0 \<longrightarrow> page_content d' q = page_content d q)"
proof -
  from rep have h: "free_list_head d = p" "p < num_pages d" "p \<noteq> 0" "free_chain d (next_free d p) fl"
    by (auto simp: disk_rep_def)
  let ?d = "d\<lparr>free_list_head := next_free d p\<rparr>"
  have op: "db_open ?d" and hd: "8 \<le> length (db_file ?d)"
    using rep disk_rep_header [OF rep] by (auto simp: disk_rep_def)
  have "page_offset p + 4 \<le> length (db_file d)"
    using disk_rep_page [OF rep h(2)] by (simp add: PAGE_SIZE_def)
  then have alloc: "AllocatePage d = (Inr p, WriteMetadata ?d)"
    using h op below_not_INVALID [OF h(2)]
    by (simp add: AllocatePage_def file_read_def next_free_def get_u32_def)
  have "free_chain (WriteMetadata ?d) (next_free d p) fl"
    using h(4)
  proof (rule free_chain_mono)
    fix q assume "q \<in> set fl"
    then have "q \<noteq> 0" using h(4) free_chain_bound by blast
    then show "next_free (WriteMetadata ?d) q = next_free d q"
      using WriteMetadata_content [OF op hd] by (simp add: next_free_def)
  qed simp
  then have "disk_rep (WriteMetadata ?d) fl"
    using rep WriteMetadata_synced [OF op hd] by (simp add: disk_rep_def)
  moreover have "\<forall>q. q \<noteq> 0 \<longrightarrow> page_content (WriteMetadata ?d) q = page_content d q"
    using WriteMetadata_content [OF op hd] by (simp add: page_content_def)
  ultimately show ?thesis using alloc by simp
qed

lemma AllocatePage_grow:
  assumes rep: "disk_rep d []" and room: "num_pages d \<noteq> INVALID_PAGE_ID"
  shows "\<exists>d'. AllocatePage d = (Inr (num_pages d), d') \<and> disk_rep d' [] \<and>
              num_pages d' = num_pages d + 1 \<and> page_content d' (num_pages d) = zero_page \<and>
              (\<forall>q. q \<noteq> 0 \<and> q < num_pages d \<longrightarrow> page_content d' q = page_content d q)"
proof -
  let ?n = "num_pages d"
  define m where "m = WriteMetadata (d\<lparr>num_pages := ?n + 1\<rparr>)"
  define d' where "d' = file_write (page_offset ?n) zero_page m"
  have op: "db_open (d\<lparr>num_pages := ?n + 1\<rparr>)" and hd: "8 \<le> length (db_file (d\<lparr>num_pages := ?n + 1\<rparr>))"
    using rep disk_rep_header [OF rep] by (auto simp: disk_rep_def)
  have len: "length (db_file m) = page_offset ?n" "metadata_synced m"
    using WriteMetadata_synced [OF op hd] rep by (simp_all add: m_def disk_rep_def)
  have f: "db_file d' = file_store (db_file m) (page_offset ?n) zero_page"
    using op by (simp add: d'_def m_def file_write_def)
  have n0: "?n \<noteq> 0" using rep by (simp add: disk_rep_def)
  have pre: "load k (db_file d') off = load k (db_file m) off" if "off + k \<le> page_offset ?n" for k off
    unfolding f using that len by (intro load_file_store_before) auto
  have sync: "metadata_synced d'"
    using len(2) page_offset_pos [OF n0] pre [of 0 4] pre [of 4 4]
    by (simp add: metadata_synced_def get_u32_def PAGE_SIZE_def) (simp add: d'_def)
  have "?n + 1 \<noteq> 0"
    using room by (metis INVALID_minus_one add_eq_0_iff2)
  then have "disk_rep d' []"
    using rep sync len page_offset_Suc [OF room]
    by (simp add: disk_rep_def f) (simp add: d'_def m_def)
  moreover have "page_content d' ?n = zero_page"
    using load_file_store_same [of zero_page "db_file m"] by (simp add: page_content_def f)
  moreover have "page_content d' q = page_content d q" if "q \<noteq> 0" "q < ?n" for q
    using WriteMetadata_content [OF op hd that(1)] pre page_offset_less [OF that(2)]
    by (simp add: page_content_def m_def)
  moreover have "AllocatePage d = (Inr ?n, d')" and "num_pages d' = ?n + 1"
    using rep by (simp_all add: AllocatePage_def disk_rep_def d'_def m_def Let_def)
  ultimately show ?thesis by blast
qed

lemma DeallocatePage_ok:
  assumes rep: "disk_rep d fl" and p: "p < num_pages d" "p \<noteq> 0" "p \<notin> set fl"
  shows "disk_rep (DeallocatePage p d) (p # fl) \<and> num_pages (DeallocatePage p d) = num_pages d \<and>
         (\<forall>q. q \<noteq> 0 \<and> q \<noteq> p \<longrightarrow> page_content (DeallocatePage p d) q = page_content d q)"
proof -
  define bs where "bs = set_u32 zero_page 0 (free_list_head d)"
  have bs: "length bs = PAGE_SIZE" "get_u32 bs 0 = free_list_head d"
    by (simp_all add: bs_def layout_simps PAGE_SIZE_def)
  obtain d1 where d1: "WritePage p bs d = (Inr (), d1)" "disk_rep d1 fl" "num_pages d1 = num_pages d"
      "page_content d1 = (page_content d)(p := bs)"
    using WritePage_ok [OF rep p bs(1)] by blast
  define d2 where "d2 = d1\<lparr>free_list_head := p\<rparr>"
  have dealloc: "DeallocatePage p d = WriteMetadata d2"
    using p d1(1) by (auto simp: DeallocatePage_def d2_def WritePage_def bs_def Let_def)
  have op: "db_open d2" and hd: "8 \<le> length (db_file d2)"
    using d1(2) disk_rep_header [OF d1(2)] by (auto simp: disk_rep_def d2_def)
  have "next_free d1 p = free_list_head d"
    using disk_rep_page [OF d1(2), of p] p d1(3,4) bs(2)
    by (simp add: next_free_content PAGE_SIZE_def)
  moreover have "free_list_head d1 = free_list_head d"
    using d1(1) by (auto simp: WritePage_def split: if_splits)
  ultimately have chain: "free_chain d1 (next_free d1 p) fl"
    using d1(2) by (simp add: disk_rep_def)
  have nf: "next_free (WriteMetadata d2) q = next_free d1 q" if "q \<noteq> 0" for q
    using WriteMetadata_content(2) [OF op hd that] by (simp add: d2_def next_free_def)
  have link: "free_chain (WriteMetadata d2) (next_free (WriteMetadata d2) p) fl"
    unfolding nf [OF p(2)] using chain
  proof (rule free_chain_mono)
    fix q assume "q \<in> set fl"
    with chain show "next_free (WriteMetadata d2) q = next_free d1 q"
      using free_chain_bound by (intro nf) blast
  qed (simp add: d2_def)
  have "disk_rep (WriteMetadata d2) (p # fl)"
    using link d1(2,3) p WriteMetadata_synced [OF op hd] by (simp add: disk_rep_def d2_def)
  moreover have "page_content (WriteMetadata d2) q = page_content d q" if "q \<noteq> 0" "q \<noteq> p" for q
    using WriteMetadata_content(1) [OF op hd that(1)] d1(4) that by (simp add: d2_def page_content_def fun_eq_iff)
  ultimately show ?thesis
    using d1(3) by (simp add: dealloc d2_def)
qed

lemma DeallocatePage_ignored: "num_pages d \<le> p \<or> p = 0 \<Longrightarrow> DeallocatePage p d = d"
  by (auto simp: DeallocatePage_def)

section \<open>The interface page\_store\<close>

text \<open>
  What a client of the disk manager may rely on. \<open>rep d fl\<close>: the store is consistent and its
  free pages are \<open>fl\<close>, most recently freed first; \<open>content d p\<close>: the bytes of page \<open>p\<close>;
  \<open>count d\<close>: the number of pages. Page 0 belongs to the store.
\<close>

locale page_store =
  fixes rd :: "page_id \<Rightarrow> ('d, byte list) comp"
    and wr :: "page_id \<Rightarrow> byte list \<Rightarrow> ('d, unit) comp"
    and alloc :: "('d, page_id) comp"
    and dealloc :: "page_id \<Rightarrow> 'd \<Rightarrow> 'd"
    and rep :: "'d \<Rightarrow> page_id list \<Rightarrow> bool"
    and content :: "'d \<Rightarrow> page_id \<Rightarrow> byte list"
    and count :: "'d \<Rightarrow> page_id"
    and live :: "'d \<Rightarrow> page_id list \<Rightarrow> page_id set"
  assumes rd_ok: "rep d fl \<Longrightarrow> p < count d \<Longrightarrow> rd p d = (Inr (content d p), d)"
    and rd_range: "count d \<le> p \<Longrightarrow> rd p d = (Inl (OutOfRange ''ReadPage page_id out of bounds''), d)"
    and content_length: "rep d fl \<Longrightarrow> p < count d \<Longrightarrow> length (content d p) = PAGE_SIZE"
    and wr_ok: "rep d fl \<Longrightarrow> p < count d \<Longrightarrow> p \<noteq> 0 \<Longrightarrow> p \<notin> set fl \<Longrightarrow> length bs = PAGE_SIZE \<Longrightarrow>
          \<exists>d'. wr p bs d = (Inr (), d') \<and> rep d' fl \<and> count d' = count d \<and>
               content d' = (content d)(p := bs)"
    and alloc_pop: "rep d (p # fl) \<Longrightarrow>
          \<exists>d'. alloc d = (Inr p, d') \<and> rep d' fl \<and> count d' = count d \<and>
               (\<forall>q. q \<noteq> 0 \<longrightarrow> content d' q = content d q)"
    and alloc_grow: "rep d [] \<Longrightarrow> count d \<noteq> INVALID_PAGE_ID \<Longrightarrow>
          \<exists>d'. alloc d = (Inr (count d), d') \<and> rep d' [] \<and> count d' = count d + 1 \<and>
               content d' (count d) = zero_page \<and>
               (\<forall>q. q \<noteq> 0 \<and> q < count d \<longrightarrow> content d' q = content d q)"
    and dealloc_ok: "rep d fl \<Longrightarrow> p < count d \<Longrightarrow> p \<noteq> 0 \<Longrightarrow> p \<notin> set fl \<Longrightarrow>
          rep (dealloc p d) (p # fl) \<and> count (dealloc p d) = count d \<and>
          (\<forall>q. q \<noteq> 0 \<and> q \<noteq> p \<longrightarrow> content (dealloc p d) q = content d q)"
    and dealloc_ignored: "count d \<le> p \<or> p = 0 \<Longrightarrow> dealloc p d = d"
    and free_pages: "rep d fl \<Longrightarrow> distinct fl \<and> (\<forall>p \<in> set fl. p \<noteq> 0 \<and> p < count d)"
    and count_pos: "rep d fl \<Longrightarrow> 0 < count d"
    and live_def: "live d fl = {p. p \<noteq> 0 \<and> p < count d} - set fl"
begin

lemma less_Suc_page: "n \<noteq> INVALID_PAGE_ID \<Longrightarrow> (p :: page_id) < n + 1 \<longleftrightarrow> p < n \<or> p = n"
  by (auto simp: word_less_nat_alt unat_Suc_page_id less_Suc_eq word_unat_eq_iff)

lemma alloc_fresh:
  assumes "rep d fl" "fl \<noteq> [] \<or> count d \<noteq> INVALID_PAGE_ID"
  obtains p d' fl' where "alloc d = (Inr p, d')" "rep d' fl'" "p \<notin> live d fl" "p \<noteq> 0"
    "p < count d'" "p \<notin> set fl'" "live d' fl' = insert p (live d fl)" "count d \<le> count d'"
    "set fl' \<subseteq> set fl" "fl' = tl fl"
    "\<And>q. q \<in> live d fl \<Longrightarrow> content d' q = content d q"
proof (cases fl)
  case Nil
  with assms alloc_grow [of d] obtain d' where
    d': "alloc d = (Inr (count d), d')" "rep d' []" "count d' = count d + 1"
      "\<forall>q. q \<noteq> 0 \<and> q < count d \<longrightarrow> content d' q = content d q" by blast
  have room: "count d \<noteq> INVALID_PAGE_ID" using assms(2) Nil by simp
  show thesis
  proof (rule that [OF d'(1,2)])
    show "live d' [] = insert (count d) (live d fl)"
      using count_pos [OF assms(1)] by (auto simp: live_def Nil d'(3) less_Suc_page [OF room])
    show "count d \<le> count d'"
      using less_Suc_page [OF room, of "count d"] by (simp add: d'(3))
  qed (use Nil d' count_pos [OF assms(1)] less_Suc_page [OF room] in \<open>auto simp: live_def\<close>)
next
  case (Cons p ps)
  with assms(1) alloc_pop obtain d' where
    d': "alloc d = (Inr p, d')" "rep d' ps" "count d' = count d"
      "\<forall>q. q \<noteq> 0 \<longrightarrow> content d' q = content d q" by blast
  show thesis
    by (rule that [OF d'(1,2)])
      (use Cons d' free_pages [OF assms(1)] in \<open>auto simp: live_def\<close>)
qed

lemma dealloc_live:
  assumes "rep d fl" "p \<in> live d fl"
  shows "rep (dealloc p d) (p # fl)" "count (dealloc p d) = count d"
    "live (dealloc p d) (p # fl) = live d fl - {p}"
    "\<And>q. q \<noteq> 0 \<Longrightarrow> q \<noteq> p \<Longrightarrow> content (dealloc p d) q = content d q"
  using dealloc_ok [OF assms(1), of p] assms(2) by (auto simp: live_def)

lemma wr_live:
  assumes "rep d fl" "p \<in> live d fl" "length bs = PAGE_SIZE"
  obtains d' where "wr p bs d = (Inr (), d')" "rep d' fl" "count d' = count d"
    "content d' = (content d)(p := bs)" "live d' fl = live d fl"
  using wr_ok [OF assms(1), of p bs] assms(2,3) by (auto simp: live_def)

end

interpretation dm: page_store ReadPage WritePage AllocatePage DeallocatePage disk_rep page_content
  num_pages live_pages
proof (unfold_locales, goal_cases)
  case (3 d fl p)
  then show ?case using disk_rep_page [OF 3] by (simp add: page_content_def length_load)
next
  case (7 d fl p)
  then show ?case by (rule DeallocatePage_ok)
next
  case (8 d p)
  then show ?case by (rule DeallocatePage_ignored)
next
  case (9 d fl)
  then show ?case by (auto simp: disk_rep_def dest: free_chain_bound)
next
  case (10 d fl)
  then show ?case by (simp add: disk_rep_def word_neq_0_conv)
next
  case (11 d fl)
  show ?case by (rule live_pages_def)
qed (blast intro: ReadPage_ok ReadPage_out_of_range WritePage_ok AllocatePage_pop AllocatePage_grow)+

section \<open>Properties\<close>

text \<open>A concrete store for the witnesses: a new database file with one page allocated.\<close>

lemma one_page_store:
  "\<exists>d0 d. DiskManager_new None True True = Inr d0 \<and> AllocatePage d0 = (Inr 1, d) \<and>
          disk_rep d [] \<and> num_pages d = 2 \<and> 1 \<in> live_pages d []"
proof -
  obtain d0 where d0: "DiskManager_new None True True = Inr d0" "disk_rep d0 []" "num_pages d0 = 1"
    using disk_rep_new by blast
  moreover from this obtain d where
    "AllocatePage d0 = (Inr 1, d)" "disk_rep d []" "num_pages d = 2"
    using AllocatePage_grow [of d0] by (auto simp: INVALID_PAGE_ID_def)
  ultimately show ?thesis by (auto simp: live_pages_def)
qed

text \<open>
  Page I/O on a live page: \<open>WritePage\<close> succeeds, a following \<open>ReadPage\<close> of the same page
  returns the bytes written, every other page still reads as before, and the free list and the
  metadata stay intact.
\<close>

lemma write_read_page:
  assumes "disk_rep d fl" "p \<in> live_pages d fl" "length bs = PAGE_SIZE"
  shows "\<exists>d'. WritePage p bs d = (Inr (), d') \<and> disk_rep d' fl \<and> ReadPage p d' = (Inr bs, d') \<and>
              (\<forall>q. q \<noteq> p \<and> q < num_pages d \<longrightarrow> ReadPage q d' = (Inr (page_content d q), d'))"
proof -
  obtain d' where d': "WritePage p bs d = (Inr (), d')" "disk_rep d' fl" "num_pages d' = num_pages d"
    "page_content d' = (page_content d)(p := bs)"
    using dm.wr_live [OF assms] by blast
  then show ?thesis
    using assms(2) by (intro exI [of _ d']) (simp add: dm.rd_ok [OF d'(2)] live_pages_def)
qed

text \<open>
  Allocation: on a consistent store that can still grow (or has a free page),
  \<open>AllocatePage\<close> returns a page that nobody holds, which becomes live; all live pages keep
  their content; and the store stays consistent with the rest of the free list.
\<close>

lemma allocate_page_fresh:
  assumes "disk_rep d fl" "fl \<noteq> [] \<or> num_pages d \<noteq> INVALID_PAGE_ID"
  shows "\<exists>p d'. AllocatePage d = (Inr p, d') \<and> disk_rep d' (tl fl) \<and>
           p = (if fl = [] then num_pages d else hd fl) \<and>
           p \<noteq> INVALID_PAGE_ID \<and> p \<noteq> 0 \<and> p \<notin> live_pages d fl \<and>
           live_pages d' (tl fl) = insert p (live_pages d fl) \<and>
           (\<forall>q \<in> live_pages d fl. page_content d' q = page_content d q)"
proof -
  obtain p d' where d': "AllocatePage d = (Inr p, d')" "disk_rep d' (tl fl)" "p \<notin> live_pages d fl"
      "p \<noteq> 0" "p < num_pages d'" "live_pages d' (tl fl) = insert p (live_pages d fl)"
      "\<And>q. q \<in> live_pages d fl \<Longrightarrow> page_content d' q = page_content d q"
    by (rule dm.alloc_fresh [OF assms]) blast
  moreover have "p = (if fl = [] then num_pages d else hd fl)"
    using d'(1) AllocatePage_pop [of d] AllocatePage_grow [of d] assms by (cases fl) auto
  ultimately show ?thesis
    using below_not_INVALID [OF d'(5)] by auto
qed

text \<open>
  The on-disk free list is a stack: deallocating a live page and allocating again returns
  that very page with the free list as it was, and no other page of the file is changed.
\<close>

lemma deallocate_allocate_roundtrip:
  assumes "disk_rep d fl" "p \<in> live_pages d fl"
  shows "\<exists>d'. AllocatePage (DeallocatePage p d) = (Inr p, d') \<and> disk_rep d' fl \<and>
              num_pages d' = num_pages d \<and> live_pages d' fl = live_pages d fl \<and>
              (\<forall>q. q \<noteq> 0 \<and> q \<noteq> p \<longrightarrow> page_content d' q = page_content d q)"
proof -
  note de = dm.dealloc_live [OF assms]
  obtain d' where d': "AllocatePage (DeallocatePage p d) = (Inr p, d')" "disk_rep d' fl"
      "num_pages d' = num_pages (DeallocatePage p d)"
      "\<forall>q. q \<noteq> 0 \<longrightarrow> page_content d' q = page_content (DeallocatePage p d) q"
    using dm.alloc_pop [OF de(1)] by blast
  then show ?thesis
    using de by (intro exI [of _ d']) (simp add: live_pages_def)
qed

lemma reopen_same:
  assumes "disk_rep d fl"
  shows "DiskManager_new (Some (db_file (Close d))) can_create can_reopen = Inr d"
proof -
  have len: "8 \<le> length (db_file d)" by (rule disk_rep_header [OF assms])
  let ?d0 = "\<lparr>db_file = db_file d, db_open = True, free_list_head = INVALID_PAGE_ID, num_pages = 0\<rparr>"
  have "ReadMetadata ?d0 = (Inr (), d)"
    using assms len
    by (cases d) (simp add: ReadMetadata_def file_read_def disk_rep_def metadata_synced_def get_u32_def)
  then show ?thesis
    by (simp add: DiskManager_new_def Close_def)
qed

text \<open>
  Durability of the allocator: closing the database and opening the file again restores
  exactly the manager that was closed, with the same free list, page count and page contents.
\<close>

lemma reopen_restores:
  assumes "disk_rep d fl"
  shows "DiskManager_new (Some (db_file (Close d))) can_create can_reopen = Inr d"
  using assms by (rule reopen_same)

text \<open>Allocating \<open>k\<close> pages in a row, and the pages an ideal allocator would hand out.\<close>

fun AllocateMany :: "nat \<Rightarrow> (disk_manager, page_id list) comp" where
  "AllocateMany 0 = ret []"
| "AllocateMany (Suc k) = bind AllocatePage (\<lambda>p. bind (AllocateMany k) (\<lambda>ps. ret (p # ps)))"

definition ideal_ids :: "page_id list \<Rightarrow> page_id \<Rightarrow> nat \<Rightarrow> page_id list" where
  "ideal_ids fl n k = take k fl @ map (\<lambda>i. n + of_nat i) [0..<k - length fl]"

lemma ideal_ids_pop: "ideal_ids (p # fl) n (Suc k) = p # ideal_ids fl n k"
  by (simp add: ideal_ids_def)

lemma ideal_ids_grow: "ideal_ids [] n (Suc k) = n # ideal_ids [] (n + 1) k"
  by (simp add: ideal_ids_def upt_conv_Cons map_Suc_upt [symmetric] o_def algebra_simps
      del: upt_Suc map_Suc_upt)

text \<open>
  C21. A run of allocations refines the ideal allocator: as long as the 32-bit page counter does
  not overflow, \<open>k\<close> successive \<open>AllocatePage\<close> calls return first the free pages, most recently
  freed first, then consecutive new page numbers.
\<close>

theorem allocate_many_refines:
  assumes "disk_rep d fl" "unat (num_pages d) + (k - length fl) < 2 ^ 32"
  shows "\<exists>d'. AllocateMany k d = (Inr (ideal_ids fl (num_pages d) k), d') \<and> disk_rep d' (drop k fl)"
  using assms
proof (induction k arbitrary: d fl)
  case 0
  then show ?case by (simp add: ideal_ids_def)
next
  case (Suc k)
  show ?case
  proof (cases fl)
    case Nil
    have room: "num_pages d \<noteq> INVALID_PAGE_ID"
      using Suc.prems(2) Nil by (auto simp: word_unat_eq_iff unat_INVALID_PAGE_ID)
    with Suc.prems(1) Nil AllocatePage_grow [of d] obtain d1 where
      d1: "AllocatePage d = (Inr (num_pages d), d1)" "disk_rep d1 []" "num_pages d1 = num_pages d + 1"
      by auto
    have "unat (num_pages d1) + (k - length []) < 2 ^ 32"
      using Suc.prems(2) Nil by (simp add: d1(3) unat_Suc_page_id [OF room])
    from Suc.IH [OF d1(2) this] show ?thesis
      by (auto simp: d1 Nil ideal_ids_grow)
  next
    case (Cons p ps)
    with Suc.prems(1) AllocatePage_pop [of d p ps] obtain d1 where
      d1: "AllocatePage d = (Inr p, d1)" "disk_rep d1 ps" "num_pages d1 = num_pages d" by auto
    have "unat (num_pages d1) + (k - length ps) < 2 ^ 32"
      using Suc.prems(2) Cons by (simp add: d1(3))
    from Suc.IH [OF d1(2) this] show ?thesis
      by (auto simp: d1 Cons ideal_ids_pop)
  qed
qed

theorem allocate_many_refines_witness:
  "\<exists>d d'. disk_rep d [1] \<and> AllocateMany 3 d = (Inr [1, 2, 3], d')"
proof -
  obtain d0 where d0: "disk_rep d0 []" "num_pages d0 = 2" "1 \<in> live_pages d0 []"
    using one_page_store by blast
  define d where "d = DeallocatePage 1 d0"
  have d: "disk_rep d [1]" "num_pages d = 2"
    using dm.dealloc_live [OF d0(1,3)] d0(2) by (simp_all add: d_def)
  then have r: "unat (num_pages d) + (3 - length [1 :: page_id]) < 2 ^ 32" by simp
  have "ideal_ids [1] 2 3 = [1, 2, 3]" by (simp add: ideal_ids_def numeral_2_eq_2)
  then show ?thesis using d allocate_many_refines [OF d(1) r] by auto
qed

text \<open>
  Every rejected request leaves the store as it was: reading or writing a page beyond the
  end throws \<^verbatim>\<open>out_of_range\<close>, a free-list head that points beyond the file makes
  \<open>AllocatePage\<close> throw \<^verbatim>\<open>runtime_error\<close>, and deallocating page 0 or a page beyond the end
  is ignored.
\<close>

lemma disk_errors_preserve_state:
  "(num_pages d \<le> p \<longrightarrow>
      ReadPage p d = (Inl (OutOfRange ''ReadPage page_id out of bounds''), d) \<and>
      WritePage p bs d = (Inl (OutOfRange ''WritePage page_id out of bounds''), d) \<and>
      DeallocatePage p d = d) \<and>
   DeallocatePage 0 d = d \<and>
   (free_list_head d \<noteq> INVALID_PAGE_ID \<and> length (db_file d) < page_offset (free_list_head d) + 4 \<longrightarrow>
      AllocatePage d = (Inl (RuntimeError ''Corrupted database free list''), d))"
  by (auto simp: ReadPage_def WritePage_def DeallocatePage_def AllocatePage_def file_read_def)

text \<open>
  Opening an existing file that is shorter than the 8 bytes of metadata (an empty
  \<^verbatim>\<open>aether.db\<close> in particular) never yields a database: the constructor throws.
\<close>

lemma open_truncated_file:
  assumes "length f < 8"
  shows "DiskManager_new (Some f) can_create can_reopen =
           Inl (RuntimeError ''Failed to read database metadata'')"
  using assms by (simp add: DiskManager_new_def ReadMetadata_def file_read_def)

text \<open>
  The 32-bit page counter is not guarded: at \<open>2 ^ 32 - 1\<close> pages with an empty free list,
  \<open>AllocatePage\<close> hands out \<open>INVALID_PAGE_ID\<close> itself and the counter wraps to 0, after which
  every read and every write is out of range.
\<close>

lemma allocate_counter_wraps:
  assumes "free_list_head d = INVALID_PAGE_ID" "num_pages d = 0xFFFFFFFF"
  shows "\<exists>d'. AllocatePage d = (Inr INVALID_PAGE_ID, d') \<and> num_pages d' = 0 \<and>
           (\<forall>p bs. ReadPage p d' = (Inl (OutOfRange ''ReadPage page_id out of bounds''), d') \<and>
                   WritePage p bs d' = (Inl (OutOfRange ''WritePage page_id out of bounds''), d'))"
proof -
  have "num_pages d = - 1" using assms(2) by simp
  then show ?thesis
    using assms(1) by (simp add: AllocatePage_def ReadPage_def WritePage_def INVALID_minus_one Let_def)
qed

text \<open>A free list that has become a cycle of one page.\<close>

definition self_loop :: "disk_manager \<Rightarrow> page_id \<Rightarrow> bool" where
  "self_loop d p \<longleftrightarrow>
     db_open d \<and> p \<noteq> 0 \<and> p \<noteq> INVALID_PAGE_ID \<and> page_offset p + 4 \<le> length (db_file d) \<and>
     free_list_head d = p \<and> next_free d p = p"

lemma self_loop_header: "self_loop d p \<Longrightarrow> 8 \<le> length (db_file d)"
  using page_offset_pos [of p] by (simp add: self_loop_def PAGE_SIZE_def)

lemma self_loop_allocate:
  assumes "self_loop d p"
  shows "\<exists>d'. AllocatePage d = (Inr p, d') \<and> self_loop d' p"
proof -
  have d: "db_open d" "8 \<le> length (db_file d)" "p \<noteq> 0"
    using assms self_loop_header [OF assms] by (auto simp: self_loop_def)
  have "AllocatePage d = (Inr p, WriteMetadata (d\<lparr>free_list_head := p\<rparr>))"
    using assms by (simp add: AllocatePage_def self_loop_def file_read_def next_free_def get_u32_def)
  moreover have "d\<lparr>free_list_head := p\<rparr> = d"
    using assms by (simp add: self_loop_def)
  moreover have "self_loop (WriteMetadata d) p"
    using assms WriteMetadata_content(2) [OF d] WriteMetadata_synced(2) [OF d(1,2)]
    by (simp add: self_loop_def)
  ultimately show ?thesis by simp
qed

lemma double_free_self_loop:
  assumes rep: "disk_rep d (p # fl)"
  shows "self_loop (DeallocatePage p d) p"
proof -
  have p: "p < num_pages d" "p \<noteq> 0" "free_list_head d = p" using rep by (auto simp: disk_rep_def)
  note fl = disk_rep_file [OF rep, THEN conjunct1] disk_rep_file [OF rep, THEN conjunct2]
  define bs where "bs = set_u32 zero_page 0 p"
  have bs: "length bs = PAGE_SIZE" "get_u32 bs 0 = p"
    by (simp_all add: bs_def layout_simps PAGE_SIZE_def)
  define d1 where "d1 = file_write (page_offset p) bs d"
  have len: "length (db_file d1) = length (db_file d)"
    using page_write_file [OF fl p(1) bs(1)] by (simp add: d1_def length_store)
  have off: "page_offset p + 4 \<le> length (db_file d1)"
    using disk_rep_page [OF rep p(1)] by (simp add: len PAGE_SIZE_def)
  have "next_free d1 p = p"
    using bs page_write_content [OF fl p(1) bs(1)] by (simp add: next_free_content [OF off]) (simp add: d1_def)
  moreover have "DeallocatePage p d = WriteMetadata d1"
  proof -
    have "d1\<lparr>free_list_head := p\<rparr> = d1" using p(3) by (simp add: d1_def)
    moreover have "DeallocatePage p d = WriteMetadata (d1\<lparr>free_list_head := p\<rparr>)"
      using p by (simp add: DeallocatePage_def d1_def bs_def not_le [symmetric] Let_def)
    ultimately show ?thesis by simp
  qed
  moreover have "db_open d1" "8 \<le> length (db_file d1)" "free_list_head d1 = p"
    using rep disk_rep_header [OF rep] p(3) len by (auto simp: disk_rep_def d1_def)
  ultimately show ?thesis
    using p off below_not_INVALID [OF p(1)] WriteMetadata_content(2) [of d1 p] WriteMetadata_synced(2) [of d1]
    by (simp add: self_loop_def)
qed

text \<open>
  C35. \<open>DeallocatePage\<close> does not notice a page that is already free: freeing a live page twice
  turns the free list into a cycle, and from then on every allocation returns that same page,
  so any number of clients are given one page.
\<close>

theorem double_free_aliases:
  assumes "disk_rep d fl" "p \<in> live_pages d fl"
  shows "\<exists>d'. AllocateMany k (DeallocatePage p (DeallocatePage p d)) = (Inr (replicate k p), d')"
proof -
  have "\<exists>d'. AllocateMany k d = (Inr (replicate k p), d')" if "self_loop d p" for d
    using that
  proof (induction k arbitrary: d)
    case 0
    then show ?case by simp
  next
    case (Suc k)
    then obtain d1 where "AllocatePage d = (Inr p, d1)" "self_loop d1 p"
      using self_loop_allocate by blast
    with Suc.IH [of d1] show ?case by auto
  qed
  with double_free_self_loop [OF dm.dealloc_live(1) [OF assms]] show ?thesis by blast
qed

theorem double_free_aliases_witness:
  "\<exists>d d'. disk_rep d [] \<and> AllocateMany 2 (DeallocatePage 1 (DeallocatePage 1 d)) = (Inr [1, 1], d')"
proof -
  obtain d where d: "disk_rep d []" "1 \<in> live_pages d []" using one_page_store by blast
  have "replicate 2 (1 :: page_id) = [1, 1]" by (simp add: numeral_2_eq_2)
  then show ?thesis using d double_free_aliases [OF d, of 2] by auto
qed

end
