(* ===== verification/Replacer.thy ===== *)
theory Replacer
  imports Aether_Prelude
begin

text \<open>
  The eviction policies of \<^verbatim>\<open>replacer.hpp\<close> and \<^verbatim>\<open>replacer.cpp\<close>: \<open>LRUReplacer\<close>,
  \<open>ClockReplacer\<close> and the virtual dispatch of the base class \<open>Replacer\<close>. The locale
  \<open>replacer_contract\<close> is the interface the buffer pool relies on; it is interpreted for both
  policies and for the dispatch. Each method body runs under \<^verbatim>\<open>latch_\<close> and is one atomic
  operation here.
\<close>

section \<open>LRUReplacer\<close>

text \<open>
  \<open>lru_list\<close> is a \<^verbatim>\<open>std::list\<close>, \<open>lru_map\<close> maps a frame to an iterator into it. An
  iterator is the identity of a list node, so a node carries an identity and its frame;
  \<open>lru_fresh\<close> supplies identities for the nodes that \<^verbatim>\<open>push_back\<close> allocates.
\<close>

record lru_replacer =
  lru_num_frames :: nat
  lru_list :: "(nat \<times> frame_id) list"
  lru_map :: "frame_id \<rightharpoonup> nat"
  lru_fresh :: nat

definition LRUReplacer_new :: "nat \<Rightarrow> lru_replacer" where
  "LRUReplacer_new num_frames =
     \<lparr>lru_num_frames = num_frames, lru_list = [], lru_map = Map.empty, lru_fresh = 0\<rparr>"

definition LRU_Victim :: "(lru_replacer, frame_id option) comp" where
  "LRU_Victim r =
     (case lru_list r of
        [] \<Rightarrow> (Inr None, r)
      | (it, f) # rest \<Rightarrow>
          (Inr (Some f), r\<lparr>lru_map := (lru_map r)(f := None), lru_list := rest\<rparr>))"

definition LRU_Pin :: "frame_id \<Rightarrow> lru_replacer \<Rightarrow> lru_replacer" where
  "LRU_Pin f r =
     (case lru_map r f of
        None \<Rightarrow> r
      | Some it \<Rightarrow> r\<lparr>lru_list := filter (\<lambda>(n, _). n \<noteq> it) (lru_list r),
                   lru_map := (lru_map r)(f := None)\<rparr>)"

definition LRU_Unpin :: "frame_id \<Rightarrow> lru_replacer \<Rightarrow> lru_replacer" where
  "LRU_Unpin f r =
     (if f < 0 \<or> lru_num_frames r \<le> nat f then r
      else if lru_map r f \<noteq> None then r
      else r\<lparr>lru_list := lru_list r @ [(lru_fresh r, f)],
             lru_map := (lru_map r)(f \<mapsto> lru_fresh r),
             lru_fresh := Suc (lru_fresh r)\<rparr>)"

definition LRU_Size :: "lru_replacer \<Rightarrow> nat" where
  "LRU_Size r = length (lru_list r)"

text \<open>The abstract view: a queue of frames, least recently unpinned first.\<close>

definition lru_queue :: "lru_replacer \<Rightarrow> frame_id list" where
  "lru_queue r = map snd (lru_list r)"

definition lru_members :: "lru_replacer \<Rightarrow> frame_id set" where
  "lru_members r = set (lru_queue r)"

definition lru_ok :: "lru_replacer \<Rightarrow> bool" where
  "lru_ok r \<longleftrightarrow>
     distinct (map fst (lru_list r)) \<and>
     (\<forall>f n. lru_map r f = Some n \<longleftrightarrow> (n, f) \<in> set (lru_list r)) \<and>
     (\<forall>(n, f) \<in> set (lru_list r). n < lru_fresh r \<and> 0 \<le> f \<and> nat f < lru_num_frames r)"

subsection \<open>The map and the list agree\<close>

lemma lru_okD_map: "lru_ok r \<Longrightarrow> lru_map r f = Some n \<longleftrightarrow> (n, f) \<in> set (lru_list r)"
  by (simp add: lru_ok_def)

lemma lru_map_None_iff: "lru_ok r \<Longrightarrow> lru_map r f = None \<longleftrightarrow> f \<notin> set (lru_queue r)"
  by (force simp: lru_queue_def lru_okD_map not_Some_eq [symmetric] simp del: not_Some_eq)

lemma lru_queue_distinct:
  assumes "lru_ok r"
  shows "distinct (lru_queue r)"
proof -
  have "distinct (lru_list r)"
    using assms by (auto simp: lru_ok_def distinct_map)
  moreover have "inj_on snd (set (lru_list r))"
    using assms by (auto simp: inj_on_def lru_okD_map [symmetric])
  ultimately show ?thesis
    by (simp add: lru_queue_def distinct_map)
qed

lemma lru_node_frame:
  assumes "lru_ok r" "lru_map r f = Some it" "(n, g) \<in> set (lru_list r)"
  shows "n \<noteq> it \<longleftrightarrow> g \<noteq> f"
proof -
  have "(it, f) \<in> set (lru_list r)"
    using assms by (simp add: lru_okD_map)
  moreover have "inj_on fst (set (lru_list r))"
    using assms by (simp add: lru_ok_def distinct_map)
  moreover have "lru_map r g = Some n"
    using assms by (simp add: lru_okD_map)
  ultimately show ?thesis
    using assms(2,3) by (fastforce simp: inj_on_def)
qed

lemma lru_ok_new: "lru_ok (LRUReplacer_new n)"
  by (simp add: lru_ok_def LRUReplacer_new_def)

subsection \<open>Each operation on the queue view\<close>

lemma lru_Victim_Nil: "lru_queue r = [] \<Longrightarrow> LRU_Victim r = (Inr None, r)"
  by (simp add: LRU_Victim_def lru_queue_def)

lemma lru_Victim_Cons:
  assumes "lru_ok r" "lru_queue r = f # q"
  shows "\<exists>r'. LRU_Victim r = (Inr (Some f), r') \<and> lru_queue r' = q \<and> lru_ok r' \<and>
              lru_num_frames r' = lru_num_frames r"
proof -
  from assms(2) obtain it rest where l: "lru_list r = (it, f) # rest" and q: "map snd rest = q"
    by (auto simp: lru_queue_def)
  define r' where "r' = r\<lparr>lru_map := (lru_map r)(f := None), lru_list := rest\<rparr>"
  have "f \<notin> snd ` set rest"
    using lru_queue_distinct [OF assms(1)] by (simp add: lru_queue_def l)
  then have "lru_ok r'"
    using assms(1) by (auto simp: lru_ok_def r'_def l image_iff)
  moreover have "LRU_Victim r = (Inr (Some f), r')"
    by (simp add: LRU_Victim_def l r'_def)
  moreover have "lru_queue r' = q" and "lru_num_frames r' = lru_num_frames r"
    by (simp_all add: lru_queue_def q r'_def)
  ultimately show ?thesis by blast
qed

lemma lru_queue_Pin:
  assumes "lru_ok r"
  shows "lru_queue (LRU_Pin f r) = removeAll f (lru_queue r)"
proof (cases "lru_map r f")
  case None
  then have "f \<notin> set (lru_queue r)"
    using assms by (simp add: lru_map_None_iff)
  with None show ?thesis
    by (simp add: LRU_Pin_def)
next
  case (Some it)
  have "filter (\<lambda>(n, _). n \<noteq> it) (lru_list r) = filter (\<lambda>x. f \<noteq> snd x) (lru_list r)"
    by (rule filter_cong) (auto dest: lru_node_frame [OF assms Some])
  then show ?thesis
    by (simp add: LRU_Pin_def Some lru_queue_def removeAll_filter_not_eq filter_map o_def)
qed

lemma lru_ok_Pin:
  assumes "lru_ok r"
  shows "lru_ok (LRU_Pin f r)"
proof (cases "lru_map r f")
  case None
  then show ?thesis using assms by (simp add: LRU_Pin_def)
next
  case (Some it)
  have "distinct (map fst (filter (\<lambda>(n, _). n \<noteq> it) (lru_list r)))"
    using assms by (auto simp: lru_ok_def distinct_map intro: inj_on_subset)
  moreover have "((lru_map r)(f := None)) g = Some n \<longleftrightarrow>
      (n, g) \<in> set (filter (\<lambda>(n, _). n \<noteq> it) (lru_list r))" for g n
    using assms Some lru_node_frame [OF assms Some, of n g] by (auto simp: lru_okD_map)
  moreover have "\<forall>(n, g) \<in> set (filter (\<lambda>(n, _). n \<noteq> it) (lru_list r)).
      n < lru_fresh r \<and> 0 \<le> g \<and> nat g < lru_num_frames r"
    using assms by (auto simp: lru_ok_def)
  ultimately show ?thesis
    unfolding LRU_Pin_def Some lru_ok_def by auto
qed

lemma lru_queue_Unpin:
  assumes "lru_ok r"
  shows "lru_queue (LRU_Unpin f r) =
    (if 0 \<le> f \<and> nat f < lru_num_frames r \<and> f \<notin> set (lru_queue r)
     then lru_queue r @ [f] else lru_queue r)"
proof (cases "lru_map r f = None")
  case True
  then have "f \<notin> set (lru_queue r)" using assms by (simp add: lru_map_None_iff)
  with True show ?thesis by (auto simp: LRU_Unpin_def lru_queue_def)
next
  case False
  then have "f \<in> set (lru_queue r)" using assms by (simp add: lru_map_None_iff)
  with False show ?thesis by (auto simp: LRU_Unpin_def)
qed

lemma lru_ok_Unpin:
  assumes "lru_ok r"
  shows "lru_ok (LRU_Unpin f r)"
proof (cases "(f < 0 \<or> lru_num_frames r \<le> nat f) \<or> lru_map r f \<noteq> None")
  case True
  then show ?thesis using assms by (auto simp: LRU_Unpin_def)
next
  case False
  then have "f \<notin> set (lru_queue r)" using assms by (simp add: lru_map_None_iff)
  then have "(n, f) \<notin> set (lru_list r)" for n by (force simp: lru_queue_def)
  moreover have "(lru_fresh r, g) \<notin> set (lru_list r)" for g
    using assms by (auto simp: lru_ok_def)
  moreover have "lru_fresh r \<notin> fst ` set (lru_list r)"
    using assms by (auto simp: lru_ok_def)
  ultimately show ?thesis
    using assms False by (auto simp: LRU_Unpin_def lru_ok_def)
qed

lemma lru_num_frames_Pin [simp]: "lru_num_frames (LRU_Pin f r) = lru_num_frames r"
  by (simp add: LRU_Pin_def split: option.splits)

lemma lru_num_frames_Unpin [simp]: "lru_num_frames (LRU_Unpin f r) = lru_num_frames r"
  by (simp add: LRU_Unpin_def)

lemma LRU_Size_queue: "LRU_Size r = length (lru_queue r)"
  by (simp add: LRU_Size_def lru_queue_def)

section \<open>ClockReplacer\<close>

record clock_replacer =
  clock_num_frames :: nat
  ref_flags :: "bool list"
  in_replacer :: "bool list"
  clock_hand :: nat
  clock_size :: nat

definition ClockReplacer_new :: "nat \<Rightarrow> clock_replacer" where
  "ClockReplacer_new num_frames =
     \<lparr>clock_num_frames = num_frames, ref_flags = replicate num_frames False,
      in_replacer = replicate num_frames False, clock_hand = 0, clock_size = 0\<rparr>"

definition advance :: "clock_replacer \<Rightarrow> clock_replacer" where
  "advance r = r\<lparr>clock_hand := (clock_hand r + 1) mod clock_num_frames r\<rparr>"

text \<open>The \<^verbatim>\<open>while (true)\<close> loop of \<open>ClockReplacer::Victim\<close>; \<open>None\<close> when it never returns.\<close>

partial_function (option) clock_loop :: "clock_replacer \<Rightarrow> (frame_id \<times> clock_replacer) option" where
  "clock_loop r =
     (if in_replacer r ! clock_hand r then
        (if ref_flags r ! clock_hand r then
           clock_loop (advance (r\<lparr>ref_flags := (ref_flags r)[clock_hand r := False]\<rparr>))
         else
           Some (int (clock_hand r),
                 advance (r\<lparr>in_replacer := (in_replacer r)[clock_hand r := False],
                            clock_size := clock_size r - 1\<rparr>)))
      else clock_loop (advance r))"

definition Clock_Victim :: "(clock_replacer, frame_id option) comp" where
  "Clock_Victim r =
     (if clock_size r = 0 then (Inr None, r)
      else case clock_loop r of
             None \<Rightarrow> (Inl NoReturn, r)
           | Some (f, r') \<Rightarrow> (Inr (Some f), r'))"

definition Clock_Pin :: "frame_id \<Rightarrow> clock_replacer \<Rightarrow> clock_replacer" where
  "Clock_Pin f r =
     (if f < 0 \<or> clock_num_frames r \<le> nat f then r
      else if in_replacer r ! nat f
      then r\<lparr>in_replacer := (in_replacer r)[nat f := False], clock_size := clock_size r - 1\<rparr>
      else r)"

definition Clock_Unpin :: "frame_id \<Rightarrow> clock_replacer \<Rightarrow> clock_replacer" where
  "Clock_Unpin f r =
     (if f < 0 \<or> clock_num_frames r \<le> nat f then r
      else if \<not> in_replacer r ! nat f
      then r\<lparr>in_replacer := (in_replacer r)[nat f := True],
             ref_flags := (ref_flags r)[nat f := True],
             clock_size := clock_size r + 1\<rparr>
      else r)"

definition Clock_Size :: "clock_replacer \<Rightarrow> nat" where
  "Clock_Size r = clock_size r"

text \<open>
  The abstract view: the eligible frames in the order in which the hand will meet them. A frame
  is chosen if it is the first of them whose reference flag is clear; if all flags are set, a
  full turn clears them and the first eligible frame is chosen.
\<close>

definition clock_order :: "clock_replacer \<Rightarrow> nat list" where
  "clock_order r = map (\<lambda>k. (clock_hand r + k) mod clock_num_frames r) [0..<clock_num_frames r]"

definition clock_candidates :: "clock_replacer \<Rightarrow> nat list" where
  "clock_candidates r = filter (\<lambda>i. in_replacer r ! i) (clock_order r)"

definition second_chance :: "clock_replacer \<Rightarrow> nat" where
  "second_chance r =
     (case find (\<lambda>i. \<not> ref_flags r ! i) (clock_candidates r) of
        Some i \<Rightarrow> i | None \<Rightarrow> hd (clock_candidates r))"

definition clock_members :: "clock_replacer \<Rightarrow> frame_id set" where
  "clock_members r = int ` set (clock_candidates r)"

definition clock_ok :: "clock_replacer \<Rightarrow> bool" where
  "clock_ok r \<longleftrightarrow>
     length (ref_flags r) = clock_num_frames r \<and>
     length (in_replacer r) = clock_num_frames r \<and>
     (0 < clock_num_frames r \<longrightarrow> clock_hand r < clock_num_frames r) \<and>
     clock_size r = length (clock_candidates r)"

subsection \<open>The turn of the hand\<close>

lemma clock_ok_new: "clock_ok (ClockReplacer_new n)"
  by (auto simp: clock_ok_def ClockReplacer_new_def clock_candidates_def clock_order_def
      filter_empty_conv)

lemma set_clock_order:
  assumes "clock_hand r < clock_num_frames r"
  shows "set (clock_order r) = {..<clock_num_frames r}"
proof -
  let ?n = "clock_num_frames r" and ?h = "clock_hand r"
  have "i \<in> (\<lambda>k. (?h + k) mod ?n) ` {0..<?n}" if "i < ?n" for i
  proof (cases "?h \<le> i")
    case True
    then show ?thesis using that by (intro image_eqI [where x = "i - ?h"]) auto
  next
    case False
    have "(?h + (i + ?n - ?h)) mod ?n = i"
      using that assms by simp
    then show ?thesis using False assms by (intro image_eqI [where x = "i + ?n - ?h"]) auto
  qed
  then show ?thesis using assms by (auto simp: clock_order_def)
qed

lemma clock_order_turn:
  assumes "clock_hand r < clock_num_frames r"
  shows "clock_order r = clock_hand r # tl (clock_order r)"
    and "clock_order (advance r) = tl (clock_order r) @ [clock_hand r]"
proof -
  let ?n = "clock_num_frames r" and ?h = "clock_hand r"
  obtain m where m: "?n = Suc m" using assms by (cases "?n") auto
  have front: "clock_order r = ?h # map (\<lambda>k. (?h + Suc k) mod ?n) [0..<m]"
    using assms by (simp add: clock_order_def m upt_conv_Cons map_Suc_upt [symmetric]
        o_def del: upt_Suc map_Suc_upt)
  then show "clock_order r = ?h # tl (clock_order r)" by simp
  have "((?h + 1) mod ?n + k) mod ?n = (?h + Suc k) mod ?n" for k
    by (simp add: mod_simps)
  moreover have "(?h + Suc m) mod ?n = ?h"
    using assms unfolding m [symmetric] by simp
  ultimately show "clock_order (advance r) = tl (clock_order r) @ [?h]"
    using front by (simp add: clock_order_def advance_def m del: add_Suc_right)
qed

lemma length_clock_order [simp]: "length (clock_order r) = clock_num_frames r"
  by (simp add: clock_order_def)

lemma distinct_clock_order: "clock_hand r < clock_num_frames r \<Longrightarrow> distinct (clock_order r)"
  by (rule card_distinct) (simp add: set_clock_order)

lemma advance_simps [simp]:
  "clock_num_frames (advance r) = clock_num_frames r"
  "ref_flags (advance r) = ref_flags r"
  "in_replacer (advance r) = in_replacer r"
  "clock_size (advance r) = clock_size r"
  by (simp_all add: advance_def)

lemma clock_order_cong:
  "clock_hand r = clock_hand r' \<Longrightarrow> clock_num_frames r = clock_num_frames r' \<Longrightarrow>
   clock_order r = clock_order r'"
  by (simp add: clock_order_def)

lemma clock_ok_hand: "clock_ok r \<Longrightarrow> 0 < clock_size r \<Longrightarrow> clock_hand r < clock_num_frames r"
  by (auto simp: clock_ok_def clock_candidates_def clock_order_def)

lemma advance_hand: "clock_hand r < clock_num_frames r \<Longrightarrow> clock_hand (advance r) < clock_num_frames r"
  by (simp add: advance_def)

subsection \<open>One iteration of the loop on the list of candidates\<close>

lemma candidates_skip:
  assumes "clock_hand r < clock_num_frames r" "\<not> in_replacer r ! clock_hand r"
  shows "clock_candidates (advance r) = clock_candidates r"
  using assms clock_order_turn [OF assms(1)]
  by (metis advance_simps(3) append_Nil2 clock_candidates_def filter.simps(1,2) filter_append)

lemma candidates_here:
  assumes "clock_hand r < clock_num_frames r" "in_replacer r ! clock_hand r"
  shows "clock_candidates r = clock_hand r # filter (\<lambda>i. in_replacer r ! i) (tl (clock_order r))"
  using assms clock_order_turn(1) [OF assms(1)]
  by (metis clock_candidates_def filter.simps(2))

lemma candidates_clear:
  assumes h: "clock_hand r < clock_num_frames r" and i: "in_replacer r ! clock_hand r"
  shows "clock_candidates (advance (r\<lparr>ref_flags := fl\<rparr>)) = tl (clock_candidates r) @ [clock_hand r]"
proof -
  have "clock_order (advance (r\<lparr>ref_flags := fl\<rparr>)) = tl (clock_order r) @ [clock_hand r]"
    using clock_order_turn(2) [OF h] by (simp add: clock_order_def advance_def)
  then show ?thesis
    using i candidates_here [OF h i] by (simp add: clock_candidates_def)
qed

lemma filter_update_notin:
  "h \<notin> set xs \<Longrightarrow> filter (\<lambda>i. b[h := v] ! i) xs = filter (\<lambda>i. b ! i) xs"
  by (rule filter_cong) (simp, metis nth_list_update_neq)

lemma candidates_take:
  assumes h: "clock_hand r < clock_num_frames r" and i: "in_replacer r ! clock_hand r"
    and l: "length (in_replacer r) = clock_num_frames r"
  shows "clock_candidates (advance (r\<lparr>in_replacer := (in_replacer r)[clock_hand r := False],
           clock_size := s\<rparr>)) = tl (clock_candidates r)"
proof -
  let ?r = "r\<lparr>in_replacer := (in_replacer r)[clock_hand r := False], clock_size := s\<rparr>"
  have "clock_order (advance ?r) = tl (clock_order r) @ [clock_hand r]"
    using clock_order_turn(2) [OF h] by (simp add: clock_order_def advance_def)
  moreover have "clock_hand r \<notin> set (tl (clock_order r))"
    using distinct_clock_order [OF h] clock_order_turn(1) [OF h] by (metis distinct.simps(2))
  ultimately show ?thesis
    using h l candidates_here [OF h i] by (simp add: clock_candidates_def filter_update_notin)
qed

subsection \<open>The loop returns, and chooses by second chance\<close>

definition clock_measure :: "clock_replacer \<Rightarrow> nat" where
  "clock_measure r =
     length (filter (\<lambda>i. ref_flags r ! i) (clock_candidates r)) * Suc (clock_num_frames r) +
     length (takeWhile (\<lambda>i. \<not> in_replacer r ! i) (clock_order r))"

lemma clock_measure_skip:
  assumes "clock_hand r < clock_num_frames r" "\<not> in_replacer r ! clock_hand r"
    and "clock_candidates r \<noteq> []"
  shows "clock_measure (advance r) < clock_measure r"
proof -
  have "\<exists>i \<in> set (tl (clock_order r)). in_replacer r ! i"
    using assms(2,3) clock_order_turn(1) [OF assms(1)]
    by (metis (mono_tags, lifting) clock_candidates_def filter_empty_conv set_ConsD)
  then have "takeWhile (\<lambda>i. \<not> in_replacer r ! i) (tl (clock_order r) @ [clock_hand r]) =
      takeWhile (\<lambda>i. \<not> in_replacer r ! i) (tl (clock_order r))"
    by (auto simp: takeWhile_append1)
  moreover have "takeWhile (\<lambda>i. \<not> in_replacer r ! i) (clock_order r) =
      clock_hand r # takeWhile (\<lambda>i. \<not> in_replacer r ! i) (tl (clock_order r))"
    using assms(2) clock_order_turn(1) [OF assms(1)] by (metis takeWhile.simps(2))
  ultimately show ?thesis
    using clock_order_turn(2) [OF assms(1)] candidates_skip [OF assms(1,2)]
    by (simp add: clock_measure_def)
qed

lemma clock_measure_clear:
  assumes h: "clock_hand r < clock_num_frames r" and i: "in_replacer r ! clock_hand r"
    and f: "ref_flags r ! clock_hand r" and l: "length (ref_flags r) = clock_num_frames r"
  shows "clock_measure (advance (r\<lparr>ref_flags := (ref_flags r)[clock_hand r := False]\<rparr>)) <
         clock_measure r"
proof -
  let ?h = "clock_hand r" and ?cs = "tl (clock_candidates r)"
  let ?r = "advance (r\<lparr>ref_flags := (ref_flags r)[?h := False]\<rparr>)"
  have cs: "clock_candidates r = ?h # ?cs"
    using candidates_here [OF h i] by simp
  have "?h \<notin> set ?cs"
    using distinct_clock_order [OF h] cs
    by (metis clock_candidates_def distinct.simps(2) distinct_filter)
  then have "length (filter (\<lambda>i. ref_flags ?r ! i) (clock_candidates ?r)) =
      length (filter (\<lambda>i. ref_flags r ! i) ?cs)"
    using h l by (simp add: candidates_clear [OF h i] filter_update_notin)
  moreover have "length (filter (\<lambda>i. ref_flags r ! i) (clock_candidates r)) =
      Suc (length (filter (\<lambda>i. ref_flags r ! i) ?cs))"
    using f by (subst cs) simp
  moreover have "length (takeWhile (\<lambda>i. \<not> in_replacer ?r ! i) (clock_order ?r)) \<le> clock_num_frames r"
    using length_takeWhile_le [of _ "clock_order ?r"] by simp
  ultimately show ?thesis
    by (simp add: clock_measure_def)
qed

lemma second_chance_skip:
  assumes "clock_hand r < clock_num_frames r" "\<not> in_replacer r ! clock_hand r"
  shows "second_chance (advance r) = second_chance r"
  by (simp add: second_chance_def candidates_skip [OF assms] split: option.splits)

lemma second_chance_clear:
  assumes h: "clock_hand r < clock_num_frames r" and i: "in_replacer r ! clock_hand r"
    and f: "ref_flags r ! clock_hand r" and l: "length (ref_flags r) = clock_num_frames r"
  shows "second_chance (advance (r\<lparr>ref_flags := (ref_flags r)[clock_hand r := False]\<rparr>)) =
         second_chance r"
proof -
  let ?h = "clock_hand r" and ?cs = "tl (clock_candidates r)"
  let ?fl = "(ref_flags r)[?h := False]"
  have cs: "clock_candidates r = ?h # ?cs"
    using candidates_here [OF h i] by simp
  have "?h \<notin> set ?cs"
    using distinct_clock_order [OF h] cs
    by (metis clock_candidates_def distinct.simps(2) distinct_filter)
  then have same: "find (\<lambda>i. \<not> ?fl ! i) ?cs = find (\<lambda>i. \<not> ref_flags r ! i) ?cs"
    by (intro find_cong) (simp, metis nth_list_update_neq)
  have app: "find P (xs @ ys) = (case find P xs of None \<Rightarrow> find P ys | Some x \<Rightarrow> Some x)"
    for P :: "nat \<Rightarrow> bool" and xs ys
    by (induction xs) auto
  have "find (\<lambda>i. \<not> ref_flags r ! i) (clock_candidates r) = find (\<lambda>i. \<not> ref_flags r ! i) ?cs"
    using f by (subst cs) simp
  moreover have "hd (clock_candidates r) = ?h"
    by (subst cs) simp
  moreover have "\<not> ?fl ! ?h"
    using h l by simp
  ultimately show ?thesis
    by (simp add: second_chance_def candidates_clear [OF h i] app same split: option.splits)
qed

lemma second_chance_take:
  assumes "clock_hand r < clock_num_frames r" "in_replacer r ! clock_hand r"
    "\<not> ref_flags r ! clock_hand r"
  shows "second_chance r = clock_hand r"
  using assms(3) by (simp add: second_chance_def candidates_here [OF assms(1,2)])

lemma clock_ok_skip:
  assumes "clock_ok r" "0 < clock_size r" "\<not> in_replacer r ! clock_hand r"
  shows "clock_ok (advance r)"
  using assms candidates_skip [OF clock_ok_hand [OF assms(1,2)] assms(3)]
  by (simp add: clock_ok_def advance_def)

lemma clock_ok_clear:
  assumes "clock_ok r" "0 < clock_size r" "in_replacer r ! clock_hand r"
  shows "clock_ok (advance (r\<lparr>ref_flags := (ref_flags r)[clock_hand r := False]\<rparr>))"
proof -
  have h: "clock_hand r < clock_num_frames r" by (rule clock_ok_hand [OF assms(1,2)])
  have "length (clock_candidates r) = Suc (length (tl (clock_candidates r)))"
    by (simp add: candidates_here [OF h assms(3)])
  then show ?thesis
    using assms(1) advance_hand [OF h]
    by (simp add: clock_ok_def candidates_clear [OF h assms(3)]) (simp add: advance_def)
qed

lemma clock_ok_take:
  assumes "clock_ok r" "0 < clock_size r" "in_replacer r ! clock_hand r"
  shows "clock_ok (advance (r\<lparr>in_replacer := (in_replacer r)[clock_hand r := False],
           clock_size := clock_size r - 1\<rparr>))"
proof -
  have h: "clock_hand r < clock_num_frames r" by (rule clock_ok_hand [OF assms(1,2)])
  have l: "length (in_replacer r) = clock_num_frames r" using assms(1) by (simp add: clock_ok_def)
  show ?thesis
    using assms(1) candidates_take [OF h assms(3) l, of "clock_size r - 1"] h
    by (simp add: clock_ok_def) (simp add: advance_def)
qed

lemma clock_loop_spec:
  assumes "clock_ok r" "0 < clock_size r"
  shows "\<exists>r'. clock_loop r = Some (int (second_chance r), r') \<and> clock_ok r' \<and>
           set (clock_candidates r') = set (clock_candidates r) - {second_chance r} \<and>
           second_chance r \<in> set (clock_candidates r) \<and>
           clock_num_frames r' = clock_num_frames r"
  using assms
proof (induction "clock_measure r" arbitrary: r rule: less_induct)
  case less
  note h = clock_ok_hand [OF less.prems]
  let ?h = "clock_hand r"
  have len: "length (ref_flags r) = clock_num_frames r" "length (in_replacer r) = clock_num_frames r"
    and ne: "clock_candidates r \<noteq> []"
    using less.prems by (auto simp: clock_ok_def)
  consider (skip) "\<not> in_replacer r ! ?h"
    | (clear) "in_replacer r ! ?h" "ref_flags r ! ?h"
    | (take) "in_replacer r ! ?h" "\<not> ref_flags r ! ?h" by blast
  then show ?case
  proof cases
    case skip
    have "clock_loop r = clock_loop (advance r)"
      using skip by (subst clock_loop.simps) simp
    with less.hyps [OF clock_measure_skip [OF h skip ne] clock_ok_skip [OF less.prems skip]]
    show ?thesis
      using less.prems by (simp add: second_chance_skip [OF h skip] candidates_skip [OF h skip])
  next
    case clear
    let ?r = "advance (r\<lparr>ref_flags := (ref_flags r)[?h := False]\<rparr>)"
    have "clock_loop r = clock_loop ?r"
      using clear by (subst clock_loop.simps) simp
    moreover have "set (clock_candidates ?r) = set (clock_candidates r)"
      using candidates_here [OF h clear(1)] by (auto simp: candidates_clear [OF h clear(1)])
    ultimately show ?thesis
      using less.hyps [OF clock_measure_clear [OF h clear len(1)] clock_ok_clear [OF less.prems clear(1)]]
        less.prems by (simp add: second_chance_clear [OF h clear len(1)])
  next
    case take
    let ?r = "advance (r\<lparr>in_replacer := (in_replacer r)[?h := False], clock_size := clock_size r - 1\<rparr>)"
    have "clock_loop r = Some (int ?h, ?r)"
      using take by (subst clock_loop.simps) simp
    moreover have "distinct (clock_candidates r)"
      using distinct_clock_order [OF h] by (simp add: clock_candidates_def)
    then have "set (clock_candidates ?r) = set (clock_candidates r) - {?h}" "?h \<in> set (clock_candidates r)"
      using candidates_here [OF h take(1)]
      by (auto simp: candidates_take [OF h take(1) len(2)])
    ultimately show ?thesis
      using clock_ok_take [OF less.prems take(1)] by (simp add: second_chance_take [OF h take])
  qed
qed

subsection \<open>Pin and Unpin on the candidates\<close>

lemma clock_members_iff:
  assumes "clock_ok r"
  shows "f \<in> clock_members r \<longleftrightarrow> 0 \<le> f \<and> nat f < clock_num_frames r \<and> in_replacer r ! nat f"
proof (cases "clock_num_frames r = 0")
  case True
  then show ?thesis by (simp add: clock_members_def clock_candidates_def clock_order_def)
next
  case False
  then have "clock_hand r < clock_num_frames r" using assms by (simp add: clock_ok_def)
  then show ?thesis
    by (auto simp: clock_members_def clock_candidates_def set_clock_order image_iff
        intro: bexI [of _ "nat f"])
qed

lemma card_clock_members:
  assumes "clock_ok r"
  shows "card (clock_members r) = clock_size r"
proof -
  have "distinct (clock_candidates r)"
    using assms distinct_clock_order [of r]
    by (cases "clock_num_frames r = 0")
      (auto simp: clock_ok_def clock_candidates_def clock_order_def)
  then show ?thesis
    using assms by (simp add: clock_members_def card_image distinct_card clock_ok_def)
qed

lemma clock_candidates_update:
  assumes "in_replacer r' = (in_replacer r)[i := v]" "clock_hand r' = clock_hand r"
    "clock_num_frames r' = clock_num_frames r" "length (in_replacer r) = clock_num_frames r"
    "i < clock_num_frames r" "clock_hand r < clock_num_frames r"
  shows "length (clock_candidates r') + (if in_replacer r ! i then 1 else 0) =
         length (clock_candidates r) + (if v then 1 else 0)"
proof -
  have o: "clock_order r' = clock_order r" using assms(2,3) by (rule clock_order_cong)
  obtain xs ys where xy: "clock_order r = xs @ i # ys"
    using assms(5) set_clock_order [OF assms(6)] by (metis lessThan_iff split_list)
  moreover have "i \<notin> set xs" "i \<notin> set ys"
    using distinct_clock_order [OF assms(6)] xy by auto
  ultimately show ?thesis
    using assms(4,5)
    by (simp add: clock_candidates_def o assms(1) filter_update_notin)
qed

lemma clock_ok_Pin:
  assumes "clock_ok r"
  shows "clock_ok (Clock_Pin f r)"
proof (cases "0 \<le> f \<and> nat f < clock_num_frames r \<and> in_replacer r ! nat f")
  case True
  let ?r = "r\<lparr>in_replacer := (in_replacer r)[nat f := False], clock_size := clock_size r - 1\<rparr>"
  from True have "Clock_Pin f r = ?r" by (simp add: Clock_Pin_def)
  moreover have "clock_ok ?r"
    using assms True clock_candidates_update [of ?r r "nat f" False] by (auto simp: clock_ok_def)
  ultimately show ?thesis by simp
next
  case False
  then have "Clock_Pin f r = r" by (auto simp: Clock_Pin_def)
  with assms show ?thesis by simp
qed

lemma clock_ok_Unpin:
  assumes "clock_ok r"
  shows "clock_ok (Clock_Unpin f r)"
proof (cases "0 \<le> f \<and> nat f < clock_num_frames r \<and> \<not> in_replacer r ! nat f")
  case True
  let ?r = "r\<lparr>in_replacer := (in_replacer r)[nat f := True],
      ref_flags := (ref_flags r)[nat f := True], clock_size := clock_size r + 1\<rparr>"
  from True have "Clock_Unpin f r = ?r" by (simp add: Clock_Unpin_def)
  moreover have "clock_ok ?r"
    using assms True clock_candidates_update [of ?r r "nat f" True] by (auto simp: clock_ok_def)
  ultimately show ?thesis by simp
next
  case False
  then have "Clock_Unpin f r = r" by (auto simp: Clock_Unpin_def)
  with assms show ?thesis by simp
qed

lemma clock_num_frames_Pin [simp]: "clock_num_frames (Clock_Pin f r) = clock_num_frames r"
  by (simp add: Clock_Pin_def)

lemma clock_num_frames_Unpin [simp]: "clock_num_frames (Clock_Unpin f r) = clock_num_frames r"
  by (simp add: Clock_Unpin_def)

lemma clock_members_Pin:
  assumes "clock_ok r"
  shows "clock_members (Clock_Pin f r) = clock_members r - {f}"
  using assms
  by (auto simp: clock_members_iff clock_ok_Pin)
    (auto simp: Clock_Pin_def clock_ok_def nth_list_update split: if_splits)

lemma clock_members_Unpin:
  assumes "clock_ok r"
  shows "clock_members (Clock_Unpin f r) =
    (if 0 \<le> f \<and> nat f < clock_num_frames r then insert f (clock_members r) else clock_members r)"
  using assms
  by (auto simp: clock_members_iff clock_ok_Unpin)
    (auto simp: Clock_Unpin_def clock_ok_def nth_list_update split: if_splits)

section \<open>The interface Replacer and its dispatch\<close>

datatype replacer = LRUReplacer lru_replacer | ClockReplacer clock_replacer

fun Victim :: "(replacer, frame_id option) comp" where
  "Victim (LRUReplacer r) = (case LRU_Victim r of (v, r') \<Rightarrow> (v, LRUReplacer r'))"
| "Victim (ClockReplacer r) = (case Clock_Victim r of (v, r') \<Rightarrow> (v, ClockReplacer r'))"

fun Pin :: "frame_id \<Rightarrow> replacer \<Rightarrow> replacer" where
  "Pin f (LRUReplacer r) = LRUReplacer (LRU_Pin f r)"
| "Pin f (ClockReplacer r) = ClockReplacer (Clock_Pin f r)"

fun Unpin :: "frame_id \<Rightarrow> replacer \<Rightarrow> replacer" where
  "Unpin f (LRUReplacer r) = LRUReplacer (LRU_Unpin f r)"
| "Unpin f (ClockReplacer r) = ClockReplacer (Clock_Unpin f r)"

fun Size :: "replacer \<Rightarrow> nat" where
  "Size (LRUReplacer r) = LRU_Size r"
| "Size (ClockReplacer r) = Clock_Size r"

fun members :: "replacer \<Rightarrow> frame_id set" where
  "members (LRUReplacer r) = lru_members r"
| "members (ClockReplacer r) = clock_members r"

fun replacer_ok :: "replacer \<Rightarrow> bool" where
  "replacer_ok (LRUReplacer r) = lru_ok r"
| "replacer_ok (ClockReplacer r) = clock_ok r"

fun capacity :: "replacer \<Rightarrow> nat" where
  "capacity (LRUReplacer r) = lru_num_frames r"
| "capacity (ClockReplacer r) = clock_num_frames r"

text \<open>
  What a client of a replacer may rely on. \<open>elems\<close> is the set of frames that are candidates
  for eviction.
\<close>

locale replacer_contract =
  fixes victim :: "('r, frame_id option) comp"
    and pin :: "frame_id \<Rightarrow> 'r \<Rightarrow> 'r"
    and unpin :: "frame_id \<Rightarrow> 'r \<Rightarrow> 'r"
    and size_of :: "'r \<Rightarrow> nat"
    and elems :: "'r \<Rightarrow> frame_id set"
    and ok :: "'r \<Rightarrow> bool"
    and cap :: "'r \<Rightarrow> nat"
  assumes victim_empty: "ok r \<Longrightarrow> elems r = {} \<Longrightarrow> victim r = (Inr None, r)"
    and victim_some: "ok r \<Longrightarrow> elems r \<noteq> {} \<Longrightarrow>
          \<exists>f r'. victim r = (Inr (Some f), r') \<and> f \<in> elems r \<and> elems r' = elems r - {f} \<and>
                 ok r' \<and> cap r' = cap r"
    and ok_pin: "ok r \<Longrightarrow> ok (pin f r)"
    and elems_pin: "ok r \<Longrightarrow> elems (pin f r) = elems r - {f}"
    and cap_pin: "cap (pin f r) = cap r"
    and ok_unpin: "ok r \<Longrightarrow> ok (unpin f r)"
    and elems_unpin: "ok r \<Longrightarrow> elems (unpin f r) =
          (if 0 \<le> f \<and> nat f < cap r then insert f (elems r) else elems r)"
    and cap_unpin: "cap (unpin f r) = cap r"
    and size_elems: "ok r \<Longrightarrow> size_of r = card (elems r)"
    and elems_bound: "ok r \<Longrightarrow> elems r \<subseteq> {0..<int (cap r)}"
begin

lemmas contract_simps = ok_pin elems_pin cap_pin ok_unpin elems_unpin cap_unpin

lemma finite_elems: "ok r \<Longrightarrow> finite (elems r)"
  using elems_bound finite_subset by blast

lemma victim_cases:
  assumes "ok r"
  obtains (none) "elems r = {}" "victim r = (Inr None, r)"
  | (some) f r' where "victim r = (Inr (Some f), r')" "f \<in> elems r" "elems r' = elems r - {f}"
      "ok r'" "cap r' = cap r"
  using victim_empty [OF assms] victim_some [OF assms] by blast

lemma victim_some_iff:
  assumes "ok r"
  shows "(\<exists>f r'. victim r = (Inr (Some f), r')) \<longleftrightarrow> 0 < size_of r"
  using assms finite_elems [OF assms]
  by (cases rule: victim_cases [OF assms]) (auto simp: size_elems card_gt_0_iff)

lemma size_le_cap:
  assumes "ok r"
  shows "size_of r \<le> cap r"
  using card_mono [OF _ elems_bound [OF assms]] assms by (simp add: size_elems)

lemma victim_not_pinned:
  assumes "ok r" "victim (pin f r) = (Inr (Some g), r')"
  shows "g \<noteq> f \<and> g \<in> elems r"
  using assms by (cases rule: victim_cases [OF ok_pin [OF assms(1), of f]]) (auto simp: elems_pin)

end

interpretation lru: replacer_contract LRU_Victim LRU_Pin LRU_Unpin LRU_Size lru_members lru_ok
  lru_num_frames
proof (unfold_locales, goal_cases)
  case (1 r)
  then show ?case by (intro lru_Victim_Nil) (simp add: lru_members_def)
next
  case (2 r)
  then obtain f q where q: "lru_queue r = f # q"
    by (auto simp: lru_members_def neq_Nil_conv)
  with lru_Victim_Cons [OF \<open>lru_ok r\<close> q] lru_queue_distinct [OF \<open>lru_ok r\<close>] show ?case
    by (fastforce simp: lru_members_def)
next
  case (10 r)
  then show ?case
    by (auto simp: lru_ok_def lru_members_def lru_queue_def)
qed (auto simp: lru_ok_Pin lru_ok_Unpin lru_members_def lru_queue_Pin lru_queue_Unpin
      LRU_Size_queue distinct_card lru_queue_distinct)

interpretation clock: replacer_contract Clock_Victim Clock_Pin Clock_Unpin Clock_Size clock_members
  clock_ok clock_num_frames
proof (unfold_locales, goal_cases)
  case (1 r)
  then show ?case
    using card_clock_members [of r] by (simp add: Clock_Victim_def)
next
  case (2 r)
  then have "0 < clock_size r"
    by (auto simp: clock_members_def clock_ok_def)
  with clock_loop_spec [OF \<open>clock_ok r\<close>] show ?case
    by (force simp: Clock_Victim_def clock_members_def)
next
  case (10 r)
  then show ?case by (auto simp: clock_members_iff)
qed (auto simp: clock_ok_Pin clock_ok_Unpin clock_members_Pin clock_members_Unpin
      Clock_Size_def card_clock_members)

interpretation rep: replacer_contract Victim Pin Unpin Size members replacer_ok capacity
proof (unfold_locales, goal_cases)
  case (1 r)
  then show ?case by (cases r) (auto simp: lru.victim_empty clock.victim_empty)
next
  case (2 r)
  show ?case
  proof (cases r)
    case (LRUReplacer l)
    with 2 obtain f l' where "LRU_Victim l = (Inr (Some f), l')" "f \<in> lru_members l"
      "lru_members l' = lru_members l - {f}" "lru_ok l'" "lru_num_frames l' = lru_num_frames l"
      using lru.victim_some [of l] by auto
    with LRUReplacer show ?thesis
      by (intro exI [of _ f] exI [of _ "LRUReplacer l'"]) simp
  next
    case (ClockReplacer c)
    with 2 obtain f c' where "Clock_Victim c = (Inr (Some f), c')" "f \<in> clock_members c"
      "clock_members c' = clock_members c - {f}" "clock_ok c'"
      "clock_num_frames c' = clock_num_frames c"
      using clock.victim_some [of c] by auto
    with ClockReplacer show ?thesis
      by (intro exI [of _ f] exI [of _ "ClockReplacer c'"]) simp
  qed
next
  case (3 r f)
  then show ?case by (cases r) (auto simp: lru.contract_simps clock.contract_simps)
next
  case (4 r f)
  then show ?case by (cases r) (auto simp: lru.contract_simps clock.contract_simps)
next
  case (5 f r)
  then show ?case by (cases r) auto
next
  case (6 r f)
  then show ?case by (cases r) (auto simp: lru.contract_simps clock.contract_simps)
next
  case (7 r f)
  then show ?case by (cases r) (auto simp: lru.contract_simps clock.contract_simps)
next
  case (8 f r)
  then show ?case by (cases r) auto
next
  case (9 r)
  then show ?case by (cases r) (auto simp: lru.size_elems clock.size_elems)
next
  case (10 r)
  then show ?case
    by (cases r) (auto dest: lru.elems_bound [THEN subsetD] clock.elems_bound [THEN subsetD])
qed

section \<open>Properties\<close>

text \<open>
  C27. The list-and-iterator-map representation of \<open>LRUReplacer\<close> refines a plain queue:
  \<open>Victim\<close> removes the frame that was unpinned longest ago, \<open>Pin\<close> removes exactly the given
  frame, \<open>Unpin\<close> appends a new valid frame and leaves a frame that is already queued in its
  place; the map and the list stay consistent throughout.
\<close>

theorem lru_refines_queue:
  assumes "lru_ok r"
  shows "(case lru_queue r of
            [] \<Rightarrow> LRU_Victim r = (Inr None, r)
          | f # q \<Rightarrow> (\<exists>r'. LRU_Victim r = (Inr (Some f), r') \<and> lru_queue r' = q \<and> lru_ok r'))
     \<and> lru_queue (LRU_Pin g r) = removeAll g (lru_queue r) \<and> lru_ok (LRU_Pin g r)
     \<and> lru_queue (LRU_Unpin g r) =
          (if 0 \<le> g \<and> nat g < lru_num_frames r \<and> g \<notin> set (lru_queue r)
           then lru_queue r @ [g] else lru_queue r) \<and> lru_ok (LRU_Unpin g r)
     \<and> LRU_Size r = length (lru_queue r)"
  using lru_Victim_Cons [OF assms] lru_Victim_Nil [of r]
  by (auto simp: lru_queue_Pin [OF assms] lru_ok_Pin [OF assms] lru_queue_Unpin [OF assms]
      lru_ok_Unpin [OF assms] LRU_Size_queue split: list.splits)

theorem lru_refines_queue_witness:
  "lru_queue (LRU_Unpin 1 (LRU_Unpin 2 (LRU_Unpin 1 (LRUReplacer_new 3)))) = [1, 2] \<and>
   (\<exists>r'. LRU_Victim (LRU_Unpin 2 (LRU_Unpin 1 (LRUReplacer_new 3))) = (Inr (Some 1), r') \<and>
         lru_queue r' = [2])"
proof -
  let ?r = "LRU_Unpin 2 (LRU_Unpin 1 (LRUReplacer_new 3))"
  have ok: "lru_ok ?r" by (intro lru_ok_Unpin lru_ok_new)
  have q: "lru_queue ?r = [1, 2]"
    by (simp add: lru_queue_def LRU_Unpin_def LRUReplacer_new_def)
  show ?thesis
    using lru_refines_queue [OF ok, of 1] by (auto simp: q)
qed

text \<open>
  C26. The loop of \<open>ClockReplacer::Victim\<close> always returns when there is a candidate, and the
  victim is the second-chance choice: the first eligible frame at or after the hand whose
  reference flag is clear, or the first eligible frame at or after the hand if every eligible
  frame has its flag set. That frame alone stops being a candidate.
\<close>

theorem clock_victim_second_chance:
  assumes "clock_ok r" "0 < clock_size r"
  shows "\<exists>r'. Clock_Victim r = (Inr (Some (int (second_chance r))), r') \<and> clock_ok r' \<and>
           second_chance r \<in> set (clock_candidates r) \<and>
           clock_members r' = clock_members r - {int (second_chance r)} \<and>
           Clock_Size r' = Clock_Size r - 1"
proof -
  from clock_loop_spec [OF assms] obtain r' where
    r': "clock_loop r = Some (int (second_chance r), r')" "clock_ok r'"
      "set (clock_candidates r') = set (clock_candidates r) - {second_chance r}"
      "second_chance r \<in> set (clock_candidates r)" by blast
  have m: "clock_members r' = clock_members r - {int (second_chance r)}"
    using r'(3) by (simp add: clock_members_def image_set_diff [OF inj_of_nat])
  moreover have "int (second_chance r) \<in> clock_members r"
    using r'(4) by (simp add: clock_members_def)
  then have "Clock_Size r' = Clock_Size r - 1"
    using assms(1) r'(2) clock.finite_elems [OF assms(1)] by (simp add: clock.size_elems m)
  ultimately show ?thesis
    using assms(2) r' by (intro exI [of _ r']) (simp add: Clock_Victim_def)
qed

theorem clock_victim_second_chance_witness:
  "\<exists>r'. Clock_Victim (Clock_Unpin 2 (Clock_Unpin 1 (ClockReplacer_new 3))) = (Inr (Some 1), r')"
proof -
  let ?r = "Clock_Unpin 2 (Clock_Unpin 1 (ClockReplacer_new 3))"
  have ok: "clock_ok ?r" by (intro clock_ok_Unpin clock_ok_new)
  have sz: "0 < clock_size ?r"
    by (simp add: Clock_Unpin_def ClockReplacer_new_def)
  have "second_chance ?r = 1" by code_simp
  then show ?thesis
    using clock_victim_second_chance [OF ok sz] by auto
qed

text \<open>
  Pinning protects a frame under either policy: after \<open>Pin(f)\<close> the next victim is another
  frame that was a candidate before, the call returns normally, and there is a victim exactly
  when the replacer has a member.
\<close>

lemma replacer_victim_not_pinned:
  assumes "replacer_ok r"
  shows "(\<forall>g r'. Victim (Pin f r) = (Inr (Some g), r') \<longrightarrow> g \<noteq> f \<and> g \<in> members r)
     \<and> (\<exists>v r'. Victim r = (Inr v, r'))
     \<and> ((\<exists>g r'. Victim r = (Inr (Some g), r')) \<longleftrightarrow> 0 < Size r)
     \<and> Size r \<le> capacity r"
proof (intro conjI allI impI)
  show "\<exists>v r'. Victim r = (Inr v, r')"
    by (cases rule: rep.victim_cases [OF assms]) auto
qed (use rep.victim_not_pinned [OF assms] rep.victim_some_iff [OF assms]
      rep.size_le_cap [OF assms] in auto)

text \<open>A history of \<open>Pin\<close> (\<open>True\<close>) and \<open>Unpin\<close> (\<open>False\<close>) calls.\<close>

fun run_pins :: "(bool \<times> frame_id) list \<Rightarrow> replacer \<Rightarrow> replacer" where
  "run_pins [] r = r"
| "run_pins ((p, f) # h) r = run_pins h (if p then Pin f r else Unpin f r)"

lemma run_pins_simulation:
  assumes "replacer_ok r" "replacer_ok r'" "members r = members r'" "capacity r = capacity r'"
  shows "members (run_pins h r) = members (run_pins h r') \<and>
         Size (run_pins h r) = Size (run_pins h r')"
  using assms
proof (induction h arbitrary: r r')
  case Nil
  then show ?case by (simp add: rep.size_elems)
next
  case (Cons x h)
  then show ?case by (cases x) (simp add: rep.contract_simps)
qed

text \<open>
  The two policies are interchangeable as bookkeeping: after the same history of \<open>Pin\<close> and
  \<open>Unpin\<close> calls (valid frames or not), a fresh LRU and a fresh clock replacer of the same size
  hold the same candidates and report the same \<open>Size\<close>.
\<close>

lemma lru_clock_same_candidates:
  "members (run_pins h (LRUReplacer (LRUReplacer_new n))) =
     members (run_pins h (ClockReplacer (ClockReplacer_new n))) \<and>
   Size (run_pins h (LRUReplacer (LRUReplacer_new n))) =
     Size (run_pins h (ClockReplacer (ClockReplacer_new n)))"
proof (rule run_pins_simulation)
  show "members (LRUReplacer (LRUReplacer_new n)) = members (ClockReplacer (ClockReplacer_new n))"
    by (auto simp: lru_members_def lru_queue_def LRUReplacer_new_def clock_members_iff clock_ok_new)
      (simp add: ClockReplacer_new_def)
  show "capacity (LRUReplacer (LRUReplacer_new n)) = capacity (ClockReplacer (ClockReplacer_new n))"
    by (simp add: LRUReplacer_new_def ClockReplacer_new_def)
qed (simp_all add: lru_ok_new clock_ok_new)

end
