(* ===== verification/Buffer_Pool.thy ===== *)
theory Buffer_Pool
  imports Disk_Manager Replacer
begin

text \<open>
  The page cache of \<^verbatim>\<open>page.hpp\<close>, \<^verbatim>\<open>buffer_pool_manager.hpp\<close> and
  \<^verbatim>\<open>buffer_pool_manager.cpp\<close>. A \<^verbatim>\<open>Page*\<close> is the index of its frame in \<open>pages\<close>
  (\<open>None\<close> is \<^verbatim>\<open>nullptr\<close>), so holders of the same page share one frame, as in the code. The
  replacer is the dispatch of theory \<open>Replacer\<close>, the disk is the manager of theory
  \<open>Disk_Manager\<close>; the proofs use them only through \<open>rep\<close> and \<open>dm\<close>, the interpretations of
  their contracts. Every public method holds \<^verbatim>\<open>latch_\<close> and is one atomic operation.
\<close>

section \<open>State\<close>

record page =
  data :: "byte list"
  page_id_of :: page_id
  pin_count :: int
  is_dirty :: bool

definition ResetMemory :: page where
  "ResetMemory = \<lparr>data = zero_page, page_id_of = INVALID_PAGE_ID, pin_count = 0, is_dirty = False\<rparr>"

record buffer_pool =
  pool_size :: nat
  disk :: disk_manager
  repl :: replacer
  pages :: "page list"
  page_table :: "(page_id \<times> frame_id) list"
  free_list :: "frame_id list"

definition BufferPoolManager_new :: "nat \<Rightarrow> disk_manager \<Rightarrow> replacer \<Rightarrow> buffer_pool" where
  "BufferPoolManager_new n d r =
     \<lparr>pool_size = n, disk = d, repl = r, pages = replicate n ResetMemory,
      page_table = [], free_list = map int [0..<n]\<rparr>"

definition frame :: "buffer_pool \<Rightarrow> frame_id \<Rightarrow> page" where
  "frame s f = pages s ! nat f"

definition set_frame :: "frame_id \<Rightarrow> page \<Rightarrow> buffer_pool \<Rightarrow> buffer_pool" where
  "set_frame f pg s = s\<lparr>pages := (pages s)[nat f := pg]\<rparr>"

definition pt :: "buffer_pool \<Rightarrow> page_id \<rightharpoonup> frame_id" where
  "pt s = map_of (page_table s)"

definition on_disk :: "(disk_manager, 'a) comp \<Rightarrow> (buffer_pool, 'a) comp" where
  "on_disk m s = (case m (disk s) of (v, d') \<Rightarrow> (v, s\<lparr>disk := d'\<rparr>))"

section \<open>Operations\<close>

text \<open>
  Selecting a frame for a page that is not cached; \<open>FetchPage\<close> and \<open>NewPage\<close> contain the same
  code: take the front of the free list, or evict the replacer's victim, writing it back first
  if it is dirty.
\<close>

definition evict :: "frame_id \<Rightarrow> (buffer_pool, frame_id option) comp" where
  "evict f s =
     (let victim_page = frame s f; victim_page_id = page_id_of victim_page in
      if is_dirty victim_page then
        bind (on_disk (WritePage victim_page_id (data victim_page)))
          (\<lambda>_ s1. (Inr (Some f),
             (set_frame f (victim_page\<lparr>is_dirty := False\<rparr>) s1)
               \<lparr>page_table := AList.delete victim_page_id (page_table s1)\<rparr>)) s
      else (Inr (Some f), s\<lparr>page_table := AList.delete victim_page_id (page_table s)\<rparr>))"

definition acquire_frame :: "(buffer_pool, frame_id option) comp" where
  "acquire_frame s =
     (case free_list s of
        f # rest \<Rightarrow> (Inr (Some f), s\<lparr>free_list := rest\<rparr>)
      | [] \<Rightarrow>
         (case Victim (repl s) of
            (Inl e, r') \<Rightarrow> (Inl e, s\<lparr>repl := r'\<rparr>)
          | (Inr None, r') \<Rightarrow> (Inr None, s\<lparr>repl := r'\<rparr>)
          | (Inr (Some f), r') \<Rightarrow> evict f (s\<lparr>repl := r'\<rparr>)))"

definition load_page :: "page_id \<Rightarrow> frame_id \<Rightarrow> (buffer_pool, frame_id option) comp" where
  "load_page p f s =
     (let s1 = set_frame f (ResetMemory\<lparr>page_id_of := p, pin_count := 1\<rparr>) s in
      bind (on_disk (ReadPage p))
        (\<lambda>bs s2. (Inr (Some f),
           (set_frame f ((frame s2 f)\<lparr>data := bs\<rparr>) s2)
             \<lparr>page_table := AList.update p f (page_table s2), repl := Pin f (repl s2)\<rparr>)) s1)"

definition FetchPage :: "page_id \<Rightarrow> (buffer_pool, frame_id option) comp" where
  "FetchPage p s =
     (if p = INVALID_PAGE_ID then (Inr None, s)
      else case pt s p of
        Some f \<Rightarrow>
          (Inr (Some f),
           (set_frame f ((frame s f)\<lparr>pin_count := pin_count (frame s f) + 1\<rparr>) s)
             \<lparr>repl := Pin f (repl s)\<rparr>)
      | None \<Rightarrow>
          bind acquire_frame
            (\<lambda>r. case r of None \<Rightarrow> ret None | Some f \<Rightarrow> load_page p f) s)"

definition UnpinPage :: "page_id \<Rightarrow> bool \<Rightarrow> (buffer_pool, bool) comp" where
  "UnpinPage p dirty s =
     (case pt s p of
        None \<Rightarrow> (Inr False, s)
      | Some f \<Rightarrow>
          if pin_count (frame s f) \<le> 0 then (Inr False, s)
          else
            (let pg = frame s f;
                 pg1 = (if dirty then pg\<lparr>is_dirty := True\<rparr> else pg);
                 pg2 = pg1\<lparr>pin_count := pin_count pg1 - 1\<rparr>;
                 s1 = set_frame f pg2 s
             in (Inr True, if pin_count pg2 = 0 then s1\<lparr>repl := Unpin f (repl s1)\<rparr> else s1)))"

definition flush_frame :: "frame_id \<Rightarrow> (buffer_pool, unit) comp" where
  "flush_frame f s =
     (let pg = frame s f in
      if is_dirty pg then
        bind (on_disk (WritePage (page_id_of pg) (data pg)))
          (\<lambda>_ s1. (Inr (), set_frame f (pg\<lparr>is_dirty := False\<rparr>) s1)) s
      else (Inr (), s))"

definition FlushPage :: "page_id \<Rightarrow> (buffer_pool, bool) comp" where
  "FlushPage p s =
     (case pt s p of
        None \<Rightarrow> (Inr False, s)
      | Some f \<Rightarrow> bind (flush_frame f) (\<lambda>_. ret True) s)"

definition install_page :: "frame_id \<Rightarrow> page_id \<Rightarrow> (buffer_pool, page_id \<times> frame_id option) comp" where
  "install_page f p s =
     (Inr (p, Some f),
      (set_frame f (ResetMemory\<lparr>page_id_of := p, pin_count := 1\<rparr>) s)
        \<lparr>page_table := AList.update p f (page_table s), repl := Pin f (repl s)\<rparr>)"

text \<open>\<open>NewPage\<close> returns the value of its out-parameter and the page pointer.\<close>

definition NewPage :: "(buffer_pool, page_id \<times> frame_id option) comp" where
  "NewPage =
     bind acquire_frame
       (\<lambda>r. case r of
          None \<Rightarrow> ret (INVALID_PAGE_ID, None)
        | Some f \<Rightarrow> bind (on_disk AllocatePage) (install_page f))"

definition DeletePage :: "page_id \<Rightarrow> (buffer_pool, bool) comp" where
  "DeletePage p s =
     (case pt s p of
        None \<Rightarrow> (Inr True, s\<lparr>disk := DeallocatePage p (disk s)\<rparr>)
      | Some f \<Rightarrow>
          if 0 < pin_count (frame s f) then (Inr False, s)
          else
            (Inr True,
             (set_frame f ResetMemory s)
               \<lparr>repl := Pin f (repl s), page_table := AList.delete p (page_table s),
                free_list := free_list s @ [f], disk := DeallocatePage p (disk s)\<rparr>))"

text \<open>
  The loop of \<open>FlushAllPages\<close> over the entries of the page table. The order in which an
  \<^verbatim>\<open>unordered_map\<close> is traversed is unspecified; the list holds the entries in some order.
\<close>

fun flush_entries :: "(page_id \<times> frame_id) list \<Rightarrow> (buffer_pool, unit) comp" where
  "flush_entries [] = ret ()"
| "flush_entries ((p, f) # es) = bind (flush_frame f) (\<lambda>_. flush_entries es)"

definition FlushAllPages :: "(buffer_pool, unit) comp" where
  "FlushAllPages s = flush_entries (page_table s) s"

definition GetPinCount :: "page_id \<Rightarrow> buffer_pool \<Rightarrow> int" where
  "GetPinCount p s = (case pt s p of None \<Rightarrow> - 1 | Some f \<Rightarrow> pin_count (frame s f))"

definition IsCached :: "page_id \<Rightarrow> buffer_pool \<Rightarrow> bool" where
  "IsCached p s \<longleftrightarrow> pt s p \<noteq> None"

text \<open>A holder of a page pointer stores into \<^verbatim>\<open>page->GetData()\<close>.\<close>

definition put_data :: "frame_id \<Rightarrow> byte list \<Rightarrow> buffer_pool \<Rightarrow> buffer_pool" where
  "put_data f bs s = set_frame f ((frame s f)\<lparr>data := bs\<rparr>) s"

section \<open>Invariant and abstract view\<close>

text \<open>
  \<open>bp_inv s fl\<close>: the store below is consistent with free pages \<open>fl\<close>; every cached page is live
  and sits in a frame of its own that carries its id; the replacer's candidates are exactly the
  frames of cached pages without pins; a cached page that is neither pinned nor dirty has the
  bytes that are on disk.
\<close>

definition entry_ok :: "buffer_pool \<Rightarrow> page_id list \<Rightarrow> page_id \<Rightarrow> frame_id \<Rightarrow> bool" where
  "entry_ok s fl p f \<longleftrightarrow>
     0 \<le> f \<and> nat f < pool_size s \<and> page_id_of (frame s f) = p \<and> 0 \<le> pin_count (frame s f) \<and>
     p \<in> live_pages (disk s) fl \<and> f \<notin> set (free_list s) \<and>
     (pin_count (frame s f) = 0 \<and> \<not> is_dirty (frame s f) \<longrightarrow>
        data (frame s f) = page_content (disk s) p)"

definition evictable :: "buffer_pool \<Rightarrow> frame_id set" where
  "evictable s = {f. \<exists>p. pt s p = Some f \<and> pin_count (frame s f) = 0}"

definition bp_inv :: "buffer_pool \<Rightarrow> page_id list \<Rightarrow> bool" where
  "bp_inv s fl \<longleftrightarrow>
     disk_rep (disk s) fl \<and> replacer_ok (repl s) \<and> pool_size s \<le> capacity (repl s) \<and>
     length (pages s) = pool_size s \<and> (\<forall>pg \<in> set (pages s). length (data pg) = PAGE_SIZE) \<and>
     distinct (map fst (page_table s)) \<and> (\<forall>p f. pt s p = Some f \<longrightarrow> entry_ok s fl p f) \<and>
     distinct (free_list s) \<and> (\<forall>f \<in> set (free_list s). 0 \<le> f \<and> nat f < pool_size s) \<and>
     members (repl s) = evictable s"

text \<open>Frames the manager can still use: free, or holding a cached page.\<close>

definition tracked :: "buffer_pool \<Rightarrow> frame_id set" where
  "tracked s = set (free_list s) \<union> ran (pt s)"

definition no_leak :: "buffer_pool \<Rightarrow> bool" where
  "no_leak s \<longleftrightarrow> tracked s = {0..<int (pool_size s)}"

text \<open>The content of a page as the users of the pool see it.\<close>

definition page_view :: "buffer_pool \<Rightarrow> page_id \<Rightarrow> byte list" where
  "page_view s p =
     (case pt s p of Some f \<Rightarrow> data (frame s f) | None \<Rightarrow> page_content (disk s) p)"

definition pool_store :: "buffer_pool \<Rightarrow> page_id list \<Rightarrow> page_id \<rightharpoonup> byte list" where
  "pool_store s fl p = (if p \<in> live_pages (disk s) fl then Some (page_view s p) else None)"

section \<open>Frame and table access\<close>

lemma set_frame_simps [simp]:
  "pool_size (set_frame f pg s) = pool_size s"
  "disk (set_frame f pg s) = disk s"
  "repl (set_frame f pg s) = repl s"
  "page_table (set_frame f pg s) = page_table s"
  "free_list (set_frame f pg s) = free_list s"
  "length (pages (set_frame f pg s)) = length (pages s)"
  by (simp_all add: set_frame_def)

lemma frame_update_simps [simp]:
  "frame (s\<lparr>disk := d\<rparr>) f = frame s f"
  "frame (s\<lparr>repl := r\<rparr>) f = frame s f"
  "frame (s\<lparr>page_table := t\<rparr>) f = frame s f"
  "frame (s\<lparr>free_list := l\<rparr>) f = frame s f"
  by (simp_all add: frame_def)

lemma frame_set_frame:
  "0 \<le> f \<Longrightarrow> 0 \<le> g \<Longrightarrow> nat f < length (pages s) \<Longrightarrow>
   frame (set_frame f pg s) g = (if g = f then pg else frame s g)"
  by (auto simp: frame_def set_frame_def nth_list_update)

lemma set_frame_same_disk [simp]:
  "(set_frame f pg s)\<lparr>repl := r, disk := disk s\<rparr> = (set_frame f pg s)\<lparr>repl := r\<rparr>"
  "(set_frame f pg s)\<lparr>repl := repl s, disk := d\<rparr> = (set_frame f pg s)\<lparr>disk := d\<rparr>"
  "(set_frame f pg s)\<lparr>repl := repl s\<rparr> = set_frame f pg s"
  "(set_frame f pg s)\<lparr>disk := disk s\<rparr> = set_frame f pg s"
  by (cases s, simp add: set_frame_def)+

lemma set_frame_pages: "set (pages (set_frame f pg s)) \<subseteq> insert pg (set (pages s))"
  by (simp add: set_frame_def set_update_subset_insert)

lemma pt_simps [simp]:
  "pt (set_frame f pg s) = pt s"
  "pt (s\<lparr>pages := ps\<rparr>) = pt s"
  "pt (s\<lparr>disk := d\<rparr>) = pt s"
  "pt (s\<lparr>repl := r\<rparr>) = pt s"
  "pt (s\<lparr>free_list := l\<rparr>) = pt s"
  "pt (s\<lparr>page_table := AList.delete p (page_table s')\<rparr>) = (pt s')(p := None)"
  "pt (s\<lparr>page_table := AList.update p f (page_table s')\<rparr>) = (pt s')(p \<mapsto> f)"
  by (simp_all add: pt_def delete_conv' update_conv')

lemma on_disk_apply: "m (disk s) = (v, d') \<Longrightarrow> on_disk m s = (v, s\<lparr>disk := d'\<rparr>)"
  by (simp add: on_disk_def)

lemma bp_inv_entry: "bp_inv s fl \<Longrightarrow> pt s p = Some f \<Longrightarrow> entry_ok s fl p f"
  by (simp add: bp_inv_def)

lemma entry_frame: "entry_ok s fl p f \<Longrightarrow> 0 \<le> f \<and> nat f < pool_size s \<and> page_id_of (frame s f) = p"
  by (simp add: entry_ok_def)

lemma bp_inv_inj:
  assumes "bp_inv s fl" "pt s p = Some f" "pt s q = Some f"
  shows "p = q"
  using bp_inv_entry [OF assms(1,2)] bp_inv_entry [OF assms(1,3)] by (simp add: entry_ok_def)

lemma bp_inv_data:
  assumes "bp_inv s fl" "pt s p = Some f"
  shows "length (data (frame s f)) = PAGE_SIZE"
  using assms entry_frame [OF bp_inv_entry [OF assms]] by (simp add: bp_inv_def frame_def)

lemma evictable_iff:
  assumes "bp_inv s fl" "pt s p = Some f"
  shows "f \<in> evictable s \<longleftrightarrow> pin_count (frame s f) = 0"
  using assms by (auto simp: evictable_def)

section \<open>Acquiring a frame\<close>

text \<open>
  \<open>acquired s s' fl f\<close>: frame \<open>f\<close> has been taken out of the pool's bookkeeping, and nothing that
  the users of the pool can observe has changed; in particular every pinned page stays in its
  frame with its bytes.
\<close>

definition acquired :: "buffer_pool \<Rightarrow> buffer_pool \<Rightarrow> page_id list \<Rightarrow> frame_id \<Rightarrow> bool" where
  "acquired s s' fl f \<longleftrightarrow>
     bp_inv s' fl \<and> 0 \<le> f \<and> nat f < pool_size s' \<and> f \<in> tracked s \<and> tracked s' = tracked s - {f} \<and>
     pool_size s' = pool_size s \<and> num_pages (disk s') = num_pages (disk s) \<and>
     (\<forall>p \<in> live_pages (disk s) fl. page_view s' p = page_view s p) \<and>
     (\<forall>p g. pt s p = Some g \<and> 0 < pin_count (frame s g) \<longrightarrow> pt s' p = Some g \<and> frame s' g = frame s g) \<and>
     (\<forall>p g. pt s' p = Some g \<longrightarrow> pt s p = Some g \<and> frame s' g = frame s g \<and>
            page_content (disk s') p = page_content (disk s) p)"

lemma acquiredD:
  assumes "acquired s s' fl f"
  shows "bp_inv s' fl" "0 \<le> f" "nat f < pool_size s'" "f \<notin> tracked s'"
    "num_pages (disk s') = num_pages (disk s)" "pool_size s' = pool_size s"
    "f \<in> tracked s" "tracked s' = tracked s - {f}"
  using assms unfolding acquired_def by blast+

lemma acquired_view: "acquired s s' fl f \<Longrightarrow> p \<in> live_pages (disk s) fl \<Longrightarrow> page_view s' p = page_view s p"
  unfolding acquired_def by blast

lemma acquired_pinned:
  "acquired s s' fl f \<Longrightarrow> pt s p = Some g \<Longrightarrow> 0 < pin_count (frame s g) \<Longrightarrow>
   pt s' p = Some g \<and> frame s' g = frame s g"
  unfolding acquired_def by blast

lemma acquired_subset: "acquired s s' fl f \<Longrightarrow> pt s' p = Some g \<Longrightarrow> pt s p = Some g \<and> frame s' g = frame s g"
  unfolding acquired_def by blast

lemma acquired_content:
  "acquired s s' fl f \<Longrightarrow> pt s' p = Some g \<Longrightarrow> page_content (disk s') p = page_content (disk s) p"
  unfolding acquired_def by blast

lemma acquired_uncached:
  assumes "acquired s s' fl f" "pt s p = None"
  shows "pt s' p = None"
proof (cases "pt s' p")
  case (Some g)
  from acquired_subset [OF assms(1) Some] assms(2) show ?thesis by simp
qed

lemma live_pages_cong: "num_pages d' = num_pages d \<Longrightarrow> live_pages d' fl = live_pages d fl"
  by (simp add: live_pages_def)

lemma acquired_free:
  assumes inv: "bp_inv s fl" and free: "free_list s = f # rest"
  shows "acquired s (s\<lparr>free_list := rest\<rparr>) fl f"
proof -
  let ?s = "s\<lparr>free_list := rest\<rparr>"
  have f: "0 \<le> f" "nat f < pool_size s" "f \<notin> set rest"
    using inv free by (auto simp: bp_inv_def)
  have nt: "pt s p \<noteq> Some f" for p
    using inv free by (auto simp: bp_inv_def entry_ok_def)
  have "bp_inv ?s fl"
    using inv free by (auto simp: bp_inv_def entry_ok_def evictable_def)
  moreover have "tracked ?s = tracked s - {f}" "f \<in> tracked s"
    using f nt by (auto simp: tracked_def free ran_def)
  ultimately show ?thesis
    using f by (simp add: acquired_def page_view_def split: option.splits)
qed

lemma acquired_evict:
  assumes inv: "bp_inv s fl" and t: "pt s p = Some f" and pin: "pin_count (frame s f) = 0"
    and r': "replacer_ok r'" "capacity r' = capacity (repl s)" "members r' = members (repl s) - {f}"
    and d': "disk_rep d' fl" "num_pages d' = num_pages (disk s)"
      "page_content d' = (page_content (disk s))(p := data (frame s f))"
    and pg: "length (data pg) = PAGE_SIZE"
  shows "acquired s ((set_frame f pg s)\<lparr>repl := r', disk := d',
           page_table := AList.delete p (page_table s)\<rparr>) fl f" (is "acquired s ?s fl f")
proof -
  have e: "0 \<le> f" "nat f < length (pages s)" "f \<notin> set (free_list s)"
    using bp_inv_entry [OF inv t] inv by (auto simp: entry_ok_def bp_inv_def)
  have other: "frame ?s g = frame s g \<and> g \<noteq> f \<and> 0 \<le> g" if "pt s q = Some g" "q \<noteq> p" for q g
    using that bp_inv_inj [OF inv t] entry_frame [OF bp_inv_entry [OF inv that(1)]] e
    by (auto simp: frame_set_frame)
  have live: "live_pages d' fl = live_pages (disk s) fl"
    by (rule live_pages_cong [OF d'(2)])
  have entries: "entry_ok ?s fl q g" if "pt ?s q = Some g" for q g
  proof -
    have q: "pt s q = Some g" "q \<noteq> p" using that by (auto split: if_splits)
    show ?thesis
      using other [OF q] bp_inv_entry [OF inv q(1)] d'(3) q(2) live by (simp add: entry_ok_def)
  qed
  have "evictable ?s = evictable s - {f}"
  proof (intro set_eqI iffI)
    fix g assume "g \<in> evictable ?s"
    then obtain q where "pt s q = Some g" "q \<noteq> p" "pin_count (frame ?s g) = 0"
      by (auto simp: evictable_def split: if_splits)
    then show "g \<in> evictable s - {f}" using other [of q g] by (auto simp: evictable_def)
  next
    fix g assume "g \<in> evictable s - {f}"
    then obtain q where "pt s q = Some g" "g \<noteq> f" "pin_count (frame s g) = 0"
      by (auto simp: evictable_def)
    moreover from this t have "q \<noteq> p" by auto
    ultimately show "g \<in> evictable ?s" using other [of q g] by (auto simp: evictable_def)
  qed
  then have "bp_inv ?s fl"
    using inv r' d' pg entries set_frame_pages [of f pg s]
    by (auto simp: bp_inv_def distinct_delete)
  moreover have "ran (pt ?s) = ran (pt s) - {f}"
  proof (intro set_eqI iffI)
    fix g assume "g \<in> ran (pt s) - {f}"
    then obtain q where "pt s q = Some g" "g \<noteq> f" by (auto simp: ran_def)
    with t have "pt ?s q = Some g" by auto
    then show "g \<in> ran (pt ?s)" by (rule ranI)
  qed (use other in \<open>auto simp: ran_def split: if_splits\<close>)
  then have "tracked ?s = tracked s - {f}" "f \<in> tracked s"
    using t e by (auto simp: tracked_def intro: ranI)
  moreover have "page_view ?s q = page_view s q" for q
    using t other [of q] d'(3) by (auto simp: page_view_def split: option.splits)
  moreover have "pt ?s q = Some g \<and> frame ?s g = frame s g"
    if "pt s q = Some g" "0 < pin_count (frame s g)" for q g
    using that other [OF that(1)] t pin by (cases "q = p") auto
  moreover have "pt s q = Some g \<and> frame ?s g = frame s g \<and> page_content (disk ?s) q = page_content (disk s) q"
    if "pt ?s q = Some g" for q g
  proof -
    have "q \<noteq> p" "pt s q = Some g" using that by (auto split: if_splits)
    with other [of q g] d'(3) show ?thesis by simp
  qed
  moreover have "nat f < pool_size ?s" "pool_size ?s = pool_size s" "num_pages (disk ?s) = num_pages (disk s)"
    using e d'(2) inv by (simp_all add: bp_inv_def)
  ultimately show ?thesis
    using e(1) unfolding acquired_def by blast
qed

lemma evict_acquired:
  assumes inv: "bp_inv s fl" and t: "pt s p = Some f" and pin: "pin_count (frame s f) = 0"
    and r': "replacer_ok r'" "capacity r' = capacity (repl s)" "members r' = members (repl s) - {f}"
  shows "\<exists>s'. evict f (s\<lparr>repl := r'\<rparr>) = (Inr (Some f), s') \<and> acquired s s' fl f"
proof -
  note e = bp_inv_entry [OF inv t]
  have rep: "disk_rep (disk s) fl" using inv by (simp add: bp_inv_def)
  have live: "p \<in> live_pages (disk s) fl" and id: "page_id_of (frame s f) = p"
    using e by (auto simp: entry_ok_def)
  note len = bp_inv_data [OF inv t]
  show ?thesis
  proof (cases "is_dirty (frame s f)")
    case True
    obtain d' where d': "WritePage p (data (frame s f)) (disk s) = (Inr (), d')" "disk_rep d' fl"
        "num_pages d' = num_pages (disk s)" "page_content d' = (page_content (disk s))(p := data (frame s f))"
      using dm.wr_live [OF rep live len] by blast
    let ?s = "(set_frame f ((frame s f)\<lparr>is_dirty := False\<rparr>) s)\<lparr>repl := r', disk := d',
           page_table := AList.delete p (page_table s)\<rparr>"
    have "evict f (s\<lparr>repl := r'\<rparr>) = (Inr (Some f), ?s)"
      using True id d'(1) by (simp add: evict_def bind_def on_disk_def set_frame_def)
    moreover have "acquired s ?s fl f"
      by (rule acquired_evict [OF inv t pin r' d'(2-4)]) (simp add: len)
    ultimately show ?thesis by blast
  next
    case False
    let ?s = "(set_frame f (frame s f) s)\<lparr>repl := r', disk := disk s,
           page_table := AList.delete p (page_table s)\<rparr>"
    have same: "page_content (disk s) = (page_content (disk s))(p := data (frame s f))"
      using e pin False by (auto simp: entry_ok_def)
    have "evict f (s\<lparr>repl := r'\<rparr>) = (Inr (Some f), ?s)"
      using False id by (simp add: evict_def set_frame_def frame_def)
    moreover have "acquired s ?s fl f"
      by (rule acquired_evict [OF inv t pin r' rep refl same len])
    ultimately show ?thesis by blast
  qed
qed

lemma acquire_frame_cases:
  assumes inv: "bp_inv s fl"
  obtains (none) "acquire_frame s = (Inr None, s)" "free_list s = []" "evictable s = {}"
  | (some) f s' where "acquire_frame s = (Inr (Some f), s')" "acquired s s' fl f"
proof (cases "free_list s")
  case (Cons f rest)
  then show thesis
    using some acquired_free [OF inv Cons] by (simp add: acquire_frame_def)
next
  case Nil
  have ok: "replacer_ok (repl s)" and mem: "members (repl s) = evictable s"
    using inv by (auto simp: bp_inv_def)
  show thesis
  proof (cases rule: rep.victim_cases [OF ok])
    case 1
    then show thesis using none Nil mem by (simp add: acquire_frame_def)
  next
    case (2 f r')
    then obtain p where p: "pt s p = Some f" "pin_count (frame s f) = 0"
      using mem by (auto simp: evictable_def)
    obtain s' where "evict f (s\<lparr>repl := r'\<rparr>) = (Inr (Some f), s')" "acquired s s' fl f"
      using evict_acquired [OF inv p 2(4,5,3)] by blast
    then show thesis using some Nil 2(1) by (simp add: acquire_frame_def)
  qed
qed

section \<open>Changing one frame\<close>

text \<open>
  Two preservation lemmas carry all operations: \<open>update_entry\<close> changes the frame of a cached
  page in place (hit, unpin, flush, write through a pointer), \<open>attach_entry\<close> caches a page in an
  acquired frame.
\<close>

lemma update_entry:
  assumes inv: "bp_inv s fl" and t: "pt s p = Some f"
    and pg: "page_id_of pg = p" "0 \<le> pin_count pg" "length (data pg) = PAGE_SIZE"
      "pin_count pg = 0 \<and> \<not> is_dirty pg \<longrightarrow> data pg = page_content d' p"
    and r': "replacer_ok r'" "capacity r' = capacity (repl s)"
      "members r' = (if pin_count pg = 0 then insert f (members (repl s)) else members (repl s) - {f})"
    and d': "disk_rep d' fl" "num_pages d' = num_pages (disk s)"
      "\<And>q. q \<in> live_pages (disk s) fl \<Longrightarrow> q \<noteq> p \<Longrightarrow> page_content d' q = page_content (disk s) q"
  shows "bp_inv ((set_frame f pg s)\<lparr>repl := r', disk := d'\<rparr>) fl" (is "bp_inv ?s fl")
proof -
  have e: "0 \<le> f" "nat f < length (pages s)" "entry_ok s fl p f"
    using bp_inv_entry [OF inv t] inv by (auto simp: entry_ok_def bp_inv_def)
  have other: "frame ?s g = frame s g \<and> g \<noteq> f" if "pt s q = Some g" "q \<noteq> p" for q g
    using that bp_inv_inj [OF inv t] entry_frame [OF bp_inv_entry [OF inv that(1)]] e
    by (auto simp: frame_set_frame)
  have here: "frame ?s f = pg" using e by (simp add: frame_set_frame)
  have live: "live_pages d' fl = live_pages (disk s) fl" by (rule live_pages_cong [OF d'(2)])
  have entries: "entry_ok ?s fl q g" if "pt s q = Some g" for q g
  proof (cases "q = p")
    case True
    with that t here e(3) pg live show ?thesis by (auto simp: entry_ok_def)
  next
    case False
    then show ?thesis
      using other [OF that False] bp_inv_entry [OF inv that] d'(3) [of q] live
      by (auto simp: entry_ok_def)
  qed
  have ev: "g \<in> evictable ?s \<longleftrightarrow> (if g = f then pin_count pg = 0 else g \<in> evictable s)" for g
  proof (cases "g = f")
    case True
    then show ?thesis using t here by (auto simp: evictable_def)
  next
    case False
    have "frame ?s g = frame s g" if "pt s q = Some g" for q
      using other [OF that] that t False by (cases "q = p") auto
    then show ?thesis using False by (auto simp: evictable_def)
  qed
  have "members r' = evictable ?s"
    using inv by (simp add: r'(3) bp_inv_def set_eq_iff ev)
  then show ?thesis
    using inv entries pg r' d' set_frame_pages [of f pg s] by (auto simp: bp_inv_def)
qed

lemma attach_entry:
  assumes inv: "bp_inv s fl" and f: "0 \<le> f" "nat f < pool_size s" "f \<notin> tracked s"
    and t: "pt s p = None"
    and pg: "page_id_of pg = p" "pin_count pg = 1" "length (data pg) = PAGE_SIZE"
    and d': "disk_rep d' fl'" "live_pages (disk s) fl \<subseteq> live_pages d' fl'" "p \<in> live_pages d' fl'"
      "\<And>q. q \<in> live_pages (disk s) fl \<Longrightarrow> page_content d' q = page_content (disk s) q"
  shows "bp_inv ((set_frame f pg s)\<lparr>disk := d', page_table := AList.update p f (page_table s),
           repl := Pin f (repl s)\<rparr>) fl'" (is "bp_inv ?s fl'")
proof -
  have len: "nat f < length (pages s)" using f inv by (simp add: bp_inv_def)
  have nf: "f \<notin> set (free_list s)" "\<And>q. pt s q \<noteq> Some f"
    using f(3) by (auto simp: tracked_def ran_def)
  have other: "frame ?s g = frame s g \<and> g \<noteq> f" if "pt s q = Some g" for q g
    using that nf entry_frame [OF bp_inv_entry [OF inv that]] f len by (auto simp: frame_set_frame)
  have here: "frame ?s f = pg" using f len by (simp add: frame_set_frame)
  have entries: "entry_ok ?s fl' q g" if g: "((pt s)(p \<mapsto> f)) q = Some g" for q g
  proof (cases "q = p")
    case True
    with g here f nf pg d'(3) show ?thesis by (auto simp: entry_ok_def)
  next
    case False
    with g have q: "pt s q = Some g" by simp
    show ?thesis
      using other [OF q] bp_inv_entry [OF inv q] d'(2) d'(4) [of q] by (auto simp: entry_ok_def)
  qed
  have ok: "replacer_ok (repl s)" "members (repl s) = evictable s" "pool_size s \<le> capacity (repl s)"
    using inv by (auto simp: bp_inv_def)
  have "evictable ?s = evictable s"
  proof (intro set_eqI iffI)
    fix g assume "g \<in> evictable ?s"
    then obtain q where q: "((pt s)(p \<mapsto> f)) q = Some g" "pin_count (frame ?s g) = 0"
      by (auto simp: evictable_def)
    have "q \<noteq> p" using q here pg(2) by auto
    with q other [of q g] show "g \<in> evictable s" by (auto simp: evictable_def)
  next
    fix g assume "g \<in> evictable s"
    then obtain q where "pt s q = Some g" "pin_count (frame s g) = 0" by (auto simp: evictable_def)
    moreover from this have "q \<noteq> p" using t by auto
    ultimately show "g \<in> evictable ?s"
      using other [of q g] by (auto simp: evictable_def intro!: exI [of _ q])
  qed
  moreover have "f \<notin> evictable s" using nf by (auto simp: evictable_def)
  ultimately have "members (Pin f (repl s)) = evictable ?s"
    using ok by (simp add: rep.elems_pin)
  then show ?thesis
    using inv entries pg d'(1) ok set_frame_pages [of f pg s]
    by (auto simp: bp_inv_def distinct_update rep.ok_pin rep.cap_pin)
qed

section \<open>The operations under the invariant\<close>

text \<open>\<open>keeps_pinned s s' p\<close>: every pinned page other than \<open>p\<close> stays in its frame, untouched.\<close>

definition keeps_pinned :: "buffer_pool \<Rightarrow> buffer_pool \<Rightarrow> page_id \<Rightarrow> bool" where
  "keeps_pinned s s' p \<longleftrightarrow>
     (\<forall>q g. q \<noteq> p \<and> pt s q = Some g \<and> 0 < pin_count (frame s g) \<longrightarrow>
            pt s' q = Some g \<and> frame s' g = frame s g)"

lemma FetchPage_hit:
  assumes inv: "bp_inv s fl" and t: "pt s p = Some f"
  shows "\<exists>s'. FetchPage p s = (Inr (Some f), s') \<and> bp_inv s' fl \<and> pt s' = pt s \<and>
          frame s' f = (frame s f)\<lparr>pin_count := pin_count (frame s f) + 1\<rparr> \<and>
          (\<forall>q g. q \<noteq> p \<and> pt s q = Some g \<longrightarrow> frame s' g = frame s g) \<and>
          disk s' = disk s \<and> free_list s' = free_list s \<and> pool_size s' = pool_size s"
proof -
  note e = bp_inv_entry [OF inv t]
  let ?pg = "(frame s f)\<lparr>pin_count := pin_count (frame s f) + 1\<rparr>"
  let ?s = "(set_frame f ?pg s)\<lparr>repl := Pin f (repl s)\<rparr>"
  have ok: "replacer_ok (repl s)" "disk_rep (disk s) fl" "nat f < length (pages s)"
    using inv e by (auto simp: bp_inv_def entry_ok_def)
  have "bp_inv ((set_frame f ?pg s)\<lparr>repl := Pin f (repl s), disk := disk s\<rparr>) fl"
    using e bp_inv_data [OF inv t] ok
    by (intro update_entry [OF inv t]) (auto simp: entry_ok_def rep.contract_simps)
  then have "bp_inv ?s fl" by simp
  moreover have "FetchPage p s = (Inr (Some f), ?s)"
    using t e below_not_INVALID by (auto simp: FetchPage_def entry_ok_def live_pages_def)
  moreover have "frame ?s g = frame s g" if "q \<noteq> p" "pt s q = Some g" for q g
    using that bp_inv_inj [OF inv t] entry_frame [OF bp_inv_entry [OF inv that(2)]]
      entry_frame [OF e] ok(3) by (auto simp: frame_set_frame)
  ultimately show ?thesis
    using entry_frame [OF e] ok(3) by (intro exI [of _ ?s]) (auto simp: frame_set_frame)
qed

lemma FetchPage_miss:
  assumes inv: "bp_inv s fl" and live: "p \<in> live_pages (disk s) fl" and t: "pt s p = None"
    and acq: "acquire_frame s = (Inr (Some f), s1)" "acquired s s1 fl f"
  shows "\<exists>s'. FetchPage p s = (Inr (Some f), s') \<and> bp_inv s' fl \<and> pt s' = (pt s1)(p \<mapsto> f) \<and>
          frame s' f = \<lparr>data = page_view s p, page_id_of = p, pin_count = 1, is_dirty = False\<rparr> \<and>
          (\<forall>q g. pt s1 q = Some g \<longrightarrow> frame s' g = frame s1 g) \<and>
          disk s' = disk s1 \<and> free_list s' = free_list s1 \<and> pool_size s' = pool_size s"
proof -
  have inv1: "bp_inv s1 fl" and f: "0 \<le> f" "nat f < pool_size s1" "f \<notin> tracked s1"
    and t1: "pt s1 p = None" and n: "num_pages (disk s1) = num_pages (disk s)" "pool_size s1 = pool_size s"
    and view: "page_view s1 p = page_view s p"
    by (fact acquiredD [OF acq(2)] acquired_uncached [OF acq(2) t] acquired_view [OF acq(2) live])+
  have live1: "p \<in> live_pages (disk s1) fl" using live n by (simp add: live_pages_def)
  have rep: "disk_rep (disk s1) fl" using inv1 by (simp add: bp_inv_def)
  have p: "p < num_pages (disk s1)" using live1 by (simp add: live_pages_def)
  let ?c = "page_content (disk s1) p"
  have c: "?c = page_view s p" using view t1 by (simp add: page_view_def)
  let ?pg = "\<lparr>data = ?c, page_id_of = p, pin_count = 1, is_dirty = False\<rparr>"
  let ?s = "(set_frame f ?pg s1)\<lparr>disk := disk s1, page_table := AList.update p f (page_table s1),
           repl := Pin f (repl s1)\<rparr>"
  have len: "nat f < length (pages s1)" using f inv1 by (simp add: bp_inv_def)
  have "load_page p f s1 = (Inr (Some f), ?s)"
    using dm.rd_ok [OF rep p] len
    by (simp add: load_page_def on_disk_apply bind_def ResetMemory_def frame_def set_frame_def)
  then have "FetchPage p s = (Inr (Some f), ?s)"
    using t acq(1) below_not_INVALID [OF p] by (simp add: FetchPage_def)
  moreover have "bp_inv ?s fl"
    using dm.content_length [OF rep p] rep live1 by (intro attach_entry [OF inv1 f t1]) auto
  moreover have "frame ?s g = frame s1 g" if "pt s1 q = Some g" for q g
    using that f len entry_frame [OF bp_inv_entry [OF inv1 that]]
    by (auto simp: frame_set_frame tracked_def ran_def)
  ultimately show ?thesis
    using f len n(2) c by (intro exI [of _ ?s]) (simp add: frame_set_frame)
qed

lemma FetchPage_full:
  assumes "pt s p = None" "acquire_frame s = (Inr None, s)"
  shows "FetchPage p s = (Inr None, s)"
  using assms by (simp add: FetchPage_def)

lemma FetchPage_out_of_range:
  assumes inv: "bp_inv s fl" and p: "num_pages (disk s) \<le> p" "p \<noteq> INVALID_PAGE_ID"
    and acq: "acquire_frame s = (Inr (Some f), s1)" "acquired s s1 fl f"
  shows "\<exists>s'. FetchPage p s = (Inl (OutOfRange ''ReadPage page_id out of bounds''), s') \<and>
          pt s' = pt s1 \<and> (\<forall>q g. pt s1 q = Some g \<longrightarrow> frame s' g = frame s1 g) \<and>
          disk s' = disk s1 \<and> free_list s' = free_list s1 \<and> pool_size s' = pool_size s \<and> bp_inv s' fl"
proof -
  have inv1: "bp_inv s1 fl" and f: "0 \<le> f" "nat f < pool_size s1" "f \<notin> tracked s1"
    and n: "num_pages (disk s1) = num_pages (disk s)" "pool_size s1 = pool_size s"
    by (fact acquiredD [OF acq(2)])+
  have t: "pt s p = None"
    using bp_inv_entry [OF inv, of p] p(1) by (cases "pt s p") (auto simp: entry_ok_def live_pages_def)
  have len: "nat f < length (pages s1)" using f inv1 by (simp add: bp_inv_def)
  let ?s = "set_frame f (ResetMemory\<lparr>page_id_of := p, pin_count := 1\<rparr>) s1"
  have same: "frame ?s g = frame s1 g" if "pt s1 q = Some g" for q g
    using that f len entry_frame [OF bp_inv_entry [OF inv1 that]]
    by (auto simp: frame_set_frame tracked_def ran_def)
  have "load_page p f s1 = (Inl (OutOfRange ''ReadPage page_id out of bounds''), ?s)"
    using dm.rd_range [of "disk s1" p] p(1) n(1)
    by (simp add: load_page_def on_disk_apply bind_def set_frame_def)
  then have "FetchPage p s = (Inl (OutOfRange ''ReadPage page_id out of bounds''), ?s)"
    using t acq(1) p(2) by (simp add: FetchPage_def)
  moreover have "bp_inv ?s fl"
  proof -
    have "evictable ?s = evictable s1" using same by (auto simp: evictable_def)
    moreover have "entry_ok ?s fl q g" if "pt s1 q = Some g" for q g
      using same [OF that] bp_inv_entry [OF inv1 that] by (simp add: entry_ok_def)
    ultimately show ?thesis
      using inv1 set_frame_pages [of f "ResetMemory\<lparr>page_id_of := p, pin_count := 1\<rparr>" s1]
      by (auto simp: bp_inv_def ResetMemory_def)
  qed
  ultimately show ?thesis using same n(2) by (intro exI [of _ ?s]) simp
qed

lemma NewPage_ok:
  assumes inv: "bp_inv s fl" and room: "fl \<noteq> [] \<or> num_pages (disk s) \<noteq> INVALID_PAGE_ID"
    and acq: "acquire_frame s = (Inr (Some f), s1)" "acquired s s1 fl f"
  shows "\<exists>p s'. NewPage s = (Inr (p, Some f), s') \<and> bp_inv s' (tl fl) \<and>
          p \<notin> live_pages (disk s) fl \<and> p \<noteq> 0 \<and> p \<noteq> INVALID_PAGE_ID \<and>
          live_pages (disk s') (tl fl) = insert p (live_pages (disk s) fl) \<and>
          pt s1 p = None \<and> pt s' = (pt s1)(p \<mapsto> f) \<and>
          frame s' f = \<lparr>data = zero_page, page_id_of = p, pin_count = 1, is_dirty = False\<rparr> \<and>
          (\<forall>q g. pt s1 q = Some g \<longrightarrow> frame s' g = frame s1 g) \<and>
          (\<forall>q \<in> live_pages (disk s) fl. page_content (disk s') q = page_content (disk s1) q) \<and>
          free_list s' = free_list s1 \<and> pool_size s' = pool_size s"
proof -
  have inv1: "bp_inv s1 fl" and f: "0 \<le> f" "nat f < pool_size s1" "f \<notin> tracked s1"
    and n: "num_pages (disk s1) = num_pages (disk s)" "pool_size s1 = pool_size s"
    by (fact acquiredD [OF acq(2)])+
  have live1: "live_pages (disk s1) fl = live_pages (disk s) fl" by (rule live_pages_cong [OF n(1)])
  have rep1: "disk_rep (disk s1) fl" using inv1 by (simp add: bp_inv_def)
  have room1: "fl \<noteq> [] \<or> num_pages (disk s1) \<noteq> INVALID_PAGE_ID" using room n by simp
  obtain p d' where d': "AllocatePage (disk s1) = (Inr p, d')" "disk_rep d' (tl fl)"
      "p \<notin> live_pages (disk s1) fl" "p \<noteq> 0" "p < num_pages d'"
      "live_pages d' (tl fl) = insert p (live_pages (disk s1) fl)"
      "\<And>q. q \<in> live_pages (disk s1) fl \<Longrightarrow> page_content d' q = page_content (disk s1) q"
    by (rule dm.alloc_fresh [OF rep1 room1]) blast
  have t1: "pt s1 p = None"
    using bp_inv_entry [OF inv1, of p] d'(3) by (cases "pt s1 p") (auto simp: entry_ok_def)
  let ?pg = "\<lparr>data = zero_page, page_id_of = p, pin_count = 1, is_dirty = False\<rparr>"
  let ?s = "(set_frame f ?pg s1)\<lparr>disk := d', page_table := AList.update p f (page_table s1),
           repl := Pin f (repl s1)\<rparr>"
  have len: "nat f < length (pages s1)" using f inv1 by (simp add: bp_inv_def)
  have "NewPage s = (Inr (p, Some f), ?s)"
    using acq(1) d'(1)
    by (simp add: NewPage_def on_disk_apply install_page_def ResetMemory_def set_frame_def)
  moreover have "bp_inv ?s (tl fl)"
    using d' by (intro attach_entry [OF inv1 f t1]) auto
  moreover have "frame ?s g = frame s1 g" if "pt s1 q = Some g" for q g
    using that f len entry_frame [OF bp_inv_entry [OF inv1 that]]
    by (auto simp: frame_set_frame tracked_def ran_def)
  ultimately show ?thesis
    using f len n(2) d' live1 t1 below_not_INVALID [OF d'(5)]
    by (intro exI [of _ p] exI [of _ ?s]) (auto simp: frame_set_frame)
qed

lemma NewPage_full:
  "acquire_frame s = (Inr None, s) \<Longrightarrow> NewPage s = (Inr (INVALID_PAGE_ID, None), s)"
  by (simp add: NewPage_def)

text \<open>The contract of \<open>UnpinPage\<close>: a page whose bytes differ from disk is declared dirty.\<close>

definition unpin_honest :: "buffer_pool \<Rightarrow> page_id \<Rightarrow> bool \<Rightarrow> bool" where
  "unpin_honest s p dirty \<longleftrightarrow>
     (case pt s p of
        None \<Rightarrow> True
      | Some f \<Rightarrow> dirty \<or> is_dirty (frame s f) \<or> 1 < pin_count (frame s f) \<or>
                  data (frame s f) = page_content (disk s) p)"

lemma UnpinPage_ok:
  assumes inv: "bp_inv s fl" and t: "pt s p = Some f" and pin: "0 < pin_count (frame s f)"
    and honest: "unpin_honest s p dirty"
  shows "\<exists>s'. UnpinPage p dirty s = (Inr True, s') \<and> bp_inv s' fl \<and> pt s' = pt s \<and>
          frame s' f = (frame s f)\<lparr>pin_count := pin_count (frame s f) - 1,
                                   is_dirty := is_dirty (frame s f) \<or> dirty\<rparr> \<and>
          (\<forall>q g. q \<noteq> p \<and> pt s q = Some g \<longrightarrow> frame s' g = frame s g) \<and>
          disk s' = disk s \<and> free_list s' = free_list s \<and> pool_size s' = pool_size s"
proof -
  note e = bp_inv_entry [OF inv t]
  define pg where "pg = (frame s f)\<lparr>pin_count := pin_count (frame s f) - 1,
                                   is_dirty := is_dirty (frame s f) \<or> dirty\<rparr>"
  define r' where "r' = (if pin_count pg = 0 then Unpin f (repl s) else repl s)"
  let ?s = "(set_frame f pg s)\<lparr>repl := r'\<rparr>"
  have ok: "replacer_ok (repl s)" "disk_rep (disk s) fl" "nat f < length (pages s)"
      "pool_size s \<le> capacity (repl s)" "members (repl s) = evictable s"
    using inv e by (auto simp: bp_inv_def entry_ok_def)
  have nf: "f \<notin> members (repl s)"
    using ok(5) pin evictable_iff [OF inv t] by simp
  have r': "replacer_ok r'" "capacity r' = capacity (repl s)"
      "members r' = (if pin_count pg = 0 then insert f (members (repl s)) else members (repl s) - {f})"
    using ok e nf by (auto simp: r'_def rep.contract_simps entry_ok_def)
  have "bp_inv ((set_frame f pg s)\<lparr>repl := r', disk := disk s\<rparr>) fl"
    using e bp_inv_data [OF inv t] ok(2) pin honest r' t
    by (intro update_entry [OF inv t]) (auto simp: entry_ok_def pg_def unpin_honest_def)
  then have "bp_inv ?s fl" by simp
  moreover have "UnpinPage p dirty s = (Inr True, ?s)"
  proof -
    have "(if dirty then (frame s f)\<lparr>is_dirty := True\<rparr> else frame s f)
            \<lparr>pin_count := pin_count (frame s f) - 1\<rparr> = pg"
      by (cases "frame s f") (simp add: pg_def)
    then show ?thesis
      using t pin by (cases dirty; cases "pin_count pg = 0") (auto simp: UnpinPage_def Let_def r'_def)
  qed
  moreover have "frame ?s g = frame s g" if "q \<noteq> p" "pt s q = Some g" for q g
    using that bp_inv_inj [OF inv t] entry_frame [OF bp_inv_entry [OF inv that(2)]]
      entry_frame [OF e] ok(3) by (auto simp: frame_set_frame)
  ultimately show ?thesis
    using entry_frame [OF e] ok(3) by (intro exI [of _ ?s]) (auto simp: frame_set_frame pg_def)
qed

lemma UnpinPage_refused:
  "pt s p = None \<or> (\<exists>f. pt s p = Some f \<and> pin_count (frame s f) \<le> 0) \<Longrightarrow>
   UnpinPage p dirty s = (Inr False, s)"
  by (auto simp: UnpinPage_def)

lemma put_data_ok:
  assumes inv: "bp_inv s fl" and t: "pt s p = Some f" and pin: "0 < pin_count (frame s f)"
    and len: "length bs = PAGE_SIZE"
  shows "bp_inv (put_data f bs s) fl \<and> pt (put_data f bs s) = pt s \<and>
         frame (put_data f bs s) f = (frame s f)\<lparr>data := bs\<rparr> \<and>
         (\<forall>q g. q \<noteq> p \<and> pt s q = Some g \<longrightarrow> frame (put_data f bs s) g = frame s g) \<and>
         disk (put_data f bs s) = disk s \<and> free_list (put_data f bs s) = free_list s \<and>
         pool_size (put_data f bs s) = pool_size s"
proof -
  note e = bp_inv_entry [OF inv t]
  let ?pg = "(frame s f)\<lparr>data := bs\<rparr>"
  have ok: "replacer_ok (repl s)" "disk_rep (disk s) fl" "nat f < length (pages s)"
      "members (repl s) = evictable s"
    using inv e by (auto simp: bp_inv_def entry_ok_def)
  have "f \<notin> members (repl s)" using ok(4) pin evictable_iff [OF inv t] by simp
  then have "bp_inv ((set_frame f ?pg s)\<lparr>repl := repl s, disk := disk s\<rparr>) fl"
    using e ok pin len by (intro update_entry [OF inv t]) (auto simp: entry_ok_def)
  moreover have "(set_frame f ?pg s)\<lparr>repl := repl s, disk := disk s\<rparr> = put_data f bs s"
    by (simp add: put_data_def set_frame_def)
  moreover have "frame (set_frame f ?pg s) g = frame s g" if "q \<noteq> p" "pt s q = Some g" for q g
    using that bp_inv_inj [OF inv t] entry_frame [OF bp_inv_entry [OF inv that(2)]]
      entry_frame [OF e] ok(3) by (auto simp: frame_set_frame)
  ultimately show ?thesis
    using entry_frame [OF e] ok(3) by (auto simp: put_data_def frame_set_frame)
qed

lemma flush_frame_ok:
  assumes inv: "bp_inv s fl" and t: "pt s p = Some f"
  shows "\<exists>s'. flush_frame f s = (Inr (), s') \<and> bp_inv s' fl \<and> pt s' = pt s \<and>
          page_table s' = page_table s \<and>
          frame s' f = (frame s f)\<lparr>is_dirty := False\<rparr> \<and>
          (\<forall>q g. q \<noteq> p \<and> pt s q = Some g \<longrightarrow> frame s' g = frame s g) \<and>
          num_pages (disk s') = num_pages (disk s) \<and>
          page_content (disk s') = (if is_dirty (frame s f)
             then (page_content (disk s))(p := data (frame s f)) else page_content (disk s)) \<and>
          free_list s' = free_list s \<and> pool_size s' = pool_size s"
proof (cases "is_dirty (frame s f)")
  case False
  then have "(frame s f)\<lparr>is_dirty := False\<rparr> = frame s f" by (cases "frame s f") simp
  with False inv show ?thesis by (intro exI [of _ s]) (simp add: flush_frame_def)
next
  case True
  note e = bp_inv_entry [OF inv t]
  have ok: "replacer_ok (repl s)" "disk_rep (disk s) fl" "nat f < length (pages s)"
      "members (repl s) = evictable s" "p \<in> live_pages (disk s) fl" "page_id_of (frame s f) = p"
    using inv e by (auto simp: bp_inv_def entry_ok_def)
  obtain d' where d': "WritePage p (data (frame s f)) (disk s) = (Inr (), d')" "disk_rep d' fl"
      "num_pages d' = num_pages (disk s)" "page_content d' = (page_content (disk s))(p := data (frame s f))"
    using dm.wr_live [OF ok(2,5) bp_inv_data [OF inv t]] by blast
  let ?pg = "(frame s f)\<lparr>is_dirty := False\<rparr>"
  let ?s = "(set_frame f ?pg s)\<lparr>disk := d'\<rparr>"
  have m: "members (repl s) =
      (if pin_count ?pg = 0 then insert f (members (repl s)) else members (repl s) - {f})"
    using ok(4) evictable_iff [OF inv t] by auto
  have "bp_inv ((set_frame f ?pg s)\<lparr>repl := repl s, disk := d'\<rparr>) fl"
    using e d' ok m bp_inv_data [OF inv t]
    by (intro update_entry [OF inv t]) (auto simp: entry_ok_def)
  moreover have "flush_frame f s = (Inr (), ?s)"
    using True d'(1) ok(6) by (simp add: flush_frame_def on_disk_apply set_frame_def)
  moreover have "frame ?s g = frame s g" if "q \<noteq> p" "pt s q = Some g" for q g
    using that bp_inv_inj [OF inv t] entry_frame [OF bp_inv_entry [OF inv that(2)]]
      entry_frame [OF e] ok(3) by (auto simp: frame_set_frame)
  ultimately show ?thesis
    using entry_frame [OF e] ok(3) d' True by (intro exI [of _ ?s]) (auto simp: frame_set_frame)
qed

text \<open>Flushing a part of the page table: exactly its pages are written back.\<close>

lemma flush_entries_ok:
  assumes "bp_inv s fl" "set es \<subseteq> set (page_table s)"
  shows "\<exists>s'. flush_entries es s = (Inr (), s') \<and> bp_inv s' fl \<and> page_table s' = page_table s \<and>
          num_pages (disk s') = num_pages (disk s) \<and> free_list s' = free_list s \<and>
          pool_size s' = pool_size s \<and>
          (\<forall>q g. pt s q = Some g \<longrightarrow>
             frame s' g = (frame s g)\<lparr>is_dirty := is_dirty (frame s g) \<and> (q, g) \<notin> set es\<rparr> \<and>
             page_content (disk s') q =
               (if is_dirty (frame s g) \<and> (q, g) \<in> set es then data (frame s g)
                else page_content (disk s) q)) \<and>
          (\<forall>q. pt s q = None \<longrightarrow> page_content (disk s') q = page_content (disk s) q)"
  using assms
proof (induction es arbitrary: s)
  case Nil
  have "pg\<lparr>is_dirty := is_dirty pg\<rparr> = pg" for pg :: page by simp
  with Nil show ?case by (intro exI [of _ s]) simp
next
  case (Cons x es)
  obtain p f where x: "x = (p, f)" by (cases x)
  have d: "distinct (map fst (page_table s))" using Cons.prems(1) by (simp add: bp_inv_def)
  have t: "pt s p = Some f" using Cons.prems(2) d by (simp add: x pt_def)
  obtain s1 where s1: "flush_frame f s = (Inr (), s1)" "bp_inv s1 fl" "pt s1 = pt s"
      "page_table s1 = page_table s" "frame s1 f = (frame s f)\<lparr>is_dirty := False\<rparr>"
      "\<forall>q g. q \<noteq> p \<and> pt s q = Some g \<longrightarrow> frame s1 g = frame s g"
      "num_pages (disk s1) = num_pages (disk s)"
      "page_content (disk s1) = (if is_dirty (frame s f)
             then (page_content (disk s))(p := data (frame s f)) else page_content (disk s))"
      "free_list s1 = free_list s" "pool_size s1 = pool_size s"
    using flush_frame_ok [OF Cons.prems(1) t] by blast
  have "set es \<subseteq> set (page_table s1)" using Cons.prems(2) s1(4) by simp
  from Cons.IH [OF s1(2) this] obtain s2 where s2: "flush_entries es s1 = (Inr (), s2)"
      "bp_inv s2 fl" "page_table s2 = page_table s1" "num_pages (disk s2) = num_pages (disk s1)"
      "free_list s2 = free_list s1" "pool_size s2 = pool_size s1"
      "\<forall>q g. pt s1 q = Some g \<longrightarrow>
             frame s2 g = (frame s1 g)\<lparr>is_dirty := is_dirty (frame s1 g) \<and> (q, g) \<notin> set es\<rparr> \<and>
             page_content (disk s2) q =
               (if is_dirty (frame s1 g) \<and> (q, g) \<in> set es then data (frame s1 g)
                else page_content (disk s1) q)"
      "\<forall>q. pt s1 q = None \<longrightarrow> page_content (disk s2) q = page_content (disk s1) q"
    by blast
  have "frame s2 g = (frame s g)\<lparr>is_dirty := is_dirty (frame s g) \<and> (q, g) \<notin> set (x # es)\<rparr> \<and>
        page_content (disk s2) q =
          (if is_dirty (frame s g) \<and> (q, g) \<in> set (x # es) then data (frame s g)
           else page_content (disk s) q)" if q: "pt s q = Some g" for q g
  proof (cases "q = p")
    case True
    with q t have "g = f" by simp
    with True s2(7) [rule_format, of p f] t s1(3,5,8) show ?thesis by (auto simp: x)
  next
    case False
    with s2(7) [rule_format, of q g] s1(3,6,8) q show ?thesis by (auto simp: x)
  qed
  moreover have "page_content (disk s2) q = page_content (disk s) q" if "pt s q = None" for q
    using that s2(8) s1(3,8) t by auto
  moreover have "flush_entries (x # es) s = (Inr (), s2)"
    using s1(1) s2(1) by (simp add: x)
  ultimately show ?case
    using s1 s2(2-6) by (intro exI [of _ s2]) simp
qed

lemma DeletePage_pinned:
  "pt s p = Some f \<Longrightarrow> 0 < pin_count (frame s f) \<Longrightarrow> DeletePage p s = (Inr False, s)"
  by (simp add: DeletePage_def)

lemma DeletePage_uncached:
  assumes inv: "bp_inv s fl" and live: "p \<in> live_pages (disk s) fl" and t: "pt s p = None"
  shows "\<exists>s'. DeletePage p s = (Inr True, s') \<and> bp_inv s' (p # fl) \<and> pt s' = pt s \<and>
          live_pages (disk s') (p # fl) = live_pages (disk s) fl - {p} \<and>
          (\<forall>g. frame s' g = frame s g) \<and>
          (\<forall>q. q \<noteq> 0 \<and> q \<noteq> p \<longrightarrow> page_content (disk s') q = page_content (disk s) q) \<and>
          tracked s' = tracked s \<and> pool_size s' = pool_size s"
proof -
  have rep: "disk_rep (disk s) fl" using inv by (simp add: bp_inv_def)
  note de = dm.dealloc_live [OF rep live]
  let ?s = "s\<lparr>disk := DeallocatePage p (disk s)\<rparr>"
  have entries: "entry_ok ?s (p # fl) q g" if q: "pt s q = Some g" for q g
  proof -
    have "q \<noteq> p" using q t by auto
    moreover have "q \<noteq> 0" using bp_inv_entry [OF inv q] by (auto simp: entry_ok_def live_pages_def)
    ultimately show ?thesis
      using bp_inv_entry [OF inv q] de(3) de(4) [of q] by (auto simp: entry_ok_def)
  qed
  have "bp_inv ?s (p # fl)"
    using inv de(1) entries by (auto simp: bp_inv_def evictable_def)
  then show ?thesis
    using t de by (intro exI [of _ ?s]) (simp add: DeletePage_def tracked_def)
qed

lemma DeletePage_cached:
  assumes inv: "bp_inv s fl" and t: "pt s p = Some f" and pin: "\<not> 0 < pin_count (frame s f)"
  shows "\<exists>s'. DeletePage p s = (Inr True, s') \<and> bp_inv s' (p # fl) \<and> pt s' = (pt s)(p := None) \<and>
          live_pages (disk s') (p # fl) = live_pages (disk s) fl - {p} \<and>
          (\<forall>q g. q \<noteq> p \<and> pt s q = Some g \<longrightarrow> frame s' g = frame s g) \<and>
          (\<forall>q. q \<noteq> 0 \<and> q \<noteq> p \<longrightarrow> page_content (disk s') q = page_content (disk s) q) \<and>
          tracked s' = tracked s \<and> pool_size s' = pool_size s"
proof -
  note e = bp_inv_entry [OF inv t]
  have ok: "replacer_ok (repl s)" "disk_rep (disk s) fl" "members (repl s) = evictable s"
      "0 \<le> f" "nat f < pool_size s" "nat f < length (pages s)" "f \<notin> set (free_list s)"
      "p \<in> live_pages (disk s) fl"
    using inv e by (auto simp: bp_inv_def entry_ok_def)
  note de = dm.dealloc_live [OF ok(2,8)]
  let ?s = "(set_frame f ResetMemory s)\<lparr>repl := Pin f (repl s),
      page_table := AList.delete p (page_table s), free_list := free_list s @ [f],
      disk := DeallocatePage p (disk s)\<rparr>"
  have other: "frame ?s g = frame s g \<and> g \<noteq> f" if "pt s q = Some g" "q \<noteq> p" for q g
    using that bp_inv_inj [OF inv t] entry_frame [OF bp_inv_entry [OF inv that(1)]] ok
    by (auto simp: frame_set_frame)
  have entries: "entry_ok ?s (p # fl) q g" if "pt ?s q = Some g" for q g
  proof -
    have q: "pt s q = Some g" "q \<noteq> p" using that by (auto split: if_splits)
    moreover have "q \<noteq> 0" using bp_inv_entry [OF inv q(1)] by (auto simp: entry_ok_def live_pages_def)
    ultimately show ?thesis
      using other [OF q] bp_inv_entry [OF inv q(1)] de(3) de(4) [of q] by (auto simp: entry_ok_def)
  qed
  have ev: "evictable ?s = evictable s - {f}"
  proof (intro set_eqI iffI)
    fix g assume "g \<in> evictable ?s"
    then obtain q where "pt s q = Some g" "q \<noteq> p" "pin_count (frame ?s g) = 0"
      by (auto simp: evictable_def split: if_splits)
    then show "g \<in> evictable s - {f}" using other [of q g] by (auto simp: evictable_def)
  next
    fix g assume "g \<in> evictable s - {f}"
    then obtain q where "pt s q = Some g" "g \<noteq> f" "pin_count (frame s g) = 0"
      by (auto simp: evictable_def)
    moreover from this t have "q \<noteq> p" by auto
    ultimately show "g \<in> evictable ?s" using other [of q g] by (auto simp: evictable_def)
  qed
  have "bp_inv ?s (p # fl)"
    unfolding bp_inv_def
  proof (intro conjI)
    show "\<forall>q g. pt ?s q = Some g \<longrightarrow> entry_ok ?s (p # fl) q g" using entries by blast
    show "\<forall>pg \<in> set (pages ?s). length (data pg) = PAGE_SIZE"
      using inv set_frame_pages [of f ResetMemory s] by (auto simp: bp_inv_def ResetMemory_def)
    show "members (repl ?s) = evictable ?s" unfolding ev using ok by (simp add: rep.elems_pin)
  qed (use inv de(1) ok in \<open>auto simp: bp_inv_def distinct_delete rep.contract_simps\<close>)
  moreover have r: "insert f (ran ((pt s)(p := None))) = ran (pt s)"
    by (rule ran_delete_insert [of "pt s", OF t])
  have "tracked ?s = set (free_list s) \<union> insert f (ran ((pt s)(p := None)))"
    by (simp add: tracked_def)
  then have "tracked ?s = tracked s"
    unfolding r tracked_def .
  moreover have "DeletePage p s = (Inr True, ?s)"
    using t pin by (simp add: DeletePage_def)
  ultimately show ?thesis
    using other de by (intro exI [of _ ?s]) auto
qed

lemma bp_inv_new:
  assumes "disk_rep d fl" "replacer_ok r" "n \<le> capacity r" "members r = {}"
  shows "bp_inv (BufferPoolManager_new n d r) fl \<and> no_leak (BufferPoolManager_new n d r)"
proof -
  let ?s = "BufferPoolManager_new n d r"
  have t: "pt ?s p = None" for p by (simp add: BufferPoolManager_new_def pt_def)
  have "bp_inv ?s fl"
    using assms t
    by (auto simp: bp_inv_def evictable_def t) (auto simp: BufferPoolManager_new_def ResetMemory_def distinct_map)
  moreover have "tracked ?s = int ` {0..<n}"
    using t by (auto simp: tracked_def ran_def) (simp_all add: BufferPoolManager_new_def)
  ultimately show ?thesis
    by (auto simp: no_leak_def BufferPoolManager_new_def image_iff) (metis nat_less_iff zero_le int_nat_eq atLeastLessThan_iff)
qed

end
