(* ===== verification/Buffer_Pool_Spec.thy ===== *)
theory Buffer_Pool_Spec
  imports Buffer_Pool
begin

text \<open>
  What the buffer pool promises. The specification knows no frames, no disk and no replacer: a
  pool is a partial map from live page ids to their bytes together with the number of pins of
  every page. \<open>pool_sim\<close> shows that every operation, used within its contract
  (\<open>allowed\<close>), implements the corresponding step of the specification; the step relation
  \<open>pool_reach\<close> lifts it to all histories of a fresh pool. Outside the contract, the
  exception path of \<open>FetchPage\<close> is shown to lose a frame for good.
\<close>

section \<open>Specification\<close>

record pool_spec =
  contents :: "page_id \<rightharpoonup> byte list"
  pins :: "page_id \<Rightarrow> int"

definition pin_counts :: "buffer_pool \<Rightarrow> page_id \<Rightarrow> int" where
  "pin_counts s p = (case pt s p of None \<Rightarrow> 0 | Some f \<Rightarrow> pin_count (frame s f))"

definition pool_abs :: "buffer_pool \<Rightarrow> page_id list \<Rightarrow> pool_spec" where
  "pool_abs s fl = \<lparr>contents = pool_store s fl, pins = pin_counts s\<rparr>"

datatype pool_op =
    Fetch page_id
  | Unpin_op page_id bool
  | New
  | Delete page_id
  | Put page_id "byte list"
  | Flush page_id
  | FlushAll

datatype pool_res = RPage "frame_id option" | RNew page_id "frame_id option" | RBool bool | RUnit

fun exec_op :: "pool_op \<Rightarrow> (buffer_pool, pool_res) comp" where
  "exec_op (Fetch p) = bind (FetchPage p) (\<lambda>r. ret (RPage r))"
| "exec_op (Unpin_op p b) = bind (UnpinPage p b) (\<lambda>r. ret (RBool r))"
| "exec_op New = bind NewPage (\<lambda>(p, r). ret (RNew p r))"
| "exec_op (Delete p) = bind (DeletePage p) (\<lambda>r. ret (RBool r))"
| "exec_op (Put p bs) = (\<lambda>s. case pt s p of
     None \<Rightarrow> (Inl NullDeref, s) | Some f \<Rightarrow> (Inr RUnit, put_data f bs s))"
| "exec_op (Flush p) = bind (FlushPage p) (\<lambda>r. ret (RBool r))"
| "exec_op FlushAll = bind FlushAllPages (\<lambda>_. ret RUnit)"

text \<open>What a caller owes: it names live pages, and stores only through pages it has pinned.\<close>

fun allowed :: "buffer_pool \<Rightarrow> page_id list \<Rightarrow> pool_op \<Rightarrow> bool" where
  "allowed s fl (Fetch p) \<longleftrightarrow> p \<in> live_pages (disk s) fl"
| "allowed s fl (Unpin_op p b) \<longleftrightarrow> unpin_honest s p b"
| "allowed s fl New \<longleftrightarrow> fl \<noteq> [] \<or> num_pages (disk s) \<noteq> INVALID_PAGE_ID"
| "allowed s fl (Delete p) \<longleftrightarrow> p \<in> live_pages (disk s) fl"
| "allowed s fl (Put p bs) \<longleftrightarrow> 0 < pin_counts s p \<and> length bs = PAGE_SIZE"
| "allowed s fl (Flush p) \<longleftrightarrow> True"
| "allowed s fl FlushAll \<longleftrightarrow> True"

inductive spec_step :: "pool_spec \<Rightarrow> pool_op \<Rightarrow> pool_res \<Rightarrow> pool_spec \<Rightarrow> bool" where
  fetch: "p \<in> dom (contents a) \<Longrightarrow>
     spec_step a (Fetch p) (RPage (Some f)) (a\<lparr>pins := (pins a)(p := pins a p + 1)\<rparr>)"
| fetch_full: "pins a p = 0 \<Longrightarrow> spec_step a (Fetch p) (RPage None) a"
| unpin: "0 < pins a p \<Longrightarrow>
     spec_step a (Unpin_op p b) (RBool True) (a\<lparr>pins := (pins a)(p := pins a p - 1)\<rparr>)"
| unpin_refused: "pins a p = 0 \<Longrightarrow> spec_step a (Unpin_op p b) (RBool False) a"
| new: "p \<notin> dom (contents a) \<Longrightarrow> p \<noteq> 0 \<Longrightarrow> p \<noteq> INVALID_PAGE_ID \<Longrightarrow> pins a p = 0 \<Longrightarrow>
     spec_step a New (RNew p (Some f))
       (a\<lparr>contents := (contents a)(p \<mapsto> zero_page), pins := (pins a)(p := 1)\<rparr>)"
| new_full: "spec_step a New (RNew INVALID_PAGE_ID None) a"
| delete: "pins a p = 0 \<Longrightarrow>
     spec_step a (Delete p) (RBool True) (a\<lparr>contents := (contents a)(p := None)\<rparr>)"
| delete_pinned: "0 < pins a p \<Longrightarrow> spec_step a (Delete p) (RBool False) a"
| put: "0 < pins a p \<Longrightarrow> spec_step a (Put p bs) RUnit (a\<lparr>contents := (contents a)(p \<mapsto> bs)\<rparr>)"
| flush: "spec_step a (Flush p) (RBool b) a"
| flush_all: "spec_step a FlushAll RUnit a"

text \<open>Everything one operation guarantees beyond its result.\<close>

definition op_ok :: "buffer_pool \<Rightarrow> page_id list \<Rightarrow> pool_op \<Rightarrow> pool_res \<Rightarrow> buffer_pool \<Rightarrow> page_id list \<Rightarrow> bool" where
  "op_ok s fl op r s' fl' \<longleftrightarrow>
     bp_inv s' fl' \<and> spec_step (pool_abs s fl) op r (pool_abs s' fl') \<and> tracked s' = tracked s \<and>
     pool_size s' = pool_size s \<and>
     (\<forall>q g. pt s q = Some g \<and> 0 < pin_count (frame s g) \<longrightarrow> pt s' q = Some g)"

subsection \<open>Abstraction of single frame changes\<close>

lemma pin_counts_nonneg: "bp_inv s fl \<Longrightarrow> 0 \<le> pin_counts s p"
  using bp_inv_entry [of s fl p] by (cases "pt s p") (auto simp: pin_counts_def entry_ok_def)

lemma pool_store_cached: "bp_inv s fl \<Longrightarrow> pt s p = Some f \<Longrightarrow> pool_store s fl p = Some (data (frame s f))"
  using bp_inv_entry [of s fl p f] by (simp add: pool_store_def page_view_def entry_ok_def)

lemma dom_pool_store: "dom (pool_store s fl) = live_pages (disk s) fl"
  by (auto simp: pool_store_def dom_def)

lemma pool_abs_same_frames:
  assumes "pt s' = pt s" "live_pages (disk s') fl = live_pages (disk s) fl"
    "\<And>q g. pt s q = Some g \<Longrightarrow> data (frame s' g) = data (frame s g) \<and>
       pin_count (frame s' g) = pin_count (frame s g)"
    "\<And>q. q \<in> live_pages (disk s) fl \<Longrightarrow> pt s q = None \<Longrightarrow> page_content (disk s') q = page_content (disk s) q"
  shows "pool_abs s' fl = pool_abs s fl"
  using assms
  by (auto simp: pool_abs_def pool_store_def page_view_def pin_counts_def fun_eq_iff split: option.splits)

lemma pool_abs_one_frame:
  assumes "bp_inv s fl" "pt s p = Some f" "pt s' = pt s" "disk s' = disk s"
    "\<And>q g. q \<noteq> p \<Longrightarrow> pt s q = Some g \<Longrightarrow> frame s' g = frame s g"
  shows "pool_abs s' fl =
     \<lparr>contents = (pool_store s fl)(p \<mapsto> data (frame s' f)),
      pins = (pin_counts s)(p := pin_count (frame s' f))\<rparr>"
proof -
  have "p \<in> live_pages (disk s) fl"
    using bp_inv_entry [OF assms(1,2)] by (simp add: entry_ok_def)
  then show ?thesis
    using assms(2-5)
    by (auto simp: pool_abs_def pool_store_def page_view_def pin_counts_def fun_eq_iff split: option.splits)
qed

lemma acquired_pin_counts:
  assumes "bp_inv s fl" "acquired s s1 fl f"
  shows "pin_counts s1 = pin_counts s"
proof
  fix q
  show "pin_counts s1 q = pin_counts s q"
  proof (cases "pt s q")
    case None
    then show ?thesis by (simp add: pin_counts_def acquired_uncached [OF assms(2) None])
  next
    case (Some g)
    have "0 \<le> pin_count (frame s g)" using bp_inv_entry [OF assms(1) Some] by (simp add: entry_ok_def)
    then consider "0 < pin_count (frame s g)" | "pin_count (frame s g) = 0" by linarith
    then show ?thesis
    proof cases
      case 1
      with acquired_pinned [OF assms(2) Some] Some show ?thesis by (simp add: pin_counts_def)
    next
      case 2
      with acquired_subset [OF assms(2), of q] Some show ?thesis
        by (cases "pt s1 q") (auto simp: pin_counts_def)
    qed
  qed
qed

lemma acquired_store:
  assumes "acquired s s1 fl f"
  shows "pool_store s1 fl = pool_store s fl" "live_pages (disk s1) fl = live_pages (disk s) fl"
  using acquired_view [OF assms] live_pages_cong [OF acquiredD(5) [OF assms]]
  by (auto simp: pool_store_def fun_eq_iff)

section \<open>Each operation implements its step\<close>

lemma attach_abs:
  assumes inv: "bp_inv s fl" and acq: "acquired s s1 fl f" and inv': "bp_inv s' fl'"
    and t: "pt s1 p = None" "pt s' = (pt s1)(p \<mapsto> f)"
    and fr: "\<And>q g. pt s1 q = Some g \<Longrightarrow> frame s' g = frame s1 g"
    and live: "live_pages (disk s') fl' = insert p (live_pages (disk s) fl)"
    and cont: "\<And>q. q \<in> live_pages (disk s) fl \<Longrightarrow> q \<noteq> p \<Longrightarrow> page_content (disk s') q = page_content (disk s1) q"
  shows "pool_abs s' fl' = \<lparr>contents = (pool_store s fl)(p \<mapsto> data (frame s' f)),
      pins = (pin_counts s)(p := pin_count (frame s' f))\<rparr>"
proof -
  have "pool_store s' fl' q = ((pool_store s fl)(p \<mapsto> data (frame s' f))) q" for q
  proof (cases "q = p")
    case True
    then show ?thesis by (simp add: pool_store_def page_view_def t live)
  next
    case False
    then have "pool_store s' fl' q = pool_store s1 fl q"
      using fr cont by (auto simp: pool_store_def page_view_def t live acquired_store(2) [OF acq]
          split: option.splits)
    with False show ?thesis by (simp add: acquired_store(1) [OF acq])
  qed
  moreover have "pin_counts s' q = ((pin_counts s)(p := pin_count (frame s' f))) q" for q
  proof (cases "q = p")
    case True
    then show ?thesis by (simp add: pin_counts_def t)
  next
    case False
    then have "pin_counts s' q = pin_counts s1 q"
      using fr by (auto simp: pin_counts_def t split: option.splits)
    with False show ?thesis by (simp add: acquired_pin_counts [OF inv acq])
  qed
  ultimately show ?thesis by (simp add: pool_abs_def fun_eq_iff)
qed

lemma attach_tracked:
  assumes "acquired s s1 fl f" "pt s1 p = None" "pt s' = (pt s1)(p \<mapsto> f)" "free_list s' = free_list s1"
  shows "tracked s' = tracked s"
proof -
  have "ran (pt s') = insert f (ran (pt s1))"
    using assms(2) by (simp add: assms(3))
  then have "tracked s' = insert f (tracked s1)" by (auto simp: tracked_def assms(4))
  then show ?thesis using acquiredD(7,8) [OF assms(1)] by auto
qed

lemma fetch_sim:
  assumes inv: "bp_inv s fl" and live: "p \<in> live_pages (disk s) fl"
  shows "\<exists>r s'. FetchPage p s = (Inr r, s') \<and> op_ok s fl (Fetch p) (RPage r) s' fl \<and>
     (case r of
        None \<Rightarrow> s' = s \<and> pt s p = None \<and> free_list s = [] \<and> evictable s = {}
      | Some f \<Rightarrow> pt s' p = Some f \<and> data (frame s' f) = page_view s p \<and> 0 < pin_count (frame s' f))"
proof (cases "pt s p")
  case (Some f)
  obtain s' where s': "FetchPage p s = (Inr (Some f), s')" "bp_inv s' fl" "pt s' = pt s"
      "frame s' f = (frame s f)\<lparr>pin_count := pin_count (frame s f) + 1\<rparr>"
      "\<And>q g. q \<noteq> p \<Longrightarrow> pt s q = Some g \<Longrightarrow> frame s' g = frame s g"
      "disk s' = disk s" "free_list s' = free_list s" "pool_size s' = pool_size s"
    using FetchPage_hit [OF inv Some] by blast
  have "pool_abs s' fl = (pool_abs s fl)\<lparr>pins := (pin_counts s)(p := pin_counts s p + 1)\<rparr>"
    using pool_abs_one_frame [OF inv Some s'(3,6,5)] s'(4) pool_store_cached [OF inv Some] Some
    by (simp add: pool_abs_def pin_counts_def fun_upd_idem_iff)
  moreover have "spec_step (pool_abs s fl) (Fetch p) (RPage (Some f))
      ((pool_abs s fl)\<lparr>pins := (pin_counts s)(p := pin_counts s p + 1)\<rparr>)"
    using spec_step.fetch [of p "pool_abs s fl" f] live by (simp add: pool_abs_def dom_pool_store)
  moreover have "0 \<le> pin_count (frame s f)" using bp_inv_entry [OF inv Some] by (simp add: entry_ok_def)
  ultimately show ?thesis
    using s' Some by (intro exI [of _ "Some f"] exI [of _ s'])
      (auto simp: op_ok_def tracked_def page_view_def)
next
  case None
  show ?thesis
  proof (cases rule: acquire_frame_cases [OF inv])
    case 1
    note none = this
    have "spec_step (pool_abs s fl) (Fetch p) (RPage None) (pool_abs s fl)"
      by (rule spec_step.fetch_full) (simp add: pool_abs_def pin_counts_def None)
    then show ?thesis
      using FetchPage_full [OF None none(1)] none inv None by (auto simp: op_ok_def)
  next
    case (2 f s1)
    note some = this
    obtain s' where s': "FetchPage p s = (Inr (Some f), s')" "bp_inv s' fl" "pt s' = (pt s1)(p \<mapsto> f)"
        "frame s' f = \<lparr>data = page_view s p, page_id_of = p, pin_count = 1, is_dirty = False\<rparr>"
        "\<And>q g. pt s1 q = Some g \<Longrightarrow> frame s' g = frame s1 g"
        "disk s' = disk s1" "free_list s' = free_list s1" "pool_size s' = pool_size s"
      using FetchPage_miss [OF inv live None some] by blast
    note t1 = acquired_uncached [OF some(2) None]
    have lv: "live_pages (disk s') fl = insert p (live_pages (disk s) fl)"
      using live s'(6) acquired_store(2) [OF some(2)] by auto
    have "pool_abs s' fl = (pool_abs s fl)\<lparr>pins := (pin_counts s)(p := pin_counts s p + 1)\<rparr>"
      using attach_abs [OF inv some(2) s'(2) t1 s'(3,5) lv] s'(4,6) live None
      by (auto simp: pool_abs_def pool_store_def pin_counts_def fun_upd_idem_iff)
    moreover have "spec_step (pool_abs s fl) (Fetch p) (RPage (Some f))
        ((pool_abs s fl)\<lparr>pins := (pin_counts s)(p := pin_counts s p + 1)\<rparr>)"
      using spec_step.fetch [of p "pool_abs s fl" f] live by (simp add: pool_abs_def dom_pool_store)
    moreover have "pt s' q = Some g" if "pt s q = Some g" "0 < pin_count (frame s g)" for q g
      using acquired_pinned [OF some(2) that] that(1) None s'(3) by auto
    ultimately show ?thesis
      using s' attach_tracked [OF some(2) t1 s'(3,7)]
      by (intro exI [of _ "Some f"] exI [of _ s']) (auto simp: op_ok_def)
  qed
qed

lemma new_sim:
  assumes inv: "bp_inv s fl" and room: "fl \<noteq> [] \<or> num_pages (disk s) \<noteq> INVALID_PAGE_ID"
  shows "\<exists>p r s' fl'. NewPage s = (Inr (p, r), s') \<and> op_ok s fl New (RNew p r) s' fl' \<and>
     (case r of
        None \<Rightarrow> s' = s \<and> fl' = fl \<and> p = INVALID_PAGE_ID \<and> free_list s = [] \<and> evictable s = {}
      | Some f \<Rightarrow> fl' = tl fl \<and> pt s' p = Some f \<and>
          frame s' f = \<lparr>data = zero_page, page_id_of = p, pin_count = 1, is_dirty = False\<rparr>)"
proof (cases rule: acquire_frame_cases [OF inv])
  case 1
  note none = this
  have "op_ok s fl New (RNew INVALID_PAGE_ID None) s fl"
    using inv spec_step.new_full by (auto simp: op_ok_def)
  then show ?thesis
    using NewPage_full [OF none(1)] none by auto
next
  case (2 f s1)
  note some = this
  obtain p s' where s': "NewPage s = (Inr (p, Some f), s')" "bp_inv s' (tl fl)"
      "p \<notin> live_pages (disk s) fl" "p \<noteq> 0" "p \<noteq> INVALID_PAGE_ID"
      "live_pages (disk s') (tl fl) = insert p (live_pages (disk s) fl)"
      "pt s1 p = None" "pt s' = (pt s1)(p \<mapsto> f)"
      "frame s' f = \<lparr>data = zero_page, page_id_of = p, pin_count = 1, is_dirty = False\<rparr>"
      "\<And>q g. pt s1 q = Some g \<Longrightarrow> frame s' g = frame s1 g"
      "\<And>q. q \<in> live_pages (disk s) fl \<Longrightarrow> page_content (disk s') q = page_content (disk s1) q"
      "free_list s' = free_list s1" "pool_size s' = pool_size s"
    using NewPage_ok [OF inv room some] by blast
  have t: "pt s p = None"
    using bp_inv_entry [OF inv, of p] s'(3) by (cases "pt s p") (auto simp: entry_ok_def)
  have "pool_abs s' (tl fl) = (pool_abs s fl)\<lparr>contents := (pool_store s fl)(p \<mapsto> zero_page),
      pins := (pin_counts s)(p := 1)\<rparr>"
    using attach_abs [OF inv some(2) s'(2,7,8,10,6,11)] s'(9) by (simp add: pool_abs_def)
  moreover have "spec_step (pool_abs s fl) New (RNew p (Some f)) ((pool_abs s fl)\<lparr>contents :=
      (pool_store s fl)(p \<mapsto> zero_page), pins := (pin_counts s)(p := 1)\<rparr>)"
    using spec_step.new [of p "pool_abs s fl" f] s'(3-5) t
    by (simp add: pool_abs_def dom_pool_store pin_counts_def)
  moreover have "pt s' q = Some g" if "pt s q = Some g" "0 < pin_count (frame s g)" for q g
    using acquired_pinned [OF some(2) that] that(1) t s'(8) by auto
  ultimately have "op_ok s fl New (RNew p (Some f)) s' (tl fl)"
    using s' attach_tracked [OF some(2) s'(7,8,12)] by (auto simp: op_ok_def)
  with s' show ?thesis by (intro exI [of _ p] exI [of _ "Some f"] exI [of _ s'] exI [of _ "tl fl"]) auto
qed

lemma unpin_sim:
  assumes inv: "bp_inv s fl" and honest: "unpin_honest s p b"
  shows "\<exists>s'. UnpinPage p b s = (Inr (0 < pin_counts s p), s') \<and>
     op_ok s fl (Unpin_op p b) (RBool (0 < pin_counts s p)) s' fl"
proof (cases "0 < pin_counts s p")
  case True
  then obtain f where t: "pt s p = Some f" and pin: "0 < pin_count (frame s f)"
    by (cases "pt s p") (auto simp: pin_counts_def)
  obtain s' where s': "UnpinPage p b s = (Inr True, s')" "bp_inv s' fl" "pt s' = pt s"
      "frame s' f = (frame s f)\<lparr>pin_count := pin_count (frame s f) - 1,
                                   is_dirty := is_dirty (frame s f) \<or> b\<rparr>"
      "\<And>q g. q \<noteq> p \<Longrightarrow> pt s q = Some g \<Longrightarrow> frame s' g = frame s g"
      "disk s' = disk s" "free_list s' = free_list s" "pool_size s' = pool_size s"
    using UnpinPage_ok [OF inv t pin honest] by blast
  have "pool_abs s' fl = (pool_abs s fl)\<lparr>pins := (pin_counts s)(p := pin_counts s p - 1)\<rparr>"
    using pool_abs_one_frame [OF inv t s'(3,6,5)] s'(4) pool_store_cached [OF inv t] t
    by (simp add: pool_abs_def pin_counts_def fun_upd_idem_iff)
  moreover have "spec_step (pool_abs s fl) (Unpin_op p b) (RBool True)
      ((pool_abs s fl)\<lparr>pins := (pin_counts s)(p := pin_counts s p - 1)\<rparr>)"
    using spec_step.unpin [of "pool_abs s fl" p b] True by (simp add: pool_abs_def)
  ultimately show ?thesis
    using s' True by (intro exI [of _ s']) (auto simp: op_ok_def tracked_def)
next
  case False
  then have z: "pin_counts s p = 0" using pin_counts_nonneg [OF inv, of p] by simp
  then have "UnpinPage p b s = (Inr False, s)"
    by (intro UnpinPage_refused) (auto simp: pin_counts_def split: option.splits)
  moreover have "spec_step (pool_abs s fl) (Unpin_op p b) (RBool False) (pool_abs s fl)"
    by (rule spec_step.unpin_refused) (simp add: pool_abs_def z)
  ultimately show ?thesis using False inv by (auto simp: op_ok_def)
qed

lemma put_sim:
  assumes inv: "bp_inv s fl" and t: "pt s p = Some f" and pin: "0 < pin_count (frame s f)"
    and len: "length bs = PAGE_SIZE"
  shows "op_ok s fl (Put p bs) RUnit (put_data f bs s) fl"
proof -
  note pd = put_data_ok [OF inv t pin len]
  have other: "frame (put_data f bs s) g = frame s g" if "q \<noteq> p" "pt s q = Some g" for q g
    using pd that by blast
  have "pool_abs (put_data f bs s) fl = (pool_abs s fl)\<lparr>contents := (pool_store s fl)(p \<mapsto> bs)\<rparr>"
    using pool_abs_one_frame [OF inv t _ _ other] pd t
    by (simp add: pool_abs_def pin_counts_def fun_upd_idem_iff)
  moreover have "spec_step (pool_abs s fl) (Put p bs) RUnit ((pool_abs s fl)\<lparr>contents := (pool_store s fl)(p \<mapsto> bs)\<rparr>)"
    using spec_step.put [of "pool_abs s fl" p bs] pin t by (simp add: pool_abs_def pin_counts_def)
  ultimately show ?thesis using pd by (simp add: op_ok_def tracked_def)
qed

lemma delete_sim:
  assumes inv: "bp_inv s fl" and live: "p \<in> live_pages (disk s) fl"
  shows "\<exists>s' fl'. DeletePage p s = (Inr (pin_counts s p = 0), s') \<and>
     op_ok s fl (Delete p) (RBool (pin_counts s p = 0)) s' fl' \<and>
     fl' = (if pin_counts s p = 0 then p # fl else fl)"
proof (cases "pin_counts s p = 0")
  case False
  then have pos: "0 < pin_counts s p" using pin_counts_nonneg [OF inv, of p] by simp
  then obtain f where t: "pt s p = Some f" and pin: "0 < pin_count (frame s f)"
    by (cases "pt s p") (auto simp: pin_counts_def)
  have "spec_step (pool_abs s fl) (Delete p) (RBool False) (pool_abs s fl)"
    by (rule spec_step.delete_pinned) (simp add: pool_abs_def pos)
  then show ?thesis
    using False inv DeletePage_pinned [OF t pin] by (auto simp: op_ok_def)
next
  case True
  have "\<exists>s'. DeletePage p s = (Inr True, s') \<and> bp_inv s' (p # fl) \<and> pt s' = (pt s)(p := None) \<and>
          live_pages (disk s') (p # fl) = live_pages (disk s) fl - {p} \<and>
          (\<forall>q g. q \<noteq> p \<and> pt s q = Some g \<longrightarrow> frame s' g = frame s g) \<and>
          (\<forall>q. q \<noteq> 0 \<and> q \<noteq> p \<longrightarrow> page_content (disk s') q = page_content (disk s) q) \<and>
          tracked s' = tracked s \<and> pool_size s' = pool_size s"
  proof (cases "pt s p")
    case None
    then have "(pt s)(p := None) = pt s" by auto
    with DeletePage_uncached [OF inv live None] show ?thesis by auto
  next
    case (Some f)
    with True have "\<not> 0 < pin_count (frame s f)" by (simp add: pin_counts_def)
    from DeletePage_cached [OF inv Some this] show ?thesis .
  qed
  then obtain s' where s': "DeletePage p s = (Inr True, s')" "bp_inv s' (p # fl)"
      "pt s' = (pt s)(p := None)" "live_pages (disk s') (p # fl) = live_pages (disk s) fl - {p}"
      "\<And>q g. q \<noteq> p \<Longrightarrow> pt s q = Some g \<Longrightarrow> frame s' g = frame s g"
      "\<And>q. q \<noteq> 0 \<Longrightarrow> q \<noteq> p \<Longrightarrow> page_content (disk s') q = page_content (disk s) q"
      "tracked s' = tracked s" "pool_size s' = pool_size s" by blast
  have "pool_store s' (p # fl) q = ((pool_store s fl)(p := None)) q" for q
    using s'(3-6) by (cases "q = p") (auto simp: pool_store_def page_view_def live_pages_def split: option.splits)
  moreover have "pin_counts s' q = pin_counts s q" for q
    using s'(3,5) True by (cases "q = p") (auto simp: pin_counts_def split: option.splits)
  ultimately have "pool_abs s' (p # fl) = (pool_abs s fl)\<lparr>contents := (pool_store s fl)(p := None)\<rparr>"
    by (simp add: pool_abs_def fun_eq_iff)
  moreover have "spec_step (pool_abs s fl) (Delete p) (RBool True)
      ((pool_abs s fl)\<lparr>contents := (pool_store s fl)(p := None)\<rparr>)"
    using spec_step.delete [of "pool_abs s fl" p] True by (simp add: pool_abs_def)
  moreover have "pt s' q = Some g" if "pt s q = Some g" "0 < pin_count (frame s g)" for q g
    using that True s'(3) by (auto simp: pin_counts_def)
  ultimately show ?thesis
    using True s' by (intro exI [of _ s'] exI [of _ "p # fl"]) (auto simp: op_ok_def)
qed

lemma flush_all_sim:
  assumes inv: "bp_inv s fl"
  shows "\<exists>s'. FlushAllPages s = (Inr (), s') \<and> op_ok s fl FlushAll RUnit s' fl \<and>
     (\<forall>q \<in> live_pages (disk s) fl. pin_counts s q = 0 \<longrightarrow> page_content (disk s') q = page_view s q) \<and>
     (\<forall>q g. pt s q = Some g \<longrightarrow> \<not> is_dirty (frame s' g)) \<and>
     (\<forall>q g. pt s q = Some g \<and> is_dirty (frame s g) \<longrightarrow> page_content (disk s') q = data (frame s g))"
proof -
  obtain s' where s': "flush_entries (page_table s) s = (Inr (), s')" "bp_inv s' fl"
      "page_table s' = page_table s" "num_pages (disk s') = num_pages (disk s)"
      "free_list s' = free_list s" "pool_size s' = pool_size s"
      "\<And>q g. pt s q = Some g \<Longrightarrow>
             frame s' g = (frame s g)\<lparr>is_dirty := is_dirty (frame s g) \<and> (q, g) \<notin> set (page_table s)\<rparr> \<and>
             page_content (disk s') q =
               (if is_dirty (frame s g) \<and> (q, g) \<in> set (page_table s) then data (frame s g)
                else page_content (disk s) q)"
      "\<And>q. pt s q = None \<Longrightarrow> page_content (disk s') q = page_content (disk s) q"
    using flush_entries_ok [OF inv subset_refl] by blast
  have d: "distinct (map fst (page_table s))" using inv by (simp add: bp_inv_def)
  have mem: "(q, g) \<in> set (page_table s)" if "pt s q = Some g" for q g
    using that d by (simp add: pt_def)
  have pt': "pt s' = pt s" using s'(3) by (simp add: pt_def)
  have "pool_abs s' fl = pool_abs s fl"
    using pt' live_pages_cong [OF s'(4)] s'(7,8) by (intro pool_abs_same_frames) auto
  then have "op_ok s fl FlushAll RUnit s' fl"
    using s' pt' spec_step.flush_all by (simp add: op_ok_def tracked_def)
  moreover have "page_content (disk s') q = page_view s q"
    if q: "q \<in> live_pages (disk s) fl" "pin_counts s q = 0" for q
  proof (cases "pt s q")
    case None
    then show ?thesis using s'(8) by (simp add: page_view_def)
  next
    case (Some g)
    with q have "\<not> is_dirty (frame s g) \<Longrightarrow> data (frame s g) = page_content (disk s) q"
      using bp_inv_entry [OF inv Some] by (simp add: entry_ok_def pin_counts_def)
    then show ?thesis using s'(7) [OF Some] mem [OF Some] Some by (auto simp: page_view_def)
  qed
  ultimately show ?thesis
    using s'(1) s'(7) mem by (intro exI [of _ s']) (auto simp: FlushAllPages_def)
qed

lemma flush_sim:
  assumes inv: "bp_inv s fl"
  shows "\<exists>s'. FlushPage p s = (Inr (IsCached p s), s') \<and> op_ok s fl (Flush p) (RBool (IsCached p s)) s' fl"
proof (cases "pt s p")
  case None
  then show ?thesis
    using inv spec_step.flush by (auto simp: FlushPage_def IsCached_def op_ok_def)
next
  case (Some f)
  obtain s' where s': "flush_frame f s = (Inr (), s')" "bp_inv s' fl" "pt s' = pt s"
      "frame s' f = (frame s f)\<lparr>is_dirty := False\<rparr>"
      "\<And>q g. q \<noteq> p \<Longrightarrow> pt s q = Some g \<Longrightarrow> frame s' g = frame s g"
      "num_pages (disk s') = num_pages (disk s)"
      "page_content (disk s') = (if is_dirty (frame s f)
             then (page_content (disk s))(p := data (frame s f)) else page_content (disk s))"
      "free_list s' = free_list s" "pool_size s' = pool_size s"
    using flush_frame_ok [OF inv Some] by blast
  have "data (frame s' g) = data (frame s g) \<and> pin_count (frame s' g) = pin_count (frame s g)"
    if "pt s q = Some g" for q g
    using that s'(4,5) Some by (cases "q = p") auto
  then have "pool_abs s' fl = pool_abs s fl"
    using s'(3,6,7) live_pages_cong [OF s'(6)] Some by (intro pool_abs_same_frames) auto
  then show ?thesis
    using s' Some spec_step.flush by (intro exI [of _ s'])
      (auto simp: FlushPage_def IsCached_def op_ok_def tracked_def)
qed

section \<open>All operations, all histories\<close>

text \<open>The free pages on disk after an operation.\<close>

fun next_free_pages :: "pool_op \<Rightarrow> pool_res \<Rightarrow> page_id list \<Rightarrow> page_id list" where
  "next_free_pages New (RNew p (Some f)) fl = tl fl"
| "next_free_pages (Delete p) (RBool True) fl = p # fl"
| "next_free_pages op r fl = fl"

lemma pool_sim:
  assumes inv: "bp_inv s fl" and al: "allowed s fl op"
  shows "\<exists>r s'. exec_op op s = (Inr r, s') \<and> op_ok s fl op r s' (next_free_pages op r fl)"
proof (cases op)
  case (Fetch p)
  with fetch_sim [OF inv, of p] al obtain r s' where
    "FetchPage p s = (Inr r, s')" "op_ok s fl (Fetch p) (RPage r) s' fl" by auto
  with Fetch show ?thesis by (intro exI [of _ "RPage r"] exI [of _ s']) simp
next
  case (Unpin_op p b)
  with unpin_sim [OF inv, of p b] al obtain s' where
    "UnpinPage p b s = (Inr (0 < pin_counts s p), s')"
    "op_ok s fl (Unpin_op p b) (RBool (0 < pin_counts s p)) s' fl" by auto
  with Unpin_op show ?thesis by (intro exI [of _ "RBool (0 < pin_counts s p)"] exI [of _ s']) simp
next
  case New
  with new_sim [OF inv] al obtain p r s' fl' where n: "NewPage s = (Inr (p, r), s')"
    "op_ok s fl New (RNew p r) s' fl'" "case r of None \<Rightarrow> fl' = fl | Some f \<Rightarrow> fl' = tl fl"
    by (auto split: option.splits)
  then have "next_free_pages New (RNew p r) fl = fl'" by (cases r) auto
  with New n show ?thesis by (intro exI [of _ "RNew p r"] exI [of _ s']) simp
next
  case (Delete p)
  with delete_sim [OF inv, of p] al obtain s' where
    "DeletePage p s = (Inr (pin_counts s p = 0), s')"
    "op_ok s fl (Delete p) (RBool (pin_counts s p = 0)) s' (if pin_counts s p = 0 then p # fl else fl)"
    by auto
  with Delete show ?thesis
    by (intro exI [of _ "RBool (pin_counts s p = 0)"] exI [of _ s']) (cases "pin_counts s p = 0"; simp)
next
  case (Put p bs)
  then obtain f where "pt s p = Some f" "0 < pin_count (frame s f)" "length bs = PAGE_SIZE"
    using al by (cases "pt s p") (auto simp: pin_counts_def)
  with put_sim [OF inv, of p f bs] Put show ?thesis by (intro exI [of _ RUnit]) auto
next
  case (Flush p)
  with flush_sim [OF inv, of p] obtain s' where
    "FlushPage p s = (Inr (IsCached p s), s')" "op_ok s fl (Flush p) (RBool (IsCached p s)) s' fl" by auto
  with Flush show ?thesis by (intro exI [of _ "RBool (IsCached p s)"] exI [of _ s']) simp
next
  case FlushAll
  with flush_all_sim [OF inv] obtain s' where
    "FlushAllPages s = (Inr (), s')" "op_ok s fl FlushAll RUnit s' fl" by auto
  with FlushAll show ?thesis by (intro exI [of _ RUnit] exI [of _ s']) simp
qed

text \<open>The states of a pool that starts empty over a consistent store and is used as allowed.\<close>

inductive pool_reach :: "buffer_pool \<Rightarrow> page_id list \<Rightarrow> bool" where
  start: "disk_rep d fl \<Longrightarrow> replacer_ok r \<Longrightarrow> n \<le> capacity r \<Longrightarrow> members r = {} \<Longrightarrow>
     pool_reach (BufferPoolManager_new n d r) fl"
| step: "pool_reach s fl \<Longrightarrow> allowed s fl op \<Longrightarrow> exec_op op s = (Inr r, s') \<Longrightarrow>
     pool_reach s' (next_free_pages op r fl)"

lemma pool_reach_inv: "pool_reach s fl \<Longrightarrow> bp_inv s fl \<and> no_leak s"
proof (induction rule: pool_reach.induct)
  case (start d fl r n)
  then show ?case by (rule bp_inv_new)
next
  case (step s fl op r s')
  then show ?case
    using pool_sim [of s fl op] by (auto simp: op_ok_def no_leak_def)
qed

text \<open>Inversion of the specification steps that can touch one page.\<close>

inductive_cases spec_FetchE: "spec_step a (Fetch p) r a'"
inductive_cases spec_UnpinE: "spec_step a (Unpin_op p b) r a'"
inductive_cases spec_NewE: "spec_step a New r a'"
inductive_cases spec_DeleteE: "spec_step a (Delete p) r a'"
inductive_cases spec_PutE: "spec_step a (Put p bs) r a'"
inductive_cases spec_FlushE: "spec_step a (Flush p) r a'"
inductive_cases spec_FlushAllE: "spec_step a FlushAll r a'"

lemmas spec_stepE = spec_FetchE spec_UnpinE spec_NewE spec_DeleteE spec_PutE spec_FlushE spec_FlushAllE

lemma spec_pinned_stable:
  assumes "spec_step a op r a'" "0 < pins a p" "\<forall>bs. op \<noteq> Put p bs"
  shows "contents a' p = contents a p"
  using assms by (cases op) (auto elim!: spec_stepE split: if_splits)

lemma spec_pins_kept:
  assumes "spec_step a op r a'" "0 < pins a p" "\<forall>b. op \<noteq> Unpin_op p b"
  shows "0 < pins a' p"
  using assms by (cases op) (auto elim!: spec_stepE split: if_splits)

section \<open>Accounting of frames\<close>

definition pinned :: "buffer_pool \<Rightarrow> page_id set" where
  "pinned s = {p. 0 < pin_counts s p}"

lemma pinned_frames:
  assumes inv: "bp_inv s fl"
  shows "ran (pt s) = evictable s \<union> (\<lambda>p. the (pt s p)) ` pinned s"
    "evictable s \<inter> (\<lambda>p. the (pt s p)) ` pinned s = {}"
    "inj_on (\<lambda>p. the (pt s p)) (pinned s)"
proof -
  have nn: "0 \<le> pin_count (frame s f)" if "pt s p = Some f" for p f
    using bp_inv_entry [OF inv that] by (simp add: entry_ok_def)
  have mem: "p \<in> pinned s \<longleftrightarrow> (\<exists>f. pt s p = Some f \<and> 0 < pin_count (frame s f))" for p
    by (cases "pt s p") (auto simp: pinned_def pin_counts_def)
  show "ran (pt s) = evictable s \<union> (\<lambda>p. the (pt s p)) ` pinned s"
  proof (intro set_eqI iffI)
    fix f assume "f \<in> ran (pt s)"
    then obtain p where p: "pt s p = Some f" by (auto simp: ran_def)
    then consider "pin_count (frame s f) = 0" | "0 < pin_count (frame s f)" using nn by force
    then show "f \<in> evictable s \<union> (\<lambda>p. the (pt s p)) ` pinned s"
      using p mem by cases (force simp: evictable_def)+
  next
    fix f assume "f \<in> evictable s \<union> (\<lambda>p. the (pt s p)) ` pinned s"
    then obtain p where "pt s p = Some f" using mem by (auto simp: evictable_def)
    then show "f \<in> ran (pt s)" by (rule ranI)
  qed
  show "evictable s \<inter> (\<lambda>p. the (pt s p)) ` pinned s = {}"
    by (auto simp: evictable_def mem)
  show "inj_on (\<lambda>p. the (pt s p)) (pinned s)"
    using bp_inv_inj [OF inv] by (auto simp: inj_on_def mem)
qed

lemma finite_pinned:
  assumes "bp_inv s fl"
  shows "finite (pinned s)"
proof (rule finite_subset)
  show "pinned s \<subseteq> dom (pt s)" by (auto simp: pinned_def pin_counts_def split: option.splits)
  show "finite (dom (pt s))" by (simp add: pt_def finite_dom_map_of)
qed

lemma evictable_card: "bp_inv s fl \<Longrightarrow> Size (repl s) = card (evictable s) \<and> finite (evictable s)"
  using rep.size_elems [of "repl s"] rep.finite_elems [of "repl s"] by (auto simp: bp_inv_def)

lemma frame_accounting:
  assumes inv: "bp_inv s fl"
  shows "length (free_list s) + Size (repl s) + card (pinned s) = card (tracked s)"
proof -
  let ?P = "(\<lambda>p. the (pt s p)) ` pinned s"
  have fin: "finite (set (free_list s))" "finite (evictable s)" "finite ?P"
    using finite_pinned [OF inv] evictable_card [OF inv] by auto
  have disj: "set (free_list s) \<inter> ran (pt s) = {}"
    using inv by (auto simp: bp_inv_def entry_ok_def ran_def)
  have "card (tracked s) = card (set (free_list s)) + card (ran (pt s))"
    using fin disj pinned_frames(1) [OF inv] by (simp add: tracked_def card_Un_disjoint)
  also have "card (ran (pt s)) = card (evictable s) + card ?P"
    using fin pinned_frames(1,2) [OF inv] by (simp add: card_Un_disjoint)
  also have "card ?P = card (pinned s)"
    using pinned_frames(3) [OF inv] by (rule card_image)
  moreover have "card (set (free_list s)) = length (free_list s)" "Size (repl s) = card (evictable s)"
    using inv evictable_card [OF inv] by (auto simp: bp_inv_def distinct_card)
  ultimately show ?thesis by simp
qed

lemma full_iff:
  assumes inv: "bp_inv s fl"
  shows "free_list s = [] \<and> evictable s = {} \<longleftrightarrow> card (pinned s) = card (tracked s)"
proof -
  show ?thesis using frame_accounting [OF inv] evictable_card [OF inv] by auto
qed

lemma acquire_frame_full:
  assumes "bp_inv s fl" "free_list s = []" "evictable s = {}"
  shows "acquire_frame s = (Inr None, s)"
  using assms rep.victim_empty [of "repl s"] by (simp add: acquire_frame_def bp_inv_def)

section \<open>Sequences of operations\<close>

text \<open>A run of allowed operations, with the free pages of the disk threaded along.\<close>

inductive pool_run :: "buffer_pool \<Rightarrow> page_id list \<Rightarrow> pool_op list \<Rightarrow> buffer_pool \<Rightarrow> page_id list \<Rightarrow> bool" where
  stop: "pool_run s fl [] s fl"
| exec: "allowed s fl op \<Longrightarrow> exec_op op s = (Inr r, s1) \<Longrightarrow>
     pool_run s1 (next_free_pages op r fl) ops s' fl' \<Longrightarrow> pool_run s fl (op # ops) s' fl'"

lemma op_pinned_stable:
  assumes inv: "bp_inv s fl" and al: "allowed s fl op" and ex: "exec_op op s = (Inr r, s')"
    and t: "pt s p = Some f" "0 < pin_counts s p"
    and op: "\<forall>bs. op \<noteq> Put p bs" "\<forall>b. op \<noteq> Unpin_op p b"
  shows "bp_inv s' (next_free_pages op r fl) \<and> pt s' p = Some f \<and> 0 < pin_counts s' p \<and>
     data (frame s' f) = data (frame s f)"
proof -
  have ok: "op_ok s fl op r s' (next_free_pages op r fl)"
    using pool_sim [OF inv al] ex by auto
  then have inv': "bp_inv s' (next_free_pages op r fl)"
    and st: "spec_step (pool_abs s fl) op r (pool_abs s' (next_free_pages op r fl))"
    and t': "pt s' p = Some f"
    using t by (auto simp: op_ok_def pin_counts_def)
  have "0 < pin_counts s' p"
    using spec_pins_kept [OF st _ op(2)] t(2) by (simp add: pool_abs_def)
  moreover have "pool_store s' (next_free_pages op r fl) p = pool_store s fl p"
    using spec_pinned_stable [OF st _ op(1)] t(2) by (simp add: pool_abs_def)
  ultimately show ?thesis
    using inv' t' pool_store_cached [OF inv t(1)] pool_store_cached [OF inv' t'] by simp
qed

lemma run_pinned_stable:
  assumes "pool_run s fl ops s' fl'" "bp_inv s fl" "pt s p = Some f" "0 < pin_counts s p"
    "\<forall>op \<in> set ops. (\<forall>bs. op \<noteq> Put p bs) \<and> (\<forall>b. op \<noteq> Unpin_op p b)"
  shows "pt s' p = Some f \<and> data (frame s' f) = data (frame s f) \<and> bp_inv s' fl'"
  using assms
proof (induction rule: pool_run.induct)
  case (exec s fl op r s1 ops s' fl')
  have "bp_inv s1 (next_free_pages op r fl) \<and> pt s1 p = Some f \<and> 0 < pin_counts s1 p \<and>
     data (frame s1 f) = data (frame s f)"
    using exec.prems by (intro op_pinned_stable [OF exec.prems(1) exec.hyps(1,2)]) auto
  with exec show ?case by auto
qed simp

section \<open>The exception path of \<open>FetchPage\<close>\<close>

text \<open>
  A caller that handles the exception of \<open>FetchPage\<close> and carries on, \<open>k\<close> times: the state
  reached is the one the exception leaves behind.
\<close>

fun fetch_ignoring :: "nat \<Rightarrow> page_id \<Rightarrow> buffer_pool \<Rightarrow> buffer_pool" where
  "fetch_ignoring 0 p s = s"
| "fetch_ignoring (Suc k) p s = fetch_ignoring k p (snd (FetchPage p s))"

lemma fetch_out_of_range_step:
  assumes inv: "bp_inv s fl" and p: "num_pages (disk s) \<le> p" "p \<noteq> INVALID_PAGE_ID"
  shows "\<exists>s'. snd (FetchPage p s) = s' \<and> bp_inv s' fl \<and> num_pages (disk s') = num_pages (disk s) \<and>
     pinned s' = pinned s \<and> pool_store s' fl = pool_store s fl \<and>
     card (tracked s') = (if card (pinned s) < card (tracked s) then card (tracked s) - 1 else card (tracked s))"
proof -
  have t: "pt s p = None"
    using bp_inv_entry [OF inv, of p] p(1) by (cases "pt s p") (auto simp: entry_ok_def live_pages_def)
  show ?thesis
  proof (cases rule: acquire_frame_cases [OF inv])
    case 1
    then have "card (pinned s) = card (tracked s)" using full_iff [OF inv] by simp
    then show ?thesis using FetchPage_full [OF t 1(1)] inv by simp
  next
    case (2 f s1)
    note some = this
    obtain e s' where s': "FetchPage p s = (Inl e, s')" "pt s' = pt s1"
      "\<And>q g. pt s1 q = Some g \<Longrightarrow> frame s' g = frame s1 g"
      "disk s' = disk s1" "free_list s' = free_list s1" "bp_inv s' fl"
      using FetchPage_out_of_range [OF inv p some] by blast
    have "pin_counts s' = pin_counts s1" "page_view s' = page_view s1"
      using s'(2-4) by (auto simp: pin_counts_def page_view_def fun_eq_iff split: option.splits)
    then have "pinned s' = pinned s1" "pool_store s' fl = pool_store s1 fl"
      using s'(4) by (simp_all add: pinned_def pool_store_def fun_eq_iff)
    then have same: "pinned s' = pinned s" "pool_store s' fl = pool_store s fl"
      using acquired_pin_counts [OF inv some(2)] acquired_store(1) [OF some(2)]
      by (simp_all add: pinned_def)
    have tr: "tracked s' = tracked s - {f}" "f \<in> tracked s"
      using s'(2,5) acquiredD(7,8) [OF some(2)] by (auto simp: tracked_def)
    moreover have fin: "finite (tracked s)"
      by (simp add: tracked_def pt_def finite_ran finite_dom_map_of)
    ultimately have "card (tracked s') = card (tracked s) - 1" "0 < card (tracked s)"
      by (auto simp: card_gt_0_iff)
    moreover have "card (pinned s) \<le> card (tracked s')"
      using frame_accounting [OF s'(6)] same(1) by simp
    ultimately show ?thesis
      using s' same acquiredD(5) [OF some(2)] by auto
  qed
qed

lemma fetch_ignoring_exhausts:
  assumes "bp_inv s fl" "num_pages (disk s) \<le> p" "p \<noteq> INVALID_PAGE_ID"
    "card (tracked s) \<le> card (pinned s) + k"
  shows "bp_inv (fetch_ignoring k p s) fl \<and> pinned (fetch_ignoring k p s) = pinned s \<and>
     num_pages (disk (fetch_ignoring k p s)) = num_pages (disk s) \<and>
     pool_store (fetch_ignoring k p s) fl = pool_store s fl \<and>
     card (tracked (fetch_ignoring k p s)) = card (pinned s)"
  using assms
proof (induction k arbitrary: s)
  case 0
  then show ?case using frame_accounting [OF 0(1)] by simp
next
  case (Suc k)
  obtain s' where s': "snd (FetchPage p s) = s'" "bp_inv s' fl" "num_pages (disk s') = num_pages (disk s)"
    "pinned s' = pinned s" "pool_store s' fl = pool_store s fl"
    "card (tracked s') = (if card (pinned s) < card (tracked s) then card (tracked s) - 1 else card (tracked s))"
    using fetch_out_of_range_step [OF Suc.prems(1-3)] by blast
  have "card (tracked s') \<le> card (pinned s') + k"
    using s'(4,6) Suc.prems(4) by (auto split: if_splits)
  with Suc.IH [OF s'(2)] s' Suc.prems show ?case by simp
qed

section \<open>Properties\<close>

text \<open>A concrete pool for the witnesses: one live page on disk, \<open>n\<close> empty frames under LRU.\<close>

definition sample_pool :: "nat \<Rightarrow> disk_manager \<Rightarrow> buffer_pool" where
  "sample_pool n d = BufferPoolManager_new n d (LRUReplacer (LRUReplacer_new n))"

lemma sample_pool_reach:
  assumes "disk_rep d fl"
  shows "pool_reach (sample_pool n d) fl" "pool_size (sample_pool n d) = n"
    "disk (sample_pool n d) = d" "pt (sample_pool n d) = Map.empty"
    "free_list (sample_pool n d) = map int [0..<n]"
proof -
  have m: "members (LRUReplacer (LRUReplacer_new n)) = {}"
    by (simp add: lru_members_def lru_queue_def LRUReplacer_new_def)
  show "pool_reach (sample_pool n d) fl"
    unfolding sample_pool_def
    by (rule pool_reach.start [OF assms _ _ m]) (simp_all add: lru_ok_new, simp add: LRUReplacer_new_def)
qed (simp_all add: sample_pool_def BufferPoolManager_new_def pt_def)

lemma sample_pool_inv: "disk_rep d fl \<Longrightarrow> bp_inv (sample_pool n d) fl \<and> no_leak (sample_pool n d)"
  using pool_reach_inv sample_pool_reach(1) by blast

lemma sample_pool_unpinned: "disk_rep d fl \<Longrightarrow> pinned (sample_pool n d) = {}"
  by (simp add: pinned_def pin_counts_def sample_pool_reach)

lemma no_leak_card: "no_leak s \<Longrightarrow> card (tracked s) = pool_size s"
  by (simp add: no_leak_def)

text \<open>
  C1. Refinement. Every operation of the buffer pool that is used within its contract (live
  pages, stores only through pinned pages, modified pages unpinned as dirty) terminates without
  an exception, re-establishes the pool's invariant, and acts on the map from live page ids to
  bytes and on the pin counts exactly as the specification prescribes, whatever frames are
  reused, evicted or written back underneath.
\<close>

theorem pool_op_refines_spec:
  assumes "bp_inv s fl" "allowed s fl op"
  shows "\<exists>r s'. exec_op op s = (Inr r, s') \<and> bp_inv s' (next_free_pages op r fl) \<and>
     spec_step (pool_abs s fl) op r (pool_abs s' (next_free_pages op r fl))"
  using pool_sim [OF assms] by (auto simp: op_ok_def)

theorem pool_op_refines_spec_witness:
  "\<exists>d r s'. disk_rep d [] \<and> exec_op (Fetch 1) (sample_pool 2 d) = (Inr r, s') \<and>
     spec_step (pool_abs (sample_pool 2 d) []) (Fetch 1) r (pool_abs s' [])"
proof -
  obtain d where d: "disk_rep d []" "1 \<in> live_pages d []" using one_page_store by blast
  have al: "allowed (sample_pool 2 d) [] (Fetch 1)" using d by (simp add: sample_pool_reach)
  show ?thesis
    using d(1) pool_op_refines_spec [OF conjunct1 [OF sample_pool_inv [OF d(1), of 2]] al] by auto
qed

text \<open>
  C18. Frame accounting. In every pool reached from the constructor by operations used within
  their contract (\<open>allowed\<close>, so that none throws), each frame is in exactly one of three places: the
  free list, the replacer, or under a pinned page. The three sets are disjoint and together they are
  all frames \<open>0 .. pool_size - 1\<close>; no frame is twice on the free list and no two pages share a frame.
\<close>

theorem pool_reach_accounting:
  assumes "pool_reach s fl"
  shows "set (free_list s) \<union> members (repl s) \<union> {f. \<exists>p \<in> pinned s. pt s p = Some f} = {0..<int (pool_size s)} \<and>
     set (free_list s) \<inter> members (repl s) = {} \<and>
     set (free_list s) \<inter> {f. \<exists>p \<in> pinned s. pt s p = Some f} = {} \<and>
     members (repl s) \<inter> {f. \<exists>p \<in> pinned s. pt s p = Some f} = {} \<and>
     distinct (free_list s) \<and> (\<forall>p q f. pt s p = Some f \<and> pt s q = Some f \<longrightarrow> p = q) \<and>
     length (free_list s) + Size (repl s) + card (pinned s) = pool_size s"
proof -
  have inv: "bp_inv s fl" "no_leak s" using pool_reach_inv [OF assms] by auto
  note pf = pinned_frames [OF inv(1)]
  have "pt s p \<noteq> None" if "p \<in> pinned s" for p
    using that by (auto simp: pinned_def pin_counts_def split: option.splits)
  then have P: "{f. \<exists>p \<in> pinned s. pt s p = Some f} = (\<lambda>p. the (pt s p)) ` pinned s" by force
  have m: "members (repl s) = evictable s" and d: "distinct (free_list s)" using inv(1) by (auto simp: bp_inv_def)
  have disj: "set (free_list s) \<inter> ran (pt s) = {}"
    using inv(1) by (auto simp: bp_inv_def entry_ok_def ran_def)
  have "set (free_list s) \<union> ran (pt s) = {0..<int (pool_size s)}"
    using inv(2) by (simp add: no_leak_def tracked_def)
  then show ?thesis
    unfolding P m using pf(1,2) disj d frame_accounting [OF inv(1)] no_leak_card [OF inv(2)] bp_inv_inj [OF inv(1)]
    by (auto simp: Un_assoc)
qed

theorem pool_reach_accounting_witness:
  "\<exists>d s. pool_reach s [] \<and> FetchPage 1 (sample_pool 3 d) = (Inr (Some 0), s) \<and> 1 \<in> pinned s \<and>
     set (free_list s) \<union> members (repl s) \<union> {f. \<exists>p \<in> pinned s. pt s p = Some f} = {0, 1, 2}"
proof -
  obtain d where d: "disk_rep d []" "1 \<in> live_pages d []" using one_page_store by blast
  let ?s0 = "sample_pool 3 d"
  note pr = sample_pool_reach [OF d(1), of 3] and inv0 = conjunct1 [OF sample_pool_inv [OF d(1), of 3]]
  have fr: "free_list ?s0 = 0 # [1, 2]" using pr(5) by (simp add: upt_rec)
  then have acq: "acquire_frame ?s0 = (Inr (Some 0), ?s0\<lparr>free_list := [1, 2]\<rparr>)" by (simp add: acquire_frame_def)
  obtain s where s: "FetchPage 1 ?s0 = (Inr (Some 0), s)" "pt s = [1 \<mapsto> 0]" "pool_size s = 3"
    "frame s 0 = \<lparr>data = page_view ?s0 1, page_id_of = 1, pin_count = 1, is_dirty = False\<rparr>"
    using FetchPage_miss [OF inv0 _ _ acq acquired_free [OF inv0 fr]] d pr(2-4) by auto
  have "allowed ?s0 [] (Fetch 1)" "exec_op (Fetch 1) ?s0 = (Inr (RPage (Some 0)), s)"
    using d s(1) by (simp_all add: pr(3) bind_def)
  from pool_reach.step [OF pr(1) this] have reach: "pool_reach s []" by simp
  moreover have "1 \<in> pinned s" using s by (simp add: pinned_def pin_counts_def)
  moreover have "{0..<int (pool_size s)} = {0, 1, 2}" using s(3) by auto
  ultimately show ?thesis using s(1) pool_reach_accounting [OF reach] by auto
qed

text \<open>
  \<open>FetchPage\<close> returns a null page for a live page exactly when the page is not cached and
  every frame of the pool is pinned; otherwise the frame it returns holds the current bytes of
  the page.
\<close>

lemma fetch_null_iff_all_pinned:
  assumes "pool_reach s fl" "p \<in> live_pages (disk s) fl"
  shows "(fst (FetchPage p s) = Inr None \<longleftrightarrow> \<not> IsCached p s \<and> card (pinned s) = pool_size s) \<and>
     (\<forall>f s'. FetchPage p s = (Inr (Some f), s') \<longrightarrow> data (frame s' f) = page_view s p)"
proof -
  have inv: "bp_inv s fl" "no_leak s" using pool_reach_inv [OF assms(1)] by auto
  obtain r s' where r: "FetchPage p s = (Inr r, s')"
    "case r of
        None \<Rightarrow> s' = s \<and> pt s p = None \<and> free_list s = [] \<and> evictable s = {}
      | Some f \<Rightarrow> pt s' p = Some f \<and> data (frame s' f) = page_view s p \<and> 0 < pin_count (frame s' f)"
    using fetch_sim [OF inv(1) assms(2)] by blast
  note full = full_iff [OF inv(1)] no_leak_card [OF inv(2)]
  show ?thesis
  proof (cases r)
    case None
    then show ?thesis using r full by (simp add: IsCached_def)
  next
    case (Some f)
    have "IsCached p s \<or> card (pinned s) \<noteq> pool_size s"
    proof (rule ccontr)
      assume "\<not> ?thesis"
      then have "pt s p = None" "free_list s = []" "evictable s = {}"
        using full by (auto simp: IsCached_def)
      then have "FetchPage p s = (Inr None, s)"
        by (intro FetchPage_full acquire_frame_full [OF inv(1)])
      with r Some show False by simp
    qed
    then show ?thesis using r Some by auto
  qed
qed

text \<open>
  C17. Pointer stability. While a page is pinned, no sequence of operations of other users of
  the pool (fetches, allocations and the evictions they cause, unpins and deletes of other
  pages, flushes) moves it to another frame or changes its bytes: the \<^verbatim>\<open>Page*\<close> a caller holds
  stays valid until the caller stores through it or gives the pin back.
\<close>

theorem pinned_page_stable:
  assumes "bp_inv s fl" "pt s p = Some f" "0 < pin_counts s p" "pool_run s fl ops s' fl'"
    "\<forall>op \<in> set ops. (\<forall>bs. op \<noteq> Put p bs) \<and> (\<forall>b. op \<noteq> Unpin_op p b)"
  shows "pt s' p = Some f \<and> data (frame s' f) = data (frame s f)"
  using run_pinned_stable [OF assms(4,1-3,5)] by blast

theorem pinned_page_stable_witness:
  "\<exists>d s s' s'' f. FetchPage 1 (sample_pool 1 d) = (Inr (Some f), s) \<and> pool_run s [] [New, Delete 1] s' [] \<and>
     NewPage s = (Inr (INVALID_PAGE_ID, None), s'') \<and> pt s' 1 = Some f \<and> data (frame s' f) = data (frame s f)"
proof -
  obtain d where d: "disk_rep d []" "1 \<in> live_pages d []" "num_pages d = 2" using one_page_store by blast
  let ?s0 = "sample_pool 1 d"
  note pr = sample_pool_reach [OF d(1), of 1] and inv0 = sample_pool_inv [OF d(1), of 1]
  have fr: "free_list ?s0 = [0]" using pr(5) by simp
  then have acq: "acquire_frame ?s0 = (Inr (Some 0), ?s0\<lparr>free_list := []\<rparr>)"
    by (simp add: acquire_frame_def)
  obtain s where s: "FetchPage 1 ?s0 = (Inr (Some 0), s)" "bp_inv s []" "pt s = [1 \<mapsto> 0]"
    "frame s 0 = \<lparr>data = page_view ?s0 1, page_id_of = 1, pin_count = 1, is_dirty = False\<rparr>"
    "disk s = d" "free_list s = []"
    using FetchPage_miss [OF conjunct1 [OF inv0] _ _ acq acquired_free [OF conjunct1 [OF inv0] fr]]
      d pr(3,4) by auto
  have "evictable s = {}" using s by (auto simp: evictable_def split: if_splits)
  then have new: "NewPage s = (Inr (INVALID_PAGE_ID, None), s)"
    using NewPage_full acquire_frame_full s(2,6) by blast
  have del: "DeletePage 1 s = (Inr False, s)"
    using DeletePage_pinned [of s 1 0] s by simp
  have "allowed s [] New" "allowed s [] (Delete 1)"
    using d s(5) by (auto simp: INVALID_PAGE_ID_def)
  moreover have "exec_op New s = (Inr (RNew INVALID_PAGE_ID None), s)"
    "exec_op (Delete 1) s = (Inr (RBool False), s)" using new del by (simp_all add: bind_def)
  ultimately have "pool_run s [] [New, Delete 1] s []"
    using pool_run.exec [of s "[]" New _ s "[Delete 1]" s "[]"] pool_run.exec [of s "[]" "Delete 1" _ s "[]" s "[]"]
      pool_run.stop by auto
  moreover have "0 < pin_counts s 1" using s by (simp add: pin_counts_def)
  ultimately show ?thesis
    using pinned_page_stable [OF s(2), of 1 0 "[New, Delete 1]" s "[]"] s(1,3) new by fastforce
qed

text \<open>
  C33. The exception path of \<open>FetchPage\<close> loses a frame for good: it has already taken the frame
  from the free list or the replacer when \<open>ReadPage\<close> rejects the page id. After as many
  handled exceptions as there are frames without a pin, a pool that held no errors before
  refuses every page that is not pinned: fetching a live page and allocating a page both return
  null, although the pool has \<open>pool_size\<close> frames and no page uses them.
\<close>

theorem fetch_exceptions_exhaust_pool:
  assumes "pool_reach s fl" "num_pages (disk s) \<le> p" "p \<noteq> INVALID_PAGE_ID"
  shows "let s' = fetch_ignoring (pool_size s - card (pinned s)) p s in
     pool_store s' fl = pool_store s fl \<and> pinned s' = pinned s \<and>
     NewPage s' = (Inr (INVALID_PAGE_ID, None), s') \<and>
     (\<forall>q \<in> live_pages (disk s) fl. q \<notin> pinned s \<longrightarrow> FetchPage q s' = (Inr None, s'))"
proof -
  let ?s' = "fetch_ignoring (pool_size s - card (pinned s)) p s"
  have inv: "bp_inv s fl" "no_leak s" using pool_reach_inv [OF assms(1)] by auto
  have ex: "bp_inv ?s' fl" "pinned ?s' = pinned s" "pool_store ?s' fl = pool_store s fl"
    "card (tracked ?s') = card (pinned s)"
    using fetch_ignoring_exhausts [OF inv(1) assms(2,3), of "pool_size s - card (pinned s)"]
      no_leak_card [OF inv(2)] by auto
  have full: "free_list ?s' = []" "evictable ?s' = {}" using full_iff [OF ex(1)] ex by auto
  note acq = acquire_frame_full [OF ex(1) full]
  have "pt ?s' q = None" if "q \<notin> pinned s" for q
    using full(2) that ex(2) bp_inv_entry [OF ex(1), of q]
    by (cases "pt ?s' q") (force simp: pinned_def pin_counts_def evictable_def entry_ok_def)+
  then show ?thesis unfolding Let_def using ex NewPage_full [OF acq] FetchPage_full [OF _ acq] by blast
qed

theorem fetch_exceptions_exhaust_pool_witness:
  "\<exists>d. pool_reach (sample_pool 128 d) [] \<and> 1 \<in> live_pages d [] \<and>
     FetchPage 1 (fetch_ignoring 128 99 (sample_pool 128 d)) =
       (Inr None, fetch_ignoring 128 99 (sample_pool 128 d))"
proof -
  obtain d where d: "disk_rep d []" "1 \<in> live_pages d []" "num_pages d = 2" using one_page_store by blast
  note pr = sample_pool_reach [OF d(1), of 128] and un = sample_pool_unpinned [OF d(1), of 128]
  have "num_pages (disk (sample_pool 128 d)) \<le> 99" "(99 :: page_id) \<noteq> INVALID_PAGE_ID"
    using d(3) by (simp_all add: pr(3) INVALID_PAGE_ID_def)
  from fetch_exceptions_exhaust_pool [OF pr(1) this] show ?thesis
    using pr d un by (auto simp: Let_def)
qed

end
