(* ===== verification/Page_Cache.thy ===== *)
theory Page_Cache
  imports Buffer_Pool_Spec
begin

text \<open>
  The buffer pool as its clients use it: table heap, catalog, index and the network service all
  follow the protocol fetch, read or store through the page, unpin. The locale \<open>page_cache\<close> is
  that interface; it is interpreted on the buffer pool as \<open>bpm\<close>. Its derived lemmas are the two
  patterns the clients consist of, \<open>read_page\<close> and \<open>modify_page\<close>.
\<close>

section \<open>What a client can observe\<close>

text \<open>A pinned page in its frame; a page whose bytes on disk need no further write-back request.\<close>

definition held :: "buffer_pool \<Rightarrow> page_id \<Rightarrow> frame_id \<Rightarrow> bool" where
  "held s p f \<longleftrightarrow> pt s p = Some f \<and> 0 < pin_count (frame s f)"

definition synced :: "buffer_pool \<Rightarrow> page_id \<Rightarrow> bool" where
  "synced s p \<longleftrightarrow> (case pt s p of None \<Rightarrow> True
     | Some f \<Rightarrow> is_dirty (frame s f) \<or> data (frame s f) = page_content (disk s) p)"

definition frames :: "buffer_pool \<Rightarrow> nat" where
  "frames s = card (tracked s)"

definition page_data :: "buffer_pool \<Rightarrow> frame_id \<Rightarrow> byte list" where
  "page_data s f = data (frame s f)"

text \<open>Some page id is still unused: the disk can hand out another page.\<close>

definition unused_id :: "(page_id \<rightharpoonup> byte list) \<Rightarrow> bool" where
  "unused_id m \<longleftrightarrow> (\<exists>p. p \<noteq> 0 \<and> p \<noteq> INVALID_PAGE_ID \<and> p \<notin> dom m)"

lemma unused_id_grow:
  assumes "bp_inv s fl"
  shows "unused_id (pool_store s fl) \<longleftrightarrow> fl \<noteq> [] \<or> num_pages (disk s) \<noteq> INVALID_PAGE_ID"
proof -
  have rep: "disk_rep (disk s) fl" using assms by (simp add: bp_inv_def)
  note free = dm.free_pages [OF rep] and pos = dm.count_pos [OF rep]
  have inv_max: "q < INVALID_PAGE_ID" if "q \<noteq> INVALID_PAGE_ID" for q using that less_INVALID_iff by simp
  show ?thesis
  proof
    assume "unused_id (pool_store s fl)"
    then obtain p where "p \<noteq> 0" "p < INVALID_PAGE_ID" "p \<notin> live_pages (disk s) fl"
      using inv_max by (auto simp: unused_id_def dom_pool_store)
    then show "fl \<noteq> [] \<or> num_pages (disk s) \<noteq> INVALID_PAGE_ID" by (auto simp: live_pages_def)
  next
    assume "fl \<noteq> [] \<or> num_pages (disk s) \<noteq> INVALID_PAGE_ID"
    then consider p ps where "fl = p # ps" | "num_pages (disk s) \<noteq> INVALID_PAGE_ID"
      by (cases fl) auto
    then show "unused_id (pool_store s fl)"
    proof cases
      case 1
      then have "p \<noteq> 0" "p < num_pages (disk s)" "p \<notin> live_pages (disk s) fl"
        using free by (auto simp: live_pages_def)
      then show ?thesis using below_not_INVALID by (auto simp: unused_id_def dom_pool_store)
    next
      case 2
      then show ?thesis
        using pos by (auto simp: unused_id_def dom_pool_store live_pages_def
            intro!: exI [of _ "num_pages (disk s)"])
    qed
  qed
qed

lemma held_pin_counts: "held s p f \<longleftrightarrow> pt s p = Some f \<and> 0 < pin_counts s p"
  by (auto simp: held_def pin_counts_def)

lemma synced_unpinned:
  assumes "bp_inv s fl" "pin_counts s p = 0"
  shows "synced s p"
  using assms(2) bp_inv_entry [OF assms(1), of p]
  by (auto simp: synced_def pin_counts_def entry_ok_def split: option.splits)

lemma synced_attach:
  assumes acq: "acquired s s1 fl f" and t: "pt s1 p = None" "pt s' = (pt s1)(p \<mapsto> f)"
    and fr: "\<And>q g. pt s1 q = Some g \<Longrightarrow> frame s' g = frame s1 g"
    and cont: "\<And>q g. pt s1 q = Some g \<Longrightarrow> page_content (disk s') q = page_content (disk s1) q"
    and q: "q \<noteq> p" "synced s q"
  shows "synced s' q"
proof (cases "pt s1 q")
  case None
  then show ?thesis using q t by (simp add: synced_def)
next
  case (Some g)
  then show ?thesis
    using q t fr [OF Some] cont [OF Some] acquired_subset [OF acq Some] acquired_content [OF acq Some]
    by (simp add: synced_def)
qed

lemma fetch_synced:
  assumes inv: "bp_inv s fl" and live: "p \<in> live_pages (disk s) fl"
    and ex: "FetchPage p s = (Inr r, s')" and q: "synced s q"
  shows "synced s' q"
proof (cases "pt s p")
  case (Some f)
  obtain s2 where s2: "FetchPage p s = (Inr (Some f), s2)" "pt s2 = pt s"
      "frame s2 f = (frame s f)\<lparr>pin_count := pin_count (frame s f) + 1\<rparr>"
      "\<And>q g. q \<noteq> p \<Longrightarrow> pt s q = Some g \<Longrightarrow> frame s2 g = frame s g" "disk s2 = disk s"
    using FetchPage_hit [OF inv Some] by blast
  show ?thesis
    using s2 ex q Some by (cases "q = p") (auto simp: synced_def split: option.splits)
next
  case None
  show ?thesis
  proof (cases rule: acquire_frame_cases [OF inv])
    case 1
    then show ?thesis using FetchPage_full [OF None 1(1)] ex q by simp
  next
    case (2 f s1)
    note some = this
    obtain s2 where s2: "FetchPage p s = (Inr (Some f), s2)" "pt s2 = (pt s1)(p \<mapsto> f)"
        "frame s2 f = \<lparr>data = page_view s p, page_id_of = p, pin_count = 1, is_dirty = False\<rparr>"
        "\<And>q g. pt s1 q = Some g \<Longrightarrow> frame s2 g = frame s1 g" "disk s2 = disk s1"
      using FetchPage_miss [OF inv live None some] by blast
    note t1 = acquired_uncached [OF some(2) None]
    have "page_view s p = page_content (disk s1) p"
      using acquired_view [OF some(2) live] t1 by (simp add: page_view_def)
    moreover have "synced s2 q" if "q \<noteq> p"
      by (rule synced_attach [OF some(2) t1 s2(2,4) _ that q]) (simp_all add: s2(5))
    ultimately show ?thesis
      using s2 ex by (cases "q = p") (auto simp: synced_def)
  qed
qed

lemma new_synced:
  assumes inv: "bp_inv s fl" and grow: "unused_id (pool_store s fl)"
    and ex: "NewPage s = (Inr (p, r), s')" and q: "synced s q" "q \<noteq> p"
  shows "synced s' q"
proof (cases rule: acquire_frame_cases [OF inv])
  case 1
  then show ?thesis using NewPage_full [OF 1(1)] ex q by simp
next
  case (2 f s1)
  note some = this
  obtain p2 s2 where s2: "NewPage s = (Inr (p2, Some f), s2)" "pt s1 p2 = None" "pt s2 = (pt s1)(p2 \<mapsto> f)"
      "\<And>q g. pt s1 q = Some g \<Longrightarrow> frame s2 g = frame s1 g"
      "\<And>q. q \<in> live_pages (disk s) fl \<Longrightarrow> page_content (disk s2) q = page_content (disk s1) q"
    using NewPage_ok [OF inv grow [unfolded unused_id_grow [OF inv]] some] by blast
  have "page_content (disk s2) q = page_content (disk s1) q" if "pt s1 q = Some g" for q g
    using acquired_subset [OF some(2) that] bp_inv_entry [OF inv] s2(5) by (auto simp: entry_ok_def)
  then show ?thesis
    using synced_attach [OF some(2) s2(2-4) _ _ q(1)] s2(1) ex q(2) by simp
qed

section \<open>The interface\<close>

text \<open>
  \<open>cells s fl\<close> maps the live pages to their bytes (\<open>fl\<close>: the free pages below), \<open>pincount\<close>
  counts the pins, \<open>hold s p f\<close>: page \<open>p\<close> is pinned and \<open>f\<close> is its pointer, \<open>clean s p\<close>: page
  \<open>p\<close> may be unpinned without asking for a write-back, \<open>nframes\<close>: usable frames.
\<close>

locale page_cache =
  fixes fetch :: "page_id \<Rightarrow> ('s, 'f option) comp"
    and unpin :: "page_id \<Rightarrow> bool \<Rightarrow> ('s, bool) comp"
    and new :: "('s, page_id \<times> 'f option) comp"
    and get :: "'s \<Rightarrow> 'f \<Rightarrow> byte list"
    and put :: "'f \<Rightarrow> byte list \<Rightarrow> 's \<Rightarrow> 's"
    and inv :: "'s \<Rightarrow> page_id list \<Rightarrow> bool"
    and cells :: "'s \<Rightarrow> page_id list \<Rightarrow> page_id \<rightharpoonup> byte list"
    and pincount :: "'s \<Rightarrow> page_id \<Rightarrow> int"
    and hold :: "'s \<Rightarrow> page_id \<Rightarrow> 'f \<Rightarrow> bool"
    and clean :: "'s \<Rightarrow> page_id \<Rightarrow> bool"
    and nframes :: "'s \<Rightarrow> nat"
  assumes fetch_some: "inv s fl \<Longrightarrow> p \<in> dom (cells s fl) \<Longrightarrow> card {q. 0 < pincount s q} < nframes s \<Longrightarrow>
      \<exists>f s'. fetch p s = (Inr (Some f), s') \<and> inv s' fl \<and> cells s' fl = cells s fl \<and>
        pincount s' = (pincount s)(p := pincount s p + 1) \<and> hold s' p f \<and> nframes s' = nframes s \<and>
        (\<forall>q. clean s q \<longrightarrow> clean s' q) \<and> (\<forall>q g. hold s q g \<longrightarrow> hold s' q g)"
    and fetch_total: "inv s fl \<Longrightarrow> p \<in> dom (cells s fl) \<Longrightarrow>
      \<exists>r s'. fetch p s = (Inr r, s') \<and> (r = None \<longrightarrow> s' = s)"
    and new_some: "inv s fl \<Longrightarrow> unused_id (cells s fl) \<Longrightarrow> card {q. 0 < pincount s q} < nframes s \<Longrightarrow>
      \<exists>p f s'. new s = (Inr (p, Some f), s') \<and> inv s' (tl fl) \<and> p \<notin> dom (cells s fl) \<and>
        p \<noteq> 0 \<and> p \<noteq> INVALID_PAGE_ID \<and> pincount s p = 0 \<and>
        cells s' (tl fl) = (cells s fl)(p \<mapsto> zero_page) \<and> pincount s' = (pincount s)(p := 1) \<and>
        hold s' p f \<and> nframes s' = nframes s \<and>
        (\<forall>q. q \<noteq> p \<and> clean s q \<longrightarrow> clean s' q) \<and> (\<forall>q g. hold s q g \<longrightarrow> hold s' q g)"
    and new_total: "inv s fl \<Longrightarrow> unused_id (cells s fl) \<Longrightarrow>
      \<exists>p r s'. new s = (Inr (p, r), s') \<and> (r = None \<longrightarrow> s' = s \<and> p = INVALID_PAGE_ID)"
    and unpin_some: "inv s fl \<Longrightarrow> hold s p f \<Longrightarrow> dirty \<or> clean s p \<Longrightarrow>
      \<exists>s'. unpin p dirty s = (Inr True, s') \<and> inv s' fl \<and> cells s' fl = cells s fl \<and>
        pincount s' = (pincount s)(p := pincount s p - 1) \<and> nframes s' = nframes s \<and> clean s' p \<and>
        (\<forall>q. clean s q \<longrightarrow> clean s' q) \<and> (\<forall>q g. q \<noteq> p \<and> hold s q g \<longrightarrow> hold s' q g)"
    and put_held: "inv s fl \<Longrightarrow> hold s p f \<Longrightarrow> length bs = PAGE_SIZE \<Longrightarrow>
        inv (put f bs s) fl \<and> cells (put f bs s) fl = (cells s fl)(p \<mapsto> bs) \<and>
        pincount (put f bs s) = pincount s \<and> nframes (put f bs s) = nframes s \<and>
        (\<forall>q. q \<noteq> p \<and> clean s q \<longrightarrow> clean (put f bs s) q) \<and>
        (\<forall>q g. hold s q g \<longrightarrow> hold (put f bs s) q g)"
    and get_held: "inv s fl \<Longrightarrow> hold s p f \<Longrightarrow> cells s fl p = Some (get s f)"
    and clean_idle: "inv s fl \<Longrightarrow> pincount s p = 0 \<Longrightarrow> clean s p"
    and cells_length: "inv s fl \<Longrightarrow> cells s fl p = Some bs \<Longrightarrow> length bs = PAGE_SIZE"
begin

text \<open>Fetch, look, unpin: the content and the pins are as before.\<close>

lemma read_page:
  assumes inv: "inv s fl" and p: "cells s fl p = Some bs" and pin: "card {q. 0 < pincount s q} < nframes s"
    and clean: "clean s p"
  obtains f s1 s2 where "fetch p s = (Inr (Some f), s1)" "get s1 f = bs"
    "unpin p False s1 = (Inr True, s2)" "inv s2 fl" "cells s2 fl = cells s fl"
    "pincount s2 = pincount s" "nframes s2 = nframes s" "\<And>q. clean s q \<Longrightarrow> clean s2 q"
    "\<And>q g. q \<noteq> p \<Longrightarrow> hold s q g \<Longrightarrow> hold s2 q g"
proof -
  have dom: "p \<in> dom (cells s fl)" using p by blast
  from fetch_some [OF inv dom pin] obtain f s1 where s1: "fetch p s = (Inr (Some f), s1)" "inv s1 fl"
      "cells s1 fl = cells s fl" "pincount s1 = (pincount s)(p := pincount s p + 1)" "hold s1 p f"
      "nframes s1 = nframes s" "\<And>q. clean s q \<Longrightarrow> clean s1 q" "\<And>q g. hold s q g \<Longrightarrow> hold s1 q g" by blast
  have "False \<or> clean s1 p" using s1(7) clean by blast
  from unpin_some [OF s1(2,5) this] obtain s2 where s2: "unpin p False s1 = (Inr True, s2)" "inv s2 fl"
      "cells s2 fl = cells s1 fl" "pincount s2 = (pincount s1)(p := pincount s1 p - 1)"
      "nframes s2 = nframes s1" "\<And>q. clean s1 q \<Longrightarrow> clean s2 q"
      "\<And>q g. q \<noteq> p \<Longrightarrow> hold s1 q g \<Longrightarrow> hold s2 q g" by blast
  show thesis
    by (rule that [OF s1(1) _ s2(1,2)])
      (use get_held [OF s1(2,5)] s1 s2 p in \<open>auto simp: fun_eq_iff\<close>)
qed

text \<open>Fetch, store new bytes, unpin as dirty: one page changes, the pins are as before.\<close>

lemma modify_page:
  assumes inv: "inv s fl" and p: "cells s fl p = Some bs" and pin: "card {q. 0 < pincount s q} < nframes s"
    and len: "length bs' = PAGE_SIZE"
  obtains f s1 s2 where "fetch p s = (Inr (Some f), s1)" "get s1 f = bs"
    "unpin p True (put f bs' s1) = (Inr True, s2)" "inv s2 fl"
    "cells s2 fl = (cells s fl)(p \<mapsto> bs')" "pincount s2 = pincount s" "nframes s2 = nframes s"
    "\<And>q. clean s q \<Longrightarrow> clean s2 q" "\<And>q g. q \<noteq> p \<Longrightarrow> hold s q g \<Longrightarrow> hold s2 q g"
proof -
  have dom: "p \<in> dom (cells s fl)" using p by blast
  from fetch_some [OF inv dom pin] obtain f s1 where s1: "fetch p s = (Inr (Some f), s1)" "inv s1 fl"
      "cells s1 fl = cells s fl" "pincount s1 = (pincount s)(p := pincount s p + 1)" "hold s1 p f"
      "nframes s1 = nframes s" "\<And>q. clean s q \<Longrightarrow> clean s1 q" "\<And>q g. hold s q g \<Longrightarrow> hold s1 q g" by blast
  let ?t = "put f bs' s1"
  have t: "inv ?t fl" "cells ?t fl = (cells s1 fl)(p \<mapsto> bs')" "pincount ?t = pincount s1"
      "nframes ?t = nframes s1" "\<And>q. q \<noteq> p \<Longrightarrow> clean s1 q \<Longrightarrow> clean ?t q" "\<And>q g. hold s1 q g \<Longrightarrow> hold ?t q g"
    using put_held [OF s1(2,5) len] by blast+
  have "True \<or> clean ?t p" by simp
  from unpin_some [OF t(1) t(6) [OF s1(5)] this] obtain s2 where s2: "unpin p True ?t = (Inr True, s2)"
      "inv s2 fl" "cells s2 fl = cells ?t fl" "pincount s2 = (pincount ?t)(p := pincount ?t p - 1)"
      "nframes s2 = nframes ?t" "clean s2 p" "\<And>q. clean ?t q \<Longrightarrow> clean s2 q"
      "\<And>q g. q \<noteq> p \<Longrightarrow> hold ?t q g \<Longrightarrow> hold s2 q g" by blast
  show thesis
  proof (rule that [OF s1(1) _ s2(1,2)])
    show "clean s2 q" if "clean s q" for q
      using s2(6,7) t(5) s1(7) [OF that] by (cases "q = p") auto
  qed (use get_held [OF s1(2,5)] s1 t s2 p in \<open>auto simp: fun_eq_iff\<close>)
qed

end

section \<open>The buffer pool implements the interface\<close>

lemma op_ok_held:
  assumes "op_ok s fl op r s' fl'" "held s q g" "0 < pin_counts s' q"
  shows "held s' q g"
  using assms by (auto simp: op_ok_def held_pin_counts) (auto simp: held_def pin_counts_def)

lemma op_ok_frames: "op_ok s fl op r s' fl' \<Longrightarrow> frames s' = frames s \<and> bp_inv s' fl'"
  by (simp add: op_ok_def frames_def)

lemma op_ok_step: "op_ok s fl op r s' fl' \<Longrightarrow> spec_step (pool_abs s fl) op r (pool_abs s' fl')"
  by (simp add: op_ok_def)

lemma pool_abs_simps [simp]: "contents (pool_abs s fl) = pool_store s fl" "pins (pool_abs s fl) = pin_counts s"
  by (simp_all add: pool_abs_def)

lemma pool_abs_eqD: "pool_abs s fl = a \<Longrightarrow> pool_store s fl = contents a \<and> pin_counts s = pins a"
  by auto

lemma pool_room:
  assumes "bp_inv s fl" "card {q. 0 < pin_counts s q} < frames s"
  shows "\<not> (free_list s = [] \<and> evictable s = {})"
  using full_iff [OF assms(1)] assms(2) by (simp add: pinned_def frames_def)

lemma pool_fetch_some:
  assumes inv: "bp_inv s fl" and p: "p \<in> dom (pool_store s fl)" and room: "card {q. 0 < pin_counts s q} < frames s"
  shows "\<exists>f s'. FetchPage p s = (Inr (Some f), s') \<and> bp_inv s' fl \<and> pool_store s' fl = pool_store s fl \<and>
      pin_counts s' = (pin_counts s)(p := pin_counts s p + 1) \<and> held s' p f \<and> frames s' = frames s \<and>
      (\<forall>q. synced s q \<longrightarrow> synced s' q) \<and> (\<forall>q g. held s q g \<longrightarrow> held s' q g)"
proof -
  have live: "p \<in> live_pages (disk s) fl" using p by (simp add: dom_pool_store)
  from fetch_sim [OF inv live] pool_room [OF inv room] obtain f s' where
    s': "FetchPage p s = (Inr (Some f), s')" "op_ok s fl (Fetch p) (RPage (Some f)) s' fl"
      "pt s' p = Some f" "0 < pin_count (frame s' f)"
    by (auto split: option.splits)
  have a: "pool_store s' fl = pool_store s fl" "pin_counts s' = (pin_counts s)(p := pin_counts s p + 1)"
    using op_ok_step [OF s'(2)] by (auto elim!: spec_FetchE dest!: pool_abs_eqD)
  have "held s' q g" if "held s q g" for q g
    using op_ok_held [OF s'(2) that] that a(2) by (auto simp: held_pin_counts)
  then show ?thesis
    using s' a op_ok_frames [OF s'(2)] fetch_synced [OF inv live s'(1)]
    by (intro exI [of _ f] exI [of _ s']) (auto simp: held_def)
qed

lemma pool_new_some:
  assumes inv: "bp_inv s fl" and un: "unused_id (pool_store s fl)" and room: "card {q. 0 < pin_counts s q} < frames s"
  shows "\<exists>p f s'. NewPage s = (Inr (p, Some f), s') \<and> bp_inv s' (tl fl) \<and> p \<notin> dom (pool_store s fl) \<and>
      p \<noteq> 0 \<and> p \<noteq> INVALID_PAGE_ID \<and> pin_counts s p = 0 \<and>
      pool_store s' (tl fl) = (pool_store s fl)(p \<mapsto> zero_page) \<and> pin_counts s' = (pin_counts s)(p := 1) \<and>
      held s' p f \<and> frames s' = frames s \<and>
      (\<forall>q. q \<noteq> p \<and> synced s q \<longrightarrow> synced s' q) \<and> (\<forall>q g. held s q g \<longrightarrow> held s' q g)"
proof -
  from new_sim [OF inv] un unused_id_grow [OF inv] pool_room [OF inv room] obtain p f s' where
    s': "NewPage s = (Inr (p, Some f), s')" "op_ok s fl New (RNew p (Some f)) s' (tl fl)"
      "pt s' p = Some f" "frame s' f = \<lparr>data = zero_page, page_id_of = p, pin_count = 1, is_dirty = False\<rparr>"
    by (auto split: option.splits)
  have a: "p \<notin> dom (pool_store s fl)" "p \<noteq> 0" "p \<noteq> INVALID_PAGE_ID" "pin_counts s p = 0"
      "pool_store s' (tl fl) = (pool_store s fl)(p \<mapsto> zero_page)" "pin_counts s' = (pin_counts s)(p := 1)"
    using op_ok_step [OF s'(2)] by (auto elim!: spec_NewE dest!: pool_abs_eqD)
  have "held s' q g" if "held s q g" for q g
    using op_ok_held [OF s'(2) that] that a(4,6) by (auto simp: held_pin_counts)
  then show ?thesis
    using s' a op_ok_frames [OF s'(2)] new_synced [OF inv un s'(1)]
    by (intro exI [of _ p] exI [of _ f] exI [of _ s']) (auto simp: held_def)
qed

lemma pool_unpin_some:
  assumes inv: "bp_inv s fl" and held: "held s p f" and honest: "dirty \<or> synced s p"
  shows "\<exists>s'. UnpinPage p dirty s = (Inr True, s') \<and> bp_inv s' fl \<and> pool_store s' fl = pool_store s fl \<and>
      pin_counts s' = (pin_counts s)(p := pin_counts s p - 1) \<and> frames s' = frames s \<and> synced s' p \<and>
      (\<forall>q. synced s q \<longrightarrow> synced s' q) \<and> (\<forall>q g. q \<noteq> p \<and> held s q g \<longrightarrow> held s' q g)"
proof -
  have t: "pt s p = Some f" "0 < pin_count (frame s f)" "0 < pin_counts s p"
    using held by (auto simp: held_def pin_counts_def)
  have h: "unpin_honest s p dirty"
    using honest t by (auto simp: unpin_honest_def synced_def)
  from unpin_sim [OF inv h] t obtain s' where
    s': "UnpinPage p dirty s = (Inr True, s')" "op_ok s fl (Unpin_op p dirty) (RBool True) s' fl" by auto
  from UnpinPage_ok [OF inv t(1,2) h] s'(1) have u: "pt s' = pt s" "disk s' = disk s"
      "frame s' f = (frame s f)\<lparr>pin_count := pin_count (frame s f) - 1, is_dirty := is_dirty (frame s f) \<or> dirty\<rparr>"
      "\<And>q g. q \<noteq> p \<Longrightarrow> pt s q = Some g \<Longrightarrow> frame s' g = frame s g" by auto
  have a: "pool_store s' fl = pool_store s fl" "pin_counts s' = (pin_counts s)(p := pin_counts s p - 1)"
    using op_ok_step [OF s'(2)] by (auto elim!: spec_UnpinE dest!: pool_abs_eqD)
  have p: "synced s' p" using u t(1) honest by (auto simp: synced_def)
  moreover have "synced s' q" if "synced s q" for q
    using p that u by (cases "q = p") (auto simp: synced_def split: option.splits)
  moreover have "held s' q g" if "held s q g" "q \<noteq> p" for q g
    using that u by (auto simp: held_def)
  ultimately show ?thesis
    using s' a op_ok_frames [OF s'(2)] by auto
qed

lemma pool_put_held:
  assumes inv: "bp_inv s fl" and held: "held s p f" and len: "length bs = PAGE_SIZE"
  shows "bp_inv (put_data f bs s) fl \<and> pool_store (put_data f bs s) fl = (pool_store s fl)(p \<mapsto> bs) \<and>
      pin_counts (put_data f bs s) = pin_counts s \<and> frames (put_data f bs s) = frames s \<and>
      (\<forall>q. q \<noteq> p \<and> synced s q \<longrightarrow> synced (put_data f bs s) q) \<and>
      (\<forall>q g. held s q g \<longrightarrow> held (put_data f bs s) q g)"
proof -
  have t: "pt s p = Some f" "0 < pin_count (frame s f)" using held by (auto simp: held_def)
  note ok = put_sim [OF inv t len] and pd = put_data_ok [OF inv t len]
  have a: "pool_store (put_data f bs s) fl = (pool_store s fl)(p \<mapsto> bs)"
      "pin_counts (put_data f bs s) = pin_counts s"
    using op_ok_step [OF ok] by (auto elim!: spec_PutE dest!: pool_abs_eqD)
  have "held (put_data f bs s) q g" if "held s q g" for q g
    using op_ok_held [OF ok that] that a(2) by (auto simp: held_pin_counts)
  moreover have "synced (put_data f bs s) q" if "q \<noteq> p" "synced s q" for q
    using that pd by (auto simp: synced_def split: option.splits)
  ultimately show ?thesis using a op_ok_frames [OF ok] by auto
qed

interpretation bpm: page_cache FetchPage UnpinPage NewPage page_data put_data bp_inv pool_store
  pin_counts held synced frames
proof (unfold_locales, goal_cases)
  case (2 s fl p)
  then show ?case using fetch_sim [of s fl p] by (auto simp: dom_pool_store split: option.splits)
next
  case (4 s fl)
  then show ?case using new_sim [of s fl] unused_id_grow [of s fl] by (fastforce split: option.splits)
next
  case (7 s fl p f)
  then show ?case by (auto simp: held_def page_data_def intro: pool_store_cached)
next
  case (8 s fl p)
  then show ?case by (rule synced_unpinned)
next
  case (9 s fl p bs)
  then show ?case
    using bp_inv_data [of s fl p] dm.content_length [of "disk s" fl p]
    by (auto simp: pool_store_def page_view_def live_pages_def bp_inv_def split: if_splits option.splits)
qed (fact pool_fetch_some pool_new_some pool_unpin_some pool_put_held)+

end
