(* ===== verification/Tuple_Layout.thy ===== *)
theory Tuple_Layout
  imports Aether_Prelude
begin

text \<open>
  Columns, schemas, values and tuples (\<^verbatim>\<open>column.hpp\<close>, \<^verbatim>\<open>schema.hpp\<close>, \<^verbatim>\<open>tuple.hpp\<close>) and
  their byte layout. A \<^verbatim>\<open>char*\<close> is a buffer together with an offset into it; \<open>None\<close> is an
  access outside the buffer. Lengths and offsets are 32-bit words that wrap, as in the code.
  \<open>value_bytes\<close> and \<open>tuple_bytes\<close> describe the encoding without buffers; serialisation is shown
  to write exactly these bytes, and deserialisation to read them back.
\<close>

section \<open>Columns and schemas\<close>

datatype TypeId = T_INVALID | T_INT | T_VARCHAR | T_BOOLEAN

record Column =
  col_name :: string
  col_type :: TypeId
  col_length :: "32 word"

definition Column_default :: Column where
  "Column_default = \<lparr>col_name = [], col_type = T_INVALID, col_length = 0\<rparr>"

definition Column_new :: "string \<Rightarrow> TypeId \<Rightarrow> 32 word \<Rightarrow> Column" where
  "Column_new name type len =
     \<lparr>col_name = name, col_type = type,
      col_length = (if type = T_INT then 8 else if type = T_BOOLEAN then 1 else len)\<rparr>"

definition IsVariableLength :: "Column \<Rightarrow> bool" where
  "IsVariableLength c \<longleftrightarrow> col_type c = T_VARCHAR"

record Schema =
  columns :: "Column list"

definition GetColumnCount :: "Schema \<Rightarrow> 32 word" where
  "GetColumnCount sch = of_nat (length (columns sch))"

definition GetColumn :: "Schema \<Rightarrow> 32 word \<Rightarrow> err + Column" where
  "GetColumn sch i =
     (if length (columns sch) \<le> unat i then Inl (OutOfRange ''Column index out of range'')
      else Inr (columns sch ! unat i))"

text \<open>The \<^verbatim>\<open>int\<close> result as a 32-bit word; \<open>- 1\<close> when no column has the name.\<close>

fun col_idx_loop :: "Column list \<Rightarrow> string \<Rightarrow> nat \<Rightarrow> 32 word" where
  "col_idx_loop [] name i = - 1"
| "col_idx_loop (c # cs) name i = (if col_name c = name then of_nat i else col_idx_loop cs name (i + 1))"

definition GetColIdx :: "Schema \<Rightarrow> string \<Rightarrow> 32 word" where
  "GetColIdx sch name = col_idx_loop (columns sch) name 0"

section \<open>Values\<close>

record Value =
  val_type :: TypeId
  int_val :: "64 word"
  str_val :: "byte list"
  bool_val :: bool

definition Value_default :: Value where
  "Value_default = \<lparr>val_type = T_INVALID, int_val = 0, str_val = [], bool_val = False\<rparr>"

definition Value_of_int :: "32 word \<Rightarrow> Value" where
  "Value_of_int i = Value_default\<lparr>val_type := T_INT, int_val := scast i\<rparr>"

definition Value_of_int64 :: "64 word \<Rightarrow> Value" where
  "Value_of_int64 i = Value_default\<lparr>val_type := T_INT, int_val := i\<rparr>"

definition Value_of_string :: "byte list \<Rightarrow> Value" where
  "Value_of_string s = Value_default\<lparr>val_type := T_VARCHAR, str_val := s\<rparr>"

definition Value_of_bool :: "bool \<Rightarrow> Value" where
  "Value_of_bool b = Value_default\<lparr>val_type := T_BOOLEAN, bool_val := b\<rparr>"

text \<open>\<open>Value_Serialize v d off\<close>: write into buffer \<open>d\<close> at \<open>off\<close>.\<close>

definition Value_Serialize :: "Value \<Rightarrow> byte list \<Rightarrow> nat \<Rightarrow> byte list option" where
  "Value_Serialize v d off =
     (if val_type v = T_INT then memcpy_to d off (le_bytes 8 (int_val v))
      else if val_type v = T_BOOLEAN then memcpy_to d off [if bool_val v then 1 else 0]
      else if val_type v = T_VARCHAR then
        (let len = of_nat (length (str_val v)) :: 32 word in
         case memcpy_to d off (le_bytes 4 len) of
           None \<Rightarrow> None
         | Some d1 \<Rightarrow> memcpy_to d1 (off + 4) (take (unat len) (str_val v)))
      else Some d)"

text \<open>A read of \<open>n\<close> bytes from a buffer.\<close>

definition memcpy_from :: "nat \<Rightarrow> byte list \<Rightarrow> nat \<Rightarrow> byte list option" where
  "memcpy_from n d off = (if off + n \<le> length d then Some (load n d off) else None)"

definition Value_Deserialize :: "byte list \<Rightarrow> nat \<Rightarrow> TypeId \<Rightarrow> Value \<Rightarrow> Value option" where
  "Value_Deserialize d off type v =
     (let v1 = v\<lparr>val_type := type\<rparr> in
      if type = T_INT then map_option (\<lambda>bs. v1\<lparr>int_val := le_word bs\<rparr>) (memcpy_from 8 d off)
      else if type = T_BOOLEAN then map_option (\<lambda>bs. v1\<lparr>bool_val := (hd bs \<noteq> 0)\<rparr>) (memcpy_from 1 d off)
      else if type = T_VARCHAR then
        (case memcpy_from 4 d off of
           None \<Rightarrow> None
         | Some bs \<Rightarrow>
             map_option (\<lambda>s. v1\<lparr>str_val := s\<rparr>) (memcpy_from (unat (le_word bs :: 32 word)) d (off + 4)))
      else Some v1)"

definition Value_GetSerializedLength :: "Value \<Rightarrow> 32 word" where
  "Value_GetSerializedLength v =
     (if val_type v = T_INT then 8
      else if val_type v = T_BOOLEAN then 1
      else if val_type v = T_VARCHAR then of_nat (4 + length (str_val v))
      else 0)"

section \<open>Tuples\<close>

record Tuple =
  tuple_values :: "Value list"

text \<open>The loop of \<open>Tuple::Serialize\<close>: \<open>offset\<close> is the 32-bit running offset from \<open>base\<close>.\<close>

fun serialize_loop :: "Value list \<Rightarrow> 32 word \<Rightarrow> nat \<Rightarrow> byte list \<Rightarrow> byte list option" where
  "serialize_loop [] offset base d = Some d"
| "serialize_loop (v # vs) offset base d =
     (case Value_Serialize v d (base + unat offset) of
        None \<Rightarrow> None
      | Some d1 \<Rightarrow> serialize_loop vs (offset + Value_GetSerializedLength v) base d1)"

definition Tuple_Serialize :: "Tuple \<Rightarrow> byte list \<Rightarrow> nat \<Rightarrow> byte list option" where
  "Tuple_Serialize t d base = serialize_loop (tuple_values t) 0 base d"

fun deserialize_loop :: "Column list \<Rightarrow> 32 word \<Rightarrow> byte list \<Rightarrow> nat \<Rightarrow> Value list option" where
  "deserialize_loop [] offset d base = Some []"
| "deserialize_loop (c # cs) offset d base =
     (case Value_Deserialize d (base + unat offset) (col_type c) Value_default of
        None \<Rightarrow> None
      | Some v \<Rightarrow>
          map_option (\<lambda>vs. v # vs) (deserialize_loop cs (offset + Value_GetSerializedLength v) d base))"

definition Tuple_Deserialize :: "byte list \<Rightarrow> nat \<Rightarrow> Schema \<Rightarrow> Tuple option" where
  "Tuple_Deserialize d base sch =
     map_option (\<lambda>vs. \<lparr>tuple_values = vs\<rparr>) (deserialize_loop (columns sch) 0 d base)"

fun serialized_length_loop :: "Value list \<Rightarrow> 32 word \<Rightarrow> 32 word" where
  "serialized_length_loop [] len = len"
| "serialized_length_loop (v # vs) len = serialized_length_loop vs (len + Value_GetSerializedLength v)"

definition Tuple_GetSerializedLength :: "Tuple \<Rightarrow> 32 word" where
  "Tuple_GetSerializedLength t = serialized_length_loop (tuple_values t) 0"

section \<open>The encoding without buffers\<close>

definition value_bytes :: "Value \<Rightarrow> byte list" where
  "value_bytes v =
     (case val_type v of
        T_INT \<Rightarrow> le_bytes 8 (int_val v)
      | T_BOOLEAN \<Rightarrow> [if bool_val v then 1 else 0]
      | T_VARCHAR \<Rightarrow> le_bytes 4 (of_nat (length (str_val v)) :: 32 word) @ str_val v
      | T_INVALID \<Rightarrow> [])"

definition tuple_bytes :: "Tuple \<Rightarrow> byte list" where
  "tuple_bytes t = concat (map value_bytes (tuple_values t))"

text \<open>
  Values as the constructors build them: the fields of the other types have their defaults, and
  a string is short enough for its 32-bit length field.
\<close>

definition value_ok :: "Value \<Rightarrow> bool" where
  "value_ok v \<longleftrightarrow>
     (val_type v \<noteq> T_INT \<longrightarrow> int_val v = 0) \<and> (val_type v \<noteq> T_VARCHAR \<longrightarrow> str_val v = []) \<and>
     (val_type v \<noteq> T_BOOLEAN \<longrightarrow> \<not> bool_val v) \<and> length (str_val v) < 2 ^ 32"

definition encodable :: "Tuple \<Rightarrow> bool" where
  "encodable t \<longleftrightarrow> (\<forall>v \<in> set (tuple_values t). value_ok v) \<and> length (tuple_bytes t) < 2 ^ 32"

definition tuple_ok :: "Schema \<Rightarrow> Tuple \<Rightarrow> bool" where
  "tuple_ok sch t \<longleftrightarrow> map val_type (tuple_values t) = map col_type (columns sch) \<and> encodable t"

lemma unat_of_nat_u32: "n < 2 ^ 32 \<Longrightarrow> unat (of_nat n :: 32 word) = n"
  by (simp add: unat_of_nat)

lemma constructors_ok [simp]:
  "value_ok Value_default" "value_ok (Value_of_int i)" "value_ok (Value_of_int64 j)"
  "value_ok (Value_of_bool b)" "length s < 2 ^ 32 \<Longrightarrow> value_ok (Value_of_string s)"
  by (simp_all add: value_ok_def Value_default_def Value_of_int_def Value_of_int64_def
      Value_of_bool_def Value_of_string_def)

lemma value_length:
  assumes "length (value_bytes v) < 2 ^ 32"
  shows "unat (Value_GetSerializedLength v) = length (value_bytes v)"
  using assms unat_of_nat_u32 [of "4 + length (str_val v)"]
  by (cases "val_type v") (auto simp: Value_GetSerializedLength_def value_bytes_def)

lemma value_length_word: "Value_GetSerializedLength v = of_nat (length (value_bytes v))"
  by (cases "val_type v") (auto simp: Value_GetSerializedLength_def value_bytes_def)

lemma serialized_length_word:
  "serialized_length_loop vs n = n + of_nat (length (concat (map value_bytes vs)))"
  by (induction vs arbitrary: n) (auto simp: value_length_word algebra_simps)

lemma tuple_length_word: "Tuple_GetSerializedLength t = of_nat (length (tuple_bytes t))"
  by (simp add: Tuple_GetSerializedLength_def tuple_bytes_def serialized_length_word)

lemma tuple_length:
  assumes "length (tuple_bytes t) < 2 ^ 32"
  shows "unat (Tuple_GetSerializedLength t) = length (tuple_bytes t)"
  using assms by (simp add: tuple_length_word unat_of_nat_u32)

subsection \<open>Serialisation writes the encoding\<close>

lemma store_append:
  assumes "off + length (a @ b) \<le> length d"
  shows "store (store d off a) (off + length a) b = store d off (a @ b)"
proof (rule nth_equalityI)
  show "length (store (store d off a) (off + length a) b) = length (store d off (a @ b))"
    using assms by (simp add: length_store)
next
  fix i
  assume "i < length (store (store d off a) (off + length a) b)"
  then show "store (store d off a) (off + length a) b ! i = store d off (a @ b) ! i"
    using assms by (auto simp: nth_store length_store nth_append)
qed

lemma value_serialize:
  assumes "value_ok v" "off \<le> length d"
  shows "Value_Serialize v d off = memcpy_to d off (value_bytes v)"
proof (cases "val_type v")
  case T_VARCHAR
  let ?l = "le_bytes 4 (of_nat (length (str_val v)) :: 32 word)"
  have len: "take (unat (of_nat (length (str_val v)) :: 32 word)) (str_val v) = str_val v"
    using assms(1) by (simp add: value_ok_def unat_of_nat_u32)
  show ?thesis
    using T_VARCHAR store_append [of off ?l "str_val v" d]
    by (auto simp: Value_Serialize_def value_bytes_def memcpy_to_def Let_def len length_store
        split: option.splits if_splits)
qed (use assms in \<open>auto simp: Value_Serialize_def value_bytes_def memcpy_to_def store_def\<close>)

lemma serialize_loop_bytes:
  assumes "\<forall>v \<in> set vs. value_ok v" "unat offset + length (concat (map value_bytes vs)) < 2 ^ 32"
    "base + unat offset + length (concat (map value_bytes vs)) \<le> length d"
  shows "serialize_loop vs offset base d = Some (store d (base + unat offset) (concat (map value_bytes vs)))"
  using assms
proof (induction vs arbitrary: offset d)
  case Nil
  then show ?case by (simp add: store_def)
next
  case (Cons v vs)
  let ?a = "value_bytes v" and ?b = "concat (map value_bytes vs)" and ?o = "base + unat offset"
  have a: "?o + length ?a \<le> length d" and o: "?o \<le> length d" and ok: "value_ok v"
    using Cons.prems by auto
  have o': "unat (offset + Value_GetSerializedLength v) = unat offset + length ?a"
    using Cons.prems(2) value_length [of v] unat_add_lem [of offset "Value_GetSerializedLength v"] by simp
  have "serialize_loop vs (offset + Value_GetSerializedLength v) base (store d ?o ?a)
      = Some (store (store d ?o ?a) (base + unat (offset + Value_GetSerializedLength v)) ?b)"
    using Cons.prems a by (intro Cons.IH) (auto simp: o' length_store)
  moreover have "store (store d ?o ?a) (?o + length ?a) ?b = store d ?o (?a @ ?b)"
    using Cons.prems by (intro store_append) simp
  ultimately show ?case
    using a by (simp add: value_serialize [OF ok o] memcpy_to_def o' add.assoc)
qed

lemma tuple_serialize:
  assumes "encodable t" "base + length (tuple_bytes t) \<le> length d"
  shows "Tuple_Serialize t d base = Some (store d base (tuple_bytes t))"
  using serialize_loop_bytes [of "tuple_values t" 0 base d] assms
  by (simp add: Tuple_Serialize_def encodable_def tuple_bytes_def)

subsection \<open>Deserialisation reads the encoding back\<close>

lemma memcpy_from_prefix:
  assumes "load (length bs) d off = bs" "off + length bs \<le> length d" "i + n \<le> length bs"
  shows "memcpy_from n d (off + i) = Some (load n bs i)"
proof -
  have "load n d (off + i) = load n (load (length bs) d off) i"
    using assms(3) by (simp add: load_def drop_take take_take min_def add.commute)
  then show ?thesis using assms by (simp add: memcpy_from_def)
qed

lemma value_deserialize:
  assumes ok: "value_ok v" and bs: "load (length (value_bytes v)) d off = value_bytes v"
    "off + length (value_bytes v) \<le> length d"
  shows "Value_Deserialize d off (val_type v) Value_default = Some v"
proof (cases "val_type v")
  case T_INT
  then have "memcpy_from 8 d off = Some (le_bytes 8 (int_val v))"
    using memcpy_from_prefix [OF bs, of 0 8] by (simp add: value_bytes_def load_def)
  then show ?thesis
    using T_INT ok by (cases v) (simp add: Value_Deserialize_def le_word_le_bytes Value_default_def value_ok_def)
next
  case T_BOOLEAN
  then have "memcpy_from 1 d off = Some [if bool_val v then 1 else 0]"
    using memcpy_from_prefix [OF bs, of 0 1] by (simp add: value_bytes_def load_def)
  then show ?thesis
    using T_BOOLEAN ok by (cases v) (auto simp: Value_Deserialize_def Value_default_def value_ok_def)
next
  case T_VARCHAR
  let ?l = "of_nat (length (str_val v)) :: 32 word"
  have b: "value_bytes v = le_bytes 4 ?l @ str_val v" using T_VARCHAR by (simp add: value_bytes_def)
  have "memcpy_from 4 d off = Some (le_bytes 4 ?l)"
    using memcpy_from_prefix [OF bs, of 0 4] by (simp add: b load_def)
  moreover have "memcpy_from (length (str_val v)) d (off + 4) = Some (str_val v)"
    using memcpy_from_prefix [OF bs, of 4 "length (str_val v)"] by (simp add: b load_def)
  ultimately show ?thesis
    using T_VARCHAR ok
    by (cases v) (simp add: Value_Deserialize_def le_word_le_bytes unat_of_nat_u32 Value_default_def value_ok_def)
next
  case T_INVALID
  then show ?thesis
    using ok by (cases v) (simp add: Value_Deserialize_def Value_default_def value_ok_def)
qed

lemma load_split:
  assumes "load (length (a @ b)) d off = a @ b"
  shows "load (length a) d off = a" "load (length b) d (off + length a) = b"
proof -
  have "load (length a) d off = take (length a) (load (length (a @ b)) d off)"
    by (simp add: load_def min_def)
  then show "load (length a) d off = a" by (simp only: assms) simp
  have "load (length b) d (off + length a) = drop (length a) (load (length (a @ b)) d off)"
    by (simp add: load_def drop_take add.commute)
  then show "load (length b) d (off + length a) = b" by (simp only: assms) simp
qed

lemma deserialize_loop_bytes:
  assumes "\<forall>v \<in> set vs. value_ok v" "map val_type vs = map col_type cs"
    "unat offset + length (concat (map value_bytes vs)) < 2 ^ 32"
    "load (length (concat (map value_bytes vs))) d (base + unat offset) = concat (map value_bytes vs)"
    "base + unat offset + length (concat (map value_bytes vs)) \<le> length d"
  shows "deserialize_loop cs offset d base = Some vs"
  using assms
proof (induction vs arbitrary: offset cs)
  case Nil
  then show ?case by simp
next
  case (Cons v vs)
  then obtain c cs' where c: "cs = c # cs'" "col_type c = val_type v" "map val_type vs = map col_type cs'"
    by (cases cs) auto
  let ?a = "value_bytes v" and ?b = "concat (map value_bytes vs)" and ?o = "base + unat offset"
  have o': "unat (offset + Value_GetSerializedLength v) = unat offset + length ?a"
    using Cons.prems(3) value_length [of v] unat_add_lem [of offset "Value_GetSerializedLength v"] by simp
  have sp: "load (length ?a) d ?o = ?a" "load (length ?b) d (?o + length ?a) = ?b"
    using load_split [of ?a ?b d ?o] Cons.prems(4) by simp_all
  have "Value_Deserialize d ?o (val_type v) Value_default = Some v"
    using Cons.prems sp by (intro value_deserialize) auto
  moreover have "deserialize_loop cs' (offset + Value_GetSerializedLength v) d base = Some vs"
    using Cons.prems c sp by (intro Cons.IH) (auto simp: o' add.assoc)
  ultimately show ?case using c by simp
qed

lemma tuple_deserialize:
  assumes "tuple_ok sch t" "load (length (tuple_bytes t)) d base = tuple_bytes t"
    "base + length (tuple_bytes t) \<le> length d"
  shows "Tuple_Deserialize d base sch = Some t"
  using deserialize_loop_bytes [of "tuple_values t" "columns sch" 0 d base] assms
  by (simp add: Tuple_Deserialize_def tuple_ok_def encodable_def tuple_bytes_def)

section \<open>Properties\<close>

text \<open>
  C22. Tuple round trip. Serialising a tuple that matches its schema into a buffer with room for
  it writes exactly \<open>GetSerializedLength\<close> bytes at the given place and leaves all other bytes
  of the buffer alone; deserialising with the schema returns the same tuple.
\<close>

theorem tuple_roundtrip:
  assumes "tuple_ok sch t" "base + unat (Tuple_GetSerializedLength t) \<le> length d"
  shows "\<exists>d'. Tuple_Serialize t d base = Some d' \<and> length d' = length d \<and>
     Tuple_Deserialize d' base sch = Some t \<and>
     (\<forall>i < length d. i < base \<or> base + unat (Tuple_GetSerializedLength t) \<le> i \<longrightarrow> d' ! i = d ! i)"
proof -
  have len: "unat (Tuple_GetSerializedLength t) = length (tuple_bytes t)"
    using assms(1) by (intro tuple_length) (simp add: tuple_ok_def encodable_def)
  note room = assms(2) [unfolded len]
  have "Tuple_Deserialize (store d base (tuple_bytes t)) base sch = Some t"
    using room by (intro tuple_deserialize [OF assms(1)]) (simp_all add: load_store_same length_store)
  then show ?thesis
    using tuple_serialize [OF _ room] assms(1) room by (auto simp: tuple_ok_def len length_store nth_store)
qed

text \<open>A two-column table used by the witnesses: a number and a name.\<close>

definition sample_schema :: Schema where
  "sample_schema = \<lparr>columns = [Column_new ''id'' T_INT 0, Column_new ''name'' T_VARCHAR 32]\<rparr>"

definition sample_tuple :: "64 word \<Rightarrow> byte list \<Rightarrow> Tuple" where
  "sample_tuple i s = \<lparr>tuple_values = [Value_of_int64 i, Value_of_string s]\<rparr>"

lemma sample_tuple_bytes: "length (tuple_bytes (sample_tuple i s)) = 12 + length s"
  by (simp add: tuple_bytes_def sample_tuple_def value_bytes_def Value_of_int64_def
      Value_of_string_def Value_default_def)

lemma sample_tuple_ok: "length s < 1000 \<Longrightarrow> tuple_ok sample_schema (sample_tuple i s)"
  by (simp add: tuple_ok_def encodable_def sample_tuple_bytes)
    (simp add: sample_tuple_def sample_schema_def Column_new_def Value_of_int64_def Value_of_string_def
      Value_default_def value_ok_def)

theorem tuple_roundtrip_witness:
  "\<exists>d'. Tuple_Serialize (sample_tuple 7 [65, 66]) (replicate 20 0) 3 = Some d' \<and>
     Tuple_Deserialize d' 3 sample_schema = Some (sample_tuple 7 [65, 66])"
proof -
  have ok: "tuple_ok sample_schema (sample_tuple 7 [65, 66])" by (rule sample_tuple_ok) simp
  then have "unat (Tuple_GetSerializedLength (sample_tuple 7 [65, 66])) = 14"
    using tuple_length [of "sample_tuple 7 [65, 66]"] by (simp add: tuple_ok_def encodable_def sample_tuple_bytes)
  then show ?thesis
    using tuple_roundtrip [OF ok, of 3 "replicate 20 0"] by auto
qed

lemma unat_32_less: "unat (w :: 32 word) < 4294967296"
  using unsigned_less [of w, where 'a = nat] by simp

subsection \<open>What deserialisation reads\<close>

text \<open>
  A value stands for the bytes \<open>Serialize\<close> would write for it; a \<open>true\<close> stands for every byte that
  is not zero. \<open>encoded_by vs bs\<close>: the values stand one behind the other for the bytes \<open>bs\<close>.
\<close>

definition value_reads :: "Value \<Rightarrow> byte list \<Rightarrow> bool" where
  "value_reads v bs \<longleftrightarrow> bs = value_bytes v \<or> val_type v = T_BOOLEAN \<and> bool_val v \<and> length bs = 1 \<and> hd bs \<noteq> 0"

fun encoded_by :: "Value list \<Rightarrow> byte list \<Rightarrow> bool" where
  "encoded_by [] bs \<longleftrightarrow> bs = []"
| "encoded_by (v # vs) bs \<longleftrightarrow>
     value_reads v (take (length (value_bytes v)) bs) \<and> encoded_by vs (drop (length (value_bytes v)) bs)"

lemma load_add: "load (m + n) d off = load m d off @ load n d (off + m)"
  by (simp add: load_def take_add add.commute)

lemma value_deserialize_reads:
  assumes "Value_Deserialize d off type Value_default = Some v" "off \<le> length d"
  shows "val_type v = type \<and> value_ok v \<and> off + length (value_bytes v) \<le> length d \<and>
    value_reads v (load (length (value_bytes v)) d off)"
proof (cases type)
  case T_INT
  then have b: "off + 8 \<le> length d" "v = Value_default\<lparr>val_type := T_INT, int_val := le_word (load 8 d off)\<rparr>"
    using assms(1) by (auto simp: Value_Deserialize_def memcpy_from_def split: if_splits)
  have "le_bytes 8 (le_word (load 8 d off) :: 64 word) = load 8 d off"
    using le_bytes_le_word [of "load 8 d off", where 'a = 64] length_load [OF b(1)] by simp
  then show ?thesis using b T_INT length_load [OF b(1)]
    by (simp add: value_bytes_def value_reads_def value_ok_def Value_default_def)
next
  case T_BOOLEAN
  then obtain x where x: "load 1 d off = [x]" "off + 1 \<le> length d" "v = Value_default\<lparr>val_type := T_BOOLEAN, bool_val := (x \<noteq> 0)\<rparr>"
    using assms length_load [of off 1 d]
    by (auto simp: Value_Deserialize_def memcpy_from_def length_Suc_conv split: if_splits)
  then show ?thesis using T_BOOLEAN by (auto simp: Value_default_def value_ok_def value_bytes_def value_reads_def)
next
  case T_VARCHAR
  let ?l = "le_word (load 4 d off) :: 32 word"
  have b: "off + 4 \<le> length d" "off + 4 + unat ?l \<le> length d"
    "v = Value_default\<lparr>val_type := T_VARCHAR, str_val := load (unat ?l) d (off + 4)\<rparr>"
    using assms(1) T_VARCHAR by (auto simp: Value_Deserialize_def memcpy_from_def split: if_splits)
  have len: "length (load (unat ?l) d (off + 4)) = unat ?l" by (rule length_load [OF b(2)])
  have "le_bytes 4 ?l = load 4 d off" using le_bytes_le_word [of "load 4 d off", where 'a = 32] length_load [OF b(1)] by simp
  then have "value_bytes v = load 4 d off @ load (unat ?l) d (off + 4)" using b(3) len by (simp add: value_bytes_def)
  moreover have "length (value_bytes v) = 4 + unat ?l" using calculation len length_load [OF b(1)] by simp
  ultimately show ?thesis
    using b len T_VARCHAR unat_32_less [of ?l] by (simp add: value_reads_def load_add value_ok_def Value_default_def)
next
  case T_INVALID
  then show ?thesis using assms
    by (auto simp: Value_Deserialize_def Value_default_def value_ok_def value_bytes_def value_reads_def load_def)
qed

lemma value_reads_deserialize:
  assumes "value_ok v" "off + length (value_bytes v) \<le> length d" "value_reads v (load (length (value_bytes v)) d off)"
  shows "Value_Deserialize d off (val_type v) Value_default = Some v"
proof (cases "load (length (value_bytes v)) d off = value_bytes v")
  case True
  then show ?thesis by (rule value_deserialize [OF assms(1) _ assms(2)])
next
  case False
  then have v: "val_type v = T_BOOLEAN" "bool_val v" "length (value_bytes v) = 1" "hd (load 1 d off) \<noteq> 0"
    using assms(3) by (auto simp: value_reads_def value_bytes_def)
  then show ?thesis using assms(1,2)
    by (cases v) (auto simp: Value_Deserialize_def memcpy_from_def Value_default_def value_ok_def)
qed

lemma deserialize_loop_reads:
  assumes "length d < 2 ^ 32" "base + unat offset \<le> length d"
  shows "deserialize_loop cs offset d base = Some vs \<longleftrightarrow>
     map val_type vs = map col_type cs \<and> (\<forall>v \<in> set vs. value_ok v) \<and>
     base + unat offset + length (concat (map value_bytes vs)) \<le> length d \<and>
     encoded_by vs (load (length (concat (map value_bytes vs))) d (base + unat offset))"
  using assms
proof (induction cs arbitrary: offset vs)
  case Nil
  then show ?case by (auto simp: load_def)
next
  case (Cons c cs)
  let ?o = "base + unat offset"
  have next_offset: "unat (offset + Value_GetSerializedLength v) = unat offset + length (value_bytes v)"
    if "?o + length (value_bytes v) \<le> length d" for v
  proof -
    have "length (value_bytes v) < 2 ^ 32" using that Cons.prems(1) by simp
    then have "unat (Value_GetSerializedLength v) = length (value_bytes v)" by (rule value_length)
    then show ?thesis using that Cons.prems(1) unat_add_lem [of offset "Value_GetSerializedLength v"] by simp
  qed
  have split: "encoded_by (v # ws) (load (length (concat (map value_bytes (v # ws)))) d ?o) \<longleftrightarrow>
      value_reads v (load (length (value_bytes v)) d ?o) \<and>
      encoded_by ws (load (length (concat (map value_bytes ws))) d (?o + length (value_bytes v)))"
    if "?o + length (value_bytes v) \<le> length d" for v ws
    using length_load [OF that] by (simp add: load_add)
  show ?case
  proof
    assume "deserialize_loop (c # cs) offset d base = Some vs"
    then obtain v ws where v: "Value_Deserialize d ?o (col_type c) Value_default = Some v" "vs = v # ws"
      "deserialize_loop cs (offset + Value_GetSerializedLength v) d base = Some ws"
      by (auto split: option.splits)
    note r = value_deserialize_reads [OF v(1) Cons.prems(2)]
    then have b: "?o + length (value_bytes v) \<le> length d" by blast
    have "base + unat (offset + Value_GetSerializedLength v) \<le> length d" using b next_offset [OF b] by simp
    from Cons.IH [OF Cons.prems(1) this, of ws] v(3) have "map val_type ws = map col_type cs" "\<forall>v \<in> set ws. value_ok v"
      "?o + length (value_bytes v) + length (concat (map value_bytes ws)) \<le> length d"
      "encoded_by ws (load (length (concat (map value_bytes ws))) d (?o + length (value_bytes v)))"
      using next_offset [OF b] by (simp_all add: add.assoc)
    then show "map val_type vs = map col_type (c # cs) \<and> (\<forall>v \<in> set vs. value_ok v) \<and>
        ?o + length (concat (map value_bytes vs)) \<le> length d \<and>
        encoded_by vs (load (length (concat (map value_bytes vs))) d ?o)"
      unfolding v(2) split [OF b] using r by simp
  next
    assume a: "map val_type vs = map col_type (c # cs) \<and> (\<forall>v \<in> set vs. value_ok v) \<and>
        ?o + length (concat (map value_bytes vs)) \<le> length d \<and>
        encoded_by vs (load (length (concat (map value_bytes vs))) d ?o)"
    then obtain v ws where v: "vs = v # ws" "val_type v = col_type c" "map val_type ws = map col_type cs" by (cases vs) auto
    have b: "?o + length (value_bytes v) \<le> length d" using a v(1) by simp
    have e: "value_reads v (load (length (value_bytes v)) d ?o)"
      "encoded_by ws (load (length (concat (map value_bytes ws))) d (?o + length (value_bytes v)))"
      using a unfolding v(1) split [OF b] by blast+
    have "Value_Deserialize d ?o (col_type c) Value_default = Some v"
      using value_reads_deserialize [OF _ b e(1)] a v(1,2) by simp
    moreover have "base + unat (offset + Value_GetSerializedLength v) \<le> length d" using b next_offset [OF b] by simp
    from Cons.IH [OF Cons.prems(1) this, of ws] have "deserialize_loop cs (offset + Value_GetSerializedLength v) d base = Some ws"
      using next_offset [OF b] a v e(2) by (simp add: add.assoc)
    ultimately show "deserialize_loop (c # cs) offset d base = Some vs" using v(1) by simp
  qed
qed

text \<open>
  C23. What \<open>Deserialize\<close> reads from arbitrary bytes. For every buffer below 4 GiB it builds a tuple
  exactly when the bytes at the given place are the encoding of one: one value for each column, of the
  column's type, one behind the other in the order of the columns, within the buffer. Each value is
  one that the constructors of \<open>Value\<close> can build; a \<open>BOOLEAN\<close> is true for every byte that is not zero.
\<close>

theorem deserialize_reads_encoding:
  assumes "length d < 2 ^ 32" "base \<le> length d"
  shows "Tuple_Deserialize d base sch = Some t \<longleftrightarrow>
     map val_type (tuple_values t) = map col_type (columns sch) \<and> (\<forall>v \<in> set (tuple_values t). value_ok v) \<and>
     base + length (tuple_bytes t) \<le> length d \<and> encoded_by (tuple_values t) (load (length (tuple_bytes t)) d base)"
  using deserialize_loop_reads [of d base 0 "columns sch" "tuple_values t"] assms
  by (cases t) (auto simp: Tuple_Deserialize_def tuple_bytes_def)

theorem deserialize_reads_encoding_witness:
  "Tuple_Deserialize (replicate 3 0 @ le_bytes 8 (258 :: 64 word) @ [2, 0, 0, 0, 65, 66, 67]) 3 sample_schema =
     Some (sample_tuple 258 [65, 66])"
proof -
  let ?d = "replicate 3 0 @ le_bytes 8 (258 :: 64 word) @ [2, 0, 0, 0, 65, 66, 67] :: byte list"
  have len: "length ?d < 2 ^ 32" "3 \<le> length ?d" by simp_all
  have t: "tuple_ok sample_schema (sample_tuple 258 [65, 66])" by (rule sample_tuple_ok) simp
  have b: "tuple_bytes (sample_tuple 258 [65, 66]) = le_bytes 8 (258 :: 64 word) @ [2, 0, 0, 0, 65, 66]"
    by (simp add: tuple_bytes_def sample_tuple_def value_bytes_def Value_of_int64_def Value_of_string_def Value_default_def)
      code_simp
  have "encoded_by (tuple_values (sample_tuple 258 [65, 66])) (tuple_bytes (sample_tuple 258 [65, 66]))"
    by (simp add: sample_tuple_def tuple_bytes_def value_reads_def)
  moreover have "load (length (tuple_bytes (sample_tuple 258 [65, 66]))) ?d 3 = tuple_bytes (sample_tuple 258 [65, 66])"
    by (simp add: b load_def)
  ultimately show ?thesis
    using deserialize_reads_encoding [OF len, of sample_schema "sample_tuple 258 [65, 66]"] t
    by (simp add: tuple_ok_def encodable_def sample_tuple_bytes)
qed

lemma col_idx_loop_first:
  "col_idx_loop cs name i =
     (if \<exists>c \<in> set cs. col_name c = name
      then of_nat (i + length (takeWhile (\<lambda>c. col_name c \<noteq> name) cs)) else - 1)"
  by (induction cs arbitrary: i) auto

lemma takeWhile_neq_nth:
  assumes "\<exists>c \<in> set cs. f c = x"
  shows "length (takeWhile (\<lambda>c. f c \<noteq> x) cs) < length cs \<and>
     f (cs ! length (takeWhile (\<lambda>c. f c \<noteq> x) cs)) = x \<and>
     (\<forall>j < length (takeWhile (\<lambda>c. f c \<noteq> x) cs). f (cs ! j) \<noteq> x)"
  using assms
proof (induction cs)
  case (Cons a cs)
  then show ?case
    by (cases "f a = x") (auto simp: less_Suc_eq_0_disj dest!: Cons.IH [OF bexI])
qed simp

text \<open>
  \<open>GetColIdx\<close> returns the first column with the given name, so that
  \<open>GetColumn\<close> finds a column of that name there and none before it; it returns \<open>-1\<close> exactly
  when there is none.
\<close>

lemma get_col_idx_first:
  assumes "length (columns sch) < 2 ^ 31"
  shows "if \<exists>c \<in> set (columns sch). col_name c = name
     then \<exists>c. GetColumn sch (GetColIdx sch name) = Inr c \<and> col_name c = name \<and>
            (\<forall>j < unat (GetColIdx sch name). col_name (columns sch ! j) \<noteq> name)
     else GetColIdx sch name = - 1"
proof (cases "\<exists>c \<in> set (columns sch). col_name c = name")
  case True
  let ?k = "length (takeWhile (\<lambda>c. col_name c \<noteq> name) (columns sch))"
  note k = takeWhile_neq_nth [OF True]
  have "unat (GetColIdx sch name) = ?k"
    using True k assms unat_of_nat_u32 [of ?k] by (simp add: GetColIdx_def col_idx_loop_first)
  then show ?thesis using True k by (simp add: GetColumn_def)
next
  case False
  then show ?thesis by (simp add: GetColIdx_def col_idx_loop_first)
qed

end
