(* ===== verification/Table_Page.thy ===== *)
theory Table_Page
  imports Tuple_Layout
begin

text \<open>
  The slotted page of \<^verbatim>\<open>table_page.hpp\<close>: an overlay on the 4096 bytes of a page, with a header
  of five 32-bit fields, the slot array growing up from byte 20 and the tuples growing down from
  the end. All fields are read and written at their byte offsets; arithmetic is 32-bit. An
  access of \<^verbatim>\<open>slots_\<close> outside its 500 elements, or of the page outside its bytes, is \<open>MemFault\<close>.
  \<open>page_shape\<close> is the layout invariant on the numbers only, \<open>tp_view\<close> the abstract content: a
  partial map from slots to byte strings.
\<close>

section \<open>Fields\<close>

definition tp_page_id :: "byte list \<Rightarrow> page_id" where
  "tp_page_id d = get_u32 d 0"

definition num_slots :: "byte list \<Rightarrow> 32 word" where
  "num_slots d = get_u32 d 4"

definition free_space_pointer :: "byte list \<Rightarrow> 32 word" where
  "free_space_pointer d = get_u32 d 8"

definition prev_page_id :: "byte list \<Rightarrow> page_id" where
  "prev_page_id d = get_u32 d 12"

definition next_page_id :: "byte list \<Rightarrow> page_id" where
  "next_page_id d = get_u32 d 16"

definition SetNextPageId :: "page_id \<Rightarrow> byte list \<Rightarrow> byte list" where
  "SetNextPageId p d = set_u32 d 16 p"

definition SetPrevPageId :: "page_id \<Rightarrow> byte list \<Rightarrow> byte list" where
  "SetPrevPageId p d = set_u32 d 12 p"

definition slot_offset :: "byte list \<Rightarrow> nat \<Rightarrow> 32 word" where
  "slot_offset d i = get_u32 d (20 + 8 * i)"

definition slot_length :: "byte list \<Rightarrow> nat \<Rightarrow> 32 word" where
  "slot_length d i = get_u32 d (24 + 8 * i)"

definition set_slot :: "byte list \<Rightarrow> nat \<Rightarrow> 32 word \<Rightarrow> 32 word \<Rightarrow> byte list" where
  "set_slot d i off len = set_u32 (set_u32 d (20 + 8 * i) off) (24 + 8 * i) len"

definition max_slots :: nat where
  "max_slots = 500"

section \<open>Operations\<close>

definition TablePage_Init :: "page_id \<Rightarrow> page_id \<Rightarrow> byte list \<Rightarrow> byte list" where
  "TablePage_Init p prev d =
     (let d1 = set_u32 d 0 p;
          d2 = set_u32 d1 4 0;
          d3 = set_u32 d2 8 (of_nat PAGE_SIZE);
          d4 = set_u32 d3 12 prev
      in set_u32 d4 16 INVALID_PAGE_ID)"

text \<open>The search for a slot that is marked as deleted; \<open>k\<close> slots are left to inspect.\<close>

fun find_slot :: "byte list \<Rightarrow> nat \<Rightarrow> nat \<Rightarrow> err + nat option" where
  "find_slot d i 0 = Inr None"
| "find_slot d i (Suc k) =
     (if max_slots \<le> i then Inl MemFault
      else if slot_length d i = 0 then Inr (Some i)
      else find_slot d (Suc i) k)"

text \<open>The result is the value left in \<^verbatim>\<open>*slot_num\<close>, or \<open>None\<close> when \<^verbatim>\<open>false\<close> is returned.\<close>

definition TablePage_InsertTuple :: "Tuple \<Rightarrow> (byte list, 32 word option) comp" where
  "TablePage_InsertTuple t d =
     (let tuple_len = Tuple_GetSerializedLength t in
      case find_slot d 0 (unat (num_slots d)) of
        Inl e \<Rightarrow> (Inl e, d)
      | Inr target_slot \<Rightarrow>
         (let needed_space = (if target_slot = None then tuple_len + 8 else tuple_len);
              current_free_boundary = 20 + num_slots d * 8
          in if free_space_pointer d < current_free_boundary \<or>
                free_space_pointer d - current_free_boundary < needed_space
             then (Inr None, d)
             else
               (let d1 = set_u32 d 8 (free_space_pointer d - tuple_len) in
                case Tuple_Serialize t d1 (unat (free_space_pointer d1)) of
                  None \<Rightarrow> (Inl MemFault, d1)
                | Some d2 \<Rightarrow>
                   (case target_slot of
                      Some i \<Rightarrow> (Inr (Some (of_nat i)), set_slot d2 i (free_space_pointer d2) tuple_len)
                    | None \<Rightarrow>
                       (let n = num_slots d2 in
                        if max_slots \<le> unat n then (Inl MemFault, d2)
                        else (Inr (Some n),
                              set_u32 (set_slot d2 (unat n) (free_space_pointer d2) tuple_len) 4 (n + 1)))))))"

definition TablePage_GetTuple :: "32 word \<Rightarrow> Schema \<Rightarrow> (byte list, Tuple option) comp" where
  "TablePage_GetTuple slot_num sch d =
     (if num_slots d \<le> slot_num then (Inr None, d)
      else if max_slots \<le> unat slot_num then (Inl MemFault, d)
      else if slot_length d (unat slot_num) = 0 then (Inr None, d)
      else case Tuple_Deserialize d (unat (slot_offset d (unat slot_num))) sch of
             None \<Rightarrow> (Inl MemFault, d)
           | Some t \<Rightarrow> (Inr (Some t), d))"

definition TablePage_DeleteTuple :: "32 word \<Rightarrow> (byte list, bool) comp" where
  "TablePage_DeleteTuple slot_num d =
     (if num_slots d \<le> slot_num then (Inr False, d)
      else if max_slots \<le> unat slot_num then (Inl MemFault, d)
      else if slot_length d (unat slot_num) = 0 then (Inr False, d)
      else (Inr True, set_slot d (unat slot_num) 0 0))"

definition TablePage_UpdateTuple :: "32 word \<Rightarrow> Tuple \<Rightarrow> (byte list, bool) comp" where
  "TablePage_UpdateTuple slot_num t d =
     (let i = unat slot_num; new_len = Tuple_GetSerializedLength t in
      if num_slots d \<le> slot_num then (Inr False, d)
      else if max_slots \<le> i then (Inl MemFault, d)
      else if slot_length d i = 0 then (Inr False, d)
      else if new_len \<le> slot_length d i then
        (case Tuple_Serialize t d (unat (slot_offset d i)) of
           None \<Rightarrow> (Inl MemFault, d)
         | Some d1 \<Rightarrow> (Inr True, set_u32 d1 (24 + 8 * i) new_len))
      else
        (let current_free_boundary = 20 + num_slots d * 8 in
         if free_space_pointer d < current_free_boundary \<or>
            free_space_pointer d - current_free_boundary < new_len
         then (Inr False, d)
         else
           (let d1 = set_u32 d 8 (free_space_pointer d - new_len) in
            case Tuple_Serialize t d1 (unat (free_space_pointer d1)) of
              None \<Rightarrow> (Inl MemFault, d1)
            | Some d2 \<Rightarrow> (Inr True, set_slot d2 i (free_space_pointer d2) new_len))))"

section \<open>The layout invariant on numbers\<close>

text \<open>
  \<open>n\<close> slots, free space up to \<open>f\<close>, slot \<open>i\<close> at \<open>off i\<close> with \<open>len i\<close> bytes. The bound on \<open>n\<close> holds
  because an empty slot is reused before a new one is made: at most one slot per tuple byte was
  ever created, and one more for an empty tuple.
\<close>

definition disjoint_ranges :: "nat \<Rightarrow> nat \<Rightarrow> nat \<Rightarrow> nat \<Rightarrow> bool" where
  "disjoint_ranges a m b n \<longleftrightarrow> a + m \<le> b \<or> b + n \<le> a"

definition page_shape :: "nat \<Rightarrow> nat \<Rightarrow> (nat \<Rightarrow> nat) \<Rightarrow> (nat \<Rightarrow> nat) \<Rightarrow> bool" where
  "page_shape n f off len \<longleftrightarrow>
     20 + 8 * n \<le> f \<and> f \<le> PAGE_SIZE \<and>
     n \<le> (PAGE_SIZE - f) + 1 \<and> ((\<forall>i < n. len i \<noteq> 0) \<longrightarrow> n \<le> PAGE_SIZE - f) \<and>
     (\<forall>i < n. len i \<noteq> 0 \<longrightarrow> f \<le> off i \<and> off i + len i \<le> PAGE_SIZE) \<and>
     (\<forall>i < n. \<forall>j < n. i \<noteq> j \<and> len i \<noteq> 0 \<and> len j \<noteq> 0 \<longrightarrow>
        disjoint_ranges (off i) (len i) (off j) (len j))"

lemma page_shape_cong:
  assumes "page_shape n f off len" "\<And>i. i < n \<Longrightarrow> off' i = off i \<and> len' i = len i"
  shows "page_shape n f off' len'"
  using assms unfolding page_shape_def by auto

lemma page_shape_disjoint:
  "page_shape n f off len \<Longrightarrow> i < n \<Longrightarrow> j < n \<Longrightarrow> i \<noteq> j \<Longrightarrow> len i \<noteq> 0 \<Longrightarrow> len j \<noteq> 0 \<Longrightarrow>
   disjoint_ranges (off i) (len i) (off j) (len j)"
  unfolding page_shape_def by blast

lemma page_shape_range:
  "page_shape n f off len \<Longrightarrow> i < n \<Longrightarrow> len i \<noteq> 0 \<Longrightarrow> f \<le> off i \<and> off i + len i \<le> PAGE_SIZE"
  unfolding page_shape_def by blast

lemma page_shape_slots:
  assumes "page_shape n f off len"
  shows "n \<le> 453" "n < max_slots"
  using assms by (auto simp: page_shape_def PAGE_SIZE_def max_slots_def)

lemma page_shape_reuse:
  assumes sh: "page_shape n f off len" and i: "i < n" "len i = 0" and room: "20 + 8 * n + m \<le> f"
  shows "page_shape n (f - m) (off(i := f - m)) (len(i := m))"
proof -
  have count: "n \<le> PAGE_SIZE - f + 1" "f \<le> PAGE_SIZE" using sh by (auto simp: page_shape_def)
  have low: "f \<le> off l \<and> off l + len l \<le> PAGE_SIZE" if "l < n" "len l \<noteq> 0" for l
    using page_shape_range [OF sh that] .
  have "disjoint_ranges ((off(i := f - m)) j) ((len(i := m)) j) ((off(i := f - m)) k) ((len(i := m)) k)"
    if jk: "j < n" "k < n" "j \<noteq> k" "(len(i := m)) j \<noteq> 0" "(len(i := m)) k \<noteq> 0" for j k
  proof (cases "j = i \<or> k = i")
    case True
    then show ?thesis using jk room low [of j] low [of k] by (auto simp: disjoint_ranges_def)
  next
    case False
    then show ?thesis using jk page_shape_disjoint [OF sh jk(1-3)] by simp
  qed
  moreover have "n \<le> PAGE_SIZE - (f - m)" if "\<forall>j < n. (len(i := m)) j \<noteq> 0"
    using that [rule_format, OF i(1)] count room by simp
  moreover have "20 + 8 * n \<le> f - m" "f - m \<le> PAGE_SIZE" "n \<le> PAGE_SIZE - (f - m) + 1"
    using count room by auto
  moreover have "f - m \<le> (off(i := f - m)) j \<and> (off(i := f - m)) j + (len(i := m)) j \<le> PAGE_SIZE"
    if "j < n" "(len(i := m)) j \<noteq> 0" for j
    using that low [of j] count room by (cases "j = i") auto
  ultimately show ?thesis unfolding page_shape_def by blast
qed

lemma page_shape_append:
  assumes sh: "page_shape n f off len" and full: "\<And>i. i < n \<Longrightarrow> len i \<noteq> 0"
    and room: "20 + 8 * n + (m + 8) \<le> f"
  shows "page_shape (Suc n) (f - m) (off(n := f - m)) (len(n := m))"
proof -
  have count: "n \<le> PAGE_SIZE - f" "f \<le> PAGE_SIZE" using sh full by (auto simp: page_shape_def)
  have low: "f \<le> off l \<and> off l + len l \<le> PAGE_SIZE" if "l < n" for l
    using page_shape_range [OF sh that full [OF that]] .
  have "disjoint_ranges ((off(n := f - m)) j) ((len(n := m)) j) ((off(n := f - m)) k) ((len(n := m)) k)"
    if jk: "j < Suc n" "k < Suc n" "j \<noteq> k" for j k
  proof (cases "j = n \<or> k = n")
    case True
    then show ?thesis using jk room low [of j] low [of k] by (auto simp: disjoint_ranges_def less_Suc_eq)
  next
    case False
    then show ?thesis using jk page_shape_disjoint [OF sh _ _ jk(3)] full by simp
  qed
  moreover have "Suc n \<le> PAGE_SIZE - (f - m)" if "\<forall>j < Suc n. (len(n := m)) j \<noteq> 0"
    using that [rule_format, of n] count room by simp
  moreover have "20 + 8 * Suc n \<le> f - m" "f - m \<le> PAGE_SIZE" "Suc n \<le> PAGE_SIZE - (f - m) + 1"
    using count room by auto
  moreover have "f - m \<le> (off(n := f - m)) j \<and> (off(n := f - m)) j + (len(n := m)) j \<le> PAGE_SIZE"
    if "j < Suc n" for j
    using that low [of j] count room by (cases "j = n") auto
  ultimately show ?thesis unfolding page_shape_def by blast
qed

lemma page_shape_delete:
  assumes "page_shape n f off len" "i < n"
  shows "page_shape n f (off(i := 0)) (len(i := 0))"
  using assms unfolding page_shape_def by auto

lemma page_shape_shrink:
  assumes "page_shape n f off len" "i < n" "m \<le> len i"
  shows "page_shape n f off (len(i := m))"
proof -
  have "disjoint_ranges (off j) ((len(i := m)) j) (off k) ((len(i := m)) k)"
    if "j < n" "k < n" "j \<noteq> k" "(len(i := m)) j \<noteq> 0" "(len(i := m)) k \<noteq> 0" for j k
  proof -
    have "len j \<noteq> 0" "len k \<noteq> 0" using that assms(3) by (auto split: if_splits)
    then have "disjoint_ranges (off j) (len j) (off k) (len k)"
      using assms(1) that by (simp add: page_shape_def)
    then show ?thesis using assms(3) by (auto simp: disjoint_ranges_def)
  qed
  moreover have "n \<le> PAGE_SIZE - f" if z: "\<forall>j < n. (len(i := m)) j \<noteq> 0"
  proof -
    have "len j \<noteq> 0" if "j < n" for j
      using z [rule_format, OF that] assms(3) by (cases "j = i") auto
    then show ?thesis using assms(1) by (simp add: page_shape_def)
  qed
  moreover have "f \<le> off j \<and> off j + (len(i := m)) j \<le> PAGE_SIZE" if "j < n" "(len(i := m)) j \<noteq> 0" for j
    using that page_shape_range [OF assms(1), of j] assms(3) by (cases "j = i") auto
  moreover have "20 + 8 * n \<le> f" "f \<le> PAGE_SIZE" "n \<le> PAGE_SIZE - f + 1"
    using assms(1) by (auto simp: page_shape_def)
  ultimately show ?thesis unfolding page_shape_def by blast
qed

lemma page_shape_move:
  assumes "page_shape n f off len" "i < n" "len i \<noteq> 0" "20 + 8 * n + m \<le> f"
  shows "page_shape n (f - m) (off(i := f - m)) (len(i := m))"
proof -
  have "page_shape n (f - m) (((off)(i := 0))(i := f - m)) ((len(i := 0))(i := m))"
    using assms by (intro page_shape_reuse page_shape_delete) auto
  then show ?thesis by simp
qed

section \<open>Invariant and content of a page\<close>

definition tp_inv :: "byte list \<Rightarrow> bool" where
  "tp_inv d \<longleftrightarrow> length d = PAGE_SIZE \<and>
     page_shape (unat (num_slots d)) (unat (free_space_pointer d))
       (\<lambda>i. unat (slot_offset d i)) (\<lambda>i. unat (slot_length d i))"

definition tp_view :: "byte list \<Rightarrow> nat \<rightharpoonup> byte list" where
  "tp_view d i =
     (if i < unat (num_slots d) \<and> slot_length d i \<noteq> 0
      then Some (load (unat (slot_length d i)) d (unat (slot_offset d i))) else None)"

text \<open>A slot with an empty byte string counts as deleted.\<close>

definition cell :: "byte list \<Rightarrow> byte list option" where
  "cell bs = (if bs = [] then None else Some bs)"

lemmas tp_fields = tp_page_id_def num_slots_def free_space_pointer_def prev_page_id_def
  next_page_id_def slot_offset_def slot_length_def

definition same_header :: "byte list \<Rightarrow> byte list \<Rightarrow> bool" where
  "same_header d d' \<longleftrightarrow> tp_page_id d' = tp_page_id d \<and> prev_page_id d' = prev_page_id d \<and>
     next_page_id d' = next_page_id d"

lemma same_header_refl [simp]: "same_header d d"
  by (simp add: same_header_def)

lemma same_header_trans: "same_header d d' \<Longrightarrow> same_header d' d'' \<Longrightarrow> same_header d d''"
  by (simp add: same_header_def)

lemma set_slot_fields:
  assumes "28 + 8 * i \<le> length d"
  shows "length (set_slot d i a b) = length d" "same_header d (set_slot d i a b)"
    "num_slots (set_slot d i a b) = num_slots d" "free_space_pointer (set_slot d i a b) = free_space_pointer d"
    "slot_offset (set_slot d i a b) j = (if j = i then a else slot_offset d j)"
    "slot_length (set_slot d i a b) j = (if j = i then b else slot_length d j)"
    "28 + 8 * i \<le> o' \<Longrightarrow> load k (set_slot d i a b) o' = load k d o'"
proof -
  let ?d = "set_u32 d (20 + 8 * i) a"
  have l: "length ?d = length d" using assms by (simp add: layout_simps)
  show "length (set_slot d i a b) = length d" using assms l by (simp add: set_slot_def layout_simps)
  have low: "get_u32 (set_slot d i a b) x = get_u32 d x" if "x + 4 \<le> 20 \<or> (20 + 8 * i + 8 \<le> x) \<or> (x + 4 \<le> 20 + 8 * i)" for x
    using assms l that by (auto simp: set_slot_def get_set_u32_other)
  show "same_header d (set_slot d i a b)" "num_slots (set_slot d i a b) = num_slots d"
    "free_space_pointer (set_slot d i a b) = free_space_pointer d"
    by (simp_all add: same_header_def tp_fields low)
  have "j < i \<or> j = i \<or> i < j" by auto
  then show "slot_offset (set_slot d i a b) j = (if j = i then a else slot_offset d j)"
    "slot_length (set_slot d i a b) j = (if j = i then b else slot_length d j)"
    using assms l low [of "20 + 8 * j"] low [of "24 + 8 * j"]
    by (auto simp: tp_fields set_slot_def get_set_u32_other get_set_u32_same)
  show "load k (set_slot d i a b) o' = load k d o'" if "28 + 8 * i \<le> o'"
    using assms l that by (simp add: set_slot_def load_set_u32_other)
qed

lemma store_fields:
  assumes "o' + length bs \<le> length d" "20 + 8 * n \<le> o'"
  shows "length (store d o' bs) = length d" "same_header d (store d o' bs)"
    "num_slots (store d o' bs) = num_slots d" "free_space_pointer (store d o' bs) = free_space_pointer d"
    "j < n \<Longrightarrow> slot_offset (store d o' bs) j = slot_offset d j"
    "j < n \<Longrightarrow> slot_length (store d o' bs) j = slot_length d j"
proof -
  have low: "get_u32 (store d o' bs) x = get_u32 d x" if "x + 4 \<le> o'" for x
    using assms(1) that by (intro get_u32_store_other) auto
  show "length (store d o' bs) = length d" using assms by (simp add: length_store)
  show "same_header d (store d o' bs)" "num_slots (store d o' bs) = num_slots d"
    "free_space_pointer (store d o' bs) = free_space_pointer d"
    using assms by (simp_all add: same_header_def tp_fields low)
  show "slot_offset (store d o' bs) j = slot_offset d j" "slot_length (store d o' bs) j = slot_length d j" if "j < n"
    using assms that by (simp_all add: tp_fields low)
qed

lemma header_write_fields:
  assumes "28 \<le> length d" "h = 4 \<or> h = 8"
  shows "length (set_u32 d h w) = length d" "same_header d (set_u32 d h w)"
    "num_slots (set_u32 d h w) = (if h = 4 then w else num_slots d)"
    "free_space_pointer (set_u32 d h w) = (if h = 8 then w else free_space_pointer d)"
    "slot_offset (set_u32 d h w) j = slot_offset d j" "slot_length (set_u32 d h w) j = slot_length d j"
    "20 \<le> o' \<Longrightarrow> load k (set_u32 d h w) o' = load k d o'"
  using assms by (auto simp: same_header_def tp_fields layout_simps)

text \<open>
  Writing a tuple's bytes at \<open>o'\<close> and pointing slot \<open>i\<close> at them: what every other slot reads.
\<close>

lemma place_tuple:
  assumes len: "length d = PAGE_SIZE" and o': "28 + 8 * i \<le> o'" "20 + 8 * n \<le> o'" "o' + length bs \<le> PAGE_SIZE"
  defines "d' \<equiv> set_slot (store d o' bs) i (of_nat o') (of_nat (length bs))"
  shows "length d' = PAGE_SIZE" "same_header d d'" "num_slots d' = num_slots d"
    "free_space_pointer d' = free_space_pointer d"
    "j < n \<or> j = i \<Longrightarrow> unat (slot_offset d' j) = (if j = i then o' else unat (slot_offset d j))"
    "j < n \<or> j = i \<Longrightarrow> unat (slot_length d' j) = (if j = i then length bs else unat (slot_length d j))"
    "load (length bs) d' o' = bs"
    "28 + 8 * i \<le> a \<Longrightarrow> disjoint_ranges a k o' (length bs) \<Longrightarrow> load k d' a = load k d a"
proof -
  have st: "o' + length bs \<le> length d" "28 + 8 * i \<le> length (store d o' bs)"
    using len o' by (auto simp: length_store)
  note sf = store_fields [OF st(1) o'(2)] and ss = set_slot_fields [OF st(2), where a = "of_nat o'" and b = "of_nat (length bs)"]
  have small: "unat (of_nat o' :: 32 word) = o'" "unat (of_nat (length bs) :: 32 word) = length bs"
    using o'(3) by (auto intro!: unat_of_nat_u32 simp: PAGE_SIZE_def)
  show "length d' = PAGE_SIZE" "num_slots d' = num_slots d" "free_space_pointer d' = free_space_pointer d"
    using sf(1,3,4) ss(1,3,4) len by (simp_all add: d'_def)
  show "same_header d d'" using same_header_trans [OF sf(2) ss(2)] by (simp add: d'_def)
  show "unat (slot_offset d' j) = (if j = i then o' else unat (slot_offset d j))"
    "unat (slot_length d' j) = (if j = i then length bs else unat (slot_length d j))" if "j < n \<or> j = i"
    using that sf(5,6) by (auto simp: d'_def ss(5,6) small)
  show "load (length bs) d' o' = bs"
    using st(1) o'(1) by (simp add: d'_def ss(7) load_store_same)
  show "load k d' a = load k d a" if "28 + 8 * i \<le> a" "disjoint_ranges a k o' (length bs)"
    using that st(1) by (simp add: d'_def ss(7) load_store_disjoint disjoint_ranges_def)
qed

section \<open>Operations on a well-formed page\<close>

text \<open>What the search loop finds.\<close>

lemma find_slot_result:
  assumes "i + k \<le> max_slots"
  shows "(\<exists>j. find_slot d i k = Inr (Some j) \<and> i \<le> j \<and> j < i + k \<and> slot_length d j = 0) \<or>
     find_slot d i k = Inr None \<and> (\<forall>j. i \<le> j \<and> j < i + k \<longrightarrow> slot_length d j \<noteq> 0)"
  using assms
proof (induction k arbitrary: i)
  case (Suc k)
  show ?case
  proof (cases "slot_length d i = 0")
    case True
    then show ?thesis using Suc.prems by auto
  next
    case False
    then have eq: "find_slot d i (Suc k) = find_slot d (Suc i) k" using Suc.prems by simp
    have "Suc i + k \<le> max_slots" using Suc.prems by simp
    from Suc.IH [OF this] show ?thesis
    proof (elim disjE exE conjE)
      fix j
      assume "find_slot d (Suc i) k = Inr (Some j)" "Suc i \<le> j" "j < Suc i + k" "slot_length d j = 0"
      then show ?thesis unfolding eq by simp
    next
      assume none: "find_slot d (Suc i) k = Inr None"
        "\<forall>j. Suc i \<le> j \<and> j < Suc i + k \<longrightarrow> slot_length d j \<noteq> 0"
      have "slot_length d j \<noteq> 0" if "i \<le> j \<and> j < i + Suc k" for j
        using that none(2) False by (cases "j = i") auto
      then show ?thesis unfolding eq using none(1) by blast
    qed
  qed
qed auto

lemma tp_inv_bounds:
  assumes "tp_inv d"
  shows "length d = PAGE_SIZE" "20 + 8 * unat (num_slots d) \<le> unat (free_space_pointer d)"
    "unat (free_space_pointer d) \<le> PAGE_SIZE" "unat (num_slots d) < max_slots"
    "unat (20 + num_slots d * 8) = 20 + 8 * unat (num_slots d)"
    "unat (free_space_pointer d - (20 + num_slots d * 8)) =
       unat (free_space_pointer d) - (20 + 8 * unat (num_slots d))"
    "\<not> free_space_pointer d < 20 + num_slots d * 8"
proof -
  have sh: "page_shape (unat (num_slots d)) (unat (free_space_pointer d))
       (\<lambda>i. unat (slot_offset d i)) (\<lambda>i. unat (slot_length d i))"
    using assms by (simp add: tp_inv_def)
  show "length d = PAGE_SIZE" using assms by (simp add: tp_inv_def)
  show f: "20 + 8 * unat (num_slots d) \<le> unat (free_space_pointer d)"
    "unat (free_space_pointer d) \<le> PAGE_SIZE" "unat (num_slots d) < max_slots"
    using sh page_shape_slots(2) [OF sh] by (auto simp: page_shape_def)
  have "unat (num_slots d * 8) = unat (num_slots d) * 8"
    using f(3) unat_mult_lem [of "num_slots d" 8] by (simp add: max_slots_def)
  then show b: "unat (20 + num_slots d * 8) = 20 + 8 * unat (num_slots d)"
    using f(3) unat_add_lem [of 20 "num_slots d * 8"] by (simp add: max_slots_def)
  show "unat (free_space_pointer d - (20 + num_slots d * 8)) =
       unat (free_space_pointer d) - (20 + 8 * unat (num_slots d))"
    using f b by (simp add: unat_sub word_le_nat_alt)
  show "\<not> free_space_pointer d < 20 + num_slots d * 8"
    using f b by (simp add: word_less_nat_alt)
qed

lemma tp_inv_slot:
  assumes "tp_inv d" "j < unat (num_slots d)" "slot_length d j \<noteq> 0"
  shows "unat (free_space_pointer d) \<le> unat (slot_offset d j)"
    "unat (slot_offset d j) + unat (slot_length d j) \<le> PAGE_SIZE"
    "i < unat (num_slots d) \<Longrightarrow> i \<noteq> j \<Longrightarrow> slot_length d i \<noteq> 0 \<Longrightarrow>
     disjoint_ranges (unat (slot_offset d i)) (unat (slot_length d i)) (unat (slot_offset d j)) (unat (slot_length d j))"
proof -
  have sh: "page_shape (unat (num_slots d)) (unat (free_space_pointer d))
       (\<lambda>i. unat (slot_offset d i)) (\<lambda>i. unat (slot_length d i))"
    using assms(1) by (simp add: tp_inv_def)
  have nz: "unat (slot_length d l) \<noteq> 0" if "slot_length d l \<noteq> 0" for l
    using that by (simp add: unat_eq_zero)
  show "unat (free_space_pointer d) \<le> unat (slot_offset d j)"
    "unat (slot_offset d j) + unat (slot_length d j) \<le> PAGE_SIZE"
    using page_shape_range [OF sh assms(2) nz [OF assms(3)]] by auto
  show "disjoint_ranges (unat (slot_offset d i)) (unat (slot_length d i)) (unat (slot_offset d j)) (unat (slot_length d j))"
    if "i < unat (num_slots d)" "i \<noteq> j" "slot_length d i \<noteq> 0"
    using page_shape_disjoint [OF sh that(1) assms(2) that(2) nz [OF that(3)] nz [OF assms(3)]] .
qed

text \<open>A view that differs at one slot.\<close>

lemma view_update:
  assumes inv: "tp_inv d" and i: "i < n'" and n': "n' = unat (num_slots d')" "unat (num_slots d) \<le> n'"
    and grow: "\<And>j. unat (num_slots d) \<le> j \<Longrightarrow> j < n' \<Longrightarrow> j = i"
    and new: "unat (slot_length d' i) = length bs" "load (length bs) d' (unat (slot_offset d' i)) = bs"
    and old: "\<And>j. j < unat (num_slots d) \<Longrightarrow> j \<noteq> i \<Longrightarrow>
       slot_length d' j = slot_length d j \<and>
       (slot_length d j \<noteq> 0 \<longrightarrow> load (unat (slot_length d j)) d' (unat (slot_offset d' j)) =
          load (unat (slot_length d j)) d (unat (slot_offset d j)))"
  shows "tp_view d' = (tp_view d)(i := cell bs)"
proof
  fix j
  show "tp_view d' j = ((tp_view d)(i := cell bs)) j"
  proof (cases "j = i")
    case True
    have "slot_length d' i = 0 \<longleftrightarrow> bs = []" using new(1) by (metis length_0_conv unat_eq_zero)
    then show ?thesis using True i n' new by (auto simp: tp_view_def cell_def)
  next
    case False
    then show ?thesis
      using old [of j] grow [of j] n' by (cases "j < unat (num_slots d)") (auto simp: tp_view_def)
  qed
qed

lemma place_view:
  assumes inv: "tp_inv d" and n: "n = unat (num_slots d)" and i: "i \<le> n"
    and m: "20 + 8 * n + (if i = n then 8 else 0) + length bs \<le> unat (free_space_pointer d)"
    and o': "o' = unat (free_space_pointer d) - length bs"
    and d2: "d2 = set_slot (store (set_u32 d 8 (of_nat o')) o' bs) i (of_nat o') (of_nat (length bs))"
    and d3: "d3 = (if i = n then set_u32 d2 4 (of_nat (Suc n)) else d2)"
    and shape: "page_shape (if i = n then Suc n else n) o'
       ((\<lambda>j. unat (slot_offset d j))(i := o')) ((\<lambda>j. unat (slot_length d j))(i := length bs))"
  shows "tp_inv d3" "tp_view d3 = (tp_view d)(i := cell bs)" "same_header d d3"
    "unat (num_slots d3) = (if i = n then Suc n else n)"
proof -
  note b = tp_inv_bounds [OF inv]
  let ?d1 = "set_u32 d 8 (of_nat o')" and ?n' = "if i = n then Suc n else n"
  have l: "28 \<le> length d" using b(1) by (simp add: PAGE_SIZE_def)
  note h1 = header_write_fields [OF l, of 8, simplified]
  have oo: "28 + 8 * i \<le> o'" "20 + 8 * n \<le> o'" "o' + length bs \<le> PAGE_SIZE" "o' \<le> PAGE_SIZE"
    using i m b(3) by (auto simp: o' split: if_splits)
  have len1: "length ?d1 = PAGE_SIZE" using h1(1) b(1) by simp
  note pl = place_tuple [OF len1 oo(1-3), folded d2]
  have l2: "28 \<le> length d2" using pl(1) by (simp add: PAGE_SIZE_def)
  note h3 = header_write_fields [OF l2, of 4, simplified]
  have nn: "?n' < 2 ^ 32" using b(4) n by (auto simp: max_slots_def)
  have ns: "unat (num_slots d3) = ?n'"
    using unat_of_nat_u32 [OF nn] pl(3) h1(3) n by (auto simp: d3 h3(3) simp del: of_nat_Suc)
  then show "unat (num_slots d3) = ?n'" .
  have fs: "free_space_pointer d3 = of_nat o'"
    using pl(4) h1(4) by (auto simp: d3 h3(4))
  have off: "unat (slot_offset d3 j) = ((\<lambda>j. unat (slot_offset d j))(i := o')) j"
    and ln: "unat (slot_length d3 j) = ((\<lambda>j. unat (slot_length d j))(i := length bs)) j"
    if "j < n \<or> j = i" for j
    using pl(5,6) [OF that] h1(5,6) h3(5,6) by (auto simp: d3)
  have ld: "load k d3 a = load k d2 a" if "20 \<le> a" for k a using h3(7) that by (auto simp: d3)
  have j: "j < n \<or> j = i" if "j < ?n'" for j using that i by (auto split: if_splits)
  have "unat (free_space_pointer d3) = o'"
    using unat_of_nat_u32 [of o'] oo(4) by (simp add: fs PAGE_SIZE_def)
  moreover have "page_shape ?n' o' (\<lambda>j. unat (slot_offset d3 j)) (\<lambda>j. unat (slot_length d3 j))"
    by (rule page_shape_cong [OF shape]) (use off ln j in blast)
  moreover have "length d3 = PAGE_SIZE" using pl(1) h3(1) by (simp add: d3)
  ultimately show "tp_inv d3" by (simp add: tp_inv_def ns)
  show "same_header d d3"
    using same_header_trans [OF h1(2) pl(2)] same_header_trans [OF _ h3(2)] by (auto simp: d3)
  show "tp_view d3 = (tp_view d)(i := cell bs)"
  proof (rule view_update [OF inv, of i ?n'])
    show "i < ?n'" "?n' = unat (num_slots d3)" "unat (num_slots d) \<le> ?n'" using i n ns by auto
    show "j = i" if "unat (num_slots d) \<le> j" "j < ?n'" for j using that i n by (auto split: if_splits)
    show "unat (slot_length d3 i) = length bs" using ln [of i] by simp
    show "load (length bs) d3 (unat (slot_offset d3 i)) = bs"
      using off [of i] ld [of o'] oo(1) pl(7) by simp
    fix j
    assume j: "j < unat (num_slots d)" "j \<noteq> i"
    then have "j < n" using n by simp
    have sl: "slot_length d3 j = slot_length d j" "slot_offset d3 j = slot_offset d j"
      using off [of j] ln [of j] j \<open>j < n\<close> by (simp_all add: word_unat_eq_iff)
    have "load (unat (slot_length d j)) d3 (unat (slot_offset d j)) = load (unat (slot_length d j)) d (unat (slot_offset d j))"
      if nz: "slot_length d j \<noteq> 0"
    proof -
      have "unat (free_space_pointer d) \<le> unat (slot_offset d j)"
        using tp_inv_slot(1) [OF inv j(1) nz] .
      moreover have "28 + 8 * i \<le> unat (slot_offset d j)" "20 \<le> unat (slot_offset d j)"
        using calculation m i b(2) n by (auto split: if_splits)
      moreover have "disjoint_ranges (unat (slot_offset d j)) (unat (slot_length d j)) o' (length bs)"
        using calculation m by (auto simp: disjoint_ranges_def o')
      ultimately show ?thesis using pl(8) ld h1(7) by simp
    qed
    with sl show "slot_length d3 j = slot_length d j \<and> (slot_length d j \<noteq> 0 \<longrightarrow>
        load (unat (slot_length d j)) d3 (unat (slot_offset d3 j)) =
        load (unat (slot_length d j)) d (unat (slot_offset d j)))" by simp
  qed
qed

lemma free_space_sub:
  assumes "unat (w :: 32 word) = m" "m \<le> unat f"
  shows "f - w = of_nat (unat f - m)"
proof -
  have "unat (f - w) = unat f - m" using assms by (simp add: unat_sub word_le_nat_alt)
  then have "of_nat (unat f - m) = (of_nat (unat (f - w)) :: 32 word)" by simp
  then show ?thesis by simp
qed

text \<open>Tuples for which the 32-bit computation of the needed space does not wrap.\<close>

definition storable :: "Tuple \<Rightarrow> bool" where
  "storable t \<longleftrightarrow> encodable t \<and> length (tuple_bytes t) + 8 < 2 ^ 32"

definition free_bytes :: "byte list \<Rightarrow> nat" where
  "free_bytes d = unat (free_space_pointer d) - (20 + 8 * unat (num_slots d))"

definition free_slot :: "byte list \<Rightarrow> bool" where
  "free_slot d \<longleftrightarrow> (\<exists>i < unat (num_slots d). slot_length d i = 0)"

definition fits :: "byte list \<Rightarrow> byte list \<Rightarrow> bool" where
  "fits d bs \<longleftrightarrow> (if free_slot d then length bs else length bs + 8) \<le> free_bytes d"

text \<open>Taking space for a tuple: the part that \<open>InsertTuple\<close> and \<open>UpdateTuple\<close> share.\<close>

lemma storable_length:
  assumes "storable t"
  shows "encodable t" "unat (Tuple_GetSerializedLength t) = length (tuple_bytes t)"
    "Tuple_GetSerializedLength t = of_nat (length (tuple_bytes t))"
    "unat (Tuple_GetSerializedLength t + 8) = length (tuple_bytes t) + 8"
proof -
  show "encodable t" using assms by (simp add: storable_def)
  show w: "unat (Tuple_GetSerializedLength t) = length (tuple_bytes t)"
    using assms tuple_length [of t] by (simp add: storable_def)
  show "Tuple_GetSerializedLength t = of_nat (length (tuple_bytes t))" by (rule tuple_length_word)
  show "unat (Tuple_GetSerializedLength t + 8) = length (tuple_bytes t) + 8"
    using assms w unat_add_lem [of "Tuple_GetSerializedLength t" 8] by (simp add: storable_def)
qed

lemma take_space:
  assumes inv: "tp_inv d" and t: "storable t" and m: "length (tuple_bytes t) \<le> free_bytes d"
    and o': "o' = unat (free_space_pointer d) - length (tuple_bytes t)"
    and d1: "d1 = set_u32 d 8 (of_nat o')" and s: "s = store d1 o' (tuple_bytes t)"
  shows "set_u32 d 8 (free_space_pointer d - Tuple_GetSerializedLength t) = d1"
    "Tuple_Serialize t d1 (unat (free_space_pointer d1)) = Some s"
    "free_space_pointer s = of_nat o'" "num_slots s = num_slots d"
proof -
  note b = tp_inv_bounds [OF inv] and w = storable_length [OF t]
  have mf: "length (tuple_bytes t) \<le> unat (free_space_pointer d)" using m b(2) by (auto simp: free_bytes_def)
  show "set_u32 d 8 (free_space_pointer d - Tuple_GetSerializedLength t) = d1"
    using free_space_sub [OF w(2) mf] by (simp add: d1 o')
  have l: "28 \<le> length d" using b(1) by (simp add: PAGE_SIZE_def)
  note h1 = header_write_fields [OF l, of 8, simplified]
  have os: "unat (of_nat o' :: 32 word) = o'" using b(3) by (intro unat_of_nat_u32) (simp add: PAGE_SIZE_def o')
  have "Tuple_Serialize t d1 o' = Some s"
    unfolding s using mf b(1,3) h1(1) by (intro tuple_serialize [OF w(1)]) (simp add: o' d1)
  then show "Tuple_Serialize t d1 (unat (free_space_pointer d1)) = Some s"
    using h1(4) os by (simp add: d1)
  show "free_space_pointer s = of_nat o'" "num_slots s = num_slots d"
    using store_fields(3,4) [of o' "tuple_bytes t" d1 "unat (num_slots d)"] m b h1
    by (auto simp: free_bytes_def o' d1 s)
qed

lemma insert_reuse:
  assumes inv: "tp_inv d" and t: "storable t" and m: "length (tuple_bytes t) \<le> free_bytes d"
    and find: "find_slot d 0 (unat (num_slots d)) = Inr (Some i)" and i: "i < unat (num_slots d)" "slot_length d i = 0"
  shows "\<exists>d'. TablePage_InsertTuple t d = (Inr (Some (of_nat i)), d') \<and> tp_inv d' \<and> same_header d d' \<and>
     tp_view d' = (tp_view d)(i := cell (tuple_bytes t)) \<and> i < unat (num_slots d')"
proof -
  note b = tp_inv_bounds [OF inv] and w = storable_length [OF t]
  let ?n = "unat (num_slots d)" and ?bs = "tuple_bytes t"
  define o' where "o' = unat (free_space_pointer d) - length ?bs"
  define s where "s = store (set_u32 d 8 (of_nat o')) o' ?bs"
  define d2 where "d2 = set_slot s i (of_nat o') (of_nat (length ?bs))"
  note ts = take_space [OF inv t m o'_def refl s_def]
  have ins: "TablePage_InsertTuple t d = (Inr (Some (of_nat i)), d2)"
    using find b w m ts by (simp add: TablePage_InsertTuple_def Let_def word_less_nat_alt free_bytes_def d2_def)
  have room: "20 + 8 * ?n + length ?bs \<le> unat (free_space_pointer d)" using m b(2) by (simp add: free_bytes_def)
  have sh: "page_shape (if i = ?n then Suc ?n else ?n) o'
      ((\<lambda>j. unat (slot_offset d j))(i := o')) ((\<lambda>j. unat (slot_length d j))(i := length ?bs))"
    using page_shape_reuse [of ?n _ _ _ i "length ?bs"] inv i room by (simp add: tp_inv_def o'_def)
  have eq: "d2 = (if i = ?n then set_u32 d2 4 (of_nat (Suc ?n)) else d2)" using i by simp
  have rm: "20 + 8 * ?n + (if i = ?n then 8 else 0) + length ?bs \<le> unat (free_space_pointer d)" "i \<le> ?n"
    using room i by auto
  note pv = place_view [OF inv refl rm(2,1) o'_def d2_def [unfolded s_def] eq sh]
  show ?thesis using ins pv i by auto
qed

lemma insert_append:
  assumes inv: "tp_inv d" and t: "storable t" and m: "length (tuple_bytes t) + 8 \<le> free_bytes d"
    and find: "find_slot d 0 (unat (num_slots d)) = Inr None"
    and full: "\<And>j. j < unat (num_slots d) \<Longrightarrow> slot_length d j \<noteq> 0"
  shows "\<exists>d'. TablePage_InsertTuple t d = (Inr (Some (num_slots d)), d') \<and> tp_inv d' \<and> same_header d d' \<and>
     tp_view d' = (tp_view d)(unat (num_slots d) := cell (tuple_bytes t)) \<and>
     unat (num_slots d) < unat (num_slots d')"
proof -
  note b = tp_inv_bounds [OF inv] and w = storable_length [OF t]
  let ?n = "unat (num_slots d)" and ?bs = "tuple_bytes t"
  define o' where "o' = unat (free_space_pointer d) - length ?bs"
  define s where "s = store (set_u32 d 8 (of_nat o')) o' ?bs"
  define d2 where "d2 = set_slot s ?n (of_nat o') (of_nat (length ?bs))"
  have mb: "length ?bs \<le> free_bytes d" using m by simp
  note ts = take_space [OF inv t mb o'_def refl s_def]
  have ins: "TablePage_InsertTuple t d = (Inr (Some (num_slots d)), set_u32 d2 4 (num_slots d + 1))"
    using find b w m ts by (simp add: TablePage_InsertTuple_def Let_def word_less_nat_alt free_bytes_def d2_def)
  have room: "20 + 8 * ?n + (length ?bs + 8) \<le> unat (free_space_pointer d)" using m b(2) by (simp add: free_bytes_def)
  have sh: "page_shape (if ?n = ?n then Suc ?n else ?n) o'
      ((\<lambda>j. unat (slot_offset d j))(?n := o')) ((\<lambda>j. unat (slot_length d j))(?n := length ?bs))"
    using page_shape_append [of ?n _ _ "\<lambda>j. unat (slot_length d j)" "length ?bs"] inv full room
    by (simp add: tp_inv_def unat_eq_zero o'_def)
  have eq: "set_u32 d2 4 (num_slots d + 1) = (if ?n = ?n then set_u32 d2 4 (of_nat (Suc ?n)) else d2)"
    by (simp add: add.commute)
  have rm: "20 + 8 * ?n + (if ?n = ?n then 8 else 0) + length ?bs \<le> unat (free_space_pointer d)" using room by simp
  note pv = place_view [OF inv refl le_refl rm o'_def d2_def [unfolded s_def] eq sh]
  show ?thesis using ins pv by auto
qed

lemma insert_tuple:
  assumes inv: "tp_inv d" and t: "storable t"
  shows "if fits d (tuple_bytes t)
     then \<exists>i d'. TablePage_InsertTuple t d = (Inr (Some (of_nat i)), d') \<and> i < max_slots \<and>
            tp_view d i = None \<and> tp_inv d' \<and> same_header d d' \<and>
            tp_view d' = (tp_view d)(i := cell (tuple_bytes t)) \<and> i < unat (num_slots d')
     else TablePage_InsertTuple t d = (Inr None, d)"
proof -
  note b = tp_inv_bounds [OF inv] and w = storable_length [OF t]
  let ?n = "unat (num_slots d)"
  from find_slot_result [of 0 ?n d] b(4)
  consider (reuse) i where "find_slot d 0 ?n = Inr (Some i)" "i < ?n" "slot_length d i = 0"
    | (full) "find_slot d 0 ?n = Inr None" "\<And>j. j < ?n \<Longrightarrow> slot_length d j \<noteq> 0"
    by auto
  then show ?thesis
  proof cases
    case reuse
    then have fs: "free_slot d" "tp_view d i = None" "i < max_slots"
      using b(4) by (auto simp: free_slot_def tp_view_def)
    show ?thesis
    proof (cases "length (tuple_bytes t) \<le> free_bytes d")
      case True
      then show ?thesis using insert_reuse [OF inv t True reuse] fs by (auto simp: fits_def)
    next
      case False
      then show ?thesis
        using reuse b w fs by (simp add: TablePage_InsertTuple_def Let_def word_less_nat_alt free_bytes_def fits_def)
    qed
  next
    case full
    then have fs: "\<not> free_slot d" by (auto simp: free_slot_def)
    show ?thesis
    proof (cases "length (tuple_bytes t) + 8 \<le> free_bytes d")
      case True
      have "tp_view d ?n = None" by (simp add: tp_view_def)
      then show ?thesis
        using insert_append [OF inv t True full] fs True b(4) by (auto simp: fits_def intro!: exI [of _ ?n])
    next
      case False
      then show ?thesis
        using full b w fs by (simp add: TablePage_InsertTuple_def Let_def word_less_nat_alt free_bytes_def fits_def)
    qed
  qed
qed

lemma init_page:
  assumes "length d = PAGE_SIZE"
  shows "tp_inv (TablePage_Init p prev d)" "tp_view (TablePage_Init p prev d) = Map.empty"
    "next_page_id (TablePage_Init p prev d) = INVALID_PAGE_ID"
    "prev_page_id (TablePage_Init p prev d) = prev" "tp_page_id (TablePage_Init p prev d) = p"
    "free_bytes (TablePage_Init p prev d) = PAGE_SIZE - 20" "\<not> free_slot (TablePage_Init p prev d)"
proof -
  let ?d = "TablePage_Init p prev d"
  have l: "20 \<le> length d" using assms by (simp add: PAGE_SIZE_def)
  have f: "num_slots ?d = 0" "free_space_pointer ?d = of_nat PAGE_SIZE" "length ?d = PAGE_SIZE"
    using l assms by (simp_all add: TablePage_Init_def Let_def tp_fields layout_simps)
  moreover have "unat (of_nat PAGE_SIZE :: 32 word) = PAGE_SIZE" by (simp add: PAGE_SIZE_def)
  ultimately show "tp_inv ?d" "tp_view ?d = Map.empty" "free_bytes ?d = PAGE_SIZE - 20" "\<not> free_slot ?d"
    by (auto simp: tp_inv_def page_shape_def tp_view_def free_bytes_def free_slot_def PAGE_SIZE_def)
  show "next_page_id ?d = INVALID_PAGE_ID" "prev_page_id ?d = prev" "tp_page_id ?d = p"
    using l by (simp_all add: TablePage_Init_def Let_def tp_fields layout_simps)
qed

lemma view_slot:
  assumes inv: "tp_inv d"
  shows "tp_view d (unat i) = Some bs \<longleftrightarrow>
      \<not> num_slots d \<le> i \<and> unat i < max_slots \<and> slot_length d (unat i) \<noteq> 0 \<and>
      bs = load (unat (slot_length d (unat i))) d (unat (slot_offset d (unat i)))"
    "tp_view d (unat i) = None \<longleftrightarrow> num_slots d \<le> i \<or> (unat i < max_slots \<and> slot_length d (unat i) = 0)"
  using tp_inv_bounds(4) [OF inv] by (auto simp: tp_view_def word_le_nat_alt not_le)

lemma view_length:
  assumes "tp_inv d" "tp_view d (unat i) = Some bs"
  shows "length bs = unat (slot_length d (unat i))"
    "unat (slot_offset d (unat i)) + length bs \<le> length d"
proof -
  have j: "unat i < unat (num_slots d)" "slot_length d (unat i) \<noteq> 0"
    and bs: "bs = load (unat (slot_length d (unat i))) d (unat (slot_offset d (unat i)))"
    using assms(2) by (auto simp: tp_view_def split: if_splits)
  show "length bs = unat (slot_length d (unat i))"
    using tp_inv_slot(2) [OF assms(1) j] tp_inv_bounds(1) [OF assms(1)] by (simp add: bs length_load)
  then show "unat (slot_offset d (unat i)) + length bs \<le> length d"
    using tp_inv_slot(2) [OF assms(1) j] tp_inv_bounds(1) [OF assms(1)] by simp
qed

lemma get_tuple_some:
  assumes inv: "tp_inv d" and v: "tp_view d (unat i) = Some (tuple_bytes t)" and ok: "tuple_ok sch t"
  shows "TablePage_GetTuple i sch d = (Inr (Some t), d)"
proof -
  note s = v [unfolded view_slot(1) [OF inv]] and l = view_length [OF inv v]
  have "Tuple_Deserialize d (unat (slot_offset d (unat i))) sch = Some t"
    using s l by (intro tuple_deserialize [OF ok]) auto
  then show ?thesis using s by (simp add: TablePage_GetTuple_def)
qed

lemma get_tuple_none:
  "tp_inv d \<Longrightarrow> tp_view d (unat i) = None \<Longrightarrow> TablePage_GetTuple i sch d = (Inr None, d)"
  using view_slot(2) [of d i] by (auto simp: TablePage_GetTuple_def)

lemma delete_tuple:
  assumes inv: "tp_inv d"
  shows "\<exists>d'. TablePage_DeleteTuple i d = (Inr (tp_view d (unat i) \<noteq> None), d') \<and> tp_inv d' \<and>
     same_header d d' \<and> tp_view d' = (tp_view d)(unat i := None)"
proof (cases "tp_view d (unat i)")
  case None
  then have "(tp_view d)(unat i := None) = tp_view d" by auto
  then show ?thesis
    using None inv view_slot(2) [OF inv, of i] by (auto simp: TablePage_DeleteTuple_def)
next
  case (Some bs)
  note s = Some [unfolded view_slot(1) [OF inv]] and b = tp_inv_bounds [OF inv]
  let ?i = "unat i" and ?n = "unat (num_slots d)" let ?d = "set_slot d ?i 0 0"
  have i: "?i < ?n" using s by (simp add: word_le_nat_alt)
  then have l: "28 + 8 * ?i \<le> length d" using b(1-3) by simp
  note ss = set_slot_fields [OF l, where a = 0 and b = 0]
  have "page_shape ?n (unat (free_space_pointer d)) ((\<lambda>j. unat (slot_offset d j))(?i := 0)) ((\<lambda>j. unat (slot_length d j))(?i := 0))"
    using inv i by (intro page_shape_delete) (auto simp: tp_inv_def)
  then have "page_shape ?n (unat (free_space_pointer d)) (\<lambda>j. unat (slot_offset ?d j)) (\<lambda>j. unat (slot_length ?d j))"
    by (rule page_shape_cong) (auto simp: ss)
  then have "tp_inv ?d" using ss b(1) by (simp add: tp_inv_def)
  moreover have "tp_view ?d = (tp_view d)(?i := cell [])"
  proof (rule view_update [OF inv i])
    fix j
    assume j: "j < ?n" "j \<noteq> ?i"
    have "28 + 8 * ?i \<le> unat (slot_offset d j)" if "slot_length d j \<noteq> 0"
      using tp_inv_slot(1) [OF inv j(1) that] b(2) i by simp
    then show "slot_length ?d j = slot_length d j \<and> (slot_length d j \<noteq> 0 \<longrightarrow>
        load (unat (slot_length d j)) ?d (unat (slot_offset ?d j)) = load (unat (slot_length d j)) d (unat (slot_offset d j)))"
      using j by (auto simp: ss)
  qed (auto simp: ss load_def)
  ultimately show ?thesis
    using Some s ss(2) by (auto simp: TablePage_DeleteTuple_def cell_def)
qed

lemma update_in_place:
  assumes inv: "tp_inv d" and t: "storable t" and v: "tp_view d (unat i) = Some old"
    and le: "length (tuple_bytes t) \<le> length old"
  shows "\<exists>d'. TablePage_UpdateTuple i t d = (Inr True, d') \<and> tp_inv d' \<and> same_header d d' \<and>
     tp_view d' = (tp_view d)(unat i := cell (tuple_bytes t))"
proof -
  note s = v [unfolded view_slot(1) [OF inv]] and b = tp_inv_bounds [OF inv]
    and l = view_length [OF inv v] and w = storable_length [OF t]
  let ?i = "unat i" and ?n = "unat (num_slots d)" and ?bs = "tuple_bytes t"
  let ?o = "unat (slot_offset d ?i)"
  let ?s = "store d ?o ?bs" let ?d = "set_u32 ?s (24 + 8 * ?i) (Tuple_GetSerializedLength t)"
  have i: "?i < ?n" "slot_length d ?i \<noteq> 0" using s by (auto simp: word_le_nat_alt)
  note r = tp_inv_slot [OF inv i]
  have st: "?o + length ?bs \<le> length d" "20 + 8 * ?n \<le> ?o" using le l r(1) b(2) by auto
  note sf = store_fields [OF st] 
  have ser: "Tuple_Serialize t d ?o = Some ?s" using st(1) by (rule tuple_serialize [OF w(1)])
  have "Tuple_GetSerializedLength t \<le> slot_length d ?i" using le l(1) w(2) by (simp add: word_le_nat_alt)
  then have up: "TablePage_UpdateTuple i t d = (Inr True, ?d)"
    using s ser by (simp add: TablePage_UpdateTuple_def Let_def)
  have ls: "28 + 8 * ?i \<le> length ?s" using sf(1) b(1-3) i(1) by simp
  have "set_u32 ?s (20 + 8 * ?i) (slot_offset d ?i) = ?s"
    using set_get_u32 [of "20 + 8 * ?i" ?s] ls sf(5) [OF i(1)] by (simp add: slot_offset_def)
  then have eq: "?d = set_slot ?s ?i (of_nat ?o) (of_nat (length ?bs))"
    using w(3) by (simp add: set_slot_def)
  have oo: "28 + 8 * ?i \<le> ?o" "?o + length ?bs \<le> PAGE_SIZE" using st b(1) i(1) by auto
  note pl = place_tuple [OF b(1) oo(1) st(2) oo(2), folded eq]
  have "page_shape ?n (unat (free_space_pointer d)) (\<lambda>j. unat (slot_offset d j)) ((\<lambda>j. unat (slot_length d j))(?i := length ?bs))"
    using inv i le l(1) by (intro page_shape_shrink) (auto simp: tp_inv_def)
  then have "page_shape ?n (unat (free_space_pointer d)) (\<lambda>j. unat (slot_offset ?d j)) (\<lambda>j. unat (slot_length ?d j))"
    by (rule page_shape_cong) (use pl(5,6) in auto)
  then have "tp_inv ?d" using pl(1,3,4) by (simp add: tp_inv_def)
  moreover have "tp_view ?d = (tp_view d)(?i := cell ?bs)"
  proof (rule view_update [OF inv i(1)])
    fix j
    assume j: "j < ?n" "j \<noteq> ?i"
    have "28 + 8 * ?i \<le> unat (slot_offset d j) \<and>
        disjoint_ranges (unat (slot_offset d j)) (unat (slot_length d j)) ?o (length ?bs)" if nz: "slot_length d j \<noteq> 0"
      using tp_inv_slot(1) [OF inv j(1) nz] r(3) [OF j nz] b(2) i(1) le l(1) by (auto simp: disjoint_ranges_def)
    moreover have "slot_length ?d j = slot_length d j" "slot_offset ?d j = slot_offset d j"
      using pl(5,6) [of j] j by (simp_all add: word_unat_eq_iff)
    ultimately show "slot_length ?d j = slot_length d j \<and> (slot_length d j \<noteq> 0 \<longrightarrow>
        load (unat (slot_length d j)) ?d (unat (slot_offset ?d j)) = load (unat (slot_length d j)) d (unat (slot_offset d j)))"
      using pl(8) by auto
  qed (use pl in auto)
  ultimately show ?thesis using up pl(2) by blast
qed

lemma update_moved:
  assumes inv: "tp_inv d" and t: "storable t" and v: "tp_view d (unat i) = Some old"
    and gt: "length old < length (tuple_bytes t)" and room: "length (tuple_bytes t) \<le> free_bytes d"
  shows "\<exists>d'. TablePage_UpdateTuple i t d = (Inr True, d') \<and> tp_inv d' \<and> same_header d d' \<and>
     tp_view d' = (tp_view d)(unat i := cell (tuple_bytes t))"
proof -
  note s = v [unfolded view_slot(1) [OF inv]] and b = tp_inv_bounds [OF inv]
    and l = view_length [OF inv v] and w = storable_length [OF t]
  let ?i = "unat i" and ?n = "unat (num_slots d)" and ?bs = "tuple_bytes t"
  define o' where "o' = unat (free_space_pointer d) - length ?bs"
  define s1 where "s1 = store (set_u32 d 8 (of_nat o')) o' ?bs"
  define d2 where "d2 = set_slot s1 ?i (of_nat o') (of_nat (length ?bs))"
  note ts = take_space [OF inv t room o'_def refl s1_def]
  have up: "TablePage_UpdateTuple i t d = (Inr True, d2)"
    using s l(1) b w gt room ts
    by (simp add: TablePage_UpdateTuple_def Let_def word_less_nat_alt word_le_nat_alt free_bytes_def d2_def)
  have i: "?i < ?n" "slot_length d ?i \<noteq> 0" using s by (auto simp: word_le_nat_alt)
  have rm0: "20 + 8 * ?n + length ?bs \<le> unat (free_space_pointer d)" using room b(2) by (simp add: free_bytes_def)
  have sh: "page_shape (if ?i = ?n then Suc ?n else ?n) o'
      ((\<lambda>j. unat (slot_offset d j))(?i := o')) ((\<lambda>j. unat (slot_length d j))(?i := length ?bs))"
    using page_shape_move [of ?n _ _ "\<lambda>j. unat (slot_length d j)" ?i "length ?bs"] inv i rm0
    by (simp add: tp_inv_def o'_def unat_eq_zero)
  have eq: "d2 = (if ?i = ?n then set_u32 d2 4 (of_nat (Suc ?n)) else d2)" using i by simp
  have rm: "20 + 8 * ?n + (if ?i = ?n then 8 else 0) + length ?bs \<le> unat (free_space_pointer d)" "?i \<le> ?n"
    using rm0 i by auto
  note pv = place_view [OF inv refl rm(2,1) o'_def d2_def [unfolded s1_def] eq sh]
  show ?thesis using up pv by blast
qed

text \<open>\<open>UpdateTuple\<close> on every branch: in place when the new bytes are not longer, else in fresh space.\<close>

definition update_fits :: "byte list \<Rightarrow> byte list \<Rightarrow> byte list \<Rightarrow> bool" where
  "update_fits d old bs \<longleftrightarrow> length bs \<le> length old \<or> length bs \<le> free_bytes d"

lemma update_tuple:
  assumes inv: "tp_inv d" and t: "storable t"
  shows "\<exists>r d'. TablePage_UpdateTuple i t d = (Inr r, d') \<and> tp_inv d' \<and> same_header d d' \<and>
     (r \<longleftrightarrow> (\<exists>old. tp_view d (unat i) = Some old \<and> update_fits d old (tuple_bytes t))) \<and>
     tp_view d' = (if r then (tp_view d)(unat i := cell (tuple_bytes t)) else tp_view d) \<and> (\<not> r \<longrightarrow> d' = d)"
proof (cases "tp_view d (unat i)")
  case None
  then show ?thesis
    using inv view_slot(2) [OF inv, of i] by (auto simp: TablePage_UpdateTuple_def Let_def)
next
  case (Some old)
  note s = Some [unfolded view_slot(1) [OF inv]] and l = view_length [OF inv Some]
    and b = tp_inv_bounds [OF inv] and w = storable_length [OF t]
  consider "length (tuple_bytes t) \<le> length old"
    | "length old < length (tuple_bytes t)" "length (tuple_bytes t) \<le> free_bytes d"
    | "length old < length (tuple_bytes t)" "free_bytes d < length (tuple_bytes t)" by linarith
  then show ?thesis
  proof cases
    case 1
    from update_in_place [OF inv t Some this] Some 1 show ?thesis by (auto simp: update_fits_def)
  next
    case 2
    from update_moved [OF inv t Some this] Some 2 show ?thesis by (auto simp: update_fits_def)
  next
    case 3
    then have "TablePage_UpdateTuple i t d = (Inr False, d)"
      using s l(1) b w
      by (simp add: TablePage_UpdateTuple_def Let_def word_less_nat_alt word_le_nat_alt free_bytes_def)
    then show ?thesis using 3 Some inv by (auto simp: update_fits_def)
  qed
qed

section \<open>A page as a map from slots to tuples\<close>

definition good_tuple :: "Schema \<Rightarrow> Tuple \<Rightarrow> bool" where
  "good_tuple sch t \<longleftrightarrow> tuple_ok sch t \<and> storable t \<and> tuple_bytes t \<noteq> []"

text \<open>\<open>holds_tuples sch d m\<close>: the bytes \<open>d\<close> are a well-formed page that stores the tuples \<open>m\<close>.\<close>

definition holds_tuples :: "Schema \<Rightarrow> byte list \<Rightarrow> (nat \<rightharpoonup> Tuple) \<Rightarrow> bool" where
  "holds_tuples sch d m \<longleftrightarrow>
     tp_inv d \<and> tp_view d = (\<lambda>i. map_option tuple_bytes (m i)) \<and> (\<forall>i t. m i = Some t \<longrightarrow> good_tuple sch t)"

lemma cell_good: "good_tuple sch t \<Longrightarrow> cell (tuple_bytes t) = Some (tuple_bytes t)"
  by (simp add: good_tuple_def cell_def)

lemma holds_tuples_upd:
  assumes "holds_tuples sch d m" "good_tuple sch t" "tp_inv d'" "tp_view d' = (tp_view d)(i := cell (tuple_bytes t))"
  shows "holds_tuples sch d' (m(i \<mapsto> t))"
  using assms by (auto simp: holds_tuples_def cell_good fun_eq_iff)

lemma holds_tuples_get:
  assumes h: "holds_tuples sch d m"
  shows "TablePage_GetTuple i sch d = (Inr (m (unat i)), d)"
proof (cases "m (unat i)")
  case None
  then show ?thesis using h by (simp add: holds_tuples_def get_tuple_none)
next
  case (Some t)
  then show ?thesis
    using h get_tuple_some [of d i t sch] by (simp add: holds_tuples_def good_tuple_def)
qed

lemma holds_tuples_unique:
  assumes "holds_tuples sch d m" "holds_tuples sch d m'"
  shows "m = m'"
proof
  fix i
  show "m i = m' i"
  proof (cases "i < max_slots")
    case True
    then have "unat (of_nat i :: 32 word) = i" by (intro unat_of_nat_u32) (simp add: max_slots_def)
    then show ?thesis
      using holds_tuples_get [OF assms(1), of "of_nat i"] holds_tuples_get [OF assms(2), of "of_nat i"] by simp
  next
    case False
    have "tp_inv d" using assms(1) by (simp add: holds_tuples_def)
    with False have "tp_view d i = None" using tp_inv_bounds(4) [of d] by (simp add: tp_view_def)
    moreover have "map_option tuple_bytes (m i) = tp_view d i" "map_option tuple_bytes (m' i) = tp_view d i"
      using assms unfolding holds_tuples_def by metis+
    ultimately show ?thesis by simp
  qed
qed

lemma holds_tuples_insert:
  assumes h: "holds_tuples sch d m" and t: "good_tuple sch t"
  shows "if fits d (tuple_bytes t)
     then \<exists>i d'. TablePage_InsertTuple t d = (Inr (Some i), d') \<and> m (unat i) = None \<and>
            holds_tuples sch d' (m(unat i \<mapsto> t)) \<and> same_header d d'
     else TablePage_InsertTuple t d = (Inr None, d)"
proof -
  have inv: "tp_inv d" and st: "storable t" using h t by (auto simp: holds_tuples_def good_tuple_def)
  show ?thesis
  proof (cases "fits d (tuple_bytes t)")
    case True
    with insert_tuple [OF inv st] obtain i d' where d': "TablePage_InsertTuple t d = (Inr (Some (of_nat i)), d')"
      "i < max_slots" "tp_view d i = None" "tp_inv d'" "same_header d d'"
      "tp_view d' = (tp_view d)(i := cell (tuple_bytes t))" by auto
    have i: "unat (of_nat i :: 32 word) = i" using d'(2) by (intro unat_of_nat_u32) (simp add: max_slots_def)
    have "m i = None" using h d'(3) by (simp add: holds_tuples_def)
    then show ?thesis
      using True d' i holds_tuples_upd [OF h t d'(4,6)] by (auto intro!: exI [of _ "of_nat i"])
  next
    case False
    then show ?thesis using insert_tuple [OF inv st] by simp
  qed
qed

lemma holds_tuples_update:
  assumes h: "holds_tuples sch d m" and t: "good_tuple sch t"
  shows "\<exists>r d'. TablePage_UpdateTuple i t d = (Inr r, d') \<and> same_header d d' \<and>
     holds_tuples sch d' (if r then m(unat i \<mapsto> t) else m) \<and> (\<not> r \<longrightarrow> d' = d) \<and>
     (r \<longleftrightarrow> (\<exists>u. m (unat i) = Some u \<and> update_fits d (tuple_bytes u) (tuple_bytes t)))"
proof -
  have inv: "tp_inv d" and st: "storable t" and v: "tp_view d = (\<lambda>i. map_option tuple_bytes (m i))"
    using h t by (auto simp: holds_tuples_def good_tuple_def)
  obtain r d' where d': "TablePage_UpdateTuple i t d = (Inr r, d')" "tp_inv d'" "same_header d d'"
     "r \<longleftrightarrow> (\<exists>old. tp_view d (unat i) = Some old \<and> update_fits d old (tuple_bytes t))"
     "tp_view d' = (if r then (tp_view d)(unat i := cell (tuple_bytes t)) else tp_view d)" "\<not> r \<Longrightarrow> d' = d"
    using update_tuple [OF inv st] by blast
  have "holds_tuples sch d' (if r then m(unat i \<mapsto> t) else m)"
    using d'(5,6) h holds_tuples_upd [OF h t d'(2)] by auto
  moreover have "r \<longleftrightarrow> (\<exists>u. m (unat i) = Some u \<and> update_fits d (tuple_bytes u) (tuple_bytes t))"
    using d'(4) v by auto
  ultimately show ?thesis using d' by blast
qed

lemma holds_tuples_delete:
  assumes h: "holds_tuples sch d m"
  shows "\<exists>d'. TablePage_DeleteTuple i d = (Inr (m (unat i) \<noteq> None), d') \<and> same_header d d' \<and>
     holds_tuples sch d' (m(unat i := None)) \<and> (m (unat i) = None \<longrightarrow> d' = d)"
proof -
  have inv: "tp_inv d" and v: "tp_view d = (\<lambda>i. map_option tuple_bytes (m i))"
    using h by (auto simp: holds_tuples_def)
  obtain d' where d': "TablePage_DeleteTuple i d = (Inr (tp_view d (unat i) \<noteq> None), d')" "tp_inv d'"
     "same_header d d'" "tp_view d' = (tp_view d)(unat i := None)"
    using delete_tuple [OF inv] by blast
  have "holds_tuples sch d' (m(unat i := None))"
    using h d'(2,4) v by (auto simp: holds_tuples_def fun_eq_iff)
  moreover have "d' = d" if "m (unat i) = None"
    using d'(1) that v view_slot(2) [OF inv, of i] by (auto simp: TablePage_DeleteTuple_def split: if_splits)
  ultimately show ?thesis using d' v by auto
qed

text \<open>
  The page interface the table heap relies on: a representation of maps from slots to records,
  with the four operations. \<open>hdr\<close> relates pages that differ in their records only.
\<close>

locale tuple_page =
  fixes ins :: "'t \<Rightarrow> ('d, 32 word option) comp"
    and lookup :: "32 word \<Rightarrow> 'c \<Rightarrow> ('d, 't option) comp"
    and upd :: "32 word \<Rightarrow> 't \<Rightarrow> ('d, bool) comp"
    and del :: "32 word \<Rightarrow> ('d, bool) comp"
    and repr :: "'c \<Rightarrow> 'd \<Rightarrow> (nat \<rightharpoonup> 't) \<Rightarrow> bool"
    and good :: "'c \<Rightarrow> 't \<Rightarrow> bool"
    and hdr :: "'d \<Rightarrow> 'd \<Rightarrow> bool"
  assumes ins_cases: "repr c d m \<Longrightarrow> good c t \<Longrightarrow>
      ins t d = (Inr None, d) \<or>
      (\<exists>i d'. ins t d = (Inr (Some i), d') \<and> m (unat i) = None \<and> repr c d' (m(unat i \<mapsto> t)) \<and> hdr d d')"
    and lookup_eq: "repr c d m \<Longrightarrow> lookup i c d = (Inr (m (unat i)), d)"
    and upd_cases: "repr c d m \<Longrightarrow> good c t \<Longrightarrow>
      \<exists>r d'. upd i t d = (Inr r, d') \<and> hdr d d' \<and> repr c d' (if r then m(unat i \<mapsto> t) else m) \<and>
        (r \<longrightarrow> m (unat i) \<noteq> None) \<and> (\<not> r \<longrightarrow> d' = d)"
    and del_eq: "repr c d m \<Longrightarrow>
      \<exists>d'. del i d = (Inr (m (unat i) \<noteq> None), d') \<and> hdr d d' \<and> repr c d' (m(unat i := None)) \<and>
        (m (unat i) = None \<longrightarrow> d' = d)"
begin

lemma ins_lookup:
  assumes "repr c d m" "good c t" "ins t d = (Inr (Some i), d')"
  shows "lookup i c d' = (Inr (Some t), d')"
    and "j \<noteq> i \<Longrightarrow> lookup j c d' = (fst (lookup j c d), d')"
  using ins_cases [OF assms(1,2)] assms(3) lookup_eq [OF assms(1), of j] lookup_eq [of c d' _ j] lookup_eq [of c d' _ i]
  by (auto simp: word_unat_eq_iff)

lemma del_lookup:
  assumes "repr c d m" "del i d = (Inr r, d')"
  shows "lookup i c d' = (Inr None, d')"
    and "j \<noteq> i \<Longrightarrow> lookup j c d' = (fst (lookup j c d), d')"
  using del_eq [OF assms(1), of i] assms(2) lookup_eq [OF assms(1), of j] lookup_eq [of c d' _ j] lookup_eq [of c d' _ i]
  by (auto simp: word_unat_eq_iff)

lemma upd_lookup:
  assumes "repr c d m" "good c t" "upd i t d = (Inr True, d')"
  shows "lookup i c d' = (Inr (Some t), d')"
    and "j \<noteq> i \<Longrightarrow> lookup j c d' = (fst (lookup j c d), d')"
  using upd_cases [OF assms(1,2), of i] assms(3) lookup_eq [OF assms(1), of j] lookup_eq [of c d' _ j] lookup_eq [of c d' _ i]
  by (auto simp: word_unat_eq_iff)

end

interpretation tp: tuple_page TablePage_InsertTuple TablePage_GetTuple TablePage_UpdateTuple
  TablePage_DeleteTuple holds_tuples good_tuple same_header
proof (unfold_locales, goal_cases)
  case (1 c d m t)
  then show ?case using holds_tuples_insert [of c d m t] by (auto split: if_splits)
next
  case (2 c d m i)
  then show ?case by (rule holds_tuples_get)
next
  case (3 c d m t i)
  then show ?case using holds_tuples_update [of c d m t i] by fast
next
  case (4 c d m i)
  then show ?case by (rule holds_tuples_delete)
qed

section \<open>All histories of a page\<close>

text \<open>
  The histories of a page of a table with schema \<open>sch\<close>: the tuples stored have the schema and a
  serialised length that 32 bits hold with a slot entry (\<open>storable\<close>). The links may be set at any time.
\<close>

inductive tp_reach :: "Schema \<Rightarrow> byte list \<Rightarrow> bool" for sch where
  init: "length d = PAGE_SIZE \<Longrightarrow> tp_reach sch (TablePage_Init p prev d)"
| insert: "tp_reach sch d \<Longrightarrow> tuple_ok sch t \<Longrightarrow> storable t \<Longrightarrow> TablePage_InsertTuple t d = (r, d') \<Longrightarrow>
    tp_reach sch d'"
| update: "tp_reach sch d \<Longrightarrow> tuple_ok sch t \<Longrightarrow> storable t \<Longrightarrow> TablePage_UpdateTuple i t d = (r, d') \<Longrightarrow>
    tp_reach sch d'"
| delete: "tp_reach sch d \<Longrightarrow> TablePage_DeleteTuple i d = (r, d') \<Longrightarrow> tp_reach sch d'"
| set_next: "tp_reach sch d \<Longrightarrow> tp_reach sch (SetNextPageId p d)"
| set_prev: "tp_reach sch d \<Longrightarrow> tp_reach sch (SetPrevPageId p d)"

lemma link_write_fields:
  assumes "length d = PAGE_SIZE"
  shows "length (SetNextPageId p d) = PAGE_SIZE" "num_slots (SetNextPageId p d) = num_slots d"
    "free_space_pointer (SetNextPageId p d) = free_space_pointer d"
    "slot_offset (SetNextPageId p d) = slot_offset d" "slot_length (SetNextPageId p d) = slot_length d"
    "20 \<le> a \<Longrightarrow> load k (SetNextPageId p d) a = load k d a"
    "next_page_id (SetNextPageId p d) = p" "prev_page_id (SetNextPageId p d) = prev_page_id d"
    "length (SetPrevPageId p d) = PAGE_SIZE" "num_slots (SetPrevPageId p d) = num_slots d"
    "free_space_pointer (SetPrevPageId p d) = free_space_pointer d"
    "slot_offset (SetPrevPageId p d) = slot_offset d" "slot_length (SetPrevPageId p d) = slot_length d"
    "20 \<le> a \<Longrightarrow> load k (SetPrevPageId p d) a = load k d a"
  using assms
  by (auto simp: SetNextPageId_def SetPrevPageId_def tp_fields layout_simps fun_eq_iff PAGE_SIZE_def)

lemma set_next_page:
  assumes "tp_inv d"
  shows "tp_inv (SetNextPageId p d)" "tp_view (SetNextPageId p d) = tp_view d"
proof -
  have l: "length d = PAGE_SIZE" using assms by (simp add: tp_inv_def)
  show "tp_inv (SetNextPageId p d)"
    using assms by (simp add: tp_inv_def link_write_fields [OF l])
  show "tp_view (SetNextPageId p d) = tp_view d"
  proof
    fix i
    show "tp_view (SetNextPageId p d) i = tp_view d i"
      using tp_inv_slot(1) [OF assms, of i] tp_inv_bounds(2) [OF assms]
      by (auto simp: tp_view_def link_write_fields [OF l])
  qed
qed

lemma set_prev_page:
  assumes "tp_inv d"
  shows "tp_inv (SetPrevPageId p d)" "tp_view (SetPrevPageId p d) = tp_view d"
proof -
  have l: "length d = PAGE_SIZE" using assms by (simp add: tp_inv_def)
  show "tp_inv (SetPrevPageId p d)"
    using assms by (simp add: tp_inv_def link_write_fields [OF l])
  show "tp_view (SetPrevPageId p d) = tp_view d"
  proof
    fix i
    show "tp_view (SetPrevPageId p d) i = tp_view d i"
      using tp_inv_slot(1) [OF assms, of i] tp_inv_bounds(2) [OF assms]
      by (auto simp: tp_view_def link_write_fields [OF l])
  qed
qed

text \<open>Every stored record is the encoding of a tuple of the schema.\<close>

definition schema_bytes :: "Schema \<Rightarrow> byte list \<Rightarrow> bool" where
  "schema_bytes sch d \<longleftrightarrow> (\<forall>i bs. tp_view d i = Some bs \<longrightarrow> (\<exists>u. tuple_ok sch u \<and> tuple_bytes u = bs))"

lemma schema_bytes_upd:
  assumes "schema_bytes sch d" "tp_view d' = (tp_view d)(i := c)" "c = None \<or> (\<exists>u. tuple_ok sch u \<and> c = cell (tuple_bytes u))"
  shows "schema_bytes sch d'"
  using assms by (auto simp: schema_bytes_def cell_def split: if_splits)

lemma tp_reach_inv: "tp_reach sch d \<Longrightarrow> tp_inv d \<and> schema_bytes sch d"
proof (induction rule: tp_reach.induct)
  case (init d p prev)
  then show ?case using init_page(1,2) [OF init] by (simp add: schema_bytes_def)
next
  case (insert d t r d')
  then show ?case
    using insert_tuple [of d t] schema_bytes_upd [of sch d d'] by (fastforce split: if_splits)
next
  case (update d t i r d')
  then obtain r' where r: "tp_inv d'" "tp_view d' = (if r' then (tp_view d)(unat i := cell (tuple_bytes t)) else tp_view d)"
    using update_tuple [of d t i] by auto
  show ?case
  proof (cases r')
    case True
    then show ?thesis using update.IH update.hyps(2) r schema_bytes_upd [of sch d d' "unat i" "cell (tuple_bytes t)"] by auto
  next
    case False
    then show ?thesis using update.IH r by (simp add: schema_bytes_def)
  qed
next
  case (delete d i r d')
  then show ?case using delete_tuple [of d i] schema_bytes_upd [of sch d d' "unat i" None] by auto
next
  case (set_next d p)
  then show ?case using set_next_page by (simp add: schema_bytes_def)
next
  case (set_prev d p)
  then show ?case using set_prev_page by (simp add: schema_bytes_def)
qed

section \<open>Properties\<close>

text \<open>
  C15. Insertion into a page. A page that stores the tuples \<open>m\<close> accepts a further tuple exactly
  when its bytes (and a new slot entry, unless a deleted slot can be reused) fit into the free
  space. Then the slot reported was unused, \<open>GetTuple\<close> returns the new tuple there and the old
  tuples everywhere else; otherwise the page is unchanged.
\<close>

theorem table_page_insert_get:
  assumes "holds_tuples sch d m" "good_tuple sch t"
  shows "if fits d (tuple_bytes t)
     then \<exists>i d'. TablePage_InsertTuple t d = (Inr (Some i), d') \<and> m (unat i) = None \<and>
            holds_tuples sch d' (m(unat i \<mapsto> t)) \<and>
            (\<forall>j. TablePage_GetTuple j sch d' = (Inr (if j = i then Some t else m (unat j)), d'))
     else TablePage_InsertTuple t d = (Inr None, d)"
proof -
  have "TablePage_GetTuple j sch d' = (Inr (if j = i then Some t else m (unat j)), d')"
    if "holds_tuples sch d' (m(unat i \<mapsto> t))" for i j d'
    using tp.lookup_eq [OF that, of j] by (simp add: word_unat_eq_iff)
  then show ?thesis using holds_tuples_insert [OF assms] by (auto split: if_splits)
qed

lemma sample_page: "holds_tuples sample_schema (TablePage_Init 1 INVALID_PAGE_ID zero_page) Map.empty"
  using init_page(1,2) [OF length_zero_page] by (simp add: holds_tuples_def)

lemma sample_good: "length s < 1000 \<Longrightarrow> good_tuple sample_schema (sample_tuple i s)"
  using sample_tuple_ok [of s i] sample_tuple_bytes [of i s]
  by (auto simp: good_tuple_def storable_def tuple_ok_def)

lemma sample_fits: "length s < 1000 \<Longrightarrow> fits (TablePage_Init 1 INVALID_PAGE_ID zero_page) (tuple_bytes (sample_tuple i s))"
  using init_page(6,7) [OF length_zero_page, of 1 INVALID_PAGE_ID] sample_tuple_bytes [of i s]
  by (simp add: fits_def PAGE_SIZE_def)

theorem table_page_insert_get_witness:
  "\<exists>i d'. TablePage_InsertTuple (sample_tuple 7 [65]) (TablePage_Init 1 INVALID_PAGE_ID zero_page) = (Inr (Some i), d') \<and>
     TablePage_GetTuple i sample_schema d' = (Inr (Some (sample_tuple 7 [65])), d')"
proof -
  have g: "good_tuple sample_schema (sample_tuple 7 [65])" by (rule sample_good) simp
  have "fits (TablePage_Init 1 INVALID_PAGE_ID zero_page) (tuple_bytes (sample_tuple 7 [65]))"
    by (rule sample_fits) simp
  with table_page_insert_get [OF sample_page g] show ?thesis by auto
qed

text \<open>
  C25. Update and delete. \<open>UpdateTuple\<close> succeeds exactly when the slot holds a tuple and the new
  bytes fit in place or in the free space; \<open>DeleteTuple\<close> succeeds exactly when the slot holds a
  tuple. A successful call changes what \<open>GetTuple\<close> returns for this slot only, a failed call
  changes nothing.
\<close>

theorem table_page_update_delete_get:
  assumes "holds_tuples sch d m" "good_tuple sch t"
  shows "(\<exists>r d'. TablePage_UpdateTuple i t d = (Inr r, d') \<and>
       (r \<longleftrightarrow> (\<exists>u. m (unat i) = Some u \<and> update_fits d (tuple_bytes u) (tuple_bytes t))) \<and>
       (\<forall>j. TablePage_GetTuple j sch d' = (Inr (if r \<and> j = i then Some t else m (unat j)), d'))) \<and>
     (\<exists>d'. TablePage_DeleteTuple i d = (Inr (m (unat i) \<noteq> None), d') \<and>
       (\<forall>j. TablePage_GetTuple j sch d' = (Inr (if j = i then None else m (unat j)), d')))"
proof
  obtain r d' where d': "TablePage_UpdateTuple i t d = (Inr r, d')"
     "holds_tuples sch d' (if r then m(unat i \<mapsto> t) else m)"
     "r \<longleftrightarrow> (\<exists>u. m (unat i) = Some u \<and> update_fits d (tuple_bytes u) (tuple_bytes t))"
    using holds_tuples_update [OF assms] by blast
  then show "\<exists>r d'. TablePage_UpdateTuple i t d = (Inr r, d') \<and>
       (r \<longleftrightarrow> (\<exists>u. m (unat i) = Some u \<and> update_fits d (tuple_bytes u) (tuple_bytes t))) \<and>
       (\<forall>j. TablePage_GetTuple j sch d' = (Inr (if r \<and> j = i then Some t else m (unat j)), d'))"
    using tp.lookup_eq [OF d'(2)] by (intro exI [of _ r] exI [of _ d']) (auto simp: word_unat_eq_iff)
next
  obtain d' where "TablePage_DeleteTuple i d = (Inr (m (unat i) \<noteq> None), d')" "holds_tuples sch d' (m(unat i := None))"
    using holds_tuples_delete [OF assms(1)] by blast
  then show "\<exists>d'. TablePage_DeleteTuple i d = (Inr (m (unat i) \<noteq> None), d') \<and>
       (\<forall>j. TablePage_GetTuple j sch d' = (Inr (if j = i then None else m (unat j)), d'))"
    using tp.lookup_eq by (intro exI [of _ d']) (auto simp: word_unat_eq_iff)
qed

theorem table_page_update_delete_get_witness:
  "\<exists>i d1 d2 d3. TablePage_InsertTuple (sample_tuple 7 [65]) (TablePage_Init 1 INVALID_PAGE_ID zero_page) = (Inr (Some i), d1) \<and>
     TablePage_UpdateTuple i (sample_tuple 8 []) d1 = (Inr True, d2) \<and>
     TablePage_GetTuple i sample_schema d2 = (Inr (Some (sample_tuple 8 [])), d2) \<and>
     TablePage_DeleteTuple i d1 = (Inr True, d3) \<and> TablePage_GetTuple i sample_schema d3 = (Inr None, d3)"
proof -
  have g: "good_tuple sample_schema (sample_tuple 7 [65])" and g8: "good_tuple sample_schema (sample_tuple 8 [])"
    by (rule sample_good; simp)+
  have "fits (TablePage_Init 1 INVALID_PAGE_ID zero_page) (tuple_bytes (sample_tuple 7 [65]))"
    by (rule sample_fits) simp
  with holds_tuples_insert [OF sample_page g] obtain i d1 where
    d1: "TablePage_InsertTuple (sample_tuple 7 [65]) (TablePage_Init 1 INVALID_PAGE_ID zero_page) = (Inr (Some i), d1)"
      "holds_tuples sample_schema d1 [unat i \<mapsto> sample_tuple 7 [65]]" by auto
  have "update_fits d1 (tuple_bytes (sample_tuple 7 [65])) (tuple_bytes (sample_tuple 8 []))"
    by (simp add: update_fits_def sample_tuple_bytes)
  with table_page_update_delete_get [OF d1(2) g8, of i] d1(1) show ?thesis by auto
qed

text \<open>
  C24. Memory safety of the slotted page. In every history of a page (initialisation, inserts,
  updates, deletes, relinking) whose tuples have one schema and a serialised length that fits into
  32 bits together with a slot entry, at most 453 slots exist, so the 500-element slot array is
  never left; the slot array ends at or before the free space pointer; every stored tuple lies
  between the free space pointer and the end of the page, and no two of them overlap. Reading any
  slot with this schema, deleting any slot, and inserting or updating with such a tuple accesses no
  memory outside the page.
\<close>

theorem table_page_memory_safe:
  assumes "tp_reach sch d" "storable t"
  shows "length d = PAGE_SIZE \<and> unat (num_slots d) \<le> 453 \<and>
     20 + 8 * unat (num_slots d) \<le> unat (free_space_pointer d) \<and> unat (free_space_pointer d) \<le> PAGE_SIZE \<and>
     (\<forall>j < unat (num_slots d). slot_length d j \<noteq> 0 \<longrightarrow>
        unat (free_space_pointer d) \<le> unat (slot_offset d j) \<and>
        unat (slot_offset d j) + unat (slot_length d j) \<le> PAGE_SIZE \<and>
        (\<forall>k < unat (num_slots d). k \<noteq> j \<and> slot_length d k \<noteq> 0 \<longrightarrow>
           disjoint_ranges (unat (slot_offset d k)) (unat (slot_length d k))
             (unat (slot_offset d j)) (unat (slot_length d j)))) \<and>
     (\<exists>r. fst (TablePage_GetTuple i sch d) = Inr r) \<and> (\<exists>r. fst (TablePage_InsertTuple t d) = Inr r) \<and>
     (\<exists>r. fst (TablePage_UpdateTuple i t d) = Inr r) \<and> (\<exists>r. fst (TablePage_DeleteTuple i d) = Inr r)"
proof (intro conjI allI impI)
  have inv: "tp_inv d" and sb: "schema_bytes sch d" using tp_reach_inv [OF assms(1)] by auto
  note b = tp_inv_bounds [OF inv] and sl = tp_inv_slot [OF inv]
  show "length d = PAGE_SIZE" "unat (free_space_pointer d) \<le> PAGE_SIZE"
    "20 + 8 * unat (num_slots d) \<le> unat (free_space_pointer d)" by (rule b)+
  show "unat (num_slots d) \<le> 453" using inv page_shape_slots(1) by (auto simp: tp_inv_def)
  show "unat (free_space_pointer d) \<le> unat (slot_offset d j)"
    "unat (slot_offset d j) + unat (slot_length d j) \<le> PAGE_SIZE"
    if "j < unat (num_slots d)" "slot_length d j \<noteq> 0" for j using sl(1,2) that by blast+
  show "disjoint_ranges (unat (slot_offset d k)) (unat (slot_length d k)) (unat (slot_offset d j)) (unat (slot_length d j))"
    if "j < unat (num_slots d)" "slot_length d j \<noteq> 0" "k < unat (num_slots d)" "k \<noteq> j \<and> slot_length d k \<noteq> 0"
    for j k using sl(3) that by blast
  show "\<exists>r. fst (TablePage_GetTuple i sch d) = Inr r"
  proof (cases "tp_view d (unat i)")
    case None
    then show ?thesis using get_tuple_none [OF inv] by simp
  next
    case (Some bs)
    then obtain u where "tuple_ok sch u" "tp_view d (unat i) = Some (tuple_bytes u)" using sb by (auto simp: schema_bytes_def)
    then show ?thesis using get_tuple_some [OF inv] by simp
  qed
  show "\<exists>r. fst (TablePage_InsertTuple t d) = Inr r"
    using insert_tuple [OF inv assms(2)] by (auto split: if_splits)
  show "\<exists>r. fst (TablePage_UpdateTuple i t d) = Inr r" using update_tuple [OF inv assms(2), of i] by auto
  show "\<exists>r. fst (TablePage_DeleteTuple i d) = Inr r" using delete_tuple [OF inv, of i] by auto
qed

theorem table_page_memory_safe_witness:
  "\<exists>i d. TablePage_InsertTuple (sample_tuple 7 [65]) (TablePage_Init 1 INVALID_PAGE_ID zero_page) = (Inr (Some i), d) \<and>
     unat (num_slots d) \<le> 453 \<and> (\<exists>r. fst (TablePage_GetTuple i sample_schema d) = Inr r) \<and>
     (\<exists>r. fst (TablePage_UpdateTuple i (sample_tuple 7 (replicate 500 66)) d) = Inr r)"
proof -
  have g: "good_tuple sample_schema (sample_tuple 7 [65])" by (rule sample_good) simp
  then have g': "tuple_ok sample_schema (sample_tuple 7 [65])" "storable (sample_tuple 7 [65])" by (simp_all add: good_tuple_def)
  have g2: "storable (sample_tuple 7 (replicate 500 66))"
    using sample_good [of "replicate 500 66" 7] by (simp add: good_tuple_def)
  have "fits (TablePage_Init 1 INVALID_PAGE_ID zero_page) (tuple_bytes (sample_tuple 7 [65]))"
    by (rule sample_fits) simp
  with holds_tuples_insert [OF sample_page g] obtain i d where
    d: "TablePage_InsertTuple (sample_tuple 7 [65]) (TablePage_Init 1 INVALID_PAGE_ID zero_page) = (Inr (Some i), d)" by auto
  have "tp_reach sample_schema d" by (rule tp_reach.insert [OF tp_reach.init [OF length_zero_page] g' d])
  from table_page_memory_safe [OF this g2] d show ?thesis by blast
qed

text \<open>
  C40. The length of a tuple is computed in 32 bits and wraps. A string of \<open>2^32 - 4\<close> bytes has
  serialised length 0, so every page with room for one slot entry accepts it, and writing it
  leaves the page.
\<close>

theorem huge_tuple_leaves_page:
  assumes "tp_inv d" "8 \<le> free_bytes d" "length s = 2 ^ 32 - 4"
  shows "Tuple_GetSerializedLength \<lparr>tuple_values = [Value_of_string s]\<rparr> = 0 \<and>
     fst (TablePage_InsertTuple \<lparr>tuple_values = [Value_of_string s]\<rparr> d) = Inl MemFault"
proof -
  let ?t = "\<lparr>tuple_values = [Value_of_string s]\<rparr>"
  note b = tp_inv_bounds [OF assms(1)]
  have l: "28 \<le> length d" using b(1) by (simp add: PAGE_SIZE_def)
  have len: "Tuple_GetSerializedLength ?t = 0"
    using assms(3) by (simp add: tuple_length_word tuple_bytes_def value_bytes_def Value_of_string_def Value_default_def)
  have d1: "length (set_u32 d 8 (free_space_pointer d)) = PAGE_SIZE"
    using header_write_fields(1) [OF l, of 8] b(1) by simp
  have small: "PAGE_SIZE < 4096 + 1" by (simp add: PAGE_SIZE_def)
  have ser: "Tuple_Serialize ?t (set_u32 d 8 (free_space_pointer d)) a = None" for a
    using d1 assms(3) small
    by (auto simp: Tuple_Serialize_def Value_Serialize_def Value_of_string_def Value_default_def Let_def
        memcpy_to_def unat_of_nat_u32 length_store split: option.splits)
  have room: "\<not> free_space_pointer d - (20 + num_slots d * 8) < 8" "\<not> free_space_pointer d < 20 + num_slots d * 8"
    using assms(2) b(6,7) by (auto simp: word_less_nat_alt free_bytes_def)
  from find_slot_result [of 0 "unat (num_slots d)" d] b(4)
  consider i where "find_slot d 0 (unat (num_slots d)) = Inr (Some i)"
    | "find_slot d 0 (unat (num_slots d)) = Inr None" by auto
  then show ?thesis
    using len ser room by cases (simp_all add: TablePage_InsertTuple_def Let_def)
qed

theorem huge_tuple_leaves_page_witness:
  "fst (TablePage_InsertTuple \<lparr>tuple_values = [Value_of_string (replicate (2 ^ 32 - 4) 65)]\<rparr>
     (TablePage_Init 1 INVALID_PAGE_ID zero_page)) = Inl MemFault"
proof -
  note i = init_page [OF length_zero_page, of 1 INVALID_PAGE_ID]
  have "8 \<le> free_bytes (TablePage_Init 1 INVALID_PAGE_ID zero_page)" using i(6) by (simp add: PAGE_SIZE_def)
  from huge_tuple_leaves_page [OF i(1) this, of "replicate (2 ^ 32 - 4) 65"] show ?thesis
    using length_replicate [of "2 ^ 32 - 4" "65 :: byte"] by blast
qed

end
