(* ===== verification/Table_Heap.thy ===== *)
theory Table_Heap
  imports Page_Cache Table_Page
begin

text \<open>
  Tables as chains of slotted pages (\<^verbatim>\<open>table_heap.hpp\<close>) and the table catalog
  (\<^verbatim>\<open>table_catalog.hpp\<close>). The heap reaches its pages through the buffer pool only; a
  \<^verbatim>\<open>TablePage*\<close> is the frame it overlays, and \<open>on_page\<close> runs an operation of the page on the bytes
  of that frame. \<open>heap_rep\<close> relates a chain of pages to an abstract table, a partial map from
  record ids to tuples; the operations are shown to implement lookup, insert, update and delete
  on that map, for every buffer pool with two usable frames.
\<close>

section \<open>Operations\<close>

definition on_page :: "frame_id \<Rightarrow> (byte list, 'a) comp \<Rightarrow> (buffer_pool, 'a) comp" where
  "on_page f m s = (case m (page_data s f) of (r, d') \<Rightarrow> (r, put_data f d' s))"

definition modify :: "frame_id \<Rightarrow> (byte list \<Rightarrow> byte list) \<Rightarrow> (buffer_pool, unit) comp" where
  "modify f g s = (Inr (), put_data f (g (page_data s f)) s)"

text \<open>The constructor that creates the first page; the result is \<^verbatim>\<open>first_page_id_\<close>.\<close>

definition TableHeap_new :: "(buffer_pool, page_id) comp" where
  "TableHeap_new =
     bind NewPage (\<lambda>(p, r). case r of
        None \<Rightarrow> ret p
      | Some f \<Rightarrow> bind (modify f (TablePage_Init p INVALID_PAGE_ID))
                   (\<lambda>_. bind (UnpinPage p True) (\<lambda>_. ret p)))"

text \<open>
  The branch of \<open>InsertTuple\<close> that appends a page behind the last page \<open>curr_id\<close> (in frame \<open>f\<close>).
  The result of the insertion into the new page is ignored; when it failed, the slot number
  reported is the uninitialised local variable, here the argument \<open>junk\<close>.
\<close>

definition heap_append :: "32 word \<Rightarrow> Tuple \<Rightarrow> page_id \<Rightarrow> frame_id \<Rightarrow> (buffer_pool, RID option) comp" where
  "heap_append junk t curr_id f =
     bind NewPage (\<lambda>(p, r). case r of
        None \<Rightarrow> bind (UnpinPage curr_id False) (\<lambda>_. ret None)
      | Some g \<Rightarrow>
          bind (modify g (TablePage_Init p curr_id)) (\<lambda>_.
          bind (modify f (SetNextPageId p)) (\<lambda>_.
          bind (on_page g (TablePage_InsertTuple t)) (\<lambda>slot.
          bind (UnpinPage curr_id True) (\<lambda>_.
          bind (UnpinPage p True) (\<lambda>_.
          ret (Some \<lparr>rid_page_id = p, rid_slot_num = (case slot of Some i \<Rightarrow> i | None \<Rightarrow> junk)\<rparr>)))))))"

text \<open>The loop over the chain. It need not end on a cyclic chain: then the value is \<open>None\<close>.\<close>

partial_function (option) heap_insert_loop ::
  "32 word \<Rightarrow> Tuple \<Rightarrow> page_id \<Rightarrow> buffer_pool \<Rightarrow> ((err + RID option) \<times> buffer_pool) option" where
  "heap_insert_loop junk t curr_id s =
     (if curr_id = INVALID_PAGE_ID then Some (Inr None, s)
      else case FetchPage curr_id s of
        (Inl e, s1) \<Rightarrow> Some (Inl e, s1)
      | (Inr None, s1) \<Rightarrow> Some (Inr None, s1)
      | (Inr (Some f), s1) \<Rightarrow>
         (case on_page f (TablePage_InsertTuple t) s1 of
            (Inl e, s2) \<Rightarrow> Some (Inl e, s2)
          | (Inr (Some i), s2) \<Rightarrow>
              Some (bind (UnpinPage curr_id True)
                (\<lambda>_. ret (Some \<lparr>rid_page_id = curr_id, rid_slot_num = i\<rparr>)) s2)
          | (Inr None, s2) \<Rightarrow>
             (let next_id = next_page_id (page_data s2 f) in
              if next_id = INVALID_PAGE_ID then Some (heap_append junk t curr_id f s2)
              else case UnpinPage curr_id False s2 of
                     (Inl e, s3) \<Rightarrow> Some (Inl e, s3)
                   | (Inr b, s3) \<Rightarrow> heap_insert_loop junk t next_id s3)))"

definition TableHeap_InsertTuple ::
  "32 word \<Rightarrow> page_id \<Rightarrow> Tuple \<Rightarrow> buffer_pool \<Rightarrow> ((err + RID option) \<times> buffer_pool) option" where
  "TableHeap_InsertTuple junk first t s = heap_insert_loop junk t first s"

definition TableHeap_GetTuple :: "RID \<Rightarrow> Schema \<Rightarrow> (buffer_pool, Tuple option) comp" where
  "TableHeap_GetTuple rid sch =
     bind (FetchPage (rid_page_id rid)) (\<lambda>r. case r of
        None \<Rightarrow> ret None
      | Some f \<Rightarrow> bind (on_page f (TablePage_GetTuple (rid_slot_num rid) sch)) (\<lambda>status.
                   bind (UnpinPage (rid_page_id rid) False) (\<lambda>_. ret status)))"

definition TableHeap_UpdateTuple :: "RID \<Rightarrow> Tuple \<Rightarrow> (buffer_pool, bool) comp" where
  "TableHeap_UpdateTuple rid t =
     bind (FetchPage (rid_page_id rid)) (\<lambda>r. case r of
        None \<Rightarrow> ret False
      | Some f \<Rightarrow> bind (on_page f (TablePage_UpdateTuple (rid_slot_num rid) t)) (\<lambda>status.
                   bind (UnpinPage (rid_page_id rid) status) (\<lambda>_. ret status)))"

definition TableHeap_DeleteTuple :: "RID \<Rightarrow> (buffer_pool, bool) comp" where
  "TableHeap_DeleteTuple rid =
     bind (FetchPage (rid_page_id rid)) (\<lambda>r. case r of
        None \<Rightarrow> ret False
      | Some f \<Rightarrow> bind (on_page f (TablePage_DeleteTuple (rid_slot_num rid))) (\<lambda>status.
                   bind (UnpinPage (rid_page_id rid) status) (\<lambda>_. ret status)))"

subsection \<open>Catalog\<close>

record TableMetadata =
  tm_name :: string
  tm_schema :: Schema
  tm_first_page_id :: page_id
  tm_index_root_id :: page_id

type_synonym TableCatalog = "string \<rightharpoonup> TableMetadata"

definition TableCatalog_new :: TableCatalog where
  "TableCatalog_new = Map.empty"

definition CreateTable :: "string \<Rightarrow> Schema \<Rightarrow> page_id \<Rightarrow> page_id \<Rightarrow> TableCatalog \<Rightarrow> TableCatalog" where
  "CreateTable name sch first root c =
     c(name \<mapsto> \<lparr>tm_name = name, tm_schema = sch, tm_first_page_id = first, tm_index_root_id = root\<rparr>)"

definition GetTableMetadata :: "string \<Rightarrow> TableCatalog \<Rightarrow> TableMetadata option" where
  "GetTableMetadata name c = c name"

definition UpdateIndexRoot :: "string \<Rightarrow> page_id \<Rightarrow> TableCatalog \<Rightarrow> TableCatalog" where
  "UpdateIndexRoot name root c =
     (case c name of None \<Rightarrow> c | Some m \<Rightarrow> c(name \<mapsto> m\<lparr>tm_index_root_id := root\<rparr>))"

section \<open>The chain of pages\<close>

text \<open>\<open>linked sch S M ps\<close>: in the page store \<open>S\<close> the pages \<open>ps\<close> form a chain; page \<open>p\<close> holds \<open>M p\<close>.\<close>

fun linked :: "Schema \<Rightarrow> (page_id \<rightharpoonup> byte list) \<Rightarrow> (page_id \<Rightarrow> nat \<rightharpoonup> Tuple) \<Rightarrow> page_id list \<Rightarrow> bool" where
  "linked sch S M [] \<longleftrightarrow> False"
| "linked sch S M [p] \<longleftrightarrow> p \<noteq> INVALID_PAGE_ID \<and>
     (\<exists>d. S p = Some d \<and> holds_tuples sch d (M p) \<and> next_page_id d = INVALID_PAGE_ID)"
| "linked sch S M (p # q # ps) \<longleftrightarrow> p \<noteq> INVALID_PAGE_ID \<and>
     (\<exists>d. S p = Some d \<and> holds_tuples sch d (M p) \<and> next_page_id d = q) \<and> linked sch S M (q # ps)"

definition heap_map :: "page_id list \<Rightarrow> (page_id \<Rightarrow> nat \<rightharpoonup> Tuple) \<Rightarrow> RID \<rightharpoonup> Tuple" where
  "heap_map ps M rid = (if rid_page_id rid \<in> set ps then M (rid_page_id rid) (unat (rid_slot_num rid)) else None)"

text \<open>\<open>heap_rep sch S ps H\<close>: the pages \<open>ps\<close> of store \<open>S\<close> are a table with the tuples \<open>H\<close>.\<close>

definition heap_rep :: "Schema \<Rightarrow> (page_id \<rightharpoonup> byte list) \<Rightarrow> page_id list \<Rightarrow> (RID \<rightharpoonup> Tuple) \<Rightarrow> bool" where
  "heap_rep sch S ps H \<longleftrightarrow> distinct ps \<and> (\<exists>M. linked sch S M ps \<and> H = heap_map ps M)"

lemma linked_page:
  assumes "linked sch S M ps" "p \<in> set ps"
  shows "p \<noteq> INVALID_PAGE_ID \<and> (\<exists>d. S p = Some d \<and> holds_tuples sch d (M p))"
  using assms by (induction sch S M ps rule: linked.induct) auto

lemma linked_cong:
  assumes "linked sch S M ps" "\<And>p. p \<in> set ps \<Longrightarrow> S' p = S p \<and> M' p = M p"
  shows "linked sch S' M' ps"
  using assms
proof (induction sch S M ps rule: linked.induct)
  case (2 sch S M p)
  have "S' p = S p" "M' p = M p" using 2(2) by simp_all
  then show ?case using 2(1) by simp
next
  case (3 sch S M p q ps)
  have "S' p = S p" "M' p = M p" using 3(3) by simp_all
  moreover have "linked sch S' M' (q # ps)" using 3 by simp
  ultimately show ?case using 3(2) by simp
qed simp

lemma linked_upd:
  assumes "linked sch S M ps" "distinct ps" "p \<in> set ps" "S p = Some d"
    "holds_tuples sch d' m'" "next_page_id d' = next_page_id d"
  shows "linked sch (S(p \<mapsto> d')) (M(p := m')) ps"
  using assms
proof (induction sch S M ps rule: linked.induct)
  case (3 sch S M r q ps)
  show ?case
  proof (cases "p = r")
    case True
    then have "linked sch (S(p \<mapsto> d')) (M(p := m')) (q # ps)"
      using 3(2,3) by - (rule linked_cong [of sch S M], auto)
    with True 3(2,5-) show ?thesis by (auto simp: fun_upd_def)
  next
    case False
    with 3 show ?thesis by auto
  qed
qed auto

lemma linked_append:
  assumes "linked sch S M ps" "distinct ps" "S (last ps) = Some d" "p \<notin> set ps" "p \<noteq> INVALID_PAGE_ID"
    "holds_tuples sch (SetNextPageId p d) (M (last ps))" "next_page_id (SetNextPageId p d) = p"
    "holds_tuples sch d' m'" "next_page_id d' = INVALID_PAGE_ID"
  shows "linked sch (S(last ps \<mapsto> SetNextPageId p d, p \<mapsto> d')) (M(p := m')) (ps @ [p])"
  using assms
proof (induction sch S M ps rule: linked.induct)
  case (3 sch S M r q ps)
  have "r \<noteq> last (q # ps)" using 3(3) by (auto dest: last_in_set)
  with 3 show ?case by (auto simp del: last.simps simp: last_ConsR)
qed auto

lemma heap_map_upd:
  assumes "p \<in> set ps"
  shows "heap_map ps (M(p := (M p)(unat i := v))) = (heap_map ps M)(\<lparr>rid_page_id = p, rid_slot_num = i\<rparr> := v)"
proof
  fix rid :: RID
  show "heap_map ps (M(p := (M p)(unat i := v))) rid = ((heap_map ps M)(\<lparr>rid_page_id = p, rid_slot_num = i\<rparr> := v)) rid"
    using assms by (cases rid) (auto simp: heap_map_def unat_inject)
qed

lemma heap_map_append:
  assumes "p \<notin> set ps"
  shows "heap_map (ps @ [p]) (M(p := [unat i \<mapsto> t])) = (heap_map ps M)(\<lparr>rid_page_id = p, rid_slot_num = i\<rparr> \<mapsto> t)"
proof
  fix rid :: RID
  show "heap_map (ps @ [p]) (M(p := [unat i \<mapsto> t])) rid = ((heap_map ps M)(\<lparr>rid_page_id = p, rid_slot_num = i\<rparr> \<mapsto> t)) rid"
    using assms by (cases rid) (auto simp: heap_map_def unat_inject)
qed

section \<open>Operations between which no page is pinned\<close>

definition idle :: "buffer_pool \<Rightarrow> page_id list \<Rightarrow> bool" where
  "idle s fl \<longleftrightarrow> bp_inv s fl \<and> pin_counts s = (\<lambda>_. 0)"

lemma idleD:
  assumes "idle s fl"
  shows "bp_inv s fl" "pin_counts s = (\<lambda>_. 0)" "card {q. 0 < pin_counts s q} = 0" "synced s p"
  using assms synced_unpinned by (auto simp: idle_def)

lemma put_same [simp]: "put_data f (page_data s f) s = s"
  by (simp add: put_data_def page_data_def set_frame_def frame_def)

lemma on_page_apply: "m (page_data s f) = (r, d') \<Longrightarrow> on_page f m s = (r, put_data f d' s)"
  by (simp add: on_page_def)

lemma holds_tuples_length: "holds_tuples sch d m \<Longrightarrow> length d = PAGE_SIZE"
  by (simp add: holds_tuples_def tp_inv_def)

lemma heap_get:
  assumes id: "idle s fl" and fr: "0 < frames s"
    and p: "pool_store s fl (rid_page_id rid) = Some d" and h: "holds_tuples sch d m"
  shows "\<exists>s'. TableHeap_GetTuple rid sch s = (Inr (m (unat (rid_slot_num rid))), s') \<and> idle s' fl \<and>
     pool_store s' fl = pool_store s fl \<and> frames s' = frames s"
proof -
  note i = idleD [OF id]
  have room: "card {q. 0 < pin_counts s q} < frames s" using i(3) fr by simp
  obtain f s1 s2 where s: "FetchPage (rid_page_id rid) s = (Inr (Some f), s1)" "page_data s1 f = d"
    "UnpinPage (rid_page_id rid) False s1 = (Inr True, s2)" "bp_inv s2 fl"
    "pool_store s2 fl = pool_store s fl" "pin_counts s2 = pin_counts s" "frames s2 = frames s"
    by (rule bpm.read_page [OF i(1) p room i(4)]) blast
  have "on_page f (TablePage_GetTuple (rid_slot_num rid) sch) s1 = (Inr (m (unat (rid_slot_num rid))), s1)"
    using on_page_apply [of "TablePage_GetTuple (rid_slot_num rid) sch" s1 f] tp.lookup_eq [OF h] s(2)
      put_same [of f s1] by simp
  then have "TableHeap_GetTuple rid sch s = (Inr (m (unat (rid_slot_num rid))), s2)"
    using s(1,3) by (simp add: TableHeap_GetTuple_def)
  then show ?thesis using s i(2) by (simp add: idle_def)
qed

text \<open>An operation of a page that reports whether it changed the page, run through the pool.\<close>

lemma heap_change:
  assumes id: "idle s fl" and fr: "0 < frames s" and p: "pool_store s fl p = Some d"
    and m: "m d = (Inr b, d')" "\<not> b \<longrightarrow> d' = d" "length d' = PAGE_SIZE"
  shows "\<exists>s'. bind (FetchPage p) (\<lambda>r. case r of None \<Rightarrow> ret False
       | Some f \<Rightarrow> bind (on_page f m) (\<lambda>st. bind (UnpinPage p st) (\<lambda>_. ret st))) s = (Inr b, s') \<and>
     idle s' fl \<and> pool_store s' fl = (pool_store s fl)(p \<mapsto> d') \<and> frames s' = frames s"
proof -
  note i = idleD [OF id]
  have room: "card {q. 0 < pin_counts s q} < frames s" using i(3) fr by simp
  show ?thesis
  proof (cases b)
    case True
    obtain f s1 s2 where s: "FetchPage p s = (Inr (Some f), s1)" "page_data s1 f = d"
      "UnpinPage p True (put_data f d' s1) = (Inr True, s2)" "bp_inv s2 fl"
      "pool_store s2 fl = (pool_store s fl)(p \<mapsto> d')" "pin_counts s2 = pin_counts s" "frames s2 = frames s"
      by (rule bpm.modify_page [OF i(1) p room m(3)]) blast
    have "on_page f m s1 = (Inr True, put_data f d' s1)" using m(1) s(2) True by (simp add: on_page_def)
    then show ?thesis using s True i(2) by (simp add: idle_def)
  next
    case False
    obtain f s1 s2 where s: "FetchPage p s = (Inr (Some f), s1)" "page_data s1 f = d"
      "UnpinPage p False s1 = (Inr True, s2)" "bp_inv s2 fl"
      "pool_store s2 fl = pool_store s fl" "pin_counts s2 = pin_counts s" "frames s2 = frames s"
      by (rule bpm.read_page [OF i(1) p room i(4)]) blast
    have "on_page f m s1 = (Inr False, s1)"
      using m(1,2) s(2) False put_same [of f s1] by (simp add: on_page_def)
    moreover have "(pool_store s fl)(p \<mapsto> d') = pool_store s fl" using p m(2) False by (simp add: fun_upd_idem)
    ultimately show ?thesis using s False i(2) by (simp add: idle_def)
  qed
qed

lemma heap_rep_page:
  assumes "heap_rep sch S ps H" "p \<in> set ps"
  obtains d m where "S p = Some d" "holds_tuples sch d m" "\<And>i. H \<lparr>rid_page_id = p, rid_slot_num = i\<rparr> = m (unat i)"
    "p \<noteq> INVALID_PAGE_ID"
proof -
  obtain M where M: "linked sch S M ps" "H = heap_map ps M" using assms(1) by (auto simp: heap_rep_def)
  from linked_page [OF M(1) assms(2)] obtain d where "S p = Some d" "holds_tuples sch d (M p)" "p \<noteq> INVALID_PAGE_ID"
    by blast
  then show thesis using that [of d "M p"] by (simp add: M(2) heap_map_def assms(2))
qed

lemma heap_rep_upd:
  assumes "heap_rep sch S ps H" "p \<in> set ps" "S p = Some d" "holds_tuples sch d m" "same_header d d'"
    "holds_tuples sch d' (m(unat i := v))"
  shows "heap_rep sch (S(p \<mapsto> d')) ps (H(\<lparr>rid_page_id = p, rid_slot_num = i\<rparr> := v))"
proof -
  obtain M where M: "distinct ps" "linked sch S M ps" "H = heap_map ps M"
    using assms(1) by (auto simp: heap_rep_def)
  have "holds_tuples sch d (M p)" using linked_page [OF M(2) assms(2)] assms(3) by auto
  then have "m = M p" using assms(4) holds_tuples_unique by blast
  then have "linked sch (S(p \<mapsto> d')) (M(p := (M p)(unat i := v))) ps"
    using assms M by (intro linked_upd) (auto simp: same_header_def)
  then show ?thesis using M heap_map_upd [OF assms(2)] by (auto simp: heap_rep_def)
qed

lemma heap_rep_rid:
  assumes "heap_rep sch S ps H" "rid_page_id rid \<in> set ps"
  obtains d m where "S (rid_page_id rid) = Some d" "holds_tuples sch d m" "H rid = m (unat (rid_slot_num rid))"
proof -
  obtain d m where d: "S (rid_page_id rid) = Some d" "holds_tuples sch d m"
    "\<And>i. H \<lparr>rid_page_id = rid_page_id rid, rid_slot_num = i\<rparr> = m (unat i)"
    by (rule heap_rep_page [OF assms]) blast
  show thesis by (rule that [OF d(1,2)]) (use d(3) [of "rid_slot_num rid"] in simp)
qed

lemma heap_update:
  assumes rep: "heap_rep sch (pool_store s fl) ps H" and id: "idle s fl" and fr: "0 < frames s"
    and p: "rid_page_id rid \<in> set ps" and t: "good_tuple sch t"
  shows "\<exists>r s'. TableHeap_UpdateTuple rid t s = (Inr r, s') \<and> idle s' fl \<and> frames s' = frames s \<and>
     (r \<longleftrightarrow> (\<exists>u d. H rid = Some u \<and> pool_store s fl (rid_page_id rid) = Some d \<and> update_fits d (tuple_bytes u) (tuple_bytes t))) \<and>
     heap_rep sch (pool_store s' fl) ps (if r then H(rid \<mapsto> t) else H) \<and>
     (\<exists>d'. pool_store s' fl = (pool_store s fl)(rid_page_id rid \<mapsto> d'))"
proof -
  let ?p = "rid_page_id rid" and ?i = "rid_slot_num rid"
  obtain d m where d: "pool_store s fl ?p = Some d" "holds_tuples sch d m" "H rid = m (unat ?i)"
    by (rule heap_rep_rid [OF rep p])
  obtain r d' where u: "TablePage_UpdateTuple ?i t d = (Inr r, d')" "same_header d d'"
    "holds_tuples sch d' (if r then m(unat ?i \<mapsto> t) else m)" "\<not> r \<longrightarrow> d' = d"
    "r \<longleftrightarrow> (\<exists>u. m (unat ?i) = Some u \<and> update_fits d (tuple_bytes u) (tuple_bytes t))"
    using holds_tuples_update [OF d(2) t, of ?i] by blast
  have len: "length d' = PAGE_SIZE" by (rule holds_tuples_length [OF u(3)])
  obtain s' where s': "TableHeap_UpdateTuple rid t s = (Inr r, s')" "idle s' fl"
    "pool_store s' fl = (pool_store s fl)(?p \<mapsto> d')" "frames s' = frames s"
    using heap_change [where m = "TablePage_UpdateTuple ?i t", OF id fr d(1) u(1) u(4) len]
    unfolding TableHeap_UpdateTuple_def by blast
  have "heap_rep sch ((pool_store s fl)(?p \<mapsto> d')) ps (if r then H(rid \<mapsto> t) else H)"
  proof (cases r)
    case True
    then show ?thesis using heap_rep_upd [OF rep p d(1,2) u(2), of ?i "Some t"] u(3) by simp
  next
    case False
    then show ?thesis using rep d(1) u(4) by (simp add: fun_upd_idem)
  qed
  then have rep': "heap_rep sch (pool_store s' fl) ps (if r then H(rid \<mapsto> t) else H)" unfolding s'(3) .
  have iff: "r \<longleftrightarrow> (\<exists>u d. H rid = Some u \<and> pool_store s fl ?p = Some d \<and> update_fits d (tuple_bytes u) (tuple_bytes t))"
    using u(5) d(1,3) by simp
  show ?thesis by (rule exI [of _ r], rule exI [of _ s']) (intro conjI exI [of _ d'] s' iff rep')
qed

lemma heap_delete_frame:
  assumes rep: "heap_rep sch (pool_store s fl) ps H" and id: "idle s fl" and fr: "0 < frames s"
    and p: "rid_page_id rid \<in> set ps"
  shows "\<exists>s'. TableHeap_DeleteTuple rid s = (Inr (H rid \<noteq> None), s') \<and> idle s' fl \<and>
     heap_rep sch (pool_store s' fl) ps (H(rid := None)) \<and> frames s' = frames s \<and>
     (\<exists>d'. pool_store s' fl = (pool_store s fl)(rid_page_id rid \<mapsto> d'))"
proof -
  let ?p = "rid_page_id rid" and ?i = "rid_slot_num rid"
  obtain d m where d: "pool_store s fl ?p = Some d" "holds_tuples sch d m" "H rid = m (unat ?i)"
    by (rule heap_rep_rid [OF rep p])
  from tp.del_eq [OF d(2), of ?i]
  obtain d' where e: "TablePage_DeleteTuple ?i d = (Inr (m (unat ?i) \<noteq> None), d')" "same_header d d'"
    "holds_tuples sch d' (m(unat ?i := None))" "m (unat ?i) = None \<longrightarrow> d' = d"
    by (elim exE conjE) (rule that)
  have len: "length d' = PAGE_SIZE" by (rule holds_tuples_length [OF e(3)])
  have same: "\<not> m (unat ?i) \<noteq> None \<longrightarrow> d' = d" using e(4) by simp
  from heap_change [where m = "TablePage_DeleteTuple ?i", OF id fr d(1) e(1) same len,
      folded TableHeap_DeleteTuple_def]
  obtain s' where s': "TableHeap_DeleteTuple rid s = (Inr (m (unat ?i) \<noteq> None), s')" "idle s' fl"
    "pool_store s' fl = (pool_store s fl)(?p \<mapsto> d')" "frames s' = frames s"
    by (elim exE conjE) (rule that)
  have "heap_rep sch ((pool_store s fl)(?p \<mapsto> d')) ps (H(rid := None))"
    using heap_rep_upd [OF rep p d(1,2) e(2), of ?i None] e(3) by simp
  then have rep': "heap_rep sch (pool_store s' fl) ps (H(rid := None))" unfolding s'(3) .
  show ?thesis unfolding d(3) by (rule exI [of _ s']) (intro conjI exI s'(1,2,4) rep', rule s'(3))
qed

section \<open>Insertion\<close>

text \<open>What an insertion does to the page store: one page changes, or a page is appended.\<close>

definition inserted_in ::
  "Schema \<Rightarrow> (page_id \<rightharpoonup> byte list) \<Rightarrow> (page_id \<Rightarrow> nat \<rightharpoonup> Tuple) \<Rightarrow> page_id list \<Rightarrow> Tuple \<Rightarrow> RID \<Rightarrow>
   (page_id \<rightharpoonup> byte list) \<Rightarrow> bool" where
  "inserted_in sch S M ps t rid S' \<longleftrightarrow>
     (\<exists>p i d d'. rid = \<lparr>rid_page_id = p, rid_slot_num = i\<rparr> \<and> p \<in> set ps \<and> S p = Some d \<and> M p (unat i) = None \<and>
        S' = S(p \<mapsto> d') \<and> holds_tuples sch d' ((M p)(unat i \<mapsto> t)) \<and> next_page_id d' = next_page_id d)"

definition inserted_new ::
  "Schema \<Rightarrow> (page_id \<rightharpoonup> byte list) \<Rightarrow> page_id list \<Rightarrow> Tuple \<Rightarrow> RID \<Rightarrow> (page_id \<rightharpoonup> byte list) \<Rightarrow> bool" where
  "inserted_new sch S ps t rid S' \<longleftrightarrow>
     (\<exists>p i d d'. rid = \<lparr>rid_page_id = p, rid_slot_num = i\<rparr> \<and> p \<notin> dom S \<and> p \<noteq> INVALID_PAGE_ID \<and>
        S (last ps) = Some d \<and> S' = S(last ps \<mapsto> SetNextPageId p d, p \<mapsto> d') \<and>
        holds_tuples sch d' [unat i \<mapsto> t] \<and> next_page_id d' = INVALID_PAGE_ID)"

lemma heap_rep_inserted:
  assumes "distinct ps" "linked sch S M ps" "inserted_in sch S M ps t rid S' \<or> inserted_new sch S ps t rid S'"
  shows "heap_map ps M rid = None \<and>
     (\<exists>ps'. (ps' = ps \<or> ps' = ps @ [rid_page_id rid]) \<and> heap_rep sch S' ps' ((heap_map ps M)(rid \<mapsto> t)))"
  using assms(3)
proof
  assume "inserted_in sch S M ps t rid S'"
  then obtain p i d d' where r: "rid = \<lparr>rid_page_id = p, rid_slot_num = i\<rparr>" "p \<in> set ps" "S p = Some d"
    "M p (unat i) = None" "S' = S(p \<mapsto> d')" "holds_tuples sch d' ((M p)(unat i \<mapsto> t))" "next_page_id d' = next_page_id d"
    by (auto simp: inserted_in_def)
  have "linked sch S' (M(p := (M p)(unat i \<mapsto> t))) ps"
    using linked_upd [OF assms(2,1) r(2,3,6,7)] r(5) by simp
  then have "heap_rep sch S' ps ((heap_map ps M)(rid \<mapsto> t))"
    using assms(1) heap_map_upd [OF r(2), of M i "Some t"] r(1) by (auto simp: heap_rep_def)
  then show ?thesis using r by (auto simp: heap_map_def)
next
  assume "inserted_new sch S ps t rid S'"
  then obtain p i d d' where r: "rid = \<lparr>rid_page_id = p, rid_slot_num = i\<rparr>" "p \<notin> dom S" "p \<noteq> INVALID_PAGE_ID"
    "S (last ps) = Some d" "S' = S(last ps \<mapsto> SetNextPageId p d, p \<mapsto> d')" "holds_tuples sch d' [unat i \<mapsto> t]"
    "next_page_id d' = INVALID_PAGE_ID" unfolding inserted_new_def by blast
  have ps: "ps \<noteq> []" using assms(2) by (cases ps) auto
  have new: "p \<notin> set ps" using linked_page [OF assms(2)] r(2) by auto
  have "holds_tuples sch d (M (last ps))" using linked_page [OF assms(2), of "last ps"] ps r(4) by auto
  then have h: "holds_tuples sch (SetNextPageId p d) (M (last ps))" "next_page_id (SetNextPageId p d) = p"
    using set_next_page [of d p] link_write_fields(7) [of d p] by (auto simp: holds_tuples_def tp_inv_def)
  have "linked sch S' (M(p := [unat i \<mapsto> t])) (ps @ [p])"
    using linked_append [OF assms(2,1) r(4) new r(3) h r(6,7)] r(5) by simp
  then have "heap_rep sch S' (ps @ [p]) ((heap_map ps M)(rid \<mapsto> t))"
    using assms(1) new heap_map_append [OF new, of M i t] r(1) by (auto simp: heap_rep_def)
  then show ?thesis using r new by (auto simp: heap_map_def)
qed

text \<open>A tuple that fits into an empty page.\<close>

definition fits_page :: "Tuple \<Rightarrow> bool" where
  "fits_page t \<longleftrightarrow> length (tuple_bytes t) + 28 \<le> PAGE_SIZE"

lemma insert_into_new_page:
  assumes "good_tuple sch t" "fits_page t" "length d = PAGE_SIZE"
  shows "\<exists>i d'. TablePage_InsertTuple t (TablePage_Init p q d) = (Inr (Some i), d') \<and>
     holds_tuples sch d' [unat i \<mapsto> t] \<and> next_page_id d' = INVALID_PAGE_ID"
proof -
  note i = init_page [OF assms(3), of p q]
  have h: "holds_tuples sch (TablePage_Init p q d) Map.empty" using i(1,2) by (simp add: holds_tuples_def)
  have "fits (TablePage_Init p q d) (tuple_bytes t)" using i(6,7) assms(2) by (simp add: fits_def fits_page_def)
  with holds_tuples_insert [OF h assms(1)] i(3) show ?thesis by (auto simp: same_header_def)
qed

lemma insert_into_new_pages:
  assumes "good_tuple sch t" "fits_page t"
  obtains I D where "\<And>q. TablePage_InsertTuple t (TablePage_Init q p zero_page) = (Inr (Some (I q)), D q)"
      "\<And>q. holds_tuples sch (D q) [unat (I q) \<mapsto> t]" "\<And>q. next_page_id (D q) = INVALID_PAGE_ID"
proof -
  let ?P = "\<lambda>q i d'. TablePage_InsertTuple t (TablePage_Init q p zero_page) = (Inr (Some i), d') \<and>
     holds_tuples sch d' [unat i \<mapsto> t] \<and> next_page_id d' = INVALID_PAGE_ID"
  have "\<forall>q. \<exists>i. \<exists>d'. ?P q i d'" using insert_into_new_page [OF assms length_zero_page] by blast
  from choice [OF this] obtain I where "\<forall>q. \<exists>d'. ?P q (I q) d'" by blast
  from choice [OF this] obtain D where "\<forall>q. ?P q (I q) (D q)" by blast
  then show thesis by (intro that [of I D]) blast+
qed

text \<open>Appending a page: the last page of the chain is pinned, no other page is.\<close>

lemma heap_append_ok:
  assumes inv: "bp_inv s fl" and pins: "pin_counts s = (\<lambda>_. 0)(c := 1)" and held: "held s c f"
    and fr: "2 \<le> frames s" and un: "unused_id (pool_store s fl)" and c: "pool_store s fl c = Some d"
    and ins: "\<And>p. TablePage_InsertTuple t (TablePage_Init p c zero_page) = (Inr (R p), D p)"
      "\<And>p. length (D p) = PAGE_SIZE"
  shows "\<exists>p s'. heap_append junk t c f s =
       (Inr (Some \<lparr>rid_page_id = p, rid_slot_num = (case R p of Some i \<Rightarrow> i | None \<Rightarrow> junk)\<rparr>), s') \<and>
     idle s' (tl fl) \<and> frames s' = frames s \<and> p \<notin> dom (pool_store s fl) \<and> p \<noteq> INVALID_PAGE_ID \<and>
     pool_store s' (tl fl) = (pool_store s fl)(c \<mapsto> SetNextPageId p d, p \<mapsto> D p)"
proof -
  have "{q. 0 < pin_counts s q} = {c}" by (auto simp: pins)
  then have room: "card {q. 0 < pin_counts s q} < frames s" using fr by simp
  obtain p g s1 where s1: "NewPage s = (Inr (p, Some g), s1)" "bp_inv s1 (tl fl)" "p \<notin> dom (pool_store s fl)"
      "p \<noteq> INVALID_PAGE_ID" "pool_store s1 (tl fl) = (pool_store s fl)(p \<mapsto> zero_page)"
      "pin_counts s1 = (pin_counts s)(p := 1)" "held s1 p g" "frames s1 = frames s" "held s1 c f"
    using bpm.new_some [OF inv un room] held by blast
  have cp: "c \<noteq> p" using c s1(3) by auto
  let ?D = "TablePage_Init p c zero_page" and ?E = "SetNextPageId p d"
  have lens: "length ?D = PAGE_SIZE" "length ?E = PAGE_SIZE" "length (D p) = PAGE_SIZE"
    using init_page(1) [OF length_zero_page, of p c] bpm.cells_length [OF inv c] link_write_fields(1) [of d p]
      ins(2) by (simp_all add: tp_inv_def)
  have d1: "page_data s1 g = zero_page" using bpm.get_held [OF s1(2,7)] s1(5) by simp
  define t1 where "t1 = put_data g ?D s1"
  have t1: "bp_inv t1 (tl fl)" "pool_store t1 (tl fl) = (pool_store s fl)(p \<mapsto> ?D)" "pin_counts t1 = pin_counts s1"
      "frames t1 = frames s" "held t1 p g" "held t1 c f"
    using bpm.put_held [OF s1(2,7) lens(1)] s1(5,7-9) by (simp_all add: t1_def)
  have d2: "page_data t1 f = d" using bpm.get_held [OF t1(1,6)] t1(2) cp c by simp
  define t2 where "t2 = put_data f ?E t1"
  have t2: "bp_inv t2 (tl fl)" "pool_store t2 (tl fl) = (pool_store s fl)(p \<mapsto> ?D, c \<mapsto> ?E)"
      "pin_counts t2 = pin_counts s1" "frames t2 = frames s" "held t2 p g" "held t2 c f"
    using bpm.put_held [OF t1(1,6) lens(2)] t1 by (simp_all add: t2_def)
  have d3: "page_data t2 g = ?D" using bpm.get_held [OF t2(1,5)] t2(2) cp by simp
  define t3 where "t3 = put_data g (D p) t2"
  have t3: "bp_inv t3 (tl fl)" "pool_store t3 (tl fl) = (pool_store s fl)(c \<mapsto> ?E, p \<mapsto> D p)"
      "pin_counts t3 = pin_counts s1" "frames t3 = frames s" "held t3 p g" "held t3 c f"
    using bpm.put_held [OF t2(1,5) lens(3)] t2 cp by (simp_all add: t3_def fun_upd_twist)
  obtain s4 where s4: "UnpinPage c True t3 = (Inr True, s4)" "bp_inv s4 (tl fl)"
      "pool_store s4 (tl fl) = pool_store t3 (tl fl)" "pin_counts s4 = (pin_counts t3)(c := pin_counts t3 c - 1)"
      "frames s4 = frames t3" "held s4 p g"
    using bpm.unpin_some [OF t3(1,6) disjI1 [OF TrueI]] t3(5) cp [symmetric] by blast
  obtain s5 where s5: "UnpinPage p True s4 = (Inr True, s5)" "bp_inv s5 (tl fl)"
      "pool_store s5 (tl fl) = pool_store s4 (tl fl)" "pin_counts s5 = (pin_counts s4)(p := pin_counts s4 p - 1)"
      "frames s5 = frames s4"
    using bpm.unpin_some [OF s4(2,6) disjI1 [OF TrueI]] by blast
  have "heap_append junk t c f s =
      (Inr (Some \<lparr>rid_page_id = p, rid_slot_num = (case R p of Some i \<Rightarrow> i | None \<Rightarrow> junk)\<rparr>), s5)"
    using s1(1) d1 d2 d3 ins(1) s4(1) s5(1)
    by (simp add: heap_append_def modify_def on_page_def bind_def t1_def t2_def t3_def)
  moreover have "pin_counts s5 = (\<lambda>_. 0)"
    using s5(4) s4(4) t3(3) s1(6) pins cp by (auto simp: fun_eq_iff)
  ultimately show ?thesis
    using s1(3,4) s5 s4 t3 by (auto simp: idle_def)
qed

text \<open>One round of the loop: the tuple goes into this page, behind it, or further down the chain.\<close>

lemma inserted_later:
  "inserted_in sch S M ps t rid S' \<Longrightarrow> inserted_in sch S M (p # ps) t rid S'"
  "ps \<noteq> [] \<Longrightarrow> inserted_new sch S ps t rid S' \<Longrightarrow> inserted_new sch S (p # ps) t rid S'"
  unfolding inserted_in_def inserted_new_def by auto

lemma heap_insert_here:
  assumes id: "idle s fl" and fr: "2 \<le> frames s" and d: "pool_store s fl p = Some d" "p \<noteq> INVALID_PAGE_ID"
    and hit: "TablePage_InsertTuple t d = (Inr (Some k), d')" "length d' = PAGE_SIZE"
  shows "\<exists>s'. heap_insert_loop junk t p s = Some (Inr (Some \<lparr>rid_page_id = p, rid_slot_num = k\<rparr>), s') \<and>
     idle s' fl \<and> frames s' = frames s \<and> pool_store s' fl = (pool_store s fl)(p \<mapsto> d')"
proof -
  note i = idleD [OF id]
  have room: "card {q. 0 < pin_counts s q} < frames s" using i(3) fr by simp
  obtain f s1 s2 where s: "FetchPage p s = (Inr (Some f), s1)" "page_data s1 f = d"
    "UnpinPage p True (put_data f d' s1) = (Inr True, s2)" "bp_inv s2 fl"
    "pool_store s2 fl = (pool_store s fl)(p \<mapsto> d')" "pin_counts s2 = pin_counts s" "frames s2 = frames s"
    by (rule bpm.modify_page [OF i(1) d(1) room hit(2)]) blast
  have "heap_insert_loop junk t p s = Some (Inr (Some \<lparr>rid_page_id = p, rid_slot_num = k\<rparr>), s2)"
    using heap_insert_loop.simps [of junk t p s] s(1-3) hit(1) d(2) by (simp add: on_page_def)
  then show ?thesis using s i(2) by (simp add: idle_def)
qed

lemma heap_insert_last:
  assumes id: "idle s fl" and fr: "2 \<le> frames s" and un: "unused_id (pool_store s fl)"
    and ins: "\<And>q. TablePage_InsertTuple t (TablePage_Init q p zero_page) = (Inr (R q), D q)"
      "\<And>q. length (D q) = PAGE_SIZE" and d: "pool_store s fl p = Some d" "p \<noteq> INVALID_PAGE_ID"
    and full: "TablePage_InsertTuple t d = (Inr None, d)" "next_page_id d = INVALID_PAGE_ID"
  shows "\<exists>q s'. heap_insert_loop junk t p s = Some (Inr (Some \<lparr>rid_page_id = q,
       rid_slot_num = (case R q of Some i \<Rightarrow> i | None \<Rightarrow> junk)\<rparr>), s') \<and>
     idle s' (tl fl) \<and> frames s' = frames s \<and> q \<notin> dom (pool_store s fl) \<and> q \<noteq> INVALID_PAGE_ID \<and>
     pool_store s' (tl fl) = (pool_store s fl)(p \<mapsto> SetNextPageId q d, q \<mapsto> D q)"
proof -
  note i = idleD [OF id]
  have room: "card {q. 0 < pin_counts s q} < frames s" using i(3) fr by simp
  have dom: "p \<in> dom (pool_store s fl)" using d(1) by blast
  obtain f s1 where s: "FetchPage p s = (Inr (Some f), s1)" "bp_inv s1 fl" "pool_store s1 fl = pool_store s fl"
    "pin_counts s1 = (\<lambda>_. 0)(p := 1)" "held s1 p f" "frames s1 = frames s"
    using bpm.fetch_some [OF i(1) dom room] i(2) by auto
  have pd: "page_data s1 f = d" using bpm.get_held [OF s(2,5)] s(3) d(1) by simp
  then have "on_page f (TablePage_InsertTuple t) s1 = (Inr None, s1)"
    using full(1) put_same [of f s1] by (simp add: on_page_def)
  then have "heap_insert_loop junk t p s = Some (heap_append junk t p f s1)"
    using heap_insert_loop.simps [of junk t p s] s(1) pd d(2) full(2) by simp
  then show ?thesis
    using heap_append_ok [OF s(2,4,5) _ _ _ ins, of d junk] s(3,6) fr un d(1) by simp
qed

lemma heap_insert_next:
  assumes id: "idle s fl" and fr: "2 \<le> frames s" and d: "pool_store s fl p = Some d" "p \<noteq> INVALID_PAGE_ID"
    and full: "TablePage_InsertTuple t d = (Inr None, d)" "next_page_id d = q" "q \<noteq> INVALID_PAGE_ID"
  shows "\<exists>s'. heap_insert_loop junk t p s = heap_insert_loop junk t q s' \<and> idle s' fl \<and>
     frames s' = frames s \<and> pool_store s' fl = pool_store s fl"
proof -
  note i = idleD [OF id]
  have room: "card {q. 0 < pin_counts s q} < frames s" using i(3) fr by simp
  obtain f s1 s2 where s: "FetchPage p s = (Inr (Some f), s1)" "page_data s1 f = d"
    "UnpinPage p False s1 = (Inr True, s2)" "bp_inv s2 fl"
    "pool_store s2 fl = pool_store s fl" "pin_counts s2 = pin_counts s" "frames s2 = frames s"
    by (rule bpm.read_page [OF i(1) d(1) room i(4)]) blast
  have "on_page f (TablePage_InsertTuple t) s1 = (Inr None, s1)"
    using full(1) s(2) put_same [of f s1] by (simp add: on_page_def)
  then have "heap_insert_loop junk t p s = heap_insert_loop junk t q s2"
    using heap_insert_loop.simps [of junk t p s] s d(2) full(2,3) by simp
  then show ?thesis using s i(2) by (auto simp: idle_def)
qed

text \<open>The loop ends on every chain and inserts the tuple.\<close>

lemma heap_insert_ok:
  assumes "linked sch (pool_store s fl) M ps" "idle s fl" "2 \<le> frames s" "unused_id (pool_store s fl)"
    "good_tuple sch t" "fits_page t"
  shows "\<exists>rid s' fl'. heap_insert_loop junk t (hd ps) s = Some (Inr (Some rid), s') \<and> idle s' fl' \<and>
     frames s' = frames s \<and>
     (inserted_in sch (pool_store s fl) M ps t rid (pool_store s' fl') \<or>
      inserted_new sch (pool_store s fl) ps t rid (pool_store s' fl'))"
  using assms
proof (induction ps arbitrary: s)
  case Nil
  then show ?case by simp
next
  case (Cons p ps)
  let ?S = "pool_store s fl"
  obtain d where d: "?S p = Some d" "holds_tuples sch d (M p)" "p \<noteq> INVALID_PAGE_ID"
    "next_page_id d = (case ps of [] \<Rightarrow> INVALID_PAGE_ID | q # _ \<Rightarrow> q)"
    using Cons.prems(1) by (cases ps) auto
  consider (hit) k d' where "TablePage_InsertTuple t d = (Inr (Some k), d')" "M p (unat k) = None"
      "holds_tuples sch d' ((M p)(unat k \<mapsto> t))" "same_header d d'"
    | (last) "TablePage_InsertTuple t d = (Inr None, d)" "ps = []"
    | (further) q qs where "TablePage_InsertTuple t d = (Inr None, d)" "ps = q # qs"
    using tp.ins_cases [OF d(2) Cons.prems(5)] by (cases ps) blast+
  then show ?case
  proof cases
    case hit
    from heap_insert_here [OF Cons.prems(2,3) d(1,3) hit(1) holds_tuples_length [OF hit(3)]]
    obtain s' where s': "heap_insert_loop junk t p s = Some (Inr (Some \<lparr>rid_page_id = p, rid_slot_num = k\<rparr>), s')"
      "idle s' fl" "frames s' = frames s" "pool_store s' fl = ?S(p \<mapsto> d')" by blast
    have "inserted_in sch ?S M (p # ps) t \<lparr>rid_page_id = p, rid_slot_num = k\<rparr> (pool_store s' fl)"
      using d(1) hit s'(4) by (auto simp: inserted_in_def same_header_def)
    with s' show ?thesis by auto
  next
    case last
    have nx: "next_page_id d = INVALID_PAGE_ID" using d(4) last by simp
    obtain I D where ID: "\<And>q. TablePage_InsertTuple t (TablePage_Init q p zero_page) = (Inr (Some (I q)), D q)"
      "\<And>q. holds_tuples sch (D q) [unat (I q) \<mapsto> t]" "\<And>q. next_page_id (D q) = INVALID_PAGE_ID"
      by (rule insert_into_new_pages [OF Cons.prems(5,6), of p]) blast
    from heap_insert_last [OF Cons.prems(2-4) ID(1) holds_tuples_length [OF ID(2)] d(1,3) last(1) nx,
        where junk = junk, unfolded option.case]
    obtain q s' where "heap_insert_loop junk t p s = Some (Inr (Some \<lparr>rid_page_id = q, rid_slot_num = I q\<rparr>), s')"
      "idle s' (tl fl)" "frames s' = frames s" "q \<notin> dom ?S" "q \<noteq> INVALID_PAGE_ID"
      "pool_store s' (tl fl) = ?S(p \<mapsto> SetNextPageId q d, q \<mapsto> D q)" by blast
    moreover from this have "inserted_new sch ?S (p # ps) t \<lparr>rid_page_id = q, rid_slot_num = I q\<rparr> (pool_store s' (tl fl))"
      unfolding inserted_new_def using ID(2,3) d(1) last(2) by force
    ultimately show ?thesis by auto
  next
    case further
    have q: "next_page_id d = q" "q \<noteq> INVALID_PAGE_ID"
      using d(4) further linked_page [OF Cons.prems(1), of q] by simp_all
    from heap_insert_next [OF Cons.prems(2,3) d(1,3) further(1) q] obtain s2 where
      s2: "heap_insert_loop junk t p s = heap_insert_loop junk t q s2" "idle s2 fl" "frames s2 = frames s"
        "pool_store s2 fl = ?S" by blast
    have "linked sch (pool_store s2 fl) M ps" using Cons.prems(1) further(2) s2(4) by simp
    from Cons.IH [OF this s2(2)] Cons.prems(3-6) s2 further(2) obtain rid s' fl' where
      "heap_insert_loop junk t p s = Some (Inr (Some rid), s')" "idle s' fl'" "frames s' = frames s"
      "inserted_in sch ?S M ps t rid (pool_store s' fl') \<or> inserted_new sch ?S ps t rid (pool_store s' fl')"
      by auto
    then show ?thesis
      using inserted_later [where p = p] further(2) by (metis list.distinct(1) list.sel(1))
  qed
qed

text \<open>The same for a table: what the operation does to the map, and which pages it touches.\<close>

lemma heap_insert_table:
  assumes "heap_rep sch (pool_store s fl) ps H" "idle s fl" "2 \<le> frames s" "unused_id (pool_store s fl)"
    "good_tuple sch t" "fits_page t"
  shows "\<exists>rid s' fl' ps'. TableHeap_InsertTuple junk (hd ps) t s = Some (Inr (Some rid), s') \<and> H rid = None \<and>
     heap_rep sch (pool_store s' fl') ps' (H(rid \<mapsto> t)) \<and> hd ps' = hd ps \<and> idle s' fl' \<and> frames s' = frames s \<and>
     (\<forall>q \<in> dom (pool_store s fl) - set ps. pool_store s' fl' q = pool_store s fl q) \<and>
     set ps' \<subseteq> insert (rid_page_id rid) (set ps) \<and> rid_page_id rid \<in> set ps' \<and>
     (rid_page_id rid \<in> set ps \<or> rid_page_id rid \<notin> dom (pool_store s fl)) \<and>
     dom (pool_store s' fl') \<subseteq> insert (rid_page_id rid) (dom (pool_store s fl))"
proof -
  obtain M where M: "distinct ps" "linked sch (pool_store s fl) M ps" "H = heap_map ps M"
    using assms(1) by (auto simp: heap_rep_def)
  have ps: "ps \<noteq> []" using M(2) by (cases ps) auto
  obtain rid s' fl' where s': "heap_insert_loop junk t (hd ps) s = Some (Inr (Some rid), s')" "idle s' fl'"
     "frames s' = frames s"
     "inserted_in sch (pool_store s fl) M ps t rid (pool_store s' fl') \<or>
      inserted_new sch (pool_store s fl) ps t rid (pool_store s' fl')"
    using heap_insert_ok [OF M(2) assms(2-)] by blast
  have "last ps \<in> set ps" using ps by simp
  then have fr: "\<forall>q \<in> dom (pool_store s fl) - set ps. pool_store s' fl' q = pool_store s fl q"
    using s'(4) unfolding inserted_in_def inserted_new_def by (auto split: if_splits)
  have old: "rid_page_id rid \<in> set ps \<or> rid_page_id rid \<notin> dom (pool_store s fl)"
    "dom (pool_store s' fl') \<subseteq> insert (rid_page_id rid) (dom (pool_store s fl))"
    using s'(4) unfolding inserted_in_def inserted_new_def by (auto split: if_splits)
  obtain ps' where ps': "ps' = ps \<or> ps' = ps @ [rid_page_id rid]"
     "heap_rep sch (pool_store s' fl') ps' (H(rid \<mapsto> t))" "H rid = None"
    using heap_rep_inserted [OF M(1,2) s'(4)] M(3) by blast
  have "rid_page_id rid \<in> set ps'"
  proof -
    obtain M' where "H(rid \<mapsto> t) = heap_map ps' M'" using ps'(2) by (auto simp: heap_rep_def)
    from fun_cong [OF this, of rid] show ?thesis by (simp add: heap_map_def split: if_splits)
  qed
  moreover have "hd ps' = hd ps" "set ps' \<subseteq> insert (rid_page_id rid) (set ps)" using ps'(1) ps by auto
  ultimately show ?thesis
    unfolding TableHeap_InsertTuple_def using s'(1-3) ps'(2,3) fr old by blast
qed

text \<open>Only the pages of a table matter.\<close>

lemma heap_rep_cong:
  assumes "heap_rep sch S ps H" "\<And>p. p \<in> set ps \<Longrightarrow> S' p = S p"
  shows "heap_rep sch S' ps H"
  using assms linked_cong [of sch S _ ps S'] unfolding heap_rep_def by metis

lemma heap_rep_dom: "heap_rep sch S ps H \<Longrightarrow> set ps \<subseteq> dom S"
  using linked_page unfolding heap_rep_def by (metis domI subsetI)

section \<open>Tuples that fit into no page\<close>

lemma oversized_never_fits:
  assumes inv: "tp_inv d" and t: "\<not> fits_page t"
  shows "\<not> fits d (tuple_bytes t)"
proof -
  note b = tp_inv_bounds [OF inv]
  have "0 < unat (num_slots d)" if "free_slot d" using that by (auto simp: free_slot_def)
  then show ?thesis
    using t b(2,3) by (auto simp: fits_def fits_page_def free_bytes_def PAGE_SIZE_def)
qed

lemma oversized_rejected:
  assumes "tp_inv d" "storable t" "\<not> fits_page t"
  shows "TablePage_InsertTuple t d = (Inr None, d)"
  using insert_tuple [OF assms(1,2)] oversized_never_fits [OF assms(1,3)] by simp

lemma heap_insert_oversized:
  assumes "linked sch (pool_store s fl) M ps" "idle s fl" "2 \<le> frames s" "unused_id (pool_store s fl)"
    "storable t" "\<not> fits_page t"
  shows "\<exists>q s' d. heap_insert_loop junk t (hd ps) s = Some (Inr (Some \<lparr>rid_page_id = q, rid_slot_num = junk\<rparr>), s') \<and>
     idle s' (tl fl) \<and> frames s' = frames s \<and> q \<notin> dom (pool_store s fl) \<and> q \<noteq> INVALID_PAGE_ID \<and>
     pool_store s fl (last ps) = Some d \<and>
     pool_store s' (tl fl) = (pool_store s fl)(last ps \<mapsto> SetNextPageId q d, q \<mapsto> TablePage_Init q (last ps) zero_page)"
  using assms
proof (induction ps arbitrary: s)
  case Nil
  then show ?case by simp
next
  case (Cons p ps)
  let ?S = "pool_store s fl"
  obtain d where d: "?S p = Some d" "holds_tuples sch d (M p)" "p \<noteq> INVALID_PAGE_ID"
    "next_page_id d = (case ps of [] \<Rightarrow> INVALID_PAGE_ID | q # _ \<Rightarrow> q)"
    using Cons.prems(1) by (cases ps) auto
  have rej: "TablePage_InsertTuple t d = (Inr None, d)"
    using d(2) by (intro oversized_rejected Cons.prems(5,6)) (simp add: holds_tuples_def)
  show ?case
  proof (cases ps)
    case Nil
    have nx: "next_page_id d = INVALID_PAGE_ID" using d(4) Nil by simp
    have ini: "TablePage_InsertTuple t (TablePage_Init q p zero_page) = (Inr None, TablePage_Init q p zero_page)"
      "length (TablePage_Init q p zero_page) = PAGE_SIZE" for q
      using init_page(1) [OF length_zero_page, of q p] oversized_rejected [OF _ Cons.prems(5,6)]
      by (auto simp: tp_inv_def)
    have "last (p # ps) = p" using Nil by simp
    with heap_insert_last [OF Cons.prems(2-4) ini d(1,3) rej nx, where junk = junk, unfolded option.case] d(1)
    show ?thesis unfolding list.sel by metis
  next
    case (Cons q qs)
    have q: "next_page_id d = q" "q \<noteq> INVALID_PAGE_ID"
      using d(4) Cons linked_page [OF Cons.prems(1), of q] by simp_all
    from heap_insert_next [OF Cons.prems(2,3) d(1,3) rej q] obtain s2 where
      s2: "heap_insert_loop junk t p s = heap_insert_loop junk t q s2" "idle s2 fl" "frames s2 = frames s"
        "pool_store s2 fl = ?S" by blast
    have "linked sch (pool_store s2 fl) M ps" using Cons.prems(1) Cons s2(4) by simp
    from Cons.IH [OF this s2(2)] Cons.prems(3-6) s2 Cons show ?thesis by simp
  qed
qed

section \<open>Creating a table\<close>

lemma heap_new:
  assumes id: "idle s fl" and fr: "0 < frames s" and un: "unused_id (pool_store s fl)"
  shows "\<exists>p s'. TableHeap_new s = (Inr p, s') \<and> p \<notin> dom (pool_store s fl) \<and> p \<noteq> INVALID_PAGE_ID \<and>
     pool_store s' (tl fl) = (pool_store s fl)(p \<mapsto> TablePage_Init p INVALID_PAGE_ID zero_page) \<and>
     idle s' (tl fl) \<and> frames s' = frames s"
proof -
  note i = idleD [OF id]
  have room: "card {q. 0 < pin_counts s q} < frames s" using i(3) fr by simp
  obtain p f s1 where s1: "NewPage s = (Inr (p, Some f), s1)" "bp_inv s1 (tl fl)" "p \<notin> dom (pool_store s fl)"
      "p \<noteq> INVALID_PAGE_ID" "pool_store s1 (tl fl) = (pool_store s fl)(p \<mapsto> zero_page)"
      "pin_counts s1 = (pin_counts s)(p := 1)" "held s1 p f" "frames s1 = frames s"
    using bpm.new_some [OF i(1) un room] by blast
  let ?D = "TablePage_Init p INVALID_PAGE_ID zero_page"
  have len: "length ?D = PAGE_SIZE" using init_page(1) [OF length_zero_page] by (simp add: tp_inv_def)
  have pd: "page_data s1 f = zero_page" using bpm.get_held [OF s1(2,7)] s1(5) by simp
  note t1 = bpm.put_held [OF s1(2,7) len]
  have "held (put_data f ?D s1) p f" using t1 s1(7) by blast
  from bpm.unpin_some [OF conjunct1 [OF t1] this disjI1 [OF TrueI]] obtain s2 where
    s2: "UnpinPage p True (put_data f ?D s1) = (Inr True, s2)" "bp_inv s2 (tl fl)"
      "pool_store s2 (tl fl) = pool_store (put_data f ?D s1) (tl fl)"
      "pin_counts s2 = (pin_counts (put_data f ?D s1))(p := pin_counts (put_data f ?D s1) p - 1)"
      "frames s2 = frames (put_data f ?D s1)" by blast
  have "TableHeap_new s = (Inr p, s2)"
    using s1(1) s2(1) pd by (simp add: TableHeap_new_def modify_def bind_def)
  moreover have "pin_counts s2 = (\<lambda>_. 0)" using s2(4) t1 s1(6) i(2) by (auto simp: fun_eq_iff)
  ultimately show ?thesis using s1 s2 t1 by (auto simp: idle_def)
qed

lemma heap_rep_new:
  assumes "p \<noteq> INVALID_PAGE_ID"
  shows "heap_rep sch (S(p \<mapsto> TablePage_Init p INVALID_PAGE_ID zero_page)) [p] Map.empty"
proof -
  note i = init_page [OF length_zero_page, of p INVALID_PAGE_ID]
  have "linked sch (S(p \<mapsto> TablePage_Init p INVALID_PAGE_ID zero_page)) (\<lambda>_. Map.empty) [p]"
    using i(1-3) assms by (simp add: holds_tuples_def)
  then show ?thesis unfolding heap_rep_def by (auto simp: heap_map_def fun_eq_iff intro!: exI [of _ "\<lambda>_. Map.empty"])
qed

text \<open>An empty table in a pool of two frames, for the witnesses.\<close>

lemma sample_idle:
  assumes "disk_rep d fl" "num_pages d \<noteq> INVALID_PAGE_ID"
  shows "idle (sample_pool n d) fl" "frames (sample_pool n d) = n" "unused_id (pool_store (sample_pool n d) fl)"
proof -
  note inv = sample_pool_inv [OF assms(1), of n] and pr = sample_pool_reach [OF assms(1), of n]
  show "idle (sample_pool n d) fl" using inv by (simp add: idle_def pin_counts_def pr(4) fun_eq_iff)
  show "frames (sample_pool n d) = n" using no_leak_card [of "sample_pool n d"] inv pr(2) by (simp add: frames_def)
  show "unused_id (pool_store (sample_pool n d) fl)" using unused_id_grow [of "sample_pool n d" fl] inv assms(2) pr(3) by simp
qed

lemma sample_heap:
  "\<exists>s fl p. heap_rep sample_schema (pool_store s fl) [p] Map.empty \<and> idle s fl \<and> frames s = 2 \<and>
     unused_id (pool_store s fl)"
proof -
  obtain d where d: "disk_rep d []" "num_pages d = 2" using one_page_store by blast
  have ni: "num_pages d \<noteq> INVALID_PAGE_ID" using d(2) by (simp add: INVALID_PAGE_ID_def)
  note i = sample_idle [OF d(1) ni, of 2]
  have "0 < frames (sample_pool 2 d)" using i(2) by simp
  from heap_new [OF i(1) this i(3)] obtain p s where s: "p \<noteq> INVALID_PAGE_ID" "idle s []" "frames s = 2"
    "pool_store s [] = (pool_store (sample_pool 2 d) [])(p \<mapsto> TablePage_Init p INVALID_PAGE_ID zero_page)"
    using i(2) by auto
  have "dom (pool_store (sample_pool 2 d) []) \<subseteq> {1}"
  proof
    fix q assume "q \<in> dom (pool_store (sample_pool 2 d) [])"
    then have "0 < q" "q < 2"
      using d by (auto simp: dom_pool_store sample_pool_reach [OF d(1)] live_pages_def word_neq_0_conv)
    then have "unat q = 1" by (simp add: word_less_nat_alt)
    then show "q \<in> {1}" by (simp add: word_unat_eq_iff)
  qed
  then have "dom (pool_store s []) \<subseteq> {1, p}" using s(4) by auto
  moreover have "\<not> {2, 3} \<subseteq> {1, p}" by auto
  ultimately have "2 \<notin> dom (pool_store s []) \<or> 3 \<notin> dom (pool_store s [])" by blast
  moreover have "(2 :: page_id) \<noteq> INVALID_PAGE_ID" "(3 :: page_id) \<noteq> INVALID_PAGE_ID"
    "(2 :: page_id) \<noteq> 0" "(3 :: page_id) \<noteq> 0" by (simp_all add: INVALID_PAGE_ID_def)
  ultimately have "unused_id (pool_store s [])" unfolding unused_id_def by blast
  then show ?thesis using heap_rep_new [OF s(1)] s by metis
qed

section \<open>Properties\<close>



text \<open>
  C9. Lookup in a table: for a record id on a page of the table, \<open>TableHeap::GetTuple\<close> returns
  exactly the tuple stored under it, or nothing, without changing any page or leaving a pin.
\<close>

theorem heap_get_refines:
  assumes "heap_rep sch (pool_store s fl) ps H" "idle s fl" "0 < frames s" "rid_page_id rid \<in> set ps"
  shows "\<exists>s'. TableHeap_GetTuple rid sch s = (Inr (H rid), s') \<and> idle s' fl \<and>
     pool_store s' fl = pool_store s fl \<and> frames s' = frames s"
proof -
  obtain d m where d: "pool_store s fl (rid_page_id rid) = Some d" "holds_tuples sch d m"
    "H rid = m (unat (rid_slot_num rid))" by (rule heap_rep_rid [OF assms(1,4)])
  from heap_get [OF assms(2,3) d(1,2)] show ?thesis unfolding d(3) .
qed

lemma sample_table:
  "\<exists>s fl ps rid. heap_rep sample_schema (pool_store s fl) ps [rid \<mapsto> sample_tuple 7 [65]] \<and> idle s fl \<and> frames s = 2 \<and>
     rid_page_id rid \<in> set ps"
proof -
  obtain s fl p where s: "heap_rep sample_schema (pool_store s fl) [p] Map.empty" "idle s fl" "frames s = 2"
    "unused_id (pool_store s fl)" using sample_heap by blast
  have t: "good_tuple sample_schema (sample_tuple 7 [65])" "fits_page (sample_tuple 7 [65])"
    by (auto intro: sample_good simp: fits_page_def sample_tuple_bytes PAGE_SIZE_def)
  have "2 \<le> frames s" using s(3) by simp
  from heap_insert_table [OF s(1,2) this s(4) t, of 0] s(3) show ?thesis by metis
qed

theorem heap_get_refines_witness:
  "\<exists>s fl ps rid s'. heap_rep sample_schema (pool_store s fl) ps [rid \<mapsto> sample_tuple 7 [65]] \<and> idle s fl \<and>
     TableHeap_GetTuple rid sample_schema s = (Inr (Some (sample_tuple 7 [65])), s')"
proof -
  obtain s fl ps rid where s: "heap_rep sample_schema (pool_store s fl) ps [rid \<mapsto> sample_tuple 7 [65]]" "idle s fl" "frames s = 2"
    "rid_page_id rid \<in> set ps" using sample_table by blast
  have "0 < frames s" using s(3) by simp
  from heap_get_refines [OF s(1,2) this s(4)] obtain s' where
    "TableHeap_GetTuple rid sample_schema s = (Inr ([rid \<mapsto> sample_tuple 7 [65]] rid), s')" by blast
  then show ?thesis
    by (intro exI [of _ s] exI [of _ fl] exI [of _ ps] exI [of _ rid] exI [of _ s']) (use s(1,2) in simp)
qed

text \<open>
  C10. Update and delete in a table. On a record id of a page of the table both operations
  terminate and leave the other pages of the pool as they were. An update succeeds exactly when a
  tuple is stored under the id and the new one is no longer than it, or fits into the free space of
  its page; then the new tuple is stored under the id. A delete succeeds exactly when a tuple is
  stored, and removes it. A failed operation leaves the table as it was.
\<close>

theorem heap_update_delete_refines:
  assumes "heap_rep sch (pool_store s fl) ps H" "idle s fl" "0 < frames s" "rid_page_id rid \<in> set ps"
    "good_tuple sch t"
  shows "(\<exists>r s'. TableHeap_UpdateTuple rid t s = (Inr r, s') \<and> idle s' fl \<and>
       (r \<longleftrightarrow> (\<exists>u d. H rid = Some u \<and> pool_store s fl (rid_page_id rid) = Some d \<and> update_fits d (tuple_bytes u) (tuple_bytes t))) \<and>
       heap_rep sch (pool_store s' fl) ps (if r then H(rid \<mapsto> t) else H) \<and>
       (\<forall>q. q \<noteq> rid_page_id rid \<longrightarrow> pool_store s' fl q = pool_store s fl q)) \<and>
     (\<exists>s'. TableHeap_DeleteTuple rid s = (Inr (H rid \<noteq> None), s') \<and> idle s' fl \<and>
       heap_rep sch (pool_store s' fl) ps (H(rid := None)) \<and>
       (\<forall>q. q \<noteq> rid_page_id rid \<longrightarrow> pool_store s' fl q = pool_store s fl q))"
proof
  obtain r s' d' where u: "TableHeap_UpdateTuple rid t s = (Inr r, s')" "idle s' fl"
    "r \<longleftrightarrow> (\<exists>u d. H rid = Some u \<and> pool_store s fl (rid_page_id rid) = Some d \<and> update_fits d (tuple_bytes u) (tuple_bytes t))"
    "heap_rep sch (pool_store s' fl) ps (if r then H(rid \<mapsto> t) else H)"
    "pool_store s' fl = (pool_store s fl)(rid_page_id rid \<mapsto> d')" using heap_update [OF assms] by (elim exE conjE)
  then have "\<forall>q. q \<noteq> rid_page_id rid \<longrightarrow> pool_store s' fl q = pool_store s fl q" by simp
  with u(1-4) show "\<exists>r s'. TableHeap_UpdateTuple rid t s = (Inr r, s') \<and> idle s' fl \<and>
       (r \<longleftrightarrow> (\<exists>u d. H rid = Some u \<and> pool_store s fl (rid_page_id rid) = Some d \<and> update_fits d (tuple_bytes u) (tuple_bytes t))) \<and>
       heap_rep sch (pool_store s' fl) ps (if r then H(rid \<mapsto> t) else H) \<and>
       (\<forall>q. q \<noteq> rid_page_id rid \<longrightarrow> pool_store s' fl q = pool_store s fl q)"
    by (intro exI [of _ r] exI [of _ s'] conjI)
next
  obtain s' d' where "TableHeap_DeleteTuple rid s = (Inr (H rid \<noteq> None), s')" "idle s' fl"
    "heap_rep sch (pool_store s' fl) ps (H(rid := None))" "pool_store s' fl = (pool_store s fl)(rid_page_id rid \<mapsto> d')"
    using heap_delete_frame [OF assms(1-4)] by (elim exE conjE)
  then show "\<exists>s'. TableHeap_DeleteTuple rid s = (Inr (H rid \<noteq> None), s') \<and> idle s' fl \<and>
       heap_rep sch (pool_store s' fl) ps (H(rid := None)) \<and>
       (\<forall>q. q \<noteq> rid_page_id rid \<longrightarrow> pool_store s' fl q = pool_store s fl q)" by (intro exI [of _ s'] conjI) simp_all
qed

theorem heap_update_delete_refines_witness:
  "\<exists>s fl ps rid s1 s2. heap_rep sample_schema (pool_store s fl) ps [rid \<mapsto> sample_tuple 7 [65]] \<and> idle s fl \<and>
     TableHeap_UpdateTuple rid (sample_tuple 8 []) s = (Inr True, s1) \<and>
     heap_rep sample_schema (pool_store s1 fl) ps [rid \<mapsto> sample_tuple 8 []] \<and>
     TableHeap_DeleteTuple rid s = (Inr True, s2) \<and> heap_rep sample_schema (pool_store s2 fl) ps Map.empty"
proof -
  obtain s fl ps rid where s: "heap_rep sample_schema (pool_store s fl) ps [rid \<mapsto> sample_tuple 7 [65]]" "idle s fl" "frames s = 2"
    "rid_page_id rid \<in> set ps" using sample_table by blast
  obtain d where d: "pool_store s fl (rid_page_id rid) = Some d" by (rule heap_rep_rid [OF s(1,4)]) blast
  have f: "0 < frames s" using s(3) by simp
  have g: "good_tuple sample_schema (sample_tuple 8 [])" by (rule sample_good) simp
  have fits: "update_fits d (tuple_bytes (sample_tuple 7 [65])) (tuple_bytes (sample_tuple 8 []))"
    by (simp add: update_fits_def sample_tuple_bytes)
  from heap_update_delete_refines [OF s(1,2) f s(4) g] obtain r s1 s2 where
    u: "TableHeap_UpdateTuple rid (sample_tuple 8 []) s = (Inr r, s1)"
      "r \<longleftrightarrow> (\<exists>u d. [rid \<mapsto> sample_tuple 7 [65]] rid = Some u \<and> pool_store s fl (rid_page_id rid) = Some d \<and>
         update_fits d (tuple_bytes u) (tuple_bytes (sample_tuple 8 [])))"
      "heap_rep sample_schema (pool_store s1 fl) ps (if r then [rid \<mapsto> sample_tuple 7 [65]](rid \<mapsto> sample_tuple 8 [])
         else [rid \<mapsto> sample_tuple 7 [65]])" and
    e: "TableHeap_DeleteTuple rid s = (Inr ([rid \<mapsto> sample_tuple 7 [65]] rid \<noteq> None), s2)"
      "heap_rep sample_schema (pool_store s2 fl) ps ([rid \<mapsto> sample_tuple 7 [65]](rid := None))" by (elim exE conjE)
  have r: "r" unfolding u(2) using d fits by simp
  show ?thesis
    by (intro exI [of _ s] exI [of _ fl] exI [of _ ps] exI [of _ rid] exI [of _ s1] exI [of _ s2])
      (use s(1,2) u(1,3) e r in simp)
qed

text \<open>
  C34. A tuple that fits into no page. \<open>TableHeap::InsertTuple\<close> ignores that the insertion into
  the page it appends fails: it reports success with an uninitialised slot number, stores
  nothing, and every further attempt adds one more empty page to the chain.
\<close>

theorem heap_oversized_insert_reports_success:
  assumes "heap_rep sch (pool_store s fl) ps H" "idle s fl" "2 \<le> frames s" "unused_id (pool_store s fl)"
    "storable t" "\<not> fits_page t"
  shows "\<exists>q s'. TableHeap_InsertTuple junk (hd ps) t s =
       Some (Inr (Some \<lparr>rid_page_id = q, rid_slot_num = junk\<rparr>), s') \<and> idle s' (tl fl) \<and>
     heap_rep sch (pool_store s' (tl fl)) (ps @ [q]) H"
proof -
  obtain M where M: "distinct ps" "linked sch (pool_store s fl) M ps" "H = heap_map ps M"
    using assms(1) by (auto simp: heap_rep_def)
  obtain q s' d where s': "heap_insert_loop junk t (hd ps) s =
       Some (Inr (Some \<lparr>rid_page_id = q, rid_slot_num = junk\<rparr>), s')" "idle s' (tl fl)"
     "q \<notin> dom (pool_store s fl)" "q \<noteq> INVALID_PAGE_ID" "pool_store s fl (last ps) = Some d"
     "pool_store s' (tl fl) = (pool_store s fl)(last ps \<mapsto> SetNextPageId q d, q \<mapsto> TablePage_Init q (last ps) zero_page)"
    using heap_insert_oversized [OF M(2) assms(2-)] by blast
  have new: "q \<notin> set ps" using linked_page [OF M(2)] s'(3) by auto
  have "ps \<noteq> []" using M(2) by (cases ps) auto
  then have "holds_tuples sch d (M (last ps))" using linked_page [OF M(2), of "last ps"] s'(5) by auto
  then have h: "holds_tuples sch (SetNextPageId q d) (M (last ps))" "next_page_id (SetNextPageId q d) = q"
    using set_next_page [of d q] link_write_fields(7) [of d q] by (auto simp: holds_tuples_def tp_inv_def)
  note i = init_page [OF length_zero_page, of q "last ps"]
  have e: "holds_tuples sch (TablePage_Init q (last ps) zero_page) Map.empty" using i(1,2) by (simp add: holds_tuples_def)
  have "linked sch (pool_store s' (tl fl)) (M(q := Map.empty)) (ps @ [q])"
    using linked_append [OF M(2,1) s'(5) new s'(4) h e i(3)] s'(6) by simp
  moreover have "heap_map (ps @ [q]) (M(q := Map.empty)) = H"
    using new M(3) by (auto simp: heap_map_def fun_eq_iff)
  ultimately have "heap_rep sch (pool_store s' (tl fl)) (ps @ [q]) H"
    using M(1) new unfolding heap_rep_def by (auto intro!: exI [of _ "M(q := Map.empty)"])
  then show ?thesis using s'(1,2) unfolding TableHeap_InsertTuple_def by blast
qed

theorem heap_oversized_insert_reports_success_witness:
  "\<exists>s fl p q s'. idle s fl \<and> TableHeap_InsertTuple 99 p (sample_tuple 7 (replicate 5000 65)) s =
     Some (Inr (Some \<lparr>rid_page_id = q, rid_slot_num = 99\<rparr>), s')"
proof -
  obtain s fl p where s: "heap_rep sample_schema (pool_store s fl) [p] Map.empty" "idle s fl" "frames s = 2"
    "unused_id (pool_store s fl)" using sample_heap by blast
  let ?t = "sample_tuple 7 (replicate 5000 65)"
  have v: "\<forall>v \<in> set (tuple_values ?t). value_ok v" by (simp add: sample_tuple_def)
  have t: "storable ?t" "\<not> fits_page ?t"
    using v by (simp_all add: storable_def encodable_def fits_page_def sample_tuple_bytes PAGE_SIZE_def)
  have "2 \<le> frames s" using s(3) by simp
  from heap_oversized_insert_reports_success [OF s(1,2) this s(4) t, of 99, unfolded list.sel] s(2)
  show ?thesis by blast
qed

subsection \<open>Catalog entries\<close>

datatype catalog_op = Create string Schema page_id page_id | SetRoot string page_id

fun catalog_step :: "catalog_op \<Rightarrow> TableCatalog \<Rightarrow> TableCatalog" where
  "catalog_step (Create n sch f r) c = CreateTable n sch f r c"
| "catalog_step (SetRoot n r) c = UpdateIndexRoot n r c"

fun roots_set :: "string \<Rightarrow> page_id \<Rightarrow> catalog_op list \<Rightarrow> page_id" where
  "roots_set name root [] = root"
| "roots_set name root (SetRoot n r # ops) = roots_set name (if n = name then r else root) ops"
| "roots_set name root (_ # ops) = roots_set name root ops"

text \<open>
  After a table was created, index root updates of any tables and creations of
  other tables leave its name, schema and first page as they were; its index root is the one set
  last for it.
\<close>

lemma catalog_entry_stable:
  assumes "\<forall>op \<in> set ops. \<forall>sch f r. op \<noteq> Create name sch f r"
  shows "GetTableMetadata name (fold catalog_step ops (CreateTable name sch first root c)) =
     Some \<lparr>tm_name = name, tm_schema = sch, tm_first_page_id = first, tm_index_root_id = roots_set name root ops\<rparr>"
proof -
  have "GetTableMetadata name (fold catalog_step ops c) =
      Some \<lparr>tm_name = name, tm_schema = sch, tm_first_page_id = first, tm_index_root_id = roots_set name root ops\<rparr>"
    if "c name = Some \<lparr>tm_name = name, tm_schema = sch, tm_first_page_id = first, tm_index_root_id = root\<rparr>" for c
    using assms that
  proof (induction ops arbitrary: c root)
    case Nil
    then show ?case by (simp add: GetTableMetadata_def)
  next
    case (Cons op ops)
    then show ?case
      by (cases op) (auto simp: CreateTable_def UpdateIndexRoot_def split: option.splits)
  qed
  then show ?thesis by (simp add: CreateTable_def)
qed

end
