(* ===== verification/BPlus_Pages.thy ===== *)
theory BPlus_Pages
  imports Aether_Prelude
begin

text \<open>
  The nodes of the index: \<^verbatim>\<open>b_plus_tree_page.hpp\<close>, \<^verbatim>\<open>b_plus_tree_leaf_page.hpp\<close> and
  \<^verbatim>\<open>b_plus_tree_internal_page.hpp\<close>. A node is an overlay on the 4096 bytes of a page: five 32-bit
  header fields, in a leaf the id of the next leaf, then an array of keys and an array of values
  (254 entries in a leaf, 339 in an inner node). \<^verbatim>\<open>int\<close> values are \<open>int\<close>, stored as 32-bit
  words; keys are 64-bit words compared as signed numbers. \<open>None\<close> is an access of an array outside
  its bounds. The locale \<open>entry_array\<close> is the interface of the two arrays of a node; the loops that
  shift and copy entries are proved once in it. \<open>leaf_node\<close> and \<open>inner_node\<close> relate the bytes of a
  page to the list of its entries.
\<close>

section \<open>BPlusTreePage\<close>

datatype BPlusTreePageType = LEAF_PAGE | INTERNAL_PAGE

fun page_type_code :: "BPlusTreePageType \<Rightarrow> 32 word" where
  "page_type_code LEAF_PAGE = 0"
| "page_type_code INTERNAL_PAGE = 1"

definition SetPageType :: "BPlusTreePageType \<Rightarrow> byte list \<Rightarrow> byte list" where
  "SetPageType t d = set_u32 d 0 (page_type_code t)"

definition GetSize :: "byte list \<Rightarrow> int" where
  "GetSize d = sint (get_u32 d 4)"

definition SetSize :: "int \<Rightarrow> byte list \<Rightarrow> byte list" where
  "SetSize n d = set_u32 d 4 (word_of_int n)"

definition IncreaseSize :: "int \<Rightarrow> byte list \<Rightarrow> byte list" where
  "IncreaseSize amount d = SetSize (GetSize d + amount) d"

definition GetMaxSize :: "byte list \<Rightarrow> int" where
  "GetMaxSize d = sint (get_u32 d 8)"

definition SetMaxSize :: "int \<Rightarrow> byte list \<Rightarrow> byte list" where
  "SetMaxSize n d = set_u32 d 8 (word_of_int n)"

definition GetParentPageId :: "byte list \<Rightarrow> page_id" where
  "GetParentPageId d = get_u32 d 12"

definition SetParentPageId :: "page_id \<Rightarrow> byte list \<Rightarrow> byte list" where
  "SetParentPageId p d = set_u32 d 12 p"

definition Node_GetPageId :: "byte list \<Rightarrow> page_id" where
  "Node_GetPageId d = get_u32 d 16"

definition Node_SetPageId :: "page_id \<Rightarrow> byte list \<Rightarrow> byte list" where
  "Node_SetPageId p d = set_u32 d 16 p"

definition IsLeafPage :: "byte list \<Rightarrow> bool" where
  "IsLeafPage d \<longleftrightarrow> get_u32 d 0 = page_type_code LEAF_PAGE"

definition IsRootPage :: "byte list \<Rightarrow> bool" where
  "IsRootPage d \<longleftrightarrow> GetParentPageId d = INVALID_PAGE_ID"

text \<open>\<^verbatim>\<open>n / 2\<close> on \<^verbatim>\<open>int\<close> rounds towards zero.\<close>

definition half :: "int \<Rightarrow> int" where
  "half n = (if n < 0 then - (- n div 2) else n div 2)"

section \<open>Loops over the entries of a node\<close>

text \<open>
  A node stores entry \<open>i\<close> in \<^verbatim>\<open>keys_[i]\<close> and \<^verbatim>\<open>values_[i]\<close>; \<open>rd\<close> reads and \<open>wr\<close> writes one
  entry. \<open>shift_up\<close> is \<^verbatim>\<open>for (i = n; i > index; --i) a[i] = a[i - 1]\<close>, \<open>shift_down\<close> is
  \<^verbatim>\<open>for (i = index; i < n; ++i) a[i] = a[i + 1]\<close> and \<open>copy_entries\<close> is
  \<^verbatim>\<open>for (; i < n; ++i) recipient->a[i + off] = a[i]\<close>.
\<close>

function shift_up ::
  "('d \<Rightarrow> int \<Rightarrow> 'e option) \<Rightarrow> ('d \<Rightarrow> int \<Rightarrow> 'e \<Rightarrow> 'd option) \<Rightarrow> int \<Rightarrow> int \<Rightarrow> 'd \<Rightarrow> 'd option" where
  "shift_up rd wr i index d =
     (if index < i then
        case rd d (i - 1) of
          None \<Rightarrow> None
        | Some e \<Rightarrow> (case wr d i e of None \<Rightarrow> None | Some d' \<Rightarrow> shift_up rd wr (i - 1) index d')
      else Some d)"
  by pat_completeness auto

termination shift_up
  by (relation "measure (\<lambda>(rd, wr, i, index, d). nat (i - index))") auto

function shift_down ::
  "('d \<Rightarrow> int \<Rightarrow> 'e option) \<Rightarrow> ('d \<Rightarrow> int \<Rightarrow> 'e \<Rightarrow> 'd option) \<Rightarrow> int \<Rightarrow> int \<Rightarrow> 'd \<Rightarrow> 'd option" where
  "shift_down rd wr i n d =
     (if i < n then
        case rd d (i + 1) of
          None \<Rightarrow> None
        | Some e \<Rightarrow> (case wr d i e of None \<Rightarrow> None | Some d' \<Rightarrow> shift_down rd wr (i + 1) n d')
      else Some d)"
  by pat_completeness auto

termination shift_down
  by (relation "measure (\<lambda>(rd, wr, i, n, d). nat (n - i))") auto

function copy_entries ::
  "('d \<Rightarrow> int \<Rightarrow> 'e option) \<Rightarrow> ('d \<Rightarrow> int \<Rightarrow> 'e \<Rightarrow> 'd option) \<Rightarrow> 'd \<Rightarrow> int \<Rightarrow> int \<Rightarrow> int \<Rightarrow> 'd \<Rightarrow> 'd option" where
  "copy_entries rd wr src off i n d =
     (if i < n then
        case rd src i of
          None \<Rightarrow> None
        | Some e \<Rightarrow> (case wr d (i + off) e of None \<Rightarrow> None | Some d' \<Rightarrow> copy_entries rd wr src off (i + 1) n d')
      else Some d)"
  by pat_completeness auto

termination copy_entries
  by (relation "measure (\<lambda>(rd, wr, src, off, i, n, d). nat (n - i))") auto

text \<open>
  The binary search loop of \<^verbatim>\<open>KeyIndex\<close> and of \<^verbatim>\<open>Lookup\<close>; \<open>below\<close> is the comparison with the key
  at an index.
\<close>

function bin_search :: "(int \<Rightarrow> bool option) \<Rightarrow> int \<Rightarrow> int \<Rightarrow> int option" where
  "bin_search below low high =
     (if low \<le> high then
        (let mid = low + (high - low) div 2 in
         case below mid of
           None \<Rightarrow> None
         | Some b \<Rightarrow> if b then bin_search below (mid + 1) high else bin_search below low (mid - 1))
      else Some low)"
  by pat_completeness auto

termination bin_search
  by (relation "measure (\<lambda>(below, low, high). nat (high - low + 1))") auto

declare shift_up.simps [simp del] shift_down.simps [simp del] copy_entries.simps [simp del] bin_search.simps [simp del]

section \<open>BPlusTreeLeafPage\<close>

definition leaf_cap :: int where
  "leaf_cap = 254"

definition Leaf_GetNextPageId :: "byte list \<Rightarrow> page_id" where
  "Leaf_GetNextPageId d = get_u32 d 20"

definition Leaf_SetNextPageId :: "page_id \<Rightarrow> byte list \<Rightarrow> byte list" where
  "Leaf_SetNextPageId p d = set_u32 d 20 p"

definition Leaf_Init :: "page_id \<Rightarrow> page_id \<Rightarrow> int \<Rightarrow> byte list \<Rightarrow> byte list" where
  "Leaf_Init page_id parent_id max_size d =
     Leaf_SetNextPageId INVALID_PAGE_ID (Node_SetPageId page_id (SetParentPageId parent_id
       (SetMaxSize max_size (SetSize 0 (SetPageType LEAF_PAGE d)))))"

definition Leaf_KeyAt :: "byte list \<Rightarrow> int \<Rightarrow> 64 word option" where
  "Leaf_KeyAt d i = (if 0 \<le> i \<and> i < leaf_cap then Some (get_i64 d (24 + 8 * nat i)) else None)"

definition Leaf_ValueAt :: "byte list \<Rightarrow> int \<Rightarrow> RID option" where
  "Leaf_ValueAt d i =
     (if 0 \<le> i \<and> i < leaf_cap
      then Some \<lparr>rid_page_id = get_u32 d (2056 + 8 * nat i), rid_slot_num = get_u32 d (2060 + 8 * nat i)\<rparr>
      else None)"

definition leaf_rd :: "byte list \<Rightarrow> int \<Rightarrow> (64 word \<times> RID) option" where
  "leaf_rd d i = (case Leaf_KeyAt d i of None \<Rightarrow> None
     | Some k \<Rightarrow> (case Leaf_ValueAt d i of None \<Rightarrow> None | Some v \<Rightarrow> Some (k, v)))"

definition leaf_wr :: "byte list \<Rightarrow> int \<Rightarrow> 64 word \<times> RID \<Rightarrow> byte list option" where
  "leaf_wr d i e =
     (if 0 \<le> i \<and> i < leaf_cap
      then Some (set_u32 (set_u32 (set_i64 d (24 + 8 * nat i) (fst e))
                   (2056 + 8 * nat i) (rid_page_id (snd e))) (2060 + 8 * nat i) (rid_slot_num (snd e)))
      else None)"

definition Leaf_KeyIndex :: "64 word \<Rightarrow> byte list \<Rightarrow> int option" where
  "Leaf_KeyIndex key d =
     bin_search (\<lambda>mid. map_option (\<lambda>k. sint k < sint key) (Leaf_KeyAt d mid)) 0 (GetSize d - 1)"

text \<open>\<open>leaf_find\<close> is the test \<^verbatim>\<open>index < GetSize() && keys_[index] == key\<close> with its index.\<close>

definition leaf_find :: "64 word \<Rightarrow> byte list \<Rightarrow> (int \<times> bool) option" where
  "leaf_find key d =
     (case Leaf_KeyIndex key d of
        None \<Rightarrow> None
      | Some index \<Rightarrow>
          if index < GetSize d then
            (case Leaf_KeyAt d index of None \<Rightarrow> None | Some k \<Rightarrow> Some (index, k = key))
          else Some (index, False))"

definition Leaf_Lookup :: "64 word \<Rightarrow> byte list \<Rightarrow> RID option option" where
  "Leaf_Lookup key d =
     (case leaf_find key d of
        None \<Rightarrow> None
      | Some (index, found) \<Rightarrow>
          if found then (case Leaf_ValueAt d index of None \<Rightarrow> None | Some v \<Rightarrow> Some (Some v))
          else Some None)"

text \<open>Result: the size returned and the page.\<close>

definition Leaf_Insert :: "64 word \<Rightarrow> RID \<Rightarrow> byte list \<Rightarrow> (int \<times> byte list) option" where
  "Leaf_Insert key value d =
     (case leaf_find key d of
        None \<Rightarrow> None
      | Some (index, found) \<Rightarrow>
          if found then Some (GetSize d, d)
          else
            (case shift_up leaf_rd leaf_wr (GetSize d) index d of
               None \<Rightarrow> None
             | Some d1 \<Rightarrow>
                 (case leaf_wr d1 index (key, value) of
                    None \<Rightarrow> None
                  | Some d2 \<Rightarrow> (let d3 = IncreaseSize 1 d2 in Some (GetSize d3, d3)))))"

text \<open>Operations on two nodes return this page and the recipient.\<close>

definition Leaf_MoveHalfTo :: "byte list \<Rightarrow> byte list \<Rightarrow> (byte list \<times> byte list) option" where
  "Leaf_MoveHalfTo d recipient =
     (let move_count = half (GetSize d); start_index = GetSize d - move_count in
      case copy_entries leaf_rd leaf_wr d (- start_index) start_index (GetSize d) recipient of
        None \<Rightarrow> None
      | Some r \<Rightarrow> Some (SetSize start_index d, SetSize move_count r))"

definition Leaf_RemoveAt :: "int \<Rightarrow> byte list \<Rightarrow> byte list option" where
  "Leaf_RemoveAt index d =
     (case shift_down leaf_rd leaf_wr index (GetSize d - 1) d of
        None \<Rightarrow> None
      | Some d1 \<Rightarrow> Some (IncreaseSize (-1) d1))"

definition Leaf_Remove :: "64 word \<Rightarrow> byte list \<Rightarrow> (bool \<times> byte list) option" where
  "Leaf_Remove key d =
     (case leaf_find key d of
        None \<Rightarrow> None
      | Some (index, found) \<Rightarrow>
          if found then (case Leaf_RemoveAt index d of None \<Rightarrow> None | Some d1 \<Rightarrow> Some (True, d1))
          else Some (False, d))"

definition Leaf_MoveAllTo :: "byte list \<Rightarrow> byte list \<Rightarrow> (byte list \<times> byte list) option" where
  "Leaf_MoveAllTo d recipient =
     (let dest_index = GetSize recipient in
      case copy_entries leaf_rd leaf_wr d dest_index 0 (GetSize d) recipient of
        None \<Rightarrow> None
      | Some r \<Rightarrow> Some (SetSize 0 d, Leaf_SetNextPageId (Leaf_GetNextPageId d) (IncreaseSize (GetSize d) r)))"

definition Leaf_MoveFirstToEndOf :: "byte list \<Rightarrow> byte list \<Rightarrow> (byte list \<times> byte list) option" where
  "Leaf_MoveFirstToEndOf d recipient =
     (case leaf_rd d 0 of
        None \<Rightarrow> None
      | Some (first_key, first_val) \<Rightarrow>
          (case Leaf_Insert first_key first_val recipient of
             None \<Rightarrow> None
           | Some (n, r) \<Rightarrow> (case Leaf_RemoveAt 0 d of None \<Rightarrow> None | Some d1 \<Rightarrow> Some (d1, r))))"

definition Leaf_MoveLastToFrontOf :: "byte list \<Rightarrow> byte list \<Rightarrow> (byte list \<times> byte list) option" where
  "Leaf_MoveLastToFrontOf d recipient =
     (let last_idx = GetSize d - 1 in
      case leaf_rd d last_idx of
        None \<Rightarrow> None
      | Some (last_key, last_val) \<Rightarrow>
          (case Leaf_Insert last_key last_val recipient of
             None \<Rightarrow> None
           | Some (n, r) \<Rightarrow> (case Leaf_RemoveAt last_idx d of None \<Rightarrow> None | Some d1 \<Rightarrow> Some (d1, r))))"

section \<open>BPlusTreeInternalPage\<close>

definition inner_cap :: int where
  "inner_cap = 339"

definition Internal_Init :: "page_id \<Rightarrow> page_id \<Rightarrow> int \<Rightarrow> byte list \<Rightarrow> byte list" where
  "Internal_Init page_id parent_id max_size d =
     Node_SetPageId page_id (SetParentPageId parent_id
       (SetMaxSize max_size (SetSize 0 (SetPageType INTERNAL_PAGE d))))"

definition Internal_KeyAt :: "byte list \<Rightarrow> int \<Rightarrow> 64 word option" where
  "Internal_KeyAt d i = (if 0 \<le> i \<and> i < inner_cap then Some (get_i64 d (24 + 8 * nat i)) else None)"

definition Internal_SetKeyAt :: "int \<Rightarrow> 64 word \<Rightarrow> byte list \<Rightarrow> byte list option" where
  "Internal_SetKeyAt i key d = (if 0 \<le> i \<and> i < inner_cap then Some (set_i64 d (24 + 8 * nat i) key) else None)"

definition Internal_ValueAt :: "byte list \<Rightarrow> int \<Rightarrow> page_id option" where
  "Internal_ValueAt d i = (if 0 \<le> i \<and> i < inner_cap then Some (get_u32 d (2736 + 4 * nat i)) else None)"

definition Internal_SetValueAt :: "int \<Rightarrow> page_id \<Rightarrow> byte list \<Rightarrow> byte list option" where
  "Internal_SetValueAt i v d = (if 0 \<le> i \<and> i < inner_cap then Some (set_u32 d (2736 + 4 * nat i) v) else None)"

definition inner_rd :: "byte list \<Rightarrow> int \<Rightarrow> (64 word \<times> page_id) option" where
  "inner_rd d i = (case Internal_KeyAt d i of None \<Rightarrow> None
     | Some k \<Rightarrow> (case Internal_ValueAt d i of None \<Rightarrow> None | Some v \<Rightarrow> Some (k, v)))"

definition inner_wr :: "byte list \<Rightarrow> int \<Rightarrow> 64 word \<times> page_id \<Rightarrow> byte list option" where
  "inner_wr d i e = (case Internal_SetKeyAt i (fst e) d of None \<Rightarrow> None
     | Some d1 \<Rightarrow> Internal_SetValueAt i (snd e) d1)"

definition Internal_Lookup :: "64 word \<Rightarrow> byte list \<Rightarrow> page_id option" where
  "Internal_Lookup key d =
     (case bin_search (\<lambda>mid. map_option (\<lambda>k. sint k \<le> sint key) (Internal_KeyAt d mid)) 1 (GetSize d - 1) of
        None \<Rightarrow> None
      | Some low \<Rightarrow> Internal_ValueAt d (low - 1))"

definition Internal_Populate :: "page_id \<Rightarrow> 64 word \<Rightarrow> page_id \<Rightarrow> byte list \<Rightarrow> byte list option" where
  "Internal_Populate val0 key1 val1 d =
     (case Internal_SetValueAt 0 val0 d of
        None \<Rightarrow> None
      | Some d1 \<Rightarrow>
          (case inner_wr d1 1 (key1, val1) of None \<Rightarrow> None | Some d2 \<Rightarrow> Some (SetSize 2 d2)))"

text \<open>
  The first index \<open>\<ge> i\<close> below the size whose value is \<open>v\<close>, or \<open>-1\<close>: the search loops of
  \<^verbatim>\<open>InsertNodeAfter\<close> and \<^verbatim>\<open>HandleUnderflow\<close>.
\<close>

function inner_find_value :: "byte list \<Rightarrow> page_id \<Rightarrow> int \<Rightarrow> int option" where
  "inner_find_value d v i =
     (if i < GetSize d then
        (case Internal_ValueAt d i of
           None \<Rightarrow> None
         | Some w \<Rightarrow> if w = v then Some i else inner_find_value d v (i + 1))
      else Some (-1))"
  by pat_completeness auto

termination inner_find_value
  by (relation "measure (\<lambda>(d, v, i). nat (GetSize d - i))") auto

declare inner_find_value.simps [simp del]

definition Internal_InsertNodeAfter :: "page_id \<Rightarrow> 64 word \<Rightarrow> page_id \<Rightarrow> byte list \<Rightarrow> byte list option" where
  "Internal_InsertNodeAfter old_value new_key new_value d =
     (case inner_find_value d old_value 0 of
        None \<Rightarrow> None
      | Some index \<Rightarrow>
          (case shift_up inner_rd inner_wr (GetSize d) (index + 1) d of
             None \<Rightarrow> None
           | Some d1 \<Rightarrow>
               (case inner_wr d1 (index + 1) (new_key, new_value) of
                  None \<Rightarrow> None
                | Some d2 \<Rightarrow> Some (IncreaseSize 1 d2))))"

definition Internal_MoveHalfTo :: "byte list \<Rightarrow> byte list \<Rightarrow> (byte list \<times> byte list) option" where
  "Internal_MoveHalfTo d recipient =
     (let move_count = half (GetSize d); start_index = GetSize d - move_count in
      case copy_entries inner_rd inner_wr d (- start_index) start_index (GetSize d) recipient of
        None \<Rightarrow> None
      | Some r \<Rightarrow> Some (SetSize start_index d, SetSize move_count r))"

definition Internal_Remove :: "int \<Rightarrow> byte list \<Rightarrow> byte list option" where
  "Internal_Remove index d =
     (case shift_down inner_rd inner_wr index (GetSize d - 1) d of
        None \<Rightarrow> None
      | Some d1 \<Rightarrow> Some (IncreaseSize (-1) d1))"

definition Internal_MoveAllTo :: "64 word \<Rightarrow> byte list \<Rightarrow> byte list \<Rightarrow> (byte list \<times> byte list) option" where
  "Internal_MoveAllTo parent_key d recipient =
     (let dest_index = GetSize recipient in
      case Internal_ValueAt d 0 of
        None \<Rightarrow> None
      | Some v0 \<Rightarrow>
          (case inner_wr recipient dest_index (parent_key, v0) of
             None \<Rightarrow> None
           | Some r1 \<Rightarrow>
               (case copy_entries inner_rd inner_wr d dest_index 1 (GetSize d) r1 of
                  None \<Rightarrow> None
                | Some r2 \<Rightarrow> Some (SetSize 0 d, IncreaseSize (GetSize d) r2))))"

definition Internal_MoveFirstToEndOf :: "64 word \<Rightarrow> byte list \<Rightarrow> byte list \<Rightarrow> (byte list \<times> byte list) option" where
  "Internal_MoveFirstToEndOf parent_key d recipient =
     (let dest_idx = GetSize recipient in
      case Internal_ValueAt d 0 of
        None \<Rightarrow> None
      | Some v0 \<Rightarrow>
          (case inner_wr recipient dest_idx (parent_key, v0) of
             None \<Rightarrow> None
           | Some r1 \<Rightarrow>
               (case shift_down inner_rd inner_wr 0 (GetSize d - 1) d of
                  None \<Rightarrow> None
                | Some d1 \<Rightarrow> Some (IncreaseSize (-1) d1, IncreaseSize 1 r1))))"

definition Internal_MoveLastToFrontOf :: "64 word \<Rightarrow> byte list \<Rightarrow> byte list \<Rightarrow> (byte list \<times> byte list) option" where
  "Internal_MoveLastToFrontOf parent_key d recipient =
     (case shift_up inner_rd inner_wr (GetSize recipient) 0 recipient of
        None \<Rightarrow> None
      | Some r1 \<Rightarrow>
          (case Internal_SetKeyAt 1 parent_key r1 of
             None \<Rightarrow> None
           | Some r2 \<Rightarrow>
               (case Internal_ValueAt d (GetSize d - 1) of
                  None \<Rightarrow> None
                | Some v \<Rightarrow>
                    (case Internal_SetValueAt 0 v r2 of
                       None \<Rightarrow> None
                     | Some r3 \<Rightarrow> Some (IncreaseSize (-1) d, IncreaseSize 1 r3)))))"

section \<open>The arrays of a node as a list of entries\<close>

text \<open>
  The interface of an array of entries: reads and writes within the capacity succeed, a write
  changes one entry and neither the header nor the well-formedness of the page.
\<close>

locale entry_array =
  fixes rd :: "'d \<Rightarrow> int \<Rightarrow> 'e option"
    and wr :: "'d \<Rightarrow> int \<Rightarrow> 'e \<Rightarrow> 'd option"
    and cap :: int
    and wf :: "'d \<Rightarrow> bool"
    and hdr :: "'d \<Rightarrow> 'h"
  assumes rd_some: "0 \<le> i \<Longrightarrow> i < cap \<Longrightarrow> \<exists>e. rd d i = Some e"
    and wr_some: "wf d \<Longrightarrow> 0 \<le> i \<Longrightarrow> i < cap \<Longrightarrow>
      \<exists>d'. wr d i e = Some d' \<and> wf d' \<and> hdr d' = hdr d \<and> rd d' = (rd d)(i := Some e)"
begin

lemma shift_up_ok:
  assumes "wf d" "0 \<le> index" "index \<le> i" "i < cap"
  shows "\<exists>d'. shift_up rd wr i index d = Some d' \<and> wf d' \<and> hdr d' = hdr d \<and>
     rd d' = (\<lambda>j. if index < j \<and> j \<le> i then rd d (j - 1) else rd d j)"
  using assms
proof (induction "nat (i - index)" arbitrary: i d)
  case 0
  then show ?case by (auto simp: shift_up.simps fun_eq_iff)
next
  case (Suc n)
  have lt: "index < i" using Suc(2) by simp
  obtain e where e: "rd d (i - 1) = Some e" using rd_some [of "i - 1" d] Suc.prems lt by auto
  obtain d1 where d1: "wr d i e = Some d1" "wf d1" "hdr d1 = hdr d" "rd d1 = (rd d)(i := Some e)"
    using wr_some [of d i e] Suc.prems lt by auto
  have meas: "n = nat (i - 1 - index)" using Suc(2) by linarith
  obtain d' where d': "shift_up rd wr (i - 1) index d1 = Some d'" "wf d'" "hdr d' = hdr d1"
     "rd d' = (\<lambda>j. if index < j \<and> j \<le> i - 1 then rd d1 (j - 1) else rd d1 j)"
    using Suc(1) [OF meas d1(2)] Suc.prems lt by auto
  have "rd d' = (\<lambda>j. if index < j \<and> j \<le> i then rd d (j - 1) else rd d j)"
    using d'(4) d1(4) e lt by (auto simp: fun_eq_iff)
  then show ?case using d' d1(1,3) e lt by (subst shift_up.simps) simp
qed

lemma shift_down_ok:
  assumes "wf d" "0 \<le> i" "i \<le> n" "n < cap"
  shows "\<exists>d'. shift_down rd wr i n d = Some d' \<and> wf d' \<and> hdr d' = hdr d \<and>
     rd d' = (\<lambda>j. if i \<le> j \<and> j < n then rd d (j + 1) else rd d j)"
  using assms
proof (induction "nat (n - i)" arbitrary: i d)
  case 0
  then show ?case by (auto simp: shift_down.simps fun_eq_iff)
next
  case (Suc m)
  have lt: "i < n" using Suc(2) by simp
  obtain e where e: "rd d (i + 1) = Some e" using rd_some [of "i + 1" d] Suc.prems lt by auto
  obtain d1 where d1: "wr d i e = Some d1" "wf d1" "hdr d1 = hdr d" "rd d1 = (rd d)(i := Some e)"
    using wr_some [of d i e] Suc.prems lt by auto
  have meas: "m = nat (n - (i + 1))" using Suc(2) by linarith
  obtain d' where d': "shift_down rd wr (i + 1) n d1 = Some d'" "wf d'" "hdr d' = hdr d1"
     "rd d' = (\<lambda>j. if i + 1 \<le> j \<and> j < n then rd d1 (j + 1) else rd d1 j)"
    using Suc(1) [OF meas d1(2)] Suc.prems lt by auto
  have "rd d' = (\<lambda>j. if i \<le> j \<and> j < n then rd d (j + 1) else rd d j)"
    using d'(4) d1(4) e lt by (auto simp: fun_eq_iff)
  then show ?case using d' d1(1,3) e lt by (subst shift_down.simps) simp
qed

lemma copy_entries_ok:
  assumes "wf d" "0 \<le> i" "i \<le> n" "n \<le> cap" "0 \<le> i + off" "n + off \<le> cap"
  shows "\<exists>d'. copy_entries rd wr src off i n d = Some d' \<and> wf d' \<and> hdr d' = hdr d \<and>
     rd d' = (\<lambda>j. if i + off \<le> j \<and> j < n + off then rd src (j - off) else rd d j)"
  using assms
proof (induction "nat (n - i)" arbitrary: i d)
  case 0
  then show ?case by (auto simp: copy_entries.simps fun_eq_iff)
next
  case (Suc m)
  have lt: "i < n" using Suc(2) by simp
  obtain e where e: "rd src i = Some e" using rd_some [of i src] Suc.prems lt by auto
  obtain d1 where d1: "wr d (i + off) e = Some d1" "wf d1" "hdr d1 = hdr d" "rd d1 = (rd d)(i + off := Some e)"
    using wr_some [of d "i + off" e] Suc.prems lt by auto
  have meas: "m = nat (n - (i + 1))" using Suc(2) by linarith
  obtain d' where d': "copy_entries rd wr src off (i + 1) n d1 = Some d'" "wf d'" "hdr d' = hdr d1"
     "rd d' = (\<lambda>j. if i + 1 + off \<le> j \<and> j < n + off then rd src (j - off) else rd d1 j)"
    using Suc(1) [OF meas d1(2)] Suc.prems lt by auto
  have "rd d' = (\<lambda>j. if i + off \<le> j \<and> j < n + off then rd src (j - off) else rd d j)"
    using d'(4) d1(4) e lt by (auto simp: fun_eq_iff)
  then show ?case using d' d1(1,3) e lt by (subst copy_entries.simps) simp
qed

text \<open>\<open>at_least d es\<close>: the array starts with the entries \<open>es\<close>.\<close>

definition at_least :: "'d \<Rightarrow> 'e list \<Rightarrow> bool" where
  "at_least d es \<longleftrightarrow> (\<forall>j < length es. rd d (int j) = Some (es ! j))"

lemma at_least_rd: "at_least d es \<Longrightarrow> 0 \<le> i \<Longrightarrow> i < int (length es) \<Longrightarrow> rd d i = Some (es ! nat i)"
  by (metis at_least_def nat_eq_iff2 nat_less_iff)

lemma at_least_take: "at_least d es \<Longrightarrow> at_least d (take n es)"
  by (simp add: at_least_def)

lemma insert_at:
  assumes d: "wf d" "at_least d es" and i: "i \<le> length es" and cap: "int (length es) < cap"
  shows "\<exists>d1 d2. shift_up rd wr (int (length es)) (int i) d = Some d1 \<and> wr d1 (int i) e = Some d2 \<and>
     wf d2 \<and> hdr d2 = hdr d \<and> at_least d2 (take i es @ e # drop i es)"
proof -
  obtain d1 where d1: "shift_up rd wr (int (length es)) (int i) d = Some d1" "wf d1" "hdr d1 = hdr d"
     "rd d1 = (\<lambda>j. if int i < j \<and> j \<le> int (length es) then rd d (j - 1) else rd d j)"
    using shift_up_ok [of d "int i" "int (length es)"] d i cap by auto
  obtain d2 where d2: "wr d1 (int i) e = Some d2" "wf d2" "hdr d2 = hdr d1" "rd d2 = (rd d1)(int i := Some e)"
    using wr_some [of d1 "int i" e] d1(2) i cap by auto
  have "rd d2 (int j) = Some ((take i es @ e # drop i es) ! j)" if j: "j < Suc (length es)" for j
  proof -
    consider "j < i" | "j = i" | "i < j" by linarith
    then show ?thesis
    proof cases
      case 3
      then obtain j' where j': "j = Suc j'" by (cases j) auto
      then show ?thesis
        using 3 j i d(2) by (auto simp: d2(4) d1(4) at_least_def nth_append nth_Cons' min_def)
    qed (use i j d(2) in \<open>auto simp: d2(4) d1(4) at_least_def nth_append min_def\<close>)
  qed
  then have "at_least d2 (take i es @ e # drop i es)" using i by (simp add: at_least_def min_def)
  then show ?thesis using d1 d2 by auto
qed

lemma remove_at:
  assumes d: "wf d" "at_least d es" and i: "i < length es" and cap: "int (length es) \<le> cap"
  shows "\<exists>d'. shift_down rd wr (int i) (int (length es) - 1) d = Some d' \<and> wf d' \<and> hdr d' = hdr d \<and>
     at_least d' (take i es @ drop (Suc i) es)"
proof -
  obtain d' where d': "shift_down rd wr (int i) (int (length es) - 1) d = Some d'" "wf d'" "hdr d' = hdr d"
     "rd d' = (\<lambda>j. if int i \<le> j \<and> j < int (length es) - 1 then rd d (j + 1) else rd d j)"
    using shift_down_ok [of d "int i" "int (length es) - 1"] d i cap by auto
  have "rd d' (int j) = Some ((take i es @ drop (Suc i) es) ! j)" if j: "j < length es - 1" for j
  proof (cases "j < i")
    case True
    then show ?thesis using i j d(2) by (auto simp: d'(4) at_least_def nth_append)
  next
    case False
    then have "rd d' (int j) = rd d (int (Suc j))" using i j by (auto simp: d'(4) algebra_simps)
    also have "\<dots> = Some (es ! Suc j)"
      using d(2) less_diff_conv [THEN iffD1, OF j] unfolding at_least_def by (metis Suc_eq_plus1)
    finally show ?thesis using False i j by (simp add: nth_append min_def)
  qed
  then have "at_least d' (take i es @ drop (Suc i) es)" using i by (simp add: at_least_def min_def)
  then show ?thesis using d' by auto
qed

lemma copy_at_end:
  assumes d: "wf d" "at_least d xs" and src: "at_least src es" and i: "i \<le> length es"
    and cap: "int (length es) \<le> cap" "int (length xs + (length es - i)) \<le> cap"
  shows "\<exists>d'. copy_entries rd wr src (int (length xs) - int i) (int i) (int (length es)) d = Some d' \<and>
     wf d' \<and> hdr d' = hdr d \<and> at_least d' (xs @ drop i es)"
proof -
  let ?off = "int (length xs) - int i"
  obtain d' where d': "copy_entries rd wr src ?off (int i) (int (length es)) d = Some d'" "wf d'" "hdr d' = hdr d"
     "rd d' = (\<lambda>j. if int i + ?off \<le> j \<and> j < int (length es) + ?off then rd src (j - ?off) else rd d j)"
    using copy_entries_ok [of d "int i" "int (length es)" ?off src] d(1) i cap by auto
  have "rd d' (int j) = Some ((xs @ drop i es) ! j)" if j: "j < length xs + (length es - i)" for j
  proof (cases "j < length xs")
    case True
    then show ?thesis using d(2) by (auto simp: d'(4) at_least_def nth_append)
  next
    case False
    let ?k = "j - length xs + i"
    have k: "int j - ?off = int ?k" "?k < length es" using False j by auto
    have "int i + ?off \<le> int j \<and> int j < int (length es) + ?off" using False j by linarith
    then have "rd d' (int j) = rd src (int j - ?off)" by (simp add: d'(4))
    also have "\<dots> = Some (es ! ?k)" unfolding k(1) using k(2) src unfolding at_least_def by blast
    finally show ?thesis using False i j by (simp add: nth_append add.commute)
  qed
  then have "at_least d' (xs @ drop i es)" by (simp add: at_least_def)
  then show ?thesis using d' by auto
qed

end

section \<open>Headers and arrays do not interfere\<close>

definition node_header :: "byte list \<Rightarrow> byte list" where
  "node_header d = load 24 d 0"

definition page_sized :: "byte list \<Rightarrow> bool" where
  "page_sized d \<longleftrightarrow> length d = PAGE_SIZE"

named_theorems node_simps \<open>reading a node after writing a field\<close>

lemmas setter_defs = SetPageType_def SetSize_def SetMaxSize_def SetParentPageId_def Node_SetPageId_def
  Leaf_SetNextPageId_def
lemmas getter_defs = IsLeafPage_def GetSize_def GetMaxSize_def GetParentPageId_def Node_GetPageId_def
  Leaf_GetNextPageId_def

lemma page_sized_setters [node_simps]:
  "page_sized d \<Longrightarrow> page_sized (SetPageType t d)"
  "page_sized d \<Longrightarrow> page_sized (SetSize n d)"
  "page_sized d \<Longrightarrow> page_sized (SetMaxSize n d)"
  "page_sized d \<Longrightarrow> page_sized (SetParentPageId p d)"
  "page_sized d \<Longrightarrow> page_sized (Node_SetPageId p d)"
  "page_sized d \<Longrightarrow> page_sized (Leaf_SetNextPageId p d)"
  by (simp_all add: page_sized_def setter_defs length_set_u32 PAGE_SIZE_def)

lemma sint_int32 [node_simps]: "0 \<le> n \<Longrightarrow> n < 2147483648 \<Longrightarrow> sint (word_of_int n :: 32 word) = n"
  by (simp add: sint_sbintrunc' signed_take_bit_int_eq_self)

lemma getters_SetPageType [node_simps]:
  assumes "page_sized d"
  shows "IsLeafPage (SetPageType t d) \<longleftrightarrow> t = LEAF_PAGE" "GetSize (SetPageType t d) = GetSize d"
    "GetMaxSize (SetPageType t d) = GetMaxSize d" "GetParentPageId (SetPageType t d) = GetParentPageId d"
    "Node_GetPageId (SetPageType t d) = Node_GetPageId d" "Leaf_GetNextPageId (SetPageType t d) = Leaf_GetNextPageId d"
  using assms by (cases t; simp add: page_sized_def setter_defs getter_defs layout_simps PAGE_SIZE_def)+

lemma getters_SetSize [node_simps]:
  assumes "page_sized d"
  shows "IsLeafPage (SetSize n d) = IsLeafPage d" "0 \<le> n \<Longrightarrow> n < 2147483648 \<Longrightarrow> GetSize (SetSize n d) = n"
    "GetMaxSize (SetSize n d) = GetMaxSize d" "GetParentPageId (SetSize n d) = GetParentPageId d"
    "Node_GetPageId (SetSize n d) = Node_GetPageId d" "Leaf_GetNextPageId (SetSize n d) = Leaf_GetNextPageId d"
  using assms by (simp_all add: page_sized_def setter_defs getter_defs layout_simps PAGE_SIZE_def node_simps)

lemma getters_SetMaxSize [node_simps]:
  assumes "page_sized d"
  shows "IsLeafPage (SetMaxSize n d) = IsLeafPage d" "0 \<le> n \<Longrightarrow> n < 2147483648 \<Longrightarrow> GetMaxSize (SetMaxSize n d) = n"
    "GetSize (SetMaxSize n d) = GetSize d" "GetParentPageId (SetMaxSize n d) = GetParentPageId d"
    "Node_GetPageId (SetMaxSize n d) = Node_GetPageId d" "Leaf_GetNextPageId (SetMaxSize n d) = Leaf_GetNextPageId d"
  using assms by (simp_all add: page_sized_def setter_defs getter_defs layout_simps PAGE_SIZE_def node_simps)

lemma getters_SetParentPageId [node_simps]:
  assumes "page_sized d"
  shows "IsLeafPage (SetParentPageId p d) = IsLeafPage d" "GetParentPageId (SetParentPageId p d) = p"
    "GetSize (SetParentPageId p d) = GetSize d" "GetMaxSize (SetParentPageId p d) = GetMaxSize d"
    "Node_GetPageId (SetParentPageId p d) = Node_GetPageId d" "Leaf_GetNextPageId (SetParentPageId p d) = Leaf_GetNextPageId d"
  using assms by (simp_all add: page_sized_def setter_defs getter_defs layout_simps PAGE_SIZE_def)

lemma getters_SetPageId [node_simps]:
  assumes "page_sized d"
  shows "IsLeafPage (Node_SetPageId p d) = IsLeafPage d" "Node_GetPageId (Node_SetPageId p d) = p"
    "GetSize (Node_SetPageId p d) = GetSize d" "GetMaxSize (Node_SetPageId p d) = GetMaxSize d"
    "GetParentPageId (Node_SetPageId p d) = GetParentPageId d" "Leaf_GetNextPageId (Node_SetPageId p d) = Leaf_GetNextPageId d"
  using assms by (simp_all add: page_sized_def setter_defs getter_defs layout_simps PAGE_SIZE_def)

lemma getters_SetNextPageId [node_simps]:
  assumes "page_sized d"
  shows "IsLeafPage (Leaf_SetNextPageId p d) = IsLeafPage d" "Leaf_GetNextPageId (Leaf_SetNextPageId p d) = p"
    "GetSize (Leaf_SetNextPageId p d) = GetSize d" "GetMaxSize (Leaf_SetNextPageId p d) = GetMaxSize d"
    "GetParentPageId (Leaf_SetNextPageId p d) = GetParentPageId d" "Node_GetPageId (Leaf_SetNextPageId p d) = Node_GetPageId d"
  using assms by (simp_all add: page_sized_def setter_defs getter_defs layout_simps PAGE_SIZE_def)

lemma get_u32_header:
  "node_header d' = node_header d \<Longrightarrow> off + 4 \<le> 24 \<Longrightarrow> get_u32 d' off = get_u32 d off"
proof -
  assume h: "node_header d' = node_header d" and off: "off + 4 \<le> 24"
  have "load 4 x off = load 4 (node_header x) off" for x
    using off by (simp add: load_def node_header_def drop_take)
  then show ?thesis using h unfolding get_u32_def by metis
qed

lemma getters_header:
  assumes "node_header d' = node_header d"
  shows "IsLeafPage d' = IsLeafPage d" "GetSize d' = GetSize d" "GetMaxSize d' = GetMaxSize d"
    "GetParentPageId d' = GetParentPageId d" "Node_GetPageId d' = Node_GetPageId d"
    "Leaf_GetNextPageId d' = Leaf_GetNextPageId d"
  using get_u32_header [OF assms] by (simp_all add: getter_defs)

text \<open>The arrays start at byte 24, behind every header field.\<close>

lemma rd_set_header:
  assumes "page_sized d" "off + 4 \<le> 24"
  shows "leaf_rd (set_u32 d off w) = leaf_rd d" "inner_rd (set_u32 d off w) = inner_rd d"
proof -
  have g: "get_i64 (set_u32 d off w) (24 + j) = get_i64 d (24 + j)" for j
    using assms by (simp add: get_i64_def load_set_u32_other page_sized_def PAGE_SIZE_def)
  have u: "get_u32 (set_u32 d off w) (a + j) = get_u32 d (a + j)" if "24 \<le> a" for a j
    using assms that by (simp add: get_set_u32_other page_sized_def PAGE_SIZE_def)
  show "leaf_rd (set_u32 d off w) = leaf_rd d"
    by (rule ext) (simp add: leaf_rd_def Leaf_KeyAt_def Leaf_ValueAt_def g u)
  show "inner_rd (set_u32 d off w) = inner_rd d"
    by (rule ext) (simp add: inner_rd_def Internal_KeyAt_def Internal_ValueAt_def g u)
qed

lemma rd_setters [node_simps]:
  assumes "page_sized d"
  shows "leaf_rd (SetPageType t d) = leaf_rd d" "leaf_rd (SetSize n d) = leaf_rd d"
    "leaf_rd (SetMaxSize n d) = leaf_rd d" "leaf_rd (SetParentPageId p d) = leaf_rd d"
    "leaf_rd (Node_SetPageId p d) = leaf_rd d" "leaf_rd (Leaf_SetNextPageId p d) = leaf_rd d"
    "inner_rd (SetPageType t d) = inner_rd d" "inner_rd (SetSize n d) = inner_rd d"
    "inner_rd (SetMaxSize n d) = inner_rd d" "inner_rd (SetParentPageId p d) = inner_rd d"
    "inner_rd (Node_SetPageId p d) = inner_rd d"
  using rd_set_header [OF assms] by (simp_all add: setter_defs)

section \<open>The two arrays\<close>

lemma index_cases:
  assumes "0 \<le> i" "i < int c"
  obtains n where "i = int n" "n < c"
  using assms that [of "nat i"] by simp

lemma caps: "leaf_cap = int 254" "inner_cap = int 339"
  by (simp_all add: leaf_cap_def inner_cap_def)

lemma array_offsets:
  "i \<noteq> j \<Longrightarrow> a + 8 * i + 8 \<le> a + 8 * j \<or> a + 8 * j + 8 \<le> a + 8 * i"
  "i \<noteq> j \<Longrightarrow> a + 4 * i + 4 \<le> a + 4 * j \<or> a + 4 * j + 4 \<le> a + 4 * i"
  for i j a :: nat
  by linarith+

lemma leaf_wr_ok:
  assumes d: "page_sized d" and i: "0 \<le> i" "i < leaf_cap"
  shows "\<exists>d'. leaf_wr d i e = Some d' \<and> page_sized d' \<and> node_header d' = node_header d \<and>
     leaf_rd d' = (leaf_rd d)(i := Some e)"
proof -
  obtain n where n: "i = int n" "n < 254" using index_cases [OF i [unfolded caps]] by blast
  obtain k v where e: "e = (k, v)" by (cases e)
  define d1 where "d1 = set_i64 d (24 + 8 * n) k"
  define d2 where "d2 = set_u32 d1 (2056 + 8 * n) (rid_page_id v)"
  define d3 where "d3 = set_u32 d2 (2060 + 8 * n) (rid_slot_num v)"
  have len: "length d = 4096" "length d1 = 4096" "length d2 = 4096" "length d3 = 4096"
    using d n(2) by (simp_all add: page_sized_def PAGE_SIZE_def d1_def d2_def d3_def length_set_i64 length_set_u32)
  have wr: "leaf_wr d i e = Some d3"
    using i n by (simp add: leaf_wr_def e d1_def d2_def d3_def)
  have hdr: "node_header d3 = node_header d"
    using len n(2) by (simp add: node_header_def d3_def d2_def d1_def load_set_u32_other load_set_i64_other)
  have key: "get_i64 d3 (24 + 8 * m) = (if m = n then k else get_i64 d (24 + 8 * m))" if "m < 254" for m
    using len n(2) that array_offsets(1) [of m n 24]
    by (auto simp: d3_def d2_def d1_def get_i64_set_u32_other get_set_i64_same get_set_i64_other)
  have pid: "get_u32 d3 (2056 + 8 * m) = (if m = n then rid_page_id v else get_u32 d (2056 + 8 * m))" if "m < 254" for m
    using len n(2) that array_offsets(1) [of m n 2056]
    by (auto simp: d3_def d2_def d1_def get_set_u32_same get_set_u32_other get_u32_set_i64_other)
  have slot: "get_u32 d3 (2060 + 8 * m) = (if m = n then rid_slot_num v else get_u32 d (2060 + 8 * m))" if "m < 254" for m
    using len n(2) that array_offsets(1) [of m n 2060]
    by (auto simp: d3_def d2_def d1_def get_set_u32_same get_set_u32_other get_u32_set_i64_other)
  have "leaf_rd d3 j = ((leaf_rd d)(i := Some e)) j" for j
  proof (cases "0 \<le> j \<and> j < leaf_cap")
    case True
    then obtain m where m: "j = int m" "m < 254" using index_cases [of j 254] by (auto simp: caps)
    show ?thesis
      using m n by (simp add: leaf_rd_def Leaf_KeyAt_def Leaf_ValueAt_def leaf_cap_def key pid slot e)
  next
    case False
    then show ?thesis using i by (auto simp: leaf_rd_def Leaf_KeyAt_def)
  qed
  then show ?thesis using wr hdr len by (intro exI [of _ d3]) (simp add: page_sized_def PAGE_SIZE_def ext)
qed

interpretation leaf: entry_array leaf_rd leaf_wr leaf_cap page_sized node_header
  by unfold_locales (auto simp: leaf_rd_def Leaf_KeyAt_def Leaf_ValueAt_def intro: leaf_wr_ok)

text \<open>A write of one key or of one value of an inner node.\<close>

lemma inner_key_ok:
  assumes d: "page_sized d" and i: "0 \<le> i" "i < inner_cap"
  shows "\<exists>d'. Internal_SetKeyAt i k d = Some d' \<and> page_sized d' \<and> node_header d' = node_header d \<and>
     inner_rd d' = (inner_rd d)(i := map_option (\<lambda>e. (k, snd e)) (inner_rd d i))"
proof -
  obtain n where n: "i = int n" "n < 339" using index_cases [OF i [unfolded caps]] by blast
  define d' where "d' = set_i64 d (24 + 8 * n) k"
  have len: "length d = 4096" "length d' = 4096"
    using d n(2) by (simp_all add: page_sized_def PAGE_SIZE_def d'_def length_set_i64)
  have key: "get_i64 d' (24 + 8 * m) = (if m = n then k else get_i64 d (24 + 8 * m))" if "m < 339" for m
    using len n(2) that array_offsets(1) [of m n 24] by (auto simp: d'_def get_set_i64_same get_set_i64_other)
  have val: "get_u32 d' (2736 + 4 * m) = get_u32 d (2736 + 4 * m)" for m
    using len n(2) by (simp add: d'_def get_u32_set_i64_other)
  have "inner_rd d' j = ((inner_rd d)(i := map_option (\<lambda>e. (k, snd e)) (inner_rd d i))) j" for j
  proof (cases "0 \<le> j \<and> j < inner_cap")
    case True
    then obtain m where m: "j = int m" "m < 339" using index_cases [of j 339] by (auto simp: caps)
    show ?thesis
      using m n by (simp add: inner_rd_def Internal_KeyAt_def Internal_ValueAt_def inner_cap_def key val)
  next
    case False
    then show ?thesis using i by (auto simp: inner_rd_def Internal_KeyAt_def)
  qed
  moreover have "node_header d' = node_header d"
    using len n(2) by (simp add: node_header_def d'_def load_set_i64_other)
  ultimately show ?thesis
    using i n len by (intro exI [of _ d']) (simp add: Internal_SetKeyAt_def d'_def [symmetric] page_sized_def PAGE_SIZE_def ext)
qed

lemma inner_value_ok:
  assumes d: "page_sized d" and i: "0 \<le> i" "i < inner_cap"
  shows "\<exists>d'. Internal_SetValueAt i v d = Some d' \<and> page_sized d' \<and> node_header d' = node_header d \<and>
     inner_rd d' = (inner_rd d)(i := map_option (\<lambda>e. (fst e, v)) (inner_rd d i))"
proof -
  obtain n where n: "i = int n" "n < 339" using index_cases [OF i [unfolded caps]] by blast
  define d' where "d' = set_u32 d (2736 + 4 * n) v"
  have len: "length d = 4096" "length d' = 4096"
    using d n(2) by (simp_all add: page_sized_def PAGE_SIZE_def d'_def length_set_u32)
  have val: "get_u32 d' (2736 + 4 * m) = (if m = n then v else get_u32 d (2736 + 4 * m))" if "m < 339" for m
    using len n(2) that array_offsets(2) [of m n 2736] by (auto simp: d'_def get_set_u32_same get_set_u32_other)
  have key: "get_i64 d' (24 + 8 * m) = get_i64 d (24 + 8 * m)" if "m < 339" for m
    using len n(2) that by (simp add: d'_def get_i64_set_u32_other)
  have "inner_rd d' j = ((inner_rd d)(i := map_option (\<lambda>e. (fst e, v)) (inner_rd d i))) j" for j
  proof (cases "0 \<le> j \<and> j < inner_cap")
    case True
    then obtain m where m: "j = int m" "m < 339" using index_cases [of j 339] by (auto simp: caps)
    show ?thesis
      using m n by (simp add: inner_rd_def Internal_KeyAt_def Internal_ValueAt_def inner_cap_def key val)
  next
    case False
    then show ?thesis using i by (auto simp: inner_rd_def Internal_KeyAt_def)
  qed
  moreover have "node_header d' = node_header d"
    using len n(2) by (simp add: node_header_def d'_def load_set_u32_other)
  ultimately show ?thesis
    using i n len by (intro exI [of _ d']) (simp add: Internal_SetValueAt_def d'_def [symmetric] page_sized_def PAGE_SIZE_def ext)
qed

lemma inner_rd_some: "0 \<le> i \<Longrightarrow> i < inner_cap \<Longrightarrow> \<exists>e. inner_rd d i = Some e"
  by (simp add: inner_rd_def Internal_KeyAt_def Internal_ValueAt_def)

lemma inner_wr_ok:
  assumes d: "page_sized d" and i: "0 \<le> i" "i < inner_cap"
  shows "\<exists>d'. inner_wr d i e = Some d' \<and> page_sized d' \<and> node_header d' = node_header d \<and>
     inner_rd d' = (inner_rd d)(i := Some e)"
proof -
  obtain e0 where e0: "inner_rd d i = Some e0" using inner_rd_some [OF i] by blast
  obtain d1 where d1: "Internal_SetKeyAt i (fst e) d = Some d1" "page_sized d1" "node_header d1 = node_header d"
     "inner_rd d1 = (inner_rd d)(i := map_option (\<lambda>x. (fst e, snd x)) (inner_rd d i))"
    using inner_key_ok [OF d i] by blast
  obtain d2 where d2: "Internal_SetValueAt i (snd e) d1 = Some d2" "page_sized d2" "node_header d2 = node_header d1"
     "inner_rd d2 = (inner_rd d1)(i := map_option (\<lambda>x. (fst x, snd e)) (inner_rd d1 i))"
    using inner_value_ok [OF d1(2) i] by blast
  have "inner_rd d2 = (inner_rd d)(i := Some e)" using d2(4) d1(4) e0 by (simp add: fun_eq_iff)
  then show ?thesis using d1 d2 by (auto simp: inner_wr_def)
qed

interpretation inner: entry_array inner_rd inner_wr inner_cap page_sized node_header
  by (unfold_locales; rule inner_rd_some inner_wr_ok)

end
