(* ===== verification/BPlus_Tree.thy ===== *)
theory BPlus_Tree
  imports Page_Cache BPlus_Pages
begin

text \<open>
  The index of \<^verbatim>\<open>b_plus_tree.hpp\<close> and \<^verbatim>\<open>b_plus_tree.cpp\<close>, over the buffer pool and the node
  pages. A \<^verbatim>\<open>BPlusTreePage*\<close> is the frame it overlays, so all holders of a node share its bytes. The
  state is the root id and the pool. Every null dereference the code can run into is an error value,
  and the loops and recursions that follow page ids (\<open>find_leaf_loop\<close>, \<open>reparent_loop\<close>,
  \<open>InsertIntoParent\<close>, \<open>HandleUnderflow\<close>, \<open>begin_loop\<close>) are partial functions, whose value is \<open>None\<close>
  when they do not return.
\<close>

section \<open>Computations that may not return\<close>

type_synonym ('s, 'a) pcomp = "'s \<Rightarrow> ((err + 'a) \<times> 's) option"

definition always :: "('s, 'a) comp \<Rightarrow> ('s, 'a) pcomp" where
  "always m s = Some (m s)"

definition pbind :: "('s, 'a) pcomp \<Rightarrow> ('a \<Rightarrow> ('s, 'b) pcomp) \<Rightarrow> ('s, 'b) pcomp" where
  "pbind m f s = Option.bind (m s) (\<lambda>r. case r of (Inl e, s') \<Rightarrow> Some (Inl e, s') | (Inr a, s') \<Rightarrow> f a s')"

lemma pbind_mono [partial_function_mono]:
  assumes "\<And>s. mono_option (\<lambda>f. B f s)" "\<And>y s. mono_option (\<lambda>f. C y f s)"
  shows "mono_option (\<lambda>f. pbind (B f) (\<lambda>y. C y f) s)"
  unfolding pbind_def
proof (rule bind_mono [OF assms(1)])
  fix r
  show "mono_option (\<lambda>f. case r of (Inl e, s') \<Rightarrow> Some (Inl e, s') | (Inr a, s') \<Rightarrow> C a f s')"
    by (cases r; cases "fst r") (auto intro!: assms(2) option.const_mono)
qed

lemma always_apply [simp]: "always m s = Some (m s)"
  by (simp add: always_def)

lemma pbind_Inr [simp]: "m s = Some (Inr a, s') \<Longrightarrow> pbind m f s = f a s'"
  by (simp add: pbind_def)

lemma pbind_Inl [simp]: "m s = Some (Inl e, s') \<Longrightarrow> pbind m f s = Some (Inl e, s')"
  by (simp add: pbind_def)

section \<open>State\<close>

record bplus_tree =
  root_page_id :: page_id
  bpm :: buffer_pool

definition BPlusTree_new :: "page_id \<Rightarrow> buffer_pool \<Rightarrow> bplus_tree" where
  "BPlusTree_new root b = \<lparr>root_page_id = root, bpm = b\<rparr>"

definition IsEmpty :: "bplus_tree \<Rightarrow> bool" where
  "IsEmpty t \<longleftrightarrow> root_page_id t = INVALID_PAGE_ID"

text \<open>A call on the pool; the bytes of the node in a frame; stores into it.\<close>

definition ix :: "(buffer_pool, 'a) comp \<Rightarrow> (bplus_tree, 'a) comp" where
  "ix m t = (case m (bpm t) of (r, b) \<Rightarrow> (r, t\<lparr>bpm := b\<rparr>))"

definition node_data :: "frame_id \<Rightarrow> bplus_tree \<Rightarrow> byte list" where
  "node_data f t = page_data (bpm t) f"

definition node_read :: "frame_id \<Rightarrow> (byte list \<Rightarrow> 'a option) \<Rightarrow> (bplus_tree, 'a) comp" where
  "node_read f m t = (case m (node_data f t) of None \<Rightarrow> (Inl MemFault, t) | Some a \<Rightarrow> (Inr a, t))"

definition node_set :: "frame_id \<Rightarrow> (byte list \<Rightarrow> byte list) \<Rightarrow> (bplus_tree, unit) comp" where
  "node_set f g t = (Inr (), t\<lparr>bpm := put_data f (g (node_data f t)) (bpm t)\<rparr>)"

definition node_op :: "frame_id \<Rightarrow> (byte list \<Rightarrow> ('a \<times> byte list) option) \<Rightarrow> (bplus_tree, 'a) comp" where
  "node_op f m t =
     (case m (node_data f t) of
        None \<Rightarrow> (Inl MemFault, t)
      | Some (a, d) \<Rightarrow> (Inr a, t\<lparr>bpm := put_data f d (bpm t)\<rparr>))"

text \<open>An operation of one node on another one. The two are different pages, so different frames.\<close>

definition node_op2 ::
  "frame_id \<Rightarrow> frame_id \<Rightarrow> (byte list \<Rightarrow> byte list \<Rightarrow> (byte list \<times> byte list) option) \<Rightarrow> (bplus_tree, unit) comp" where
  "node_op2 f g m t =
     (case m (node_data f t) (node_data g t) of
        None \<Rightarrow> (Inl MemFault, t)
      | Some (d, r) \<Rightarrow> (Inr (), t\<lparr>bpm := put_data g r (put_data f d (bpm t))\<rparr>))"

definition unit_op :: "(byte list \<Rightarrow> byte list option) \<Rightarrow> byte list \<Rightarrow> (unit \<times> byte list) option" where
  "unit_op m d = map_option (Pair ()) (m d)"

definition set_root :: "page_id \<Rightarrow> (bplus_tree, unit) comp" where
  "set_root p t = (Inr (), t\<lparr>root_page_id := p\<rparr>)"

text \<open>\<^verbatim>\<open>bpm_->UnpinPage(page->GetPageId(), dirty)\<close> for the page in frame \<open>f\<close>.\<close>

definition unpin_frame :: "frame_id \<Rightarrow> bool \<Rightarrow> (bplus_tree, bool) comp" where
  "unpin_frame f dirty t = ix (UnpinPage (page_id_of (frame (bpm t) f)) dirty) t"

section \<open>Search\<close>

partial_function (option) find_leaf_loop ::
  "64 word \<Rightarrow> page_id \<Rightarrow> frame_id option \<Rightarrow> (bplus_tree, frame_id option) pcomp" where
  "find_leaf_loop key curr_id curr_page t =
     (case curr_page of
        None \<Rightarrow> Some (Inl NullDeref, t)
      | Some f \<Rightarrow>
          if IsLeafPage (node_data f t) then Some (Inr (Some f), t)
          else pbind (always (node_read f (Internal_Lookup key))) (\<lambda>next_id.
               pbind (always (ix (UnpinPage curr_id False))) (\<lambda>_.
               pbind (always (ix (FetchPage next_id))) (\<lambda>r.
               find_leaf_loop key next_id r))) t)"

definition FindLeafPage :: "64 word \<Rightarrow> (bplus_tree, frame_id option) pcomp" where
  "FindLeafPage key t =
     (if root_page_id t = INVALID_PAGE_ID then Some (Inr None, t)
      else pbind (always (ix (FetchPage (root_page_id t)))) (\<lambda>r. find_leaf_loop key (root_page_id t) r) t)"

text \<open>The result is the value stored through the out parameter, if the call returns true.\<close>

definition GetValue :: "64 word \<Rightarrow> (bplus_tree, RID option) pcomp" where
  "GetValue key t =
     (if IsEmpty t then Some (Inr None, t)
      else pbind (FindLeafPage key) (\<lambda>leaf_page. case leaf_page of
             None \<Rightarrow> always (ret None)
           | Some f \<Rightarrow> always (bind (node_read f (Leaf_Lookup key)) (\<lambda>status.
                              bind (unpin_frame f False) (\<lambda>_. ret status)))) t)"

section \<open>Insertion\<close>

text \<open>The loop that stores the new parent id in the children of a node.\<close>

partial_function (option) reparent_loop :: "frame_id \<Rightarrow> page_id \<Rightarrow> int \<Rightarrow> (bplus_tree, unit) pcomp" where
  "reparent_loop node parent_id i t =
     (if i < GetSize (node_data node t) then
        pbind (always (node_read node (\<lambda>d. Internal_ValueAt d i))) (\<lambda>child_id.
        pbind (always (ix (FetchPage child_id))) (\<lambda>r.
        pbind (always (case r of
            None \<Rightarrow> ret ()
          | Some c \<Rightarrow> bind (node_set c (SetParentPageId parent_id)) (\<lambda>_.
                       bind (ix (UnpinPage child_id True)) (\<lambda>_. ret ())))) (\<lambda>_.
        reparent_loop node parent_id (i + 1)))) t
      else Some (Inr (), t))"

definition insert_new_root :: "frame_id \<Rightarrow> 64 word \<Rightarrow> frame_id \<Rightarrow> (bplus_tree, unit) comp" where
  "insert_new_root old_child key new_child =
     bind (ix NewPage) (\<lambda>(new_root_id, r). case r of
        None \<Rightarrow> ret ()
      | Some new_root \<Rightarrow>
          bind (node_set new_root (Internal_Init new_root_id INVALID_PAGE_ID 338)) (\<lambda>_.
          bind (node_read old_child (\<lambda>d. Some (Node_GetPageId d))) (\<lambda>old_id.
          bind (node_read new_child (\<lambda>d. Some (Node_GetPageId d))) (\<lambda>new_id.
          bind (node_op new_root (unit_op (Internal_Populate old_id key new_id))) (\<lambda>_.
          bind (node_set old_child (SetParentPageId new_root_id)) (\<lambda>_.
          bind (node_set new_child (SetParentPageId new_root_id)) (\<lambda>_.
          bind (set_root new_root_id) (\<lambda>_.
          bind (ix (UnpinPage new_root_id True)) (\<lambda>_. ret ())))))))))"

definition insert_into_parent_node ::
  "frame_id \<Rightarrow> 64 word \<Rightarrow> frame_id \<Rightarrow> frame_id \<Rightarrow> page_id \<Rightarrow> (bplus_tree, unit) comp" where
  "insert_into_parent_node old_child key new_child parent parent_id =
     bind (node_read old_child (\<lambda>d. Some (Node_GetPageId d))) (\<lambda>old_id.
     bind (node_read new_child (\<lambda>d. Some (Node_GetPageId d))) (\<lambda>new_id.
     bind (node_op parent (unit_op (Internal_InsertNodeAfter old_id key new_id))) (\<lambda>_.
     node_set new_child (SetParentPageId parent_id))))"

text \<open>The split of an overfull parent: its upper half moves to the new page in frame \<open>new_parent\<close>.\<close>

definition split_parent_node :: "frame_id \<Rightarrow> frame_id \<Rightarrow> page_id \<Rightarrow> (bplus_tree, unit) pcomp" where
  "split_parent_node parent new_parent new_parent_id =
     pbind (always (node_read parent (\<lambda>d. Some (GetParentPageId d)))) (\<lambda>gp.
     pbind (always (node_set new_parent (Internal_Init new_parent_id gp 338))) (\<lambda>_.
     pbind (always (node_op2 parent new_parent Internal_MoveHalfTo)) (\<lambda>_.
     reparent_loop new_parent new_parent_id 0)))"

partial_function (option) InsertIntoParent ::
  "frame_id \<Rightarrow> 64 word \<Rightarrow> frame_id \<Rightarrow> (bplus_tree, unit) pcomp" where
  "InsertIntoParent old_child key new_child t =
     (if IsRootPage (node_data old_child t) then always (insert_new_root old_child key new_child) t
      else
        (let parent_id = GetParentPageId (node_data old_child t) in
         pbind (always (ix (FetchPage parent_id))) (\<lambda>r. case r of
            None \<Rightarrow> always (ret ())
          | Some parent \<Rightarrow>
              pbind (always (insert_into_parent_node old_child key new_child parent parent_id)) (\<lambda>_ t1.
              if GetSize (node_data parent t1) \<le> GetMaxSize (node_data parent t1)
              then always (bind (ix (UnpinPage parent_id True)) (\<lambda>_. ret ())) t1
              else
                pbind (always (ix NewPage)) (\<lambda>nr. case nr of (new_parent_id, np) \<Rightarrow> (case np of
                   None \<Rightarrow> always (bind (ix (UnpinPage parent_id True)) (\<lambda>_. ret ()))
                 | Some new_parent \<Rightarrow>
                     pbind (split_parent_node parent new_parent new_parent_id) (\<lambda>_.
                     pbind (always (node_read new_parent (\<lambda>d. Internal_KeyAt d 0))) (\<lambda>push_up_key.
                     pbind (InsertIntoParent parent push_up_key new_parent) (\<lambda>_.
                     always (bind (ix (UnpinPage parent_id True)) (\<lambda>_.
                            bind (ix (UnpinPage new_parent_id True)) (\<lambda>_. ret ())))))))) t1)) t))"

definition insert_first :: "64 word \<Rightarrow> RID \<Rightarrow> (bplus_tree, bool) comp" where
  "insert_first key value =
     bind (ix NewPage) (\<lambda>(new_root_id, r). case r of
        None \<Rightarrow> ret False
      | Some root \<Rightarrow>
          bind (node_set root (Leaf_Init new_root_id INVALID_PAGE_ID 253)) (\<lambda>_.
          bind (node_op root (Leaf_Insert key value)) (\<lambda>_.
          bind (set_root new_root_id) (\<lambda>_.
          bind (ix (UnpinPage new_root_id True)) (\<lambda>_. ret True)))))"

text \<open>The split of an overfull leaf; the result is the separator.\<close>

definition split_leaf_node :: "frame_id \<Rightarrow> frame_id \<Rightarrow> page_id \<Rightarrow> (bplus_tree, 64 word) comp" where
  "split_leaf_node leaf new_leaf new_leaf_id =
     bind (node_read leaf (\<lambda>d. Some (GetParentPageId d))) (\<lambda>par.
     bind (node_set new_leaf (Leaf_Init new_leaf_id par 253)) (\<lambda>_.
     bind (node_read leaf (\<lambda>d. Some (Leaf_GetNextPageId d))) (\<lambda>nxt.
     bind (node_set new_leaf (Leaf_SetNextPageId nxt)) (\<lambda>_.
     bind (node_set leaf (Leaf_SetNextPageId new_leaf_id)) (\<lambda>_.
     bind (node_op2 leaf new_leaf Leaf_MoveHalfTo) (\<lambda>_.
     node_read new_leaf (\<lambda>d. Leaf_KeyAt d 0)))))))"

definition insert_into_leaf :: "frame_id \<Rightarrow> 64 word \<Rightarrow> RID \<Rightarrow> (bplus_tree, bool) pcomp" where
  "insert_into_leaf leaf key value t =
     (let old_size = GetSize (node_data leaf t) in
      pbind (always (node_op leaf (Leaf_Insert key value))) (\<lambda>new_size t1.
        if new_size = old_size then always (bind (unpin_frame leaf False) (\<lambda>_. ret False)) t1
        else if new_size \<le> GetMaxSize (node_data leaf t1)
        then always (bind (unpin_frame leaf True) (\<lambda>_. ret True)) t1
        else
          pbind (always (ix NewPage)) (\<lambda>nr. case nr of (new_leaf_id, nl) \<Rightarrow> (case nl of
             None \<Rightarrow> always (bind (unpin_frame leaf True) (\<lambda>_. ret False))
           | Some new_leaf \<Rightarrow>
               pbind (always (split_leaf_node leaf new_leaf new_leaf_id)) (\<lambda>split_key.
               pbind (InsertIntoParent leaf split_key new_leaf) (\<lambda>_.
               always (bind (unpin_frame leaf True) (\<lambda>_.
                      bind (unpin_frame new_leaf True) (\<lambda>_. ret True))))))) t1) t)"

definition BPlusTree_Insert :: "64 word \<Rightarrow> RID \<Rightarrow> (bplus_tree, bool) pcomp" where
  "BPlusTree_Insert key value t =
     (if IsEmpty t then always (insert_first key value) t
      else pbind (FindLeafPage key) (\<lambda>leaf_page. case leaf_page of
             None \<Rightarrow> always (ret False)
           | Some leaf \<Rightarrow> insert_into_leaf leaf key value) t)"

section \<open>Deletion\<close>

text \<open>The moved child of a redistribution gets its new parent.\<close>

definition reparent_child :: "page_id \<Rightarrow> frame_id \<Rightarrow> (bplus_tree, unit) comp" where
  "reparent_child child_id node =
     bind (ix (FetchPage child_id)) (\<lambda>r. case r of
        None \<Rightarrow> ret ()
      | Some c \<Rightarrow>
          bind (node_read node (\<lambda>d. Some (Node_GetPageId d))) (\<lambda>p.
          bind (node_set c (SetParentPageId p)) (\<lambda>_.
          bind (ix (UnpinPage child_id True)) (\<lambda>_. ret ()))))"

definition redistribute_leaf :: "frame_id \<Rightarrow> frame_id \<Rightarrow> frame_id \<Rightarrow> int \<Rightarrow> bool \<Rightarrow> (bplus_tree, unit) comp" where
  "redistribute_leaf leaf sib parent child_idx from_left =
     (if from_left then
        bind (node_op2 sib leaf Leaf_MoveLastToFrontOf) (\<lambda>_.
        bind (node_read leaf (\<lambda>d. Leaf_KeyAt d 0)) (\<lambda>k.
        node_op parent (unit_op (Internal_SetKeyAt child_idx k))))
      else
        bind (node_op2 sib leaf Leaf_MoveFirstToEndOf) (\<lambda>_.
        bind (node_read sib (\<lambda>d. Leaf_KeyAt d 0)) (\<lambda>k.
        node_op parent (unit_op (Internal_SetKeyAt (child_idx + 1) k)))))"

definition redistribute_inner :: "frame_id \<Rightarrow> frame_id \<Rightarrow> frame_id \<Rightarrow> int \<Rightarrow> bool \<Rightarrow> (bplus_tree, unit) comp" where
  "redistribute_inner node sib parent child_idx from_left =
     (if from_left then
        bind (node_read parent (\<lambda>d. Internal_KeyAt d child_idx)) (\<lambda>parent_key.
        bind (node_read sib (\<lambda>d. Internal_KeyAt d (GetSize d - 1))) (\<lambda>new_parent_key.
        bind (node_op2 sib node (Internal_MoveLastToFrontOf parent_key)) (\<lambda>_.
        bind (node_op parent (unit_op (Internal_SetKeyAt child_idx new_parent_key))) (\<lambda>_.
        bind (node_read node (\<lambda>d. Internal_ValueAt d 0)) (\<lambda>moved_child_id.
        reparent_child moved_child_id node)))))
      else
        bind (node_read parent (\<lambda>d. Internal_KeyAt d (child_idx + 1))) (\<lambda>parent_key.
        bind (node_read sib (\<lambda>d. Internal_KeyAt d 1)) (\<lambda>new_parent_key.
        bind (node_op2 sib node (Internal_MoveFirstToEndOf parent_key)) (\<lambda>_.
        bind (node_op parent (unit_op (Internal_SetKeyAt (child_idx + 1) new_parent_key))) (\<lambda>_.
        bind (node_read node (\<lambda>d. Internal_ValueAt d (GetSize d - 1))) (\<lambda>moved_child_id.
        reparent_child moved_child_id node))))))"

definition Redistribute :: "frame_id \<Rightarrow> frame_id \<Rightarrow> frame_id \<Rightarrow> int \<Rightarrow> bool \<Rightarrow> (bplus_tree, bool) comp" where
  "Redistribute node sibling parent child_idx from_left t =
     bind (if IsLeafPage (node_data node t) then redistribute_leaf node sibling parent child_idx from_left
           else redistribute_inner node sibling parent child_idx from_left) (\<lambda>_. ret True) t"

definition Merge :: "frame_id \<Rightarrow> frame_id \<Rightarrow> frame_id \<Rightarrow> int \<Rightarrow> (bplus_tree, unit) pcomp" where
  "Merge node sibling parent child_idx t =
     (if IsLeafPage (node_data node t) then
        always (bind (node_op2 sibling node Leaf_MoveAllTo) (\<lambda>_.
               node_op parent (unit_op (Internal_Remove child_idx)))) t
      else
        pbind (always (node_read parent (\<lambda>d. Internal_KeyAt d child_idx))) (\<lambda>parent_key.
        pbind (always (node_op2 sibling node (Internal_MoveAllTo parent_key))) (\<lambda>_.
        pbind (always (node_read node (\<lambda>d. Some (Node_GetPageId d)))) (\<lambda>left_id.
        pbind (reparent_loop node left_id 0) (\<lambda>_.
        always (node_op parent (unit_op (Internal_Remove child_idx))))))) t)"

text \<open>The root is an inner node with a single child left: that child becomes the root.\<close>

definition collapse_root :: "frame_id \<Rightarrow> (bplus_tree, unit) comp" where
  "collapse_root node t =
     (if \<not> IsLeafPage (node_data node t) \<and> GetSize (node_data node t) = 1 then
        bind (node_read node (\<lambda>d. Internal_ValueAt d 0)) (\<lambda>new_root_id.
        bind (ix (FetchPage new_root_id)) (\<lambda>r.
        bind (case r of
            None \<Rightarrow> ret ()
          | Some new_root \<Rightarrow> bind (node_set new_root (SetParentPageId INVALID_PAGE_ID)) (\<lambda>_.
                             bind (ix (UnpinPage new_root_id True)) (\<lambda>_. ret ()))) (\<lambda>_.
        bind (ix (DeletePage (root_page_id t))) (\<lambda>_.
        set_root new_root_id)))) t
      else (Inr (), t))"

text \<open>
  The attempt to borrow an entry from the sibling at index \<open>sib_idx\<close> of the parent; the result says
  whether the underflow is repaired, in which case the parent is unpinned too.
\<close>

definition try_redistribute ::
  "frame_id \<Rightarrow> frame_id \<Rightarrow> page_id \<Rightarrow> int \<Rightarrow> int \<Rightarrow> bool \<Rightarrow> (bplus_tree, bool) comp" where
  "try_redistribute node parent parent_id child_idx sib_idx from_left =
     bind (node_read parent (\<lambda>d. Internal_ValueAt d sib_idx)) (\<lambda>sib_id.
     bind (ix (FetchPage sib_id)) (\<lambda>r. case r of
        None \<Rightarrow> ret False
      | Some sib \<Rightarrow> (\<lambda>t.
          if half (GetMaxSize (node_data sib t)) < GetSize (node_data sib t) then
            bind (Redistribute node sib parent child_idx from_left) (\<lambda>_.
            bind (ix (UnpinPage sib_id True)) (\<lambda>_.
            bind (ix (UnpinPage parent_id True)) (\<lambda>_. ret True))) t
          else bind (ix (UnpinPage sib_id False)) (\<lambda>_. ret False) t)))"

definition merge_with_sibling :: "frame_id \<Rightarrow> frame_id \<Rightarrow> int \<Rightarrow> (bplus_tree, unit) pcomp" where
  "merge_with_sibling node parent child_idx =
     (if 0 < child_idx then
        pbind (always (node_read parent (\<lambda>d. Internal_ValueAt d (child_idx - 1)))) (\<lambda>left_id.
        pbind (always (ix (FetchPage left_id))) (\<lambda>r. case r of
           None \<Rightarrow> always (ret ())
         | Some left \<Rightarrow>
             pbind (Merge left node parent child_idx) (\<lambda>_.
             always (bind (ix (UnpinPage left_id True)) (\<lambda>_.
                    bind (node_read node (\<lambda>d. Some (Node_GetPageId d))) (\<lambda>node_id.
                    bind (ix (DeletePage node_id)) (\<lambda>_. ret ())))))))
      else
        pbind (always (node_read parent (\<lambda>d. Internal_ValueAt d (child_idx + 1)))) (\<lambda>right_id.
        pbind (always (ix (FetchPage right_id))) (\<lambda>r. case r of
           None \<Rightarrow> always (ret ())
         | Some right \<Rightarrow>
             pbind (Merge node right parent (child_idx + 1)) (\<lambda>_.
             always (bind (ix (UnpinPage right_id True)) (\<lambda>_.
                    bind (ix (DeletePage right_id)) (\<lambda>_. ret ()))))))  )"

partial_function (option) HandleUnderflow :: "frame_id \<Rightarrow> (bplus_tree, unit) pcomp" where
  "HandleUnderflow node t =
     (if IsRootPage (node_data node t) then always (collapse_root node) t
      else
        (let parent_id = GetParentPageId (node_data node t) in
         pbind (always (ix (FetchPage parent_id))) (\<lambda>r. case r of
            None \<Rightarrow> always (ret ())
          | Some parent \<Rightarrow> (\<lambda>t0.
              pbind (always (node_read parent (\<lambda>d. inner_find_value d (Node_GetPageId (node_data node t0)) 0))) (\<lambda>child_idx.
              pbind (always (if 0 < child_idx
                            then try_redistribute node parent parent_id child_idx (child_idx - 1) True
                            else ret False)) (\<lambda>borrowed t1.
              if borrowed then Some (Inr (), t1)
              else
                pbind (always (if child_idx < GetSize (node_data parent t1) - 1
                              then try_redistribute node parent parent_id child_idx (child_idx + 1) False
                              else ret False)) (\<lambda>borrowed2 t2.
                if borrowed2 then Some (Inr (), t2)
                else
                  pbind (merge_with_sibling node parent child_idx) (\<lambda>_.
                  pbind (\<lambda>t3. if GetSize (node_data parent t3) < half (GetMaxSize (node_data parent t3))
                               then HandleUnderflow parent t3 else Some (Inr (), t3)) (\<lambda>_.
                  always (bind (ix (UnpinPage parent_id True)) (\<lambda>_. ret ())))) t2) t1)) t0)) t))"

definition delete_from_leaf :: "frame_id \<Rightarrow> 64 word \<Rightarrow> (bplus_tree, bool) pcomp" where
  "delete_from_leaf leaf key =
     pbind (always (node_op leaf (Leaf_Remove key))) (\<lambda>deleted t1.
       if \<not> deleted then always (bind (unpin_frame leaf False) (\<lambda>_. ret False)) t1
       else if IsRootPage (node_data leaf t1) then
         (if GetSize (node_data leaf t1) = 0
          then always (bind (ix (DeletePage (root_page_id t1))) (\<lambda>_.
                      bind (set_root INVALID_PAGE_ID) (\<lambda>_. ret True))) t1
          else always (bind (unpin_frame leaf True) (\<lambda>_. ret True)) t1)
       else if half (GetMaxSize (node_data leaf t1)) \<le> GetSize (node_data leaf t1)
       then always (bind (unpin_frame leaf True) (\<lambda>_. ret True)) t1
       else pbind (HandleUnderflow leaf) (\<lambda>_. always (bind (unpin_frame leaf True) (\<lambda>_. ret True))) t1)"

definition BPlusTree_Delete :: "64 word \<Rightarrow> (bplus_tree, bool) pcomp" where
  "BPlusTree_Delete key t =
     (if IsEmpty t then Some (Inr False, t)
      else pbind (FindLeafPage key) (\<lambda>leaf_page. case leaf_page of
             None \<Rightarrow> always (ret False)
           | Some leaf \<Rightarrow> delete_from_leaf leaf key) t)"

section \<open>Iteration\<close>

record BPlusTreeIterator =
  curr_page_id :: page_id
  curr_index :: int
  curr_page :: "frame_id option"

definition Iterator_new :: "page_id \<Rightarrow> int \<Rightarrow> (buffer_pool, BPlusTreeIterator) comp" where
  "Iterator_new p i =
     (if p \<noteq> INVALID_PAGE_ID
      then bind (FetchPage p) (\<lambda>r. ret \<lparr>curr_page_id = p, curr_index = i, curr_page = r\<rparr>)
      else ret \<lparr>curr_page_id = p, curr_index = i, curr_page = None\<rparr>)"

definition Iterator_destroy :: "BPlusTreeIterator \<Rightarrow> (buffer_pool, unit) comp" where
  "Iterator_destroy it =
     (if curr_page_id it \<noteq> INVALID_PAGE_ID \<and> curr_page it \<noteq> None
      then bind (UnpinPage (curr_page_id it) False) (\<lambda>_. ret ())
      else ret ())"

definition Iterator_copy :: "BPlusTreeIterator \<Rightarrow> (buffer_pool, BPlusTreeIterator) comp" where
  "Iterator_copy other = Iterator_new (curr_page_id other) (curr_index other)"

text \<open>Assignment between two different iterators on the same pool.\<close>

definition Iterator_assign :: "BPlusTreeIterator \<Rightarrow> BPlusTreeIterator \<Rightarrow> (buffer_pool, BPlusTreeIterator) comp" where
  "Iterator_assign it other = bind (Iterator_destroy it) (\<lambda>_. Iterator_copy other)"

text \<open>A move returns the new iterator and the emptied source.\<close>

definition Iterator_move :: "BPlusTreeIterator \<Rightarrow> BPlusTreeIterator \<times> BPlusTreeIterator" where
  "Iterator_move other = (other, other\<lparr>curr_page_id := INVALID_PAGE_ID, curr_page := None\<rparr>)"

definition Iterator_move_assign ::
  "BPlusTreeIterator \<Rightarrow> BPlusTreeIterator \<Rightarrow> (buffer_pool, BPlusTreeIterator \<times> BPlusTreeIterator) comp" where
  "Iterator_move_assign it other = bind (Iterator_destroy it) (\<lambda>_. ret (Iterator_move other))"

definition IsEnd :: "BPlusTreeIterator \<Rightarrow> bool" where
  "IsEnd it \<longleftrightarrow> curr_page_id it = INVALID_PAGE_ID"

definition Iterator_deref :: "BPlusTreeIterator \<Rightarrow> (buffer_pool, 64 word \<times> RID) comp" where
  "Iterator_deref it s =
     (case curr_page it of
        None \<Rightarrow> (Inl NullDeref, s)
      | Some f \<Rightarrow> (case leaf_rd (page_data s f) (curr_index it) of
                     None \<Rightarrow> (Inl MemFault, s)
                   | Some e \<Rightarrow> (Inr e, s)))"

definition Iterator_next :: "BPlusTreeIterator \<Rightarrow> (buffer_pool, BPlusTreeIterator) comp" where
  "Iterator_next it s =
     (if curr_page_id it = INVALID_PAGE_ID then (Inr it, s)
      else case curr_page it of
        None \<Rightarrow> (Inl NullDeref, s)
      | Some f \<Rightarrow>
          (let it1 = it\<lparr>curr_index := curr_index it + 1\<rparr> in
           if GetSize (page_data s f) \<le> curr_index it1 then
             (let next_id = Leaf_GetNextPageId (page_data s f) in
              bind (UnpinPage (curr_page_id it) False) (\<lambda>_. Iterator_new next_id 0) s)
           else (Inr it1, s)))"

definition Iterator_eq :: "BPlusTreeIterator \<Rightarrow> BPlusTreeIterator \<Rightarrow> bool" where
  "Iterator_eq a b \<longleftrightarrow> curr_page_id a = curr_page_id b \<and> curr_index a = curr_index b"

definition End :: "(buffer_pool, BPlusTreeIterator) comp" where
  "End = Iterator_new INVALID_PAGE_ID 0"

partial_function (option) begin_loop ::
  "page_id \<Rightarrow> frame_id option \<Rightarrow> (bplus_tree, BPlusTreeIterator) pcomp" where
  "begin_loop curr_id page t =
     (case page of
        None \<Rightarrow> Some (Inl NullDeref, t)
      | Some f \<Rightarrow>
          if IsLeafPage (node_data f t) then
            always (bind (ix (UnpinPage curr_id False)) (\<lambda>_. ix (Iterator_new curr_id 0))) t
          else pbind (always (node_read f (\<lambda>d. Internal_ValueAt d 0))) (\<lambda>leftmost_child.
               pbind (always (ix (UnpinPage curr_id False))) (\<lambda>_.
               pbind (always (ix (FetchPage leftmost_child))) (\<lambda>r.
               begin_loop leftmost_child r))) t)"

definition Begin :: "(bplus_tree, BPlusTreeIterator) pcomp" where
  "Begin t =
     (if IsEmpty t then always (ix End) t
      else pbind (always (ix (FetchPage (root_page_id t)))) (\<lambda>r. begin_loop (root_page_id t) r) t)"

definition Begin_at :: "64 word \<Rightarrow> (bplus_tree, BPlusTreeIterator) pcomp" where
  "Begin_at key t =
     (if IsEmpty t then always (ix End) t
      else pbind (FindLeafPage key) (\<lambda>leaf_page. case leaf_page of
             None \<Rightarrow> always (ix End)
           | Some f \<Rightarrow>
               always (bind (node_read f (Leaf_KeyIndex key)) (\<lambda>idx t1.
                 let leaf_id = page_id_of (frame (bpm t1) f) in
                 bind (ix (UnpinPage leaf_id False)) (\<lambda>_. ix (Iterator_new leaf_id idx)) t1))) t)"

end
