(* ===== verification/BPlus_Nodes.thy ===== *)
theory BPlus_Nodes
  imports BPlus_Pages
begin

text \<open>
  What the operations of the index pages do. \<open>leaf_node\<close> and \<open>inner_node\<close> say that a page is a leaf
  or an inner node with given header fields and a given list of entries; each operation is shown to
  stay within the arrays and to be the corresponding operation on lists. Binary search is equivalent
  to counting the keys below the one searched for.
\<close>

section \<open>Pages as lists of entries\<close>

type_synonym leaf_entry = "64 word \<times> RID"
type_synonym inner_entry = "64 word \<times> page_id"

definition leaf_node :: "page_id \<Rightarrow> page_id \<Rightarrow> page_id \<Rightarrow> leaf_entry list \<Rightarrow> byte list \<Rightarrow> bool" where
  "leaf_node p par nxt es d \<longleftrightarrow>
     page_sized d \<and> IsLeafPage d \<and> GetMaxSize d = 253 \<and> Node_GetPageId d = p \<and> GetParentPageId d = par \<and>
     Leaf_GetNextPageId d = nxt \<and> GetSize d = int (length es) \<and> length es \<le> 254 \<and> leaf.at_least d es"

definition inner_node :: "page_id \<Rightarrow> page_id \<Rightarrow> inner_entry list \<Rightarrow> byte list \<Rightarrow> bool" where
  "inner_node p par cs d \<longleftrightarrow>
     page_sized d \<and> \<not> IsLeafPage d \<and> GetMaxSize d = 338 \<and> Node_GetPageId d = p \<and> GetParentPageId d = par \<and>
     GetSize d = int (length cs) \<and> length cs \<le> 339 \<and> inner.at_least d cs"

text \<open>The number of leading entries that satisfy a condition.\<close>

definition prefix_len :: "('a \<Rightarrow> bool) \<Rightarrow> 'a list \<Rightarrow> nat" where
  "prefix_len P es = length (takeWhile P es)"

definition sorted_keys :: "(64 word \<times> 'a) list \<Rightarrow> bool" where
  "sorted_keys es \<longleftrightarrow> sorted_wrt (\<lambda>a b. sint (fst a) < sint (fst b)) es"

abbreviation key_lt :: "64 word \<Rightarrow> 64 word \<times> 'a \<Rightarrow> bool" where
  "key_lt key e \<equiv> sint (fst e) < sint key"

definition ins_entry :: "64 word \<Rightarrow> 'a \<Rightarrow> (64 word \<times> 'a) list \<Rightarrow> (64 word \<times> 'a) list" where
  "ins_entry k v es = takeWhile (key_lt k) es @ (k, v) # dropWhile (key_lt k) es"

definition del_entry :: "64 word \<Rightarrow> (64 word \<times> 'a) list \<Rightarrow> (64 word \<times> 'a) list" where
  "del_entry k es = filter (\<lambda>e. fst e \<noteq> k) es"

lemma cut_le: "prefix_len P es \<le> length es"
  by (simp add: prefix_len_def length_takeWhile_le)

lemma take_cut: "take (prefix_len P es) es = takeWhile P es"
  by (metis prefix_len_def takeWhile_eq_take)

lemma drop_cut: "drop (prefix_len P es) es = dropWhile P es"
  by (metis prefix_len_def dropWhile_eq_drop)

lemma cut_iff:
  assumes "sorted_wrt R es" "\<And>a b. R a b \<Longrightarrow> P b \<Longrightarrow> P a" "i < length es"
  shows "P (es ! i) \<longleftrightarrow> i < prefix_len P es"
proof
  assume p: "P (es ! i)"
  show "i < prefix_len P es"
  proof (rule ccontr)
    assume "\<not> i < prefix_len P es"
    then have le: "prefix_len P es \<le> i" by simp
    then have "\<not> P (es ! prefix_len P es)" using assms(3) nth_length_takeWhile [of P es] by (simp add: prefix_len_def)
    moreover have "prefix_len P es = i \<or> R (es ! prefix_len P es) (es ! i)"
      using le assms(1,3) by (auto simp: sorted_wrt_iff_nth_less le_less)
    ultimately show False using p assms(2) by auto
  qed
next
  assume "i < prefix_len P es"
  then show "P (es ! i)" unfolding prefix_len_def by (metis nth_mem set_takeWhileD takeWhile_nth)
qed

lemma sint_inject64: "sint a = sint b \<longleftrightarrow> a = b" for a b :: "64 word"
  by (rule word_eq_iff_signed [symmetric])

lemma key_cut_iff: "sorted_keys es \<Longrightarrow> i < length es \<Longrightarrow> key_lt k (es ! i) \<longleftrightarrow> i < prefix_len (key_lt k) es"
  by (rule cut_iff [of "\<lambda>a b. sint (fst a) < sint (fst b)"]) (auto simp: sorted_keys_def)

text \<open>A key that occurs is the first one not below itself.\<close>

lemma key_at_cut:
  assumes "sorted_keys es"
  shows "k \<in> fst ` set es \<longleftrightarrow> prefix_len (key_lt k) es < length es \<and> fst (es ! prefix_len (key_lt k) es) = k"
proof
  assume "k \<in> fst ` set es"
  then obtain i where i: "i < length es" "fst (es ! i) = k" by (auto simp: in_set_conv_nth)
  let ?c = "prefix_len (key_lt k) es"
  have ge: "?c \<le> i" using key_cut_iff [OF assms i(1), of k] i(2) by simp
  have "\<not> ?c < i"
  proof
    assume lt: "?c < i"
    then have "sint (fst (es ! ?c)) < sint (fst (es ! i))"
      using assms i(1) by (simp add: sorted_keys_def sorted_wrt_iff_nth_less)
    then show False using key_cut_iff [OF assms, of ?c k] lt i by simp
  qed
  then show "?c < length es \<and> fst (es ! ?c) = k" using ge i by auto
next
  assume c: "prefix_len (key_lt k) es < length es \<and> fst (es ! prefix_len (key_lt k) es) = k"
  then have "fst (es ! prefix_len (key_lt k) es) \<in> fst ` set es" by (intro imageI nth_mem) simp
  then show "k \<in> fst ` set es" using c by simp
qed

lemma sorted_keys_distinct: "sorted_keys es \<Longrightarrow> distinct (map fst es)"
  by (induction es) (auto simp: sorted_keys_def)

lemma sorted_keys_append:
  "sorted_keys (xs @ ys) \<longleftrightarrow> sorted_keys xs \<and> sorted_keys ys \<and>
     (\<forall>a \<in> set xs. \<forall>b \<in> set ys. sint (fst a) < sint (fst b))"
  by (simp add: sorted_keys_def sorted_wrt_append)

lemma sorted_keys_Cons:
  "sorted_keys (x # ys) \<longleftrightarrow> (\<forall>b \<in> set ys. sint (fst x) < sint (fst b)) \<and> sorted_keys ys"
  by (simp add: sorted_keys_def)

lemma set_ins_entry: "set (ins_entry k v es) = insert (k, v) (set es)"
proof -
  have "set es = set (takeWhile (key_lt k) es) \<union> set (dropWhile (key_lt k) es)"
    by (subst set_append [symmetric]) simp
  then show ?thesis by (simp add: ins_entry_def)
qed

lemma length_ins_entry: "length (ins_entry k v es) = Suc (length es)"
proof -
  have "length es = length (takeWhile (key_lt k) es) + length (dropWhile (key_lt k) es)"
    by (subst length_append [symmetric]) simp
  then show ?thesis by (simp add: ins_entry_def)
qed

lemma sorted_ins_entry:
  assumes "sorted_keys es" "k \<notin> fst ` set es"
  shows "sorted_keys (ins_entry k v es)"
proof -
  let ?t = "takeWhile (key_lt k) es" and ?d = "dropWhile (key_lt k) es"
  have "sorted_keys (?t @ ?d)" using assms(1) by simp
  then have split: "sorted_keys ?t" "sorted_keys ?d" by (simp_all only: sorted_keys_append)
  have ge: "sint k < sint (fst b)" if bd: "b \<in> set ?d" for b
  proof -
    have b: "b \<in> set es" using bd by (rule set_dropWhileD)
    obtain j where j: "j < length (drop (prefix_len (key_lt k) es) es)" "b = drop (prefix_len (key_lt k) es) es ! j"
      using bd unfolding drop_cut [symmetric] by (auto simp: in_set_conv_nth)
    have "\<not> key_lt k b" using key_cut_iff [OF assms(1), of "prefix_len (key_lt k) es + j" k] j by simp
    moreover have "fst b \<noteq> k" using assms(2) b by auto
    ultimately show ?thesis using sint_inject64 [of "fst b" k] by linarith
  qed
  have lt: "sint (fst a) < sint k" if "a \<in> set ?t" for a using set_takeWhileD [OF that] by simp
  have "sint (fst a) < sint (fst b)" if "a \<in> set ?t" "b \<in> set ?d" for a b
    using lt [OF that(1)] ge [OF that(2)] by linarith
  then show ?thesis
    unfolding ins_entry_def sorted_keys_append sorted_keys_Cons using split ge lt by simp
qed

lemma map_of_ins_entry:
  assumes "sorted_keys es" "k \<notin> fst ` set es"
  shows "map_of (ins_entry k v es) = (map_of es)(k \<mapsto> v)"
proof -
  have "map_of es = map_of (dropWhile (key_lt k) es) ++ map_of (takeWhile (key_lt k) es)"
    by (metis map_of_append takeWhile_dropWhile_id)
  moreover have "map_of (takeWhile (key_lt k) es) k = None"
    using assms(2) by (auto simp: map_of_eq_None_iff dest: set_takeWhileD)
  ultimately show ?thesis by (auto simp: ins_entry_def map_add_def fun_eq_iff split: option.splits)
qed

lemma map_of_del_entry: "map_of (del_entry k es) = (map_of es)(k := None)"
  by (induction es) (auto simp: del_entry_def fun_eq_iff)

lemma del_entry_nth:
  assumes "sorted_keys es" "i < length es" "fst (es ! i) = k"
  shows "del_entry k es = take i es @ drop (Suc i) es"
proof -
  have es: "es = take i es @ es ! i # drop (Suc i) es" using assms(2) by (simp add: id_take_nth_drop)
  have "k \<notin> fst ` set (take i es)" "k \<notin> fst ` set (drop (Suc i) es)"
    using sorted_keys_distinct [OF assms(1)] assms(3) by (subst (asm) es; auto)+
  then have "filter (\<lambda>e. fst e \<noteq> k) (take i es) = take i es"
    "filter (\<lambda>e. fst e \<noteq> k) (drop (Suc i) es) = drop (Suc i) es" by (auto simp: filter_id_conv)
  then show ?thesis using assms(3) by (subst es) (simp add: del_entry_def)
qed

lemma sorted_del_entry: "sorted_keys es \<Longrightarrow> sorted_keys (del_entry k es)"
  by (simp add: sorted_keys_def del_entry_def sorted_wrt_filter)

section \<open>Binary search\<close>

text \<open>On an interval where \<open>below\<close> holds exactly under the bound \<open>r\<close>, the search returns \<open>r\<close>.\<close>

lemma bin_search_ok:
  assumes "low \<le> r" "r \<le> high + 1" "\<And>i. low \<le> i \<Longrightarrow> i \<le> high \<Longrightarrow> below i = Some (i < r)"
  shows "bin_search below low high = Some r"
  using assms
proof (induction below low high rule: bin_search.induct)
  case (1 below low high)
  show ?case
  proof (cases "low \<le> high")
    case True
    define mid where "mid = low + (high - low) div 2"
    have mid: "low \<le> mid" "mid \<le> high" using True by (auto simp: mid_def)
    have b: "below mid = Some (mid < r)" using 1(5) mid by simp
    show ?thesis
    proof (cases "mid < r")
      case True
      have "bin_search below (mid + 1) high = Some r"
        by (rule 1(1) [OF \<open>low \<le> high\<close> mid_def b]) (use True mid 1(3-5) in auto)
      then show ?thesis using \<open>low \<le> high\<close> b True by (subst bin_search.simps) (simp add: mid_def [symmetric])
    next
      case False
      have "bin_search below low (mid - 1) = Some r"
        by (rule 1(2) [OF \<open>low \<le> high\<close> mid_def b]) (use False mid 1(3-5) in auto)
      then show ?thesis using \<open>low \<le> high\<close> b False by (subst bin_search.simps) (simp add: mid_def [symmetric])
    qed
  next
    case False
    then show ?thesis using 1(3,4) by (subst bin_search.simps) simp
  qed
qed

section \<open>Operations of a leaf\<close>

lemma leaf_nodeD:
  assumes "leaf_node p par nxt es d"
  shows "page_sized d" "IsLeafPage d" "GetMaxSize d = 253" "Node_GetPageId d = p" "GetParentPageId d = par"
    "Leaf_GetNextPageId d = nxt" "GetSize d = int (length es)" "length es \<le> 254" "leaf.at_least d es"
  using assms by (simp_all add: leaf_node_def)

lemma leaf_node_entry:
  assumes "leaf_node p par nxt es d" "i < length es"
  shows "leaf_rd d (int i) = Some (es ! i)" "Leaf_KeyAt d (int i) = Some (fst (es ! i))"
    "Leaf_ValueAt d (int i) = Some (snd (es ! i))"
proof -
  show rd: "leaf_rd d (int i) = Some (es ! i)" using assms by (simp add: leaf_node_def leaf.at_least_def)
  show "Leaf_KeyAt d (int i) = Some (fst (es ! i))" "Leaf_ValueAt d (int i) = Some (snd (es ! i))"
    using rd by (cases "es ! i"; auto simp: leaf_rd_def split: option.splits)+
qed

text \<open>A page whose header agrees but for the size, and which holds the entries, is a node again.\<close>

lemma leaf_node_resize:
  assumes n: "leaf_node p par nxt es d" and d': "page_sized d'" "node_header d' = node_header d"
    and es': "leaf.at_least d' es'" "length es' \<le> 254"
  shows "leaf_node p par nxt es' (SetSize (int (length es')) d')"
  using leaf_nodeD [OF n] d' es' getters_header [OF d'(2)]
  by (simp add: leaf_node_def node_simps leaf.at_least_def)

lemma leaf_key_index:
  assumes n: "leaf_node p par nxt es d" and s: "sorted_keys es"
  shows "Leaf_KeyIndex key d = Some (int (prefix_len (key_lt key) es))"
  unfolding Leaf_KeyIndex_def leaf_nodeD(7) [OF n]
proof (rule bin_search_ok)
  fix i assume "0 \<le> i" "i \<le> int (length es) - 1"
  then obtain m where m: "i = int m" "m < length es" using index_cases [of i "length es"] by auto
  then show "map_option (\<lambda>k. sint k < sint key) (Leaf_KeyAt d i) = Some (i < int (prefix_len (key_lt key) es))"
    using leaf_node_entry(2) [OF n m(2)] key_cut_iff [OF s m(2), of key] by simp
qed (use cut_le [of "key_lt key" es] in auto)

lemma leaf_find_eq:
  assumes n: "leaf_node p par nxt es d" and s: "sorted_keys es"
  shows "leaf_find key d = Some (int (prefix_len (key_lt key) es), key \<in> fst ` set es)"
proof (cases "prefix_len (key_lt key) es < length es")
  case True
  then show ?thesis
    using leaf_key_index [OF n s] leaf_nodeD(7) [OF n] leaf_node_entry(2) [OF n True] key_at_cut [OF s, of key]
    by (simp add: leaf_find_def)
next
  case False
  then show ?thesis
    using leaf_key_index [OF n s] leaf_nodeD(7) [OF n] key_at_cut [OF s, of key] by (simp add: leaf_find_def)
qed

lemma leaf_lookup_eq:
  assumes n: "leaf_node p par nxt es d" and s: "sorted_keys es"
  shows "Leaf_Lookup key d = Some (map_of es key)"
proof (cases "key \<in> fst ` set es")
  case True
  let ?c = "prefix_len (key_lt key) es"
  have c: "?c < length es" "fst (es ! ?c) = key" using key_at_cut [OF s] True by blast+
  then have "map_of es key = Some (snd (es ! ?c))"
    using sorted_keys_distinct [OF s] by (metis map_of_is_SomeI nth_mem prod.collapse)
  then show ?thesis
    using leaf_find_eq [OF n s] True leaf_node_entry(3) [OF n c(1)] by (simp add: Leaf_Lookup_def)
next
  case False
  then have "map_of es key = None" by (simp add: map_of_eq_None_iff)
  then show ?thesis using leaf_find_eq [OF n s] False by (simp add: Leaf_Lookup_def)
qed

lemma leaf_insert_dup:
  assumes "leaf_node p par nxt es d" "sorted_keys es" "key \<in> fst ` set es"
  shows "Leaf_Insert key v d = Some (int (length es), d)"
  using leaf_find_eq [OF assms(1,2)] assms(3) leaf_nodeD(7) [OF assms(1)] by (simp add: Leaf_Insert_def)

lemma leaf_insert_new:
  assumes n: "leaf_node p par nxt es d" and s: "sorted_keys es" and key: "key \<notin> fst ` set es"
    and room: "length es < 254"
  shows "\<exists>d'. Leaf_Insert key v d = Some (int (Suc (length es)), d') \<and> leaf_node p par nxt (ins_entry key v es) d'"
proof -
  let ?c = "prefix_len (key_lt key) es"
  note D = leaf_nodeD [OF n]
  obtain d1 d2 where d: "shift_up leaf_rd leaf_wr (int (length es)) (int ?c) d = Some d1"
     "leaf_wr d1 (int ?c) (key, v) = Some d2" "page_sized d2" "node_header d2 = node_header d"
     "leaf.at_least d2 (take ?c es @ (key, v) # drop ?c es)"
    using leaf.insert_at [OF D(1,9) cut_le [of "key_lt key"], where e = "(key, v)"] room by (auto simp: leaf_cap_def)
  have es': "take ?c es @ (key, v) # drop ?c es = ins_entry key v es"
    by (simp add: ins_entry_def take_cut drop_cut)
  have n': "leaf_node p par nxt (ins_entry key v es) (SetSize (int (length (ins_entry key v es))) d2)"
    by (rule leaf_node_resize [OF n d(3,4)]) (use d(5) es' room in \<open>simp_all add: length_ins_entry\<close>)
  have "IncreaseSize 1 d2 = SetSize (int (length (ins_entry key v es))) d2"
    using getters_header(2) [OF d(4)] D(7) by (simp add: IncreaseSize_def length_ins_entry add.commute)
  then show ?thesis
    using leaf_find_eq [OF n s, of key] key d D(7) n' leaf_nodeD(7) [OF n'] room
    by (simp add: Leaf_Insert_def length_ins_entry)
qed

lemma leaf_remove_at:
  assumes n: "leaf_node p par nxt es d" and i: "i < length es"
  shows "\<exists>d'. Leaf_RemoveAt (int i) d = Some d' \<and> leaf_node p par nxt (take i es @ drop (Suc i) es) d'"
proof -
  note D = leaf_nodeD [OF n]
  let ?es = "take i es @ drop (Suc i) es"
  obtain d1 where d: "shift_down leaf_rd leaf_wr (int i) (int (length es) - 1) d = Some d1" "page_sized d1"
     "node_header d1 = node_header d" "leaf.at_least d1 ?es"
    using leaf.remove_at [OF D(1,9) i] D(8) by (auto simp: leaf_cap_def)
  have len: "length ?es = length es - 1" using i by simp
  have "leaf_node p par nxt ?es (SetSize (int (length ?es)) d1)"
    by (rule leaf_node_resize [OF n d(2,3,4)]) (use D(8) in simp)
  moreover have "IncreaseSize (-1) d1 = SetSize (int (length ?es)) d1"
    unfolding len using getters_header(2) [OF d(3)] D(7) i by (simp add: IncreaseSize_def of_nat_diff)
  ultimately show ?thesis using d(1) D(7) by (simp add: Leaf_RemoveAt_def)
qed

lemma leaf_remove_eq:
  assumes n: "leaf_node p par nxt es d" and s: "sorted_keys es"
  shows "\<exists>d'. Leaf_Remove key d = Some (key \<in> fst ` set es, d') \<and> leaf_node p par nxt (del_entry key es) d' \<and>
     (key \<notin> fst ` set es \<longrightarrow> d' = d)"
proof (cases "key \<in> fst ` set es")
  case True
  let ?c = "prefix_len (key_lt key) es"
  have c: "?c < length es" "fst (es ! ?c) = key" using key_at_cut [OF s] True by blast+
  then show ?thesis
    using leaf_remove_at [OF n c(1)] leaf_find_eq [OF n s, of key] True del_entry_nth [OF s c]
    by (auto simp: Leaf_Remove_def)
next
  case False
  then have "del_entry key es = es" by (auto simp: del_entry_def filter_id_conv)
  then show ?thesis using leaf_find_eq [OF n s, of key] False n by (simp add: Leaf_Remove_def)
qed

lemma leaf_init:
  assumes "page_sized d"
  shows "leaf_node p par INVALID_PAGE_ID [] (Leaf_Init p par 253 d)"
  using assms by (simp add: leaf_node_def Leaf_Init_def node_simps leaf.at_least_def)

lemma half_int: "half (int n) = int (n div 2)"
  by (simp add: half_def zdiv_int)

text \<open>The number of entries that stay behind when a node is split.\<close>

definition kept :: "nat \<Rightarrow> nat" where
  "kept n = n - n div 2"

lemma leaf_move_half:
  assumes n: "leaf_node p par nxt es d" and r: "leaf_node q par' nxt' [] r"
  shows "\<exists>d' r'. Leaf_MoveHalfTo d r = Some (d', r') \<and> leaf_node p par nxt (take (kept (length es)) es) d' \<and>
     leaf_node q par' nxt' (drop (kept (length es)) es) r'"
proof -
  note D = leaf_nodeD [OF n] and R = leaf_nodeD [OF r]
  let ?k = "kept (length es)"
  have k: "?k \<le> length es" "length es - ?k = length es div 2" by (auto simp: kept_def)
  have kle: "length es div 2 \<le> 254" using D by linarith
  have si: "int (length es) - int (length es div 2) = int ?k" by (simp add: kept_def of_nat_diff)
  obtain r1 where r1: "copy_entries leaf_rd leaf_wr d (- int ?k) (int ?k) (int (length es)) r = Some r1"
     "page_sized r1" "node_header r1 = node_header r" "leaf.at_least r1 (drop ?k es)"
    using leaf.copy_at_end [OF R(1,9) D(9) k(1)] D(8) k(2) kle by (auto simp: leaf_cap_def)
  have "leaf_node q par' nxt' (drop ?k es) (SetSize (int (length (drop ?k es))) r1)"
    by (rule leaf_node_resize [OF r r1(2-4)]) (use D(8) in simp)
  moreover have "leaf_node p par nxt (take ?k es) (SetSize (int (length (take ?k es))) d)"
    by (rule leaf_node_resize [OF n D(1) refl leaf.at_least_take [OF D(9)]]) (use D(8) in simp)
  ultimately show ?thesis
    unfolding Leaf_MoveHalfTo_def Let_def D(7) half_int si using r1(1) k by (simp add: min_absorb2)
qed

lemma leaf_set_next:
  "leaf_node p par nxt es d \<Longrightarrow> leaf_node p par nxt' es (Leaf_SetNextPageId nxt' d)"
  by (simp add: leaf_node_def node_simps leaf.at_least_def)

lemma leaf_set_parent:
  "leaf_node p par nxt es d \<Longrightarrow> leaf_node p par' nxt es (SetParentPageId par' d)"
  by (simp add: leaf_node_def node_simps leaf.at_least_def)

lemma leaf_move_all:
  assumes n: "leaf_node p par nxt es d" and r: "leaf_node q par' nxt' xs r" and room: "length xs + length es \<le> 254"
  shows "\<exists>d' r'. Leaf_MoveAllTo d r = Some (d', r') \<and> leaf_node p par nxt [] d' \<and> leaf_node q par' nxt (xs @ es) r'"
proof -
  note D = leaf_nodeD [OF n] and R = leaf_nodeD [OF r]
  obtain r1 where r1: "copy_entries leaf_rd leaf_wr d (int (length xs)) 0 (int (length es)) r = Some r1"
     "page_sized r1" "node_header r1 = node_header r" "leaf.at_least r1 (xs @ es)"
    using leaf.copy_at_end [OF R(1,9) D(9), of 0] D(8) room by (auto simp: leaf_cap_def)
  have "leaf_node q par' nxt' (xs @ es) (SetSize (int (length (xs @ es))) r1)"
    by (rule leaf_node_resize [OF r r1(2-4)]) (use room in simp)
  from leaf_set_next [OF this, of nxt] have "leaf_node q par' nxt (xs @ es) (Leaf_SetNextPageId nxt (SetSize (int (length (xs @ es))) r1))" .
  moreover have "leaf_node p par nxt [] (SetSize (int (length ([] :: leaf_entry list))) d)"
    by (rule leaf_node_resize [OF n D(1) refl]) (simp_all add: leaf.at_least_def)
  moreover have "IncreaseSize (int (length es)) r1 = SetSize (int (length (xs @ es))) r1"
    using getters_header(2) [OF r1(3)] R(7) by (simp add: IncreaseSize_def)
  ultimately show ?thesis using r1(1) D(6,7) R(7) by (simp add: Leaf_MoveAllTo_def)
qed

text \<open>Redistribution inserts by key, which puts the entry at the right end of the recipient.\<close>

lemma ins_entry_front:
  assumes "\<forall>e \<in> set es. sint k < sint (fst e)"
  shows "ins_entry k v es = (k, v) # es"
proof -
  have "takeWhile (key_lt k) es = []" "dropWhile (key_lt k) es = es"
    using assms by (cases es; auto)+
  then show ?thesis by (simp add: ins_entry_def)
qed

lemma ins_entry_back:
  assumes "\<forall>e \<in> set es. sint (fst e) < sint k"
  shows "ins_entry k v es = es @ [(k, v)]"
  using assms by (simp add: ins_entry_def)

lemma leaf_move_first:
  assumes n: "leaf_node p par nxt (e # es) d" and r: "leaf_node q par' nxt' xs r" and s: "sorted_keys (xs @ [e])"
    and room: "length xs < 254"
  shows "\<exists>d' r'. Leaf_MoveFirstToEndOf d r = Some (d', r') \<and> leaf_node p par nxt es d' \<and>
     leaf_node q par' nxt' (xs @ [e]) r'"
proof -
  obtain k v where e: "e = (k, v)" by (cases e)
  have lt: "sorted_keys xs" "\<forall>a \<in> set xs. sint (fst a) < sint k" "k \<notin> fst ` set xs"
    using s by (auto simp: sorted_keys_append e)
  obtain r' where "Leaf_Insert k v r = Some (int (Suc (length xs)), r')" "leaf_node q par' nxt' (xs @ [e]) r'"
    using leaf_insert_new [OF r lt(1,3) room, of v] ins_entry_back [OF lt(2), of v] e by auto
  moreover have "leaf_rd d 0 = Some (k, v)" using leaf_node_entry(1) [OF n, of 0] e by simp
  ultimately show ?thesis using leaf_remove_at [OF n, of 0] by (auto simp: Leaf_MoveFirstToEndOf_def)
qed

lemma leaf_move_last:
  assumes n: "leaf_node p par nxt (es @ [e]) d" and r: "leaf_node q par' nxt' xs r" and s: "sorted_keys (e # xs)"
    and room: "length xs < 254"
  shows "\<exists>d' r'. Leaf_MoveLastToFrontOf d r = Some (d', r') \<and> leaf_node p par nxt es d' \<and>
     leaf_node q par' nxt' (e # xs) r'"
proof -
  obtain k v where e: "e = (k, v)" by (cases e)
  have lt: "sorted_keys xs" "\<forall>a \<in> set xs. sint k < sint (fst a)" "k \<notin> fst ` set xs"
    using s by (auto simp: sorted_keys_Cons e)
  obtain r' where r': "Leaf_Insert k v r = Some (int (Suc (length xs)), r')" "leaf_node q par' nxt' (e # xs) r'"
    using leaf_insert_new [OF r lt(1,3) room, of v] ins_entry_front [OF lt(2), of v] e by auto
  have sz: "GetSize d - 1 = int (length es)" using leaf_nodeD(7) [OF n] by simp
  have "leaf_rd d (int (length es)) = Some (k, v)" using leaf_node_entry(1) [OF n, of "length es"] e by simp
  then show ?thesis
    using leaf_remove_at [OF n, of "length es"] r' sz by (auto simp: Leaf_MoveLastToFrontOf_def)
qed

section \<open>Operations of an inner node\<close>

lemma inner_nodeD:
  assumes "inner_node p par cs d"
  shows "page_sized d" "\<not> IsLeafPage d" "GetMaxSize d = 338" "Node_GetPageId d = p" "GetParentPageId d = par"
    "GetSize d = int (length cs)" "length cs \<le> 339" "inner.at_least d cs"
  using assms by (simp_all add: inner_node_def)

lemma inner_rd_parts:
  assumes "inner_rd d i = Some e"
  shows "Internal_KeyAt d i = Some (fst e)" "Internal_ValueAt d i = Some (snd e)"
  using assms by (cases e; auto simp: inner_rd_def split: option.splits)+

lemma inner_node_entry:
  assumes "inner_node p par cs d" "i < length cs"
  shows "inner_rd d (int i) = Some (cs ! i)" "Internal_KeyAt d (int i) = Some (fst (cs ! i))"
    "Internal_ValueAt d (int i) = Some (snd (cs ! i))"
proof -
  show rd: "inner_rd d (int i) = Some (cs ! i)" using assms by (simp add: inner_node_def inner.at_least_def)
  show "Internal_KeyAt d (int i) = Some (fst (cs ! i))" "Internal_ValueAt d (int i) = Some (snd (cs ! i))"
    using inner_rd_parts [OF rd] by simp_all
qed

lemma inner_node_resize:
  assumes n: "inner_node p par cs d" and d': "page_sized d'" "node_header d' = node_header d"
    and cs': "inner.at_least d' cs'" "length cs' \<le> 339"
  shows "inner_node p par cs' (SetSize (int (length cs')) d')"
  using inner_nodeD [OF n] d' cs' getters_header [OF d'(2)]
  by (simp add: inner_node_def node_simps inner.at_least_def)

lemma inner_node_same:
  assumes n: "inner_node p par cs d" and d': "page_sized d'" "node_header d' = node_header d"
    and cs': "inner.at_least d' cs'" "length cs' = length cs"
  shows "inner_node p par cs' d'"
  using inner_nodeD [OF n] d' cs' getters_header [OF d'(2)] by (simp add: inner_node_def)

abbreviation key_le :: "64 word \<Rightarrow> 64 word \<times> 'a \<Rightarrow> bool" where
  "key_le key e \<equiv> sint (fst e) \<le> sint key"

text \<open>Descent: the child behind the last separator that is not above the key.\<close>

lemma inner_lookup_eq:
  assumes n: "inner_node p par (c # cs) d" and s: "sorted_wrt (\<lambda>a b. sint (fst a) \<le> sint (fst b)) cs"
  shows "Internal_Lookup key d = Some (snd ((c # cs) ! prefix_len (key_le key) cs))"
proof -
  let ?r = "prefix_len (key_le key) cs"
  have "bin_search (\<lambda>mid. map_option (\<lambda>k. sint k \<le> sint key) (Internal_KeyAt d mid)) 1 (GetSize d - 1) = Some (int ?r + 1)"
  proof (rule bin_search_ok)
    fix i assume "1 \<le> i" "i \<le> GetSize d - 1"
    then have "0 \<le> i - 1" "i - 1 < int (length cs)" using inner_nodeD(6) [OF n] by simp_all
    then obtain m where "i - 1 = int m" "m < length cs" by (rule index_cases)
    then have m: "i = int m + 1" "m < length cs" by simp_all
    have "Internal_KeyAt d i = Some (fst (cs ! m))"
      using inner_node_entry(2) [OF n, of "Suc m"] m by (simp add: add.commute)
    moreover have "key_le key (cs ! m) \<longleftrightarrow> m < ?r"
      by (rule cut_iff [OF s _ m(2)]) auto
    ultimately show "map_option (\<lambda>k. sint k \<le> sint key) (Internal_KeyAt d i) = Some (i < int ?r + 1)"
      using m(1) by auto
  qed (use cut_le [of "key_le key" cs] inner_nodeD(6) [OF n] in auto)
  then show ?thesis
    using inner_node_entry(3) [OF n, of ?r] cut_le [of "key_le key" cs] by (simp add: Internal_Lookup_def)
qed

lemma inner_find_value_from:
  assumes n: "inner_node p par (ls @ (k, v) # rs) d" and v: "v \<notin> snd ` set ls" and i: "i \<le> length ls"
  shows "inner_find_value d v (int i) = Some (int (length ls))"
  using i
proof (induction "length ls - i" arbitrary: i)
  case 0
  then have i: "i = length ls" by simp
  show ?case
    using inner_node_entry(3) [OF n, of i] inner_nodeD(6) [OF n] unfolding i
    by (subst inner_find_value.simps) simp
next
  case (Suc m)
  then have lt: "i < length ls" by simp
  have "inner_find_value d v (int (Suc i)) = Some (int (length ls))" by (rule Suc(1)) (use Suc(2) lt in auto)
  moreover have "snd (ls ! i) \<noteq> v" using v lt by (metis imageI nth_mem)
  ultimately show ?case
    using inner_node_entry(3) [OF n, of i] inner_nodeD(6) [OF n] lt
    by (subst inner_find_value.simps) (simp add: nth_append add.commute)
qed

lemma inner_find:
  assumes "inner_node p par (ls @ (k, v) # rs) d" "v \<notin> snd ` set ls"
  shows "inner_find_value d v 0 = Some (int (length ls))"
  using inner_find_value_from [OF assms, of 0] by simp

lemma inner_insert_after:
  assumes n: "inner_node p par (ls @ (k, v) # rs) d" and v: "v \<notin> snd ` set ls"
    and room: "length (ls @ (k, v) # rs) < 339"
  shows "\<exists>d'. Internal_InsertNodeAfter v k' v' d = Some d' \<and> inner_node p par (ls @ (k, v) # (k', v') # rs) d'"
proof -
  note D = inner_nodeD [OF n]
  let ?cs = "ls @ (k, v) # rs" and ?i = "Suc (length ls)"
  have tk: "take ?i ?cs @ (k', v') # drop ?i ?cs = ls @ (k, v) # (k', v') # rs" by simp
  obtain d1 d2 where d: "shift_up inner_rd inner_wr (int (length ?cs)) (int ?i) d = Some d1"
     "inner_wr d1 (int ?i) (k', v') = Some d2" "page_sized d2" "node_header d2 = node_header d"
     "inner.at_least d2 (ls @ (k, v) # (k', v') # rs)"
    using inner.insert_at [OF D(1,8), of ?i "(k', v')"] room unfolding tk by (auto simp: inner_cap_def)
  have "inner_node p par (ls @ (k, v) # (k', v') # rs) (SetSize (int (length (ls @ (k, v) # (k', v') # rs))) d2)"
    by (rule inner_node_resize [OF n d(3-5)]) (use room in simp)
  moreover have "IncreaseSize 1 d2 = SetSize (int (length (ls @ (k, v) # (k', v') # rs))) d2"
    using getters_header(2) [OF d(4)] D(6) by (simp add: IncreaseSize_def add.commute)
  ultimately show ?thesis
    using inner_find [OF n v] d(1,2) D(6) by (simp add: Internal_InsertNodeAfter_def add.commute)
qed

lemma inner_init:
  assumes "page_sized d"
  shows "inner_node p par [] (Internal_Init p par 338 d)"
  using assms by (simp add: inner_node_def Internal_Init_def node_simps inner.at_least_def)

lemma inner_set_parent:
  "inner_node p par cs d \<Longrightarrow> inner_node p par' cs (SetParentPageId par' d)"
  by (simp add: inner_node_def node_simps inner.at_least_def)

lemma inner_populate:
  assumes n: "inner_node p par [] d"
  shows "\<exists>d' k0. Internal_Populate v0 k1 v1 d = Some d' \<and> inner_node p par [(k0, v0), (k1, v1)] d'"
proof -
  note D = inner_nodeD [OF n]
  obtain e0 where e0: "inner_rd d 0 = Some e0" using inner_rd_some [of 0 d] by (auto simp: inner_cap_def)
  obtain d1 where d1: "Internal_SetValueAt 0 v0 d = Some d1" "page_sized d1" "node_header d1 = node_header d"
     "inner_rd d1 = (inner_rd d)(0 := map_option (\<lambda>e. (fst e, v0)) (inner_rd d 0))"
    using inner_value_ok [OF D(1), of 0 v0] by (auto simp: inner_cap_def)
  obtain d2 where d2: "inner_wr d1 1 (k1, v1) = Some d2" "page_sized d2" "node_header d2 = node_header d1"
     "inner_rd d2 = (inner_rd d1)(1 := Some (k1, v1))"
    using inner_wr_ok [OF d1(2), of 1 "(k1, v1)"] by (auto simp: inner_cap_def)
  have "inner.at_least d2 [(fst e0, v0), (k1, v1)]"
    using d1(4) d2(4) e0 by (auto simp: inner.at_least_def less_Suc_eq)
  from inner_node_resize [OF n d2(2) _ this] have "inner_node p par [(fst e0, v0), (k1, v1)] (SetSize 2 d2)"
    using d1(3) d2(3) by simp
  then show ?thesis using d1(1) d2(1) by (auto simp: Internal_Populate_def)
qed

lemma inner_set_key:
  assumes n: "inner_node p par (ls @ (k, v) # rs) d"
  shows "\<exists>d'. Internal_SetKeyAt (int (length ls)) k' d = Some d' \<and> inner_node p par (ls @ (k', v) # rs) d'"
proof -
  note D = inner_nodeD [OF n]
  let ?i = "length ls"
  have i: "inner_rd d (int ?i) = Some (k, v)" using inner_node_entry(1) [OF n, of ?i] by simp
  obtain d' where d': "Internal_SetKeyAt (int ?i) k' d = Some d'" "page_sized d'" "node_header d' = node_header d"
     "inner_rd d' = (inner_rd d)(int ?i := map_option (\<lambda>e. (k', snd e)) (inner_rd d (int ?i)))"
    using inner_key_ok [OF D(1), of "int ?i" k'] D(7) by (auto simp: inner_cap_def)
  have "inner.at_least d' (ls @ (k', v) # rs)"
    using D(8) i by (auto simp: inner.at_least_def d'(4) nth_append nth_Cons')
  from inner_node_same [OF n d'(2,3) this] show ?thesis using d'(1) by simp
qed

lemma inner_move_half:
  assumes n: "inner_node p par cs d" and r: "inner_node q par' [] r"
  shows "\<exists>d' r'. Internal_MoveHalfTo d r = Some (d', r') \<and> inner_node p par (take (kept (length cs)) cs) d' \<and>
     inner_node q par' (drop (kept (length cs)) cs) r'"
proof -
  note D = inner_nodeD [OF n] and R = inner_nodeD [OF r]
  let ?k = "kept (length cs)"
  have k: "?k \<le> length cs" "length cs - ?k = length cs div 2" by (auto simp: kept_def)
  have kle: "length cs div 2 \<le> 339" using D by linarith
  have si: "int (length cs) - int (length cs div 2) = int ?k" by (simp add: kept_def of_nat_diff)
  obtain r1 where r1: "copy_entries inner_rd inner_wr d (- int ?k) (int ?k) (int (length cs)) r = Some r1"
     "page_sized r1" "node_header r1 = node_header r" "inner.at_least r1 (drop ?k cs)"
    using inner.copy_at_end [OF R(1,8) D(8) k(1)] D(7) k(2) kle by (auto simp: inner_cap_def)
  have "inner_node q par' (drop ?k cs) (SetSize (int (length (drop ?k cs))) r1)"
    by (rule inner_node_resize [OF r r1(2-4)]) (use D(7) in simp)
  moreover have "inner_node p par (take ?k cs) (SetSize (int (length (take ?k cs))) d)"
    by (rule inner_node_resize [OF n D(1) refl inner.at_least_take [OF D(8)]]) (use D(7) in simp)
  ultimately show ?thesis
    unfolding Internal_MoveHalfTo_def Let_def D(6) half_int si using r1(1) k by (simp add: min_absorb2)
qed

lemma inner_shift_down:
  assumes n: "inner_node p par (ls @ e # rs) d"
  shows "\<exists>d'. shift_down inner_rd inner_wr (int (length ls)) (GetSize d - 1) d = Some d' \<and>
     inner_node p par (ls @ rs) (IncreaseSize (-1) d')"
proof -
  note D = inner_nodeD [OF n]
  have tk: "take (length ls) (ls @ e # rs) @ drop (Suc (length ls)) (ls @ e # rs) = ls @ rs" by simp
  obtain d1 where d: "shift_down inner_rd inner_wr (int (length ls)) (int (length (ls @ e # rs)) - 1) d = Some d1"
     "page_sized d1" "node_header d1 = node_header d" "inner.at_least d1 (ls @ rs)"
    using inner.remove_at [OF D(1,8), of "length ls"] D(7) unfolding tk by (auto simp: inner_cap_def)
  have "inner_node p par (ls @ rs) (SetSize (int (length (ls @ rs))) d1)"
    by (rule inner_node_resize [OF n d(2,3,4)]) (use D(7) in simp)
  moreover have "IncreaseSize (-1) d1 = SetSize (int (length (ls @ rs))) d1"
    using getters_header(2) [OF d(3)] D(6) by (simp add: IncreaseSize_def)
  ultimately show ?thesis using d(1) D(6) by simp
qed

lemma inner_remove:
  assumes "inner_node p par (ls @ e # rs) d"
  shows "\<exists>d'. Internal_Remove (int (length ls)) d = Some d' \<and> inner_node p par (ls @ rs) d'"
  using inner_shift_down [OF assms] by (auto simp: Internal_Remove_def)

text \<open>Appending one entry, the first step of a merge or a move to the left.\<close>

lemma inner_push:
  assumes r: "inner_node q par xs r" and room: "length xs < 339"
  shows "\<exists>r'. inner_wr r (GetSize r) e = Some r' \<and> page_sized r' \<and> node_header r' = node_header r \<and>
     inner.at_least r' (xs @ [e])"
proof -
  note R = inner_nodeD [OF r]
  obtain r' where r': "inner_wr r (int (length xs)) e = Some r'" "page_sized r'" "node_header r' = node_header r"
     "inner_rd r' = (inner_rd r)(int (length xs) := Some e)"
    using inner_wr_ok [OF R(1), of "int (length xs)" e] room by (auto simp: inner_cap_def)
  then show ?thesis
    using R(6,8) by (auto simp: inner.at_least_def nth_append less_Suc_eq)
qed

lemma inner_move_all:
  assumes n: "inner_node p par ((k0, v0) # cs) d" and r: "inner_node q par' xs r"
    and room: "length xs + Suc (length cs) \<le> 339"
  shows "\<exists>d' r'. Internal_MoveAllTo pk d r = Some (d', r') \<and> inner_node p par [] d' \<and>
     inner_node q par' (xs @ (pk, v0) # cs) r'"
proof -
  note D = inner_nodeD [OF n] and R = inner_nodeD [OF r]
  obtain r1 where r1: "inner_wr r (GetSize r) (pk, v0) = Some r1" "page_sized r1" "node_header r1 = node_header r"
     "inner.at_least r1 (xs @ [(pk, v0)])"
    using inner_push [OF r, of "(pk, v0)"] room by auto
  obtain r2 where r2: "copy_entries inner_rd inner_wr d (int (length xs)) 1 (int (length ((k0, v0) # cs))) r1 = Some r2"
     "page_sized r2" "node_header r2 = node_header r1" "inner.at_least r2 (xs @ (pk, v0) # cs)"
    using inner.copy_at_end [OF r1(2,4) D(8), of 1] D(7) room by (auto simp: inner_cap_def)
  have h: "node_header r2 = node_header r" using r1(3) r2(3) by simp
  have "inner_node q par' (xs @ (pk, v0) # cs) (SetSize (int (length (xs @ (pk, v0) # cs))) r2)"
    by (rule inner_node_resize [OF r r2(2) h r2(4)]) (use room in simp)
  moreover have "inner_node p par [] (SetSize (int (length ([] :: inner_entry list))) d)"
    by (rule inner_node_resize [OF n D(1) refl]) (simp_all add: inner.at_least_def)
  moreover have "IncreaseSize (GetSize d) r2 = SetSize (int (length (xs @ (pk, v0) # cs))) r2"
    using getters_header(2) [OF h] R(6) D(6) by (simp add: IncreaseSize_def algebra_simps)
  moreover have "Internal_ValueAt d 0 = Some v0" using inner_node_entry(3) [OF n, of 0] by simp
  ultimately show ?thesis using r1(1) r2(1) D(6) R(6) by (simp add: Internal_MoveAllTo_def)
qed

lemma inner_move_first:
  assumes n: "inner_node p par ((k0, v0) # cs) d" and r: "inner_node q par' xs r" and room: "length xs < 339"
  shows "\<exists>d' r'. Internal_MoveFirstToEndOf pk d r = Some (d', r') \<and> inner_node p par cs d' \<and>
     inner_node q par' (xs @ [(pk, v0)]) r'"
proof -
  note R = inner_nodeD [OF r]
  obtain r1 where r1: "inner_wr r (GetSize r) (pk, v0) = Some r1" "page_sized r1" "node_header r1 = node_header r"
     "inner.at_least r1 (xs @ [(pk, v0)])"
    using inner_push [OF r, of "(pk, v0)"] room by auto
  have "inner_node q par' (xs @ [(pk, v0)]) (SetSize (int (length (xs @ [(pk, v0)]))) r1)"
    by (rule inner_node_resize [OF r r1(2-4)]) (use room in simp)
  moreover have "IncreaseSize 1 r1 = SetSize (int (length (xs @ [(pk, v0)]))) r1"
    using getters_header(2) [OF r1(3)] R(6) by (simp add: IncreaseSize_def add.commute)
  moreover have "Internal_ValueAt d 0 = Some v0" using inner_node_entry(3) [OF n, of 0] by simp
  ultimately show ?thesis
    using r1(1) inner_shift_down [of p par "[]" "(k0, v0)" cs d] n by (auto simp: Internal_MoveFirstToEndOf_def)
qed

lemma inner_move_last:
  assumes n: "inner_node p par (cs @ [(k, v)]) d" and r: "inner_node q par' ((k0, v0) # xs) r"
    and room: "Suc (length xs) < 339"
  shows "\<exists>d' r'. Internal_MoveLastToFrontOf pk d r = Some (d', r') \<and> inner_node p par cs d' \<and>
     inner_node q par' ((k0, v) # (pk, v0) # xs) r'"
proof -
  note D = inner_nodeD [OF n] and R = inner_nodeD [OF r]
  let ?n = "int (length ((k0, v0) # xs))"
  obtain r1 where r1: "shift_up inner_rd inner_wr ?n 0 r = Some r1" "page_sized r1" "node_header r1 = node_header r"
     "inner_rd r1 = (\<lambda>j. if 0 < j \<and> j \<le> ?n then inner_rd r (j - 1) else inner_rd r j)"
    using inner.shift_up_ok [OF R(1), of 0 ?n] room by (auto simp: inner_cap_def)
  obtain r2 where r2: "Internal_SetKeyAt 1 pk r1 = Some r2" "page_sized r2" "node_header r2 = node_header r1"
     "inner_rd r2 = (inner_rd r1)(1 := map_option (\<lambda>e. (pk, snd e)) (inner_rd r1 1))"
    using inner_key_ok [OF r1(2), of 1 pk] by (auto simp: inner_cap_def)
  obtain r3 where r3: "Internal_SetValueAt 0 v r2 = Some r3" "page_sized r3" "node_header r3 = node_header r2"
     "inner_rd r3 = (inner_rd r2)(0 := map_option (\<lambda>e. (fst e, v)) (inner_rd r2 0))"
    using inner_value_ok [OF r2(2), of 0 v] by (auto simp: inner_cap_def)
  have ent: "inner_rd r (int j) = Some (((k0, v0) # xs) ! j)" if "j < Suc (length xs)" for j
    using inner_node_entry(1) [OF r, of j] that by simp
  have "inner_rd r3 (int j) = Some (((k0, v) # (pk, v0) # xs) ! j)" if j: "j < Suc (Suc (length xs))" for j
  proof -
    consider "j = 0" | "j = 1" | i where "j = Suc (Suc i)" by (cases j rule: nat.exhaust; metis One_nat_def old.nat.exhaust)
    then show ?thesis
    proof cases
      case 3
      then have "inner_rd r3 (int j) = inner_rd r (int (Suc i))" using j by (simp add: r3(4) r2(4) r1(4) algebra_simps)
      then show ?thesis using ent [of "Suc i"] 3 j by simp
    qed (use ent [of 0] in \<open>simp_all add: r3(4) r2(4) r1(4)\<close>)
  qed
  then have al: "inner.at_least r3 ((k0, v) # (pk, v0) # xs)" by (simp add: inner.at_least_def)
  have h: "node_header r3 = node_header r" using r1(3) r2(3) r3(3) by simp
  have "inner_node q par' ((k0, v) # (pk, v0) # xs) (SetSize (int (length ((k0, v) # (pk, v0) # xs))) r3)"
    by (rule inner_node_resize [OF r r3(2) h al]) (use room in simp)
  moreover have "IncreaseSize 1 r3 = SetSize (int (length ((k0, v) # (pk, v0) # xs))) r3"
    using getters_header(2) [OF h] R(6) by (simp add: IncreaseSize_def add.commute)
  moreover have "inner_node p par cs (SetSize (int (length cs)) d)"
    by (rule inner_node_resize [OF n D(1) refl]) (use D(7) inner.at_least_take [OF D(8), of "length cs"] in simp_all)
  moreover have "IncreaseSize (-1) d = SetSize (int (length cs)) d" using D(6) by (simp add: IncreaseSize_def)
  moreover have "Internal_ValueAt d (GetSize d - 1) = Some v"
    using inner_node_entry(3) [OF n, of "length cs"] D(6) by simp
  ultimately show ?thesis using r1(1) r2(1) r3(1) R(6) by (simp add: Internal_MoveLastToFrontOf_def)
qed

end
