(* ===== verification/BPlus_Shape.thy ===== *)
theory BPlus_Shape
  imports BPlus_Nodes "HOL-Library.Multiset"
begin

text \<open>
  The trees that the pages of an index form. A tree carries the page id of every node; \<open>desc\<close> lists
  what each of its pages has to contain (parent id, next leaf, entries) and \<open>sat\<close> says that a page
  store contains it. A context is the path from a node to the root, innermost step first: the code
  descends to a leaf and repairs the tree on the way back, so the proofs follow the path. \<open>bt_ok\<close> is
  the search-tree order with all leaves at the same depth, \<open>sized\<close> the bounds on the numbers of
  entries.
\<close>

section \<open>Trees and paths\<close>

datatype bt = Leaf page_id "leaf_entry list" | Node page_id "(64 word \<times> bt) list"

fun root_id :: "bt \<Rightarrow> page_id" where
  "root_id (Leaf p es) = p"
| "root_id (Node p cs) = p"

fun ids :: "bt \<Rightarrow> page_id list" and forest_ids :: "(64 word \<times> bt) list \<Rightarrow> page_id list" where
  "ids (Leaf p es) = [p]"
| "ids (Node p cs) = p # forest_ids cs"
| "forest_ids [] = []"
| "forest_ids ((k, t) # cs) = ids t @ forest_ids cs"

fun entries :: "bt \<Rightarrow> leaf_entry list" and forest_entries :: "(64 word \<times> bt) list \<Rightarrow> leaf_entry list" where
  "entries (Leaf p es) = es"
| "entries (Node p cs) = forest_entries cs"
| "forest_entries [] = []"
| "forest_entries ((k, t) # cs) = entries t @ forest_entries cs"

fun first_leaf :: "bt \<Rightarrow> page_id" where
  "first_leaf (Leaf p es) = p"
| "first_leaf (Node p []) = p"
| "first_leaf (Node p ((k, t) # cs)) = first_leaf t"

text \<open>The leaf that follows a list of subtrees \<open>cs\<close> from the left: the first one of \<open>cs\<close>, if any.\<close>

fun next_leaf :: "page_id \<Rightarrow> (64 word \<times> bt) list \<Rightarrow> page_id" where
  "next_leaf nxt [] = nxt"
| "next_leaf nxt ((k, t) # cs) = first_leaf t"

definition child_ids :: "(64 word \<times> bt) list \<Rightarrow> inner_entry list" where
  "child_ids cs = map (\<lambda>(k, t). (k, root_id t)) cs"

datatype node_desc = LeafD page_id page_id "leaf_entry list" | InnerD page_id "inner_entry list"

fun desc :: "page_id \<Rightarrow> page_id \<Rightarrow> bt \<Rightarrow> (page_id \<times> node_desc) list"
  and forest_desc :: "page_id \<Rightarrow> page_id \<Rightarrow> (64 word \<times> bt) list \<Rightarrow> (page_id \<times> node_desc) list" where
  "desc par nxt (Leaf p es) = [(p, LeafD par nxt es)]"
| "desc par nxt (Node p cs) = (p, InnerD par (child_ids cs)) # forest_desc p nxt cs"
| "forest_desc p nxt [] = []"
| "forest_desc p nxt ((k, t) # cs) = desc p (next_leaf nxt cs) t @ forest_desc p nxt cs"

fun node_ok :: "page_id \<Rightarrow> node_desc \<Rightarrow> byte list \<Rightarrow> bool" where
  "node_ok p (LeafD par nxt es) d = leaf_node p par nxt es d"
| "node_ok p (InnerD par cs) d = inner_node p par cs d"

definition sat :: "(page_id \<rightharpoonup> byte list) \<Rightarrow> (page_id \<times> node_desc) list \<Rightarrow> bool" where
  "sat S L \<longleftrightarrow> (\<forall>x \<in> set L. \<exists>d. S (fst x) = Some d \<and> node_ok (fst x) (snd x) d)"

lemma sat_simps [simp]:
  "sat S []"
  "sat S (x # L) \<longleftrightarrow> (\<exists>d. S (fst x) = Some d \<and> node_ok (fst x) (snd x) d) \<and> sat S L"
  "sat S (L @ L') \<longleftrightarrow> sat S L \<and> sat S L'"
  by (auto simp: sat_def)

lemma sat_cong: "sat S L \<Longrightarrow> (\<And>p. p \<in> fst ` set L \<Longrightarrow> S' p = S p) \<Longrightarrow> sat S' L"
  unfolding sat_def by (metis imageI)

lemma sat_upd [simp]: "p \<notin> fst ` set L \<Longrightarrow> sat (S(p := x)) L \<longleftrightarrow> sat S L"
  unfolding sat_def by (metis fun_upd_other imageI)

lemma sat_dom: "sat S L \<Longrightarrow> fst ` set L \<subseteq> dom S"
  unfolding sat_def by fastforce

lemma map_fst_desc:
  "map fst (desc par nxt t) = ids t" "map fst (forest_desc p nxt cs) = forest_ids cs"
  by (induction par nxt t and p nxt cs rule: desc_forest_desc.induct) auto

lemma fst_set_desc [simp]:
  "fst ` set (desc par nxt t) = set (ids t)" "fst ` set (forest_desc p nxt cs) = set (forest_ids cs)"
  using map_fst_desc(1) [of par nxt t] map_fst_desc(2) [of p nxt cs] by (metis list.set_map)+

lemma forest_append [simp]:
  "forest_ids (xs @ ys) = forest_ids xs @ forest_ids ys"
  "forest_entries (xs @ ys) = forest_entries xs @ forest_entries ys"
  "next_leaf nxt (xs @ ys) = next_leaf (next_leaf nxt ys) xs"
  "child_ids (xs @ ys) = child_ids xs @ child_ids ys"
  "forest_desc p nxt (xs @ ys) = forest_desc p (next_leaf nxt ys) xs @ forest_desc p nxt ys"
proof -
  show "next_leaf nxt (xs @ ys) = next_leaf (next_leaf nxt ys) xs" for nxt xs ys
    by (cases xs) auto
  then show "forest_desc p nxt (xs @ ys) = forest_desc p (next_leaf nxt ys) xs @ forest_desc p nxt ys"
    by (induction xs) auto
  show "forest_ids (xs @ ys) = forest_ids xs @ forest_ids ys"
    "forest_entries (xs @ ys) = forest_entries xs @ forest_entries ys"
    by (induction xs) auto
qed (simp add: child_ids_def)

lemma child_ids_simps [simp]:
  "child_ids [] = []" "child_ids ((k, t) # cs) = (k, root_id t) # child_ids cs" "length (child_ids cs) = length cs"
  by (simp_all add: child_ids_def)

lemma root_in_ids [simp]: "root_id t \<in> set (ids t)"
  by (cases t) auto

lemma child_ids_subset: "snd ` set (child_ids cs) \<subseteq> set (forest_ids cs)"
  by (induction cs) (auto, force)

lemma first_leaf_Node: "cs \<noteq> [] \<Longrightarrow> first_leaf (Node p cs) = next_leaf nxt cs"
  by (cases cs) auto

lemma forest_ids_mem: "(k, t) \<in> set cs \<Longrightarrow> set (ids t) \<subseteq> set (forest_ids cs)"
  by (induction cs) auto

text \<open>The store may only be changed at the root of a subtree: then only its header changes.\<close>

fun root_desc :: "page_id \<Rightarrow> page_id \<Rightarrow> bt \<Rightarrow> node_desc" where
  "root_desc par nxt (Leaf p es) = LeafD par nxt es"
| "root_desc par nxt (Node p cs) = InnerD par (child_ids cs)"

fun below_desc :: "page_id \<Rightarrow> bt \<Rightarrow> (page_id \<times> node_desc) list" where
  "below_desc nxt (Leaf p es) = []"
| "below_desc nxt (Node p cs) = forest_desc p nxt cs"

lemma desc_root: "desc par nxt t = (root_id t, root_desc par nxt t) # below_desc nxt t"
  by (cases t) auto

lemma sat_root:
  assumes "sat S (desc par nxt t)"
  obtains d where "S (root_id t) = Some d" "node_ok (root_id t) (root_desc par nxt t) d"
  using assms by (auto simp: desc_root)

lemma below_root:
  assumes "distinct (ids t)"
  shows "root_id t \<notin> fst ` set (below_desc nxt t)"
  using assms by (cases t) auto

lemma node_ok_set_parent:
  "node_ok p (root_desc par nxt t) d \<Longrightarrow> node_ok p (root_desc par' nxt t) (SetParentPageId par' d)"
  by (cases t) (auto intro: leaf_set_parent inner_set_parent)

lemma sat_set_parent:
  assumes "sat S (desc par nxt t)" "distinct (ids t)" "S (root_id t) = Some d"
  shows "sat (S(root_id t \<mapsto> SetParentPageId par' d)) (desc par' nxt t)"
  using assms node_ok_set_parent [of "root_id t" par nxt t d par'] below_root [OF assms(2)]
  by (auto simp: desc_root)

section \<open>Order, depth and size\<close>

fun bt_ok :: "nat \<Rightarrow> int \<Rightarrow> int \<Rightarrow> bt \<Rightarrow> bool"
  and chain_ok :: "nat \<Rightarrow> int \<Rightarrow> int \<Rightarrow> (64 word \<times> bt) list \<Rightarrow> bool" where
  "bt_ok h lo hi (Leaf p es) \<longleftrightarrow>
     h = 0 \<and> lo \<le> hi \<and> sorted_keys es \<and> (\<forall>e \<in> set es. lo \<le> sint (fst e) \<and> sint (fst e) < hi)"
| "bt_ok h lo hi (Node p cs) \<longleftrightarrow>
     (case (h, cs) of (Suc h', (k, t) # cs') \<Rightarrow> \<exists>m. bt_ok h' lo m t \<and> chain_ok h' m hi cs' | _ \<Rightarrow> False)"
| "chain_ok h a b [] \<longleftrightarrow> a = b"
| "chain_ok h a b ((k, t) # cs) \<longleftrightarrow> sint k = a \<and> (\<exists>m. bt_ok h a m t \<and> chain_ok h m b cs)"

text \<open>The children of a node; the key stored with the first one has no meaning.\<close>

fun forest_ok :: "nat \<Rightarrow> int \<Rightarrow> int \<Rightarrow> (64 word \<times> bt) list \<Rightarrow> bool" where
  "forest_ok h a b [] \<longleftrightarrow> False"
| "forest_ok h a b ((k, t) # cs) \<longleftrightarrow> (\<exists>m. bt_ok h a m t \<and> chain_ok h m b cs)"

lemma bt_ok_Node: "bt_ok h lo hi (Node p cs) \<longleftrightarrow> (\<exists>h'. h = Suc h' \<and> forest_ok h' lo hi cs)"
  by (cases h; cases cs) auto

declare bt_ok.simps(2) [simp del]
declare bt_ok_Node [simp]

lemma chain_ok_append: "chain_ok h a b (xs @ ys) \<longleftrightarrow> (\<exists>m. chain_ok h a m xs \<and> chain_ok h m b ys)"
  by (induction xs arbitrary: a) (auto, blast+)

lemma forest_ok_append:
  "xs \<noteq> [] \<Longrightarrow> forest_ok h a b (xs @ ys) \<longleftrightarrow> (\<exists>m. forest_ok h a m xs \<and> chain_ok h m b ys)"
  by (cases xs) (auto simp: chain_ok_append, blast+)

lemma chain_forest: "chain_ok h a b ((k, t) # cs) \<longleftrightarrow> sint k = a \<and> forest_ok h a b ((k, t) # cs)"
  by auto

text \<open>The part of a node to the left of a child whose range starts at \<open>lo\<close>.\<close>

definition left_ok :: "nat \<Rightarrow> int \<Rightarrow> int \<Rightarrow> 64 word \<Rightarrow> (64 word \<times> bt) list \<Rightarrow> bool" where
  "left_ok h a lo k ls \<longleftrightarrow> (if ls = [] then lo = a else sint k = lo \<and> forest_ok h a lo ls)"

lemma forest_ok_mid:
  "forest_ok h a b (ls @ (k, t) # rs) \<longleftrightarrow> (\<exists>lo hi. left_ok h a lo k ls \<and> bt_ok h lo hi t \<and> chain_ok h hi b rs)"
  by (cases "ls = []") (auto simp: left_ok_def forest_ok_append)

lemma forest_or_chain:
  "chain_ok h lo hi ((k, t) # cs) \<or> forest_ok h lo hi ((k, t) # cs) \<Longrightarrow> \<exists>m. bt_ok h lo m t \<and> chain_ok h m hi cs"
  by auto

lemma ok_bounds_aux:
  "bt_ok h lo hi t \<Longrightarrow> lo \<le> hi" "chain_ok h lo hi cs \<or> forest_ok h lo hi cs \<Longrightarrow> lo \<le> hi"
proof (induction t and cs arbitrary: h lo hi and h lo hi rule: ids_forest_ids.induct)
  case (4 k t cs)
  obtain m where "bt_ok h lo m t" "chain_ok h m hi cs" using forest_or_chain [OF 4(3)] by blast
  then show ?case using 4(1) [of h lo m] 4(2) [of h m hi] by simp
qed auto

lemma ok_bounds: "bt_ok h lo hi t \<Longrightarrow> lo \<le> hi" "chain_ok h lo hi cs \<Longrightarrow> lo \<le> hi" "forest_ok h lo hi cs \<Longrightarrow> lo \<le> hi"
  using ok_bounds_aux by blast+

lemma sorted_join:
  assumes "sorted_keys xs \<and> (\<forall>e \<in> set xs. lo \<le> sint (fst e) \<and> sint (fst e) < m)"
    "sorted_keys ys \<and> (\<forall>e \<in> set ys. m \<le> sint (fst e) \<and> sint (fst e) < hi)" "lo \<le> m" "m \<le> hi"
  shows "sorted_keys (xs @ ys) \<and> (\<forall>e \<in> set (xs @ ys). lo \<le> sint (fst e) \<and> sint (fst e) < hi)"
proof -
  have "sint (fst a) < sint (fst b)" if "a \<in> set xs" "b \<in> set ys" for a b
  proof -
    have "sint (fst a) < m" "m \<le> sint (fst b)" using assms that by blast+
    then show ?thesis by linarith
  qed
  moreover have "lo \<le> sint (fst e) \<and> sint (fst e) < hi" if "e \<in> set (xs @ ys)" for e
  proof (cases "e \<in> set xs")
    case True
    then have "lo \<le> sint (fst e)" "sint (fst e) < m" using assms(1) by blast+
    then show ?thesis using assms(4) by linarith
  next
    case False
    then have "e \<in> set ys" using that by simp
    then have "m \<le> sint (fst e)" "sint (fst e) < hi" using assms(2) by blast+
    then show ?thesis using assms(3) by linarith
  qed
  ultimately show ?thesis using assms(1,2) by (simp only: sorted_keys_append) blast
qed

lemma ok_sorted_aux:
  "bt_ok h lo hi t \<Longrightarrow> sorted_keys (entries t) \<and> (\<forall>e \<in> set (entries t). lo \<le> sint (fst e) \<and> sint (fst e) < hi)"
  "chain_ok h lo hi cs \<or> forest_ok h lo hi cs \<Longrightarrow>
     sorted_keys (forest_entries cs) \<and> (\<forall>e \<in> set (forest_entries cs). lo \<le> sint (fst e) \<and> sint (fst e) < hi)"
proof (induction t and cs arbitrary: h lo hi and h lo hi rule: ids_forest_ids.induct)
  case (4 k t cs)
  obtain m where m: "bt_ok h lo m t" "chain_ok h m hi cs" using forest_or_chain [OF 4(3)] by blast
  show ?case
    using sorted_join [OF 4(1) [OF m(1)] 4(2) [OF disjI1, OF m(2)] ok_bounds(1) [OF m(1)] ok_bounds(2) [OF m(2)]]
    by simp
qed (auto simp: sorted_keys_def)

lemma ok_sorted:
  assumes "bt_ok h lo hi t"
  shows "sorted_keys (entries t)" "e \<in> set (entries t) \<Longrightarrow> lo \<le> sint (fst e)" "e \<in> set (entries t) \<Longrightarrow> sint (fst e) < hi"
  using ok_sorted_aux(1) [OF assms] by blast+

text \<open>
  Numbers of entries: at most the maximal size of the page, and at least half of it except in the
  root, where an inner node has two children.
\<close>

fun sized :: "bool \<Rightarrow> bt \<Rightarrow> bool" and forest_sized :: "(64 word \<times> bt) list \<Rightarrow> bool" where
  "sized r (Leaf p es) \<longleftrightarrow> length es \<le> 253 \<and> (r \<or> 126 \<le> length es)"
| "sized r (Node p cs) \<longleftrightarrow> length cs \<le> 338 \<and> (if r then 2 else 169) \<le> length cs \<and> forest_sized cs"
| "forest_sized [] \<longleftrightarrow> True"
| "forest_sized ((k, t) # cs) \<longleftrightarrow> sized False t \<and> forest_sized cs"

lemma forest_sized_append [simp]: "forest_sized (xs @ ys) \<longleftrightarrow> forest_sized xs \<and> forest_sized ys"
  by (induction xs) auto

lemma sized_False: "sized False t \<Longrightarrow> sized r t"
  by (cases t) auto

section \<open>Paths\<close>

type_synonym step = "page_id \<times> (64 word \<times> bt) list \<times> 64 word \<times> (64 word \<times> bt) list"

fun fill :: "bt \<Rightarrow> step list \<Rightarrow> bt" where
  "fill t [] = t"
| "fill t ((p, ls, k, rs) # c) = fill (Node p (ls @ (k, t) # rs)) c"

fun path_par :: "step list \<Rightarrow> page_id" where
  "path_par [] = INVALID_PAGE_ID"
| "path_par ((p, ls, k, rs) # c) = p"

fun path_next :: "step list \<Rightarrow> page_id" where
  "path_next [] = INVALID_PAGE_ID"
| "path_next ((p, ls, k, rs) # c) = next_leaf (path_next c) rs"

fun path_desc :: "step list \<Rightarrow> page_id \<Rightarrow> page_id \<Rightarrow> (page_id \<times> node_desc) list" where
  "path_desc [] h f = []"
| "path_desc ((p, ls, k, rs) # c) h f =
     (p, InnerD (path_par c) (child_ids ls @ (k, h) # child_ids rs)) #
     forest_desc p f ls @ forest_desc p (path_next c) rs @ path_desc c p (next_leaf f ls)"

fun path_ids :: "step list \<Rightarrow> page_id list" where
  "path_ids [] = []"
| "path_ids ((p, ls, k, rs) # c) = p # forest_ids ls @ forest_ids rs @ path_ids c"

fun path_left :: "step list \<Rightarrow> leaf_entry list" where
  "path_left [] = []"
| "path_left ((p, ls, k, rs) # c) = path_left c @ forest_entries ls"

fun path_right :: "step list \<Rightarrow> leaf_entry list" where
  "path_right [] = []"
| "path_right ((p, ls, k, rs) # c) = forest_entries rs @ path_right c"

definition key_min :: int where
  "key_min = - (2 ^ 63)"

definition key_max :: int where
  "key_max = 2 ^ 63"

fun path_ok :: "nat \<Rightarrow> int \<Rightarrow> int \<Rightarrow> step list \<Rightarrow> bool" where
  "path_ok h lo hi [] \<longleftrightarrow> lo = key_min \<and> hi = key_max"
| "path_ok h lo hi ((p, ls, k, rs) # c) \<longleftrightarrow>
     (\<exists>a b. path_ok (Suc h) a b c \<and> left_ok h a lo k ls \<and> chain_ok h hi b rs)"

fun path_sized :: "step list \<Rightarrow> bool" where
  "path_sized [] \<longleftrightarrow> True"
| "path_sized ((p, ls, k, rs) # c) \<longleftrightarrow>
     Suc (length ls + length rs) \<le> 338 \<and> (if c = [] then 2 else 169) \<le> Suc (length ls + length rs) \<and>
     forest_sized ls \<and> forest_sized rs \<and> path_sized c"

lemma fst_set_path_desc [simp]: "fst ` set (path_desc c h f) = set (path_ids c)"
  by (induction c h f rule: path_desc.induct) (auto simp: image_Un)

lemma sat_fill:
  "sat S (desc INVALID_PAGE_ID INVALID_PAGE_ID (fill t c)) \<longleftrightarrow>
     sat S (path_desc c (root_id t) (first_leaf t)) \<and> sat S (desc (path_par c) (path_next c) t)"
proof (induction t c rule: fill.induct)
  case (2 t p ls k rs c)
  have "first_leaf (Node p (ls @ (k, t) # rs)) = next_leaf (first_leaf t) ls" by (cases ls) auto
  then show ?case using 2 by auto
qed simp

lemma mset_ids_fill: "mset (ids (fill t c)) = mset (path_ids c) + mset (ids t)"
  by (induction t c rule: fill.induct) (auto simp: ac_simps)

lemma distinct_ids_fill: "distinct (ids (fill t c)) \<longleftrightarrow> distinct (path_ids c @ ids t)"
  by (rule mset_eq_imp_distinct_iff) (simp add: mset_ids_fill)

lemma set_ids_fill: "set (ids (fill t c)) = set (path_ids c) \<union> set (ids t)"
  using mset_ids_fill [of t c] by (metis set_mset_mset set_mset_union)

lemma entries_fill: "entries (fill t c) = path_left c @ entries t @ path_right c"
  by (induction t c rule: fill.induct) auto

lemma fill_ok: "path_ok h lo hi c \<Longrightarrow> bt_ok h lo hi t \<Longrightarrow> bt_ok (h + length c) key_min key_max (fill t c)"
proof (induction t c arbitrary: h lo hi rule: fill.induct)
  case (2 t p ls k rs c)
  from 2(2) obtain a b where ab: "path_ok (Suc h) a b c" "left_ok h a lo k ls" "chain_ok h hi b rs" by auto
  then have "forest_ok h a b (ls @ (k, t) # rs)" using 2(3) by (auto simp: forest_ok_mid)
  then have "bt_ok (Suc h) a b (Node p (ls @ (k, t) # rs))" by simp
  from 2(1) [OF ab(1) this] show ?case by simp
qed simp

lemma fill_sized: "path_sized c \<Longrightarrow> sized (c = []) t \<Longrightarrow> sized True (fill t c)"
  by (induction t c rule: fill.induct) auto

section \<open>Descent\<close>

lemma chain_separators:
  "chain_ok h m hi cs \<Longrightarrow> sorted_wrt (\<lambda>a b. sint (fst a) \<le> sint (fst b)) cs \<and> (\<forall>e \<in> set cs. m \<le> sint (fst e))"
proof (induction cs arbitrary: m)
  case (Cons e cs)
  obtain k t where e: "e = (k, t)" by (cases e)
  obtain m' where m': "sint k = m" "bt_ok h m m' t" "chain_ok h m' hi cs" using Cons(2) e by auto
  then show ?case using Cons(1) [OF m'(3)] ok_bounds(1) [OF m'(2)] e by force
qed simp

lemma prefix_len_map: "prefix_len P (map f xs) = prefix_len (P \<circ> f) xs"
  by (simp add: prefix_len_def takeWhile_map comp_def)

lemma prefix_len_child_ids: "prefix_len (key_le key) (child_ids cs) = prefix_len (key_le key) cs"
  by (simp add: child_ids_def prefix_len_map comp_def case_prod_unfold)

lemma left_ok_Cons:
  assumes "bt_ok h lo m t0" "left_ok h m a k ls" "chain_ok h m hi (ls @ (k, t) # rs)"
  shows "left_ok h lo a k ((k0, t0) # ls)"
proof (cases ls)
  case Nil
  then show ?thesis using assms by (auto simp: left_ok_def)
next
  case (Cons e ls')
  obtain k1 t1 where e: "e = (k1, t1)" by (cases e)
  have "sint k = a" "forest_ok h m a ls" using assms(2) Cons by (auto simp: left_ok_def)
  moreover have "sint k1 = m" using assms(3) Cons e by simp
  ultimately show ?thesis using assms(1) Cons e by (auto simp: left_ok_def)
qed

lemma descend:
  assumes "bt_ok h lo m t0" "chain_ok h m hi cs" "lo \<le> sint key" "sint key < hi"
  shows "\<exists>ls k t rs a b. (k0, t0) # cs = ls @ (k, t) # rs \<and> length ls = prefix_len (key_le key) cs \<and>
     left_ok h lo a k ls \<and> bt_ok h a b t \<and> chain_ok h b hi rs \<and> a \<le> sint key \<and> sint key < b"
  using assms
proof (induction cs arbitrary: lo m t0 k0)
  case Nil
  then show ?case by (intro exI [of _ "[]"] exI [of _ k0] exI [of _ t0]) (auto simp: left_ok_def prefix_len_def)
next
  case (Cons e cs)
  obtain k1 t1 where e: "e = (k1, t1)" by (cases e)
  obtain m' where m': "sint k1 = m" "bt_ok h m m' t1" "chain_ok h m' hi cs" using Cons(3) e by auto
  show ?case
  proof (cases "m \<le> sint key")
    case True
    obtain ls k t rs a b where d: "(k1, t1) # cs = ls @ (k, t) # rs" "length ls = prefix_len (key_le key) cs"
      "left_ok h m a k ls" "bt_ok h a b t" "chain_ok h b hi rs" "a \<le> sint key" "sint key < b"
      using Cons(1) [OF m'(2,3) True Cons(5), of k1] by blast
    have "left_ok h lo a k ((k0, t0) # ls)"
      by (rule left_ok_Cons [OF Cons(2) d(3)]) (use Cons(3) e d(1) in auto)
    moreover have "(k0, t0) # e # cs = ((k0, t0) # ls) @ (k, t) # rs" using d(1) e by simp
    moreover have "length ((k0, t0) # ls) = prefix_len (key_le key) (e # cs)"
      using d(2) e True m'(1) by (simp add: prefix_len_def)
    ultimately show ?thesis using d(4-7) by blast
  next
    case False
    then have "length [] = prefix_len (key_le key) (e # cs)" using e m'(1) by (simp add: prefix_len_def)
    moreover have "left_ok h lo lo k0 []" by (simp add: left_ok_def)
    moreover have "(k0, t0) # e # cs = [] @ (k0, t0) # e # cs" by simp
    ultimately show ?thesis using Cons(2-4) False not_le by blast
  qed
qed

text \<open>One step of the search: the child that \<^verbatim>\<open>Lookup\<close> returns has the key in its range.\<close>

lemma descend_node:
  assumes d: "inner_node p par (child_ids cs) d" and ok: "forest_ok h lo hi cs" and key: "lo \<le> sint key" "sint key < hi"
  obtains ls k t rs a b where "cs = ls @ (k, t) # rs" "Internal_Lookup key d = Some (root_id t)"
    "left_ok h lo a k ls" "bt_ok h a b t" "chain_ok h b hi rs" "a \<le> sint key" "sint key < b"
proof -
  obtain k0 t0 cs' m where cs: "cs = (k0, t0) # cs'" "bt_ok h lo m t0" "chain_ok h m hi cs'"
    using ok by (cases cs) auto
  obtain ls k t rs a b where s: "(k0, t0) # cs' = ls @ (k, t) # rs" "length ls = prefix_len (key_le key) cs'"
    "left_ok h lo a k ls" "bt_ok h a b t" "chain_ok h b hi rs" "a \<le> sint key" "sint key < b"
    using descend [OF cs(2,3) key, of k0] by blast
  have "sorted_wrt (\<lambda>a b. sint (fst a) \<le> sint (fst b)) (child_ids cs')"
    using chain_separators [OF cs(3)] by (simp add: child_ids_def sorted_wrt_map case_prod_unfold)
  then have "Internal_Lookup key d = Some (snd (child_ids cs ! length ls))"
    using inner_lookup_eq [of p par "(k0, root_id t0)" "child_ids cs'" d key] d cs(1) s(2) prefix_len_child_ids
    by simp
  also have "child_ids cs ! length ls = (k, root_id t)" using s(1) cs(1) by (simp add: child_ids_def nth_append)
  finally show thesis using that [OF _ _ s(3-7)] s(1) cs(1) by simp
qed

section \<open>A position in a tree\<close>

text \<open>The keys outside a subtree lie outside its range.\<close>

lemma left_ok_bounds:
  assumes "left_ok h a lo k ls"
  shows "a \<le> lo" "\<And>e. e \<in> set (forest_entries ls) \<Longrightarrow> sint (fst e) < lo"
  using assms ok_bounds(3) [of h a lo ls] ok_sorted_aux(2) [of h a lo ls] by (auto simp: left_ok_def split: if_splits)

lemma path_bounds:
  assumes "path_ok h lo hi c"
  shows "(\<forall>e \<in> set (path_left c). sint (fst e) < lo) \<and> (\<forall>e \<in> set (path_right c). hi \<le> sint (fst e))"
  using assms
proof (induction h lo hi c rule: path_ok.induct)
  case (2 h lo hi p ls k rs c)
  then obtain a b where ab: "path_ok (Suc h) a b c" "left_ok h a lo k ls" "chain_ok h hi b rs" by auto
  have l: "sint (fst e) < lo" if "e \<in> set (path_left c)" for e
    using 2(1) [OF ab(1)] that left_ok_bounds(1) [OF ab(2)] by fastforce
  have r: "hi \<le> sint (fst e)" if "e \<in> set (path_right c)" for e
    using 2(1) [OF ab(1)] that ok_bounds(2) [OF ab(3)] by fastforce
  have "hi \<le> sint (fst e)" if "e \<in> set (forest_entries rs)" for e
    using ok_sorted_aux(2) [of h hi b rs] ab(3) that by blast
  then show ?case using l r left_ok_bounds(2) [OF ab(2)] by auto
qed simp

lemma map_of_path:
  assumes "path_ok h lo hi c" "lo \<le> sint key" "sint key < hi"
  shows "map_of (path_left c @ es @ path_right c) key = map_of es key"
proof -
  have "key \<notin> fst ` set (path_left c)" "key \<notin> fst ` set (path_right c)" using path_bounds [OF assms(1)] assms(2,3) by force+
  then have "map_of (path_left c) key = None" "map_of (path_right c) key = None" by (simp_all add: map_of_eq_None_iff)
  then show ?thesis by (auto simp: map_add_def split: option.splits)
qed

definition tree_in :: "(page_id \<rightharpoonup> byte list) \<Rightarrow> bt \<Rightarrow> bool" where
  "tree_in S T \<longleftrightarrow> sat S (desc INVALID_PAGE_ID INVALID_PAGE_ID T) \<and> distinct (ids T) \<and> INVALID_PAGE_ID \<notin> set (ids T)"

definition tree_ok :: "nat \<Rightarrow> bt \<Rightarrow> bool" where
  "tree_ok h T \<longleftrightarrow> bt_ok h key_min key_max T \<and> sized True T"

definition located :: "bt \<Rightarrow> step list \<Rightarrow> nat \<Rightarrow> int \<Rightarrow> int \<Rightarrow> bool" where
  "located u c h lo hi \<longleftrightarrow> path_ok h lo hi c \<and> path_sized c \<and> bt_ok h lo hi u \<and> sized (c = []) u"

lemma located_root: "tree_ok h T \<Longrightarrow> located T [] h key_min key_max"
  by (simp add: tree_ok_def located_def)

lemma located_tree: "located u c h lo hi \<Longrightarrow> tree_ok (h + length c) (fill u c)"
  using fill_ok [of h lo hi c u] fill_sized [of c u] by (simp add: tree_ok_def located_def)

lemma located_down:
  assumes "located (Node p (ls @ (k, u) # rs)) c (Suc h) lo hi" "left_ok h lo a k ls" "bt_ok h a b u" "chain_ok h b hi rs"
  shows "located u ((p, ls, k, rs) # c) h a b"
  using assms by (auto simp: located_def)

lemma tree_in_root:
  assumes "tree_in S (fill u c)"
  obtains d where "S (root_id u) = Some d" "node_ok (root_id u) (root_desc (path_par c) (path_next c) u) d"
  using assms sat_root [of S "path_par c" "path_next c" u] by (auto simp: tree_in_def sat_fill)

lemma tree_in_dom: "tree_in S T \<Longrightarrow> set (ids T) \<subseteq> dom S"
  using sat_dom [of S "desc INVALID_PAGE_ID INVALID_PAGE_ID T"] by (simp add: tree_in_def)

lemma sint64_bounds: "key_min \<le> sint (k :: 64 word)" "sint (k :: 64 word) < key_max"
  using sint_greater_eq [of k] sint_less [of k] by (simp_all add: key_min_def key_max_def)

text \<open>The depth is bounded: every level multiplies the number of pages, and there are \<open>2 ^ 32\<close> ids.\<close>

lemma ids_grow:
  "bt_ok h lo hi t \<Longrightarrow> sized False t \<Longrightarrow> 169 ^ h \<le> length (ids t)"
  "chain_ok h lo hi cs \<or> forest_ok h lo hi cs \<Longrightarrow> forest_sized cs \<Longrightarrow> length cs * 169 ^ h \<le> length (forest_ids cs)"
proof (induction t and cs arbitrary: h lo hi and h lo hi rule: ids_forest_ids.induct)
  case (2 p cs)
  obtain h' where h': "h = Suc h'" "forest_ok h' lo hi cs" using 2(2) by auto
  have "length cs * 169 ^ h' \<le> length (forest_ids cs)" using 2(1) [of h' lo hi] h'(2) 2(3) by simp
  moreover have "169 * 169 ^ h' \<le> length cs * (169 :: nat) ^ h'" using 2(3) by simp
  ultimately have "169 * 169 ^ h' \<le> length (forest_ids cs)" by (rule order_trans [rotated])
  then show ?case by (simp add: h'(1))
next
  case (4 k t cs)
  obtain m where "bt_ok h lo m t" "chain_ok h m hi cs" using forest_or_chain [OF 4(3)] by blast
  then show ?case using 4(1) [of h lo m] 4(2) [of h m hi] 4(4) by simp
qed auto

lemma depth_bound:
  assumes "tree_ok h T" "distinct (ids T)"
  shows "h \<le> 5"
proof (cases h)
  case (Suc h')
  then obtain p cs where T: "T = Node p cs" using assms(1) by (cases T) (auto simp: tree_ok_def)
  have cs: "forest_ok h' key_min key_max cs" "forest_sized cs" "2 \<le> length cs"
    using assms(1) T Suc by (auto simp: tree_ok_def)
  have "2 * 169 ^ h' \<le> length cs * 169 ^ h'" using cs(3) by simp
  also have "\<dots> \<le> length (forest_ids cs)" using ids_grow(2) [of h' key_min key_max cs] cs by blast
  also have "\<dots> = card (set (forest_ids cs))" using assms(2) T by (simp add: distinct_card)
  also have "\<dots> \<le> card (UNIV :: page_id set)" by (rule card_mono) auto
  also have "\<dots> = 2 ^ 32" by (simp add: card_word)
  finally have le: "2 * 169 ^ h' \<le> (2 ^ 32 :: nat)" .
  have "h' < 5"
  proof (rule ccontr)
    assume "\<not> h' < 5"
    then have "(169 :: nat) ^ 5 \<le> 169 ^ h'" by (intro power_increasing) auto
    then show False using le by simp
  qed
  then show ?thesis using Suc by simp
qed simp

end
