(* ===== verification/Pinned_Store.thy ===== *)
theory Pinned_Store
  imports Page_Cache
begin

text \<open>
  The buffer pool as the index uses it, which holds several pages at once and also deletes pages.
  \<open>pool_st b S P\<close> says that the pool \<open>b\<close> is consistent, that its pages have the bytes \<open>S\<close> and
  their pins are \<open>P\<close>; the free pages on disk are hidden. The locale \<open>pinned_store\<close> is the interface;
  it is interpreted on the buffer pool as \<open>pp\<close>, from the laws of \<open>page_cache\<close>.
\<close>

section \<open>Counting pinned pages\<close>

definition npin :: "(page_id \<Rightarrow> int) \<Rightarrow> nat" where
  "npin P = card {q. 0 < P q}"

lemma npin_upd_le: "npin (P(p := x)) \<le> Suc (npin P)"
proof -
  have "{q. 0 < (P(p := x)) q} \<subseteq> insert p {q. 0 < P q}" by auto
  then have "npin (P(p := x)) \<le> card (insert p {q. 0 < P q})" unfolding npin_def by (intro card_mono) simp_all
  also have "\<dots> \<le> Suc (npin P)" unfolding npin_def by (rule card_insert_le_m1) simp_all
  finally show ?thesis .
qed

lemma npin_upd_pinned: "0 < P p \<Longrightarrow> npin (P(p := x)) \<le> npin P"
  unfolding npin_def by (rule card_mono) (auto split: if_splits)

lemma npin_mono: "(\<And>q. 0 < P q \<Longrightarrow> 0 < Q q) \<Longrightarrow> npin P \<le> npin Q"
  unfolding npin_def by (rule card_mono) auto

text \<open>At least \<open>n\<close> page ids can still be handed out.\<close>

definition spare_ids :: "nat \<Rightarrow> (page_id \<rightharpoonup> 'b) \<Rightarrow> bool" where
  "spare_ids n S \<longleftrightarrow> n \<le> card {p. p \<noteq> 0 \<and> p \<noteq> INVALID_PAGE_ID \<and> p \<notin> dom S}"

lemma spare_ids_unused: "spare_ids (Suc n) S \<Longrightarrow> unused_id S"
proof -
  assume "spare_ids (Suc n) S"
  then have "0 < card {p. p \<noteq> 0 \<and> p \<noteq> INVALID_PAGE_ID \<and> p \<notin> dom S}" by (simp add: spare_ids_def)
  then have "{p. p \<noteq> 0 \<and> p \<noteq> INVALID_PAGE_ID \<and> p \<notin> dom S} \<noteq> {}" by (metis card.empty less_irrefl)
  then show ?thesis by (auto simp: unused_id_def)
qed

lemma spare_ids_new: "spare_ids (Suc n) S \<Longrightarrow> spare_ids n (S(p \<mapsto> d))"
proof -
  assume sp: "spare_ids (Suc n) S"
  let ?A = "{q. q \<noteq> 0 \<and> q \<noteq> INVALID_PAGE_ID \<and> q \<notin> dom S}"
  have eq: "{q. q \<noteq> 0 \<and> q \<noteq> INVALID_PAGE_ID \<and> q \<notin> dom (S(p \<mapsto> d))} = ?A - {p}" by auto
  have "card ?A - 1 \<le> card (?A - {p})" by (simp add: card_Diff_singleton_if)
  then show ?thesis using sp unfolding spare_ids_def eq by linarith
qed

lemma spare_ids_dom: "dom S' \<subseteq> dom S \<Longrightarrow> spare_ids n S \<Longrightarrow> spare_ids n S'"
  unfolding spare_ids_def by (erule order_trans) (rule card_mono, auto)

lemma spare_ids_mono: "spare_ids n S \<Longrightarrow> m \<le> n \<Longrightarrow> spare_ids m S"
  by (simp add: spare_ids_def)

text \<open>The step from \<open>S\<close> to \<open>S'\<close> takes at most \<open>k\<close> of them.\<close>

definition takes_ids :: "nat \<Rightarrow> (page_id \<rightharpoonup> 'b) \<Rightarrow> (page_id \<rightharpoonup> 'b) \<Rightarrow> bool" where
  "takes_ids k S S' \<longleftrightarrow> (\<forall>n. spare_ids (n + k) S \<longrightarrow> spare_ids n S')"

lemma takes_ids_new: "takes_ids (Suc 0) S (S(p \<mapsto> d))"
  using spare_ids_new by (auto simp: takes_ids_def)

lemma takes_ids_dom: "dom S' \<subseteq> dom S \<Longrightarrow> takes_ids 0 S S'"
  using spare_ids_dom by (auto simp: takes_ids_def)

lemma takes_ids_trans: "takes_ids j S S1 \<Longrightarrow> takes_ids k S1 S2 \<Longrightarrow> takes_ids (j + k) S S2"
  unfolding takes_ids_def by (metis add.assoc add.commute)

lemma takes_ids_mono: "takes_ids j S S' \<Longrightarrow> j \<le> k \<Longrightarrow> takes_ids k S S'"
  unfolding takes_ids_def using spare_ids_mono by (metis add_le_cancel_left)

section \<open>The interface\<close>

locale pinned_store =
  fixes fetch :: "page_id \<Rightarrow> ('s, 'f option) comp"
    and unpin :: "page_id \<Rightarrow> bool \<Rightarrow> ('s, bool) comp"
    and new :: "('s, page_id \<times> 'f option) comp"
    and del :: "page_id \<Rightarrow> ('s, bool) comp"
    and get :: "'s \<Rightarrow> 'f \<Rightarrow> byte list"
    and put :: "'f \<Rightarrow> byte list \<Rightarrow> 's \<Rightarrow> 's"
    and ident :: "'s \<Rightarrow> 'f \<Rightarrow> page_id"
    and st :: "'s \<Rightarrow> (page_id \<rightharpoonup> byte list) \<Rightarrow> (page_id \<Rightarrow> int) \<Rightarrow> bool"
    and hold :: "'s \<Rightarrow> page_id \<Rightarrow> 'f \<Rightarrow> bool"
    and clean :: "'s \<Rightarrow> page_id \<Rightarrow> bool"
    and nframes :: "'s \<Rightarrow> nat"
  assumes fetch_ok: "st s S P \<Longrightarrow> p \<in> dom S \<Longrightarrow> npin P < nframes s \<Longrightarrow>
      \<exists>f s'. fetch p s = (Inr (Some f), s') \<and> st s' S (P(p := P p + 1)) \<and> hold s' p f \<and>
        nframes s' = nframes s \<and> (\<forall>q. clean s q \<longrightarrow> clean s' q) \<and> (\<forall>q g. hold s q g \<longrightarrow> hold s' q g)"
    and unpin_ok: "st s S P \<Longrightarrow> hold s p f \<Longrightarrow> dirty \<or> clean s p \<Longrightarrow>
      \<exists>s'. unpin p dirty s = (Inr True, s') \<and> st s' S (P(p := P p - 1)) \<and> nframes s' = nframes s \<and>
        (\<forall>q. clean s q \<longrightarrow> clean s' q) \<and> (\<forall>q g. hold s q g \<and> (q \<noteq> p \<or> 1 < P p) \<longrightarrow> hold s' q g)"
    and new_ok: "st s S P \<Longrightarrow> unused_id S \<Longrightarrow> npin P < nframes s \<Longrightarrow>
      \<exists>p f s'. new s = (Inr (p, Some f), s') \<and> p \<notin> dom S \<and> p \<noteq> 0 \<and> p \<noteq> INVALID_PAGE_ID \<and> P p = 0 \<and>
        st s' (S(p \<mapsto> zero_page)) (P(p := 1)) \<and> hold s' p f \<and> nframes s' = nframes s \<and>
        (\<forall>q g. hold s q g \<longrightarrow> hold s' q g)"
    and del_ok: "st s S P \<Longrightarrow> p \<in> dom S \<Longrightarrow> P p = 0 \<Longrightarrow>
      \<exists>s'. del p s = (Inr True, s') \<and> st s' (S(p := None)) P \<and> nframes s' = nframes s \<and>
        (\<forall>q g. hold s q g \<longrightarrow> hold s' q g)"
    and del_pinned: "hold s p f \<Longrightarrow> del p s = (Inr False, s)"
    and put_ok: "st s S P \<Longrightarrow> hold s p f \<Longrightarrow> length d = PAGE_SIZE \<Longrightarrow>
        st (put f d s) (S(p \<mapsto> d)) P \<and> nframes (put f d s) = nframes s \<and>
        (\<forall>q g. hold s q g \<longrightarrow> hold (put f d s) q g)"
    and get_ok: "st s S P \<Longrightarrow> hold s p f \<Longrightarrow> S p = Some (get s f)"
    and ident_ok: "st s S P \<Longrightarrow> hold s p f \<Longrightarrow> ident s f = p"
    and hold_pins: "st s S P \<Longrightarrow> hold s p f \<Longrightarrow> 0 < P p"
    and clean_idle: "st s S P \<Longrightarrow> P p = 0 \<Longrightarrow> clean s p"
    and st_length: "st s S P \<Longrightarrow> S p = Some d \<Longrightarrow> length d = PAGE_SIZE"
    and pins_nonneg: "st s S P \<Longrightarrow> 0 \<le> P p"
    and pins_live: "st s S P \<Longrightarrow> p \<notin> dom S \<Longrightarrow> P p = 0"
begin

lemma hold_inj: "st s S P \<Longrightarrow> hold s p f \<Longrightarrow> hold s q f \<Longrightarrow> p = q"
  using ident_ok by blast

text \<open>Fetch a page, look at it, unpin it: nothing changes.\<close>

lemma peek:
  assumes st: "st s S P" and p: "S p = Some d" and room: "npin P < nframes s" and cl: "clean s p"
  obtains f s1 s2 where "fetch p s = (Inr (Some f), s1)" "get s1 f = d" "unpin p False s1 = (Inr True, s2)"
    "st s2 S P" "nframes s2 = nframes s" "\<And>q. clean s q \<Longrightarrow> clean s2 q" "\<And>q g. hold s q g \<Longrightarrow> hold s2 q g"
proof -
  have dom: "p \<in> dom S" using p by blast
  obtain f s1 where s1: "fetch p s = (Inr (Some f), s1)" "st s1 S (P(p := P p + 1))" "hold s1 p f"
     "nframes s1 = nframes s" "\<And>q. clean s q \<Longrightarrow> clean s1 q" "\<And>q g. hold s q g \<Longrightarrow> hold s1 q g"
    using fetch_ok [OF st dom room] by blast
  have "False \<or> clean s1 p" using s1(5) cl by blast
  from unpin_ok [OF s1(2,3) this] obtain s2 where s2: "unpin p False s1 = (Inr True, s2)" "st s2 S P"
     "nframes s2 = nframes s1" "\<And>q. clean s1 q \<Longrightarrow> clean s2 q"
     "\<And>q g. hold s1 q g \<Longrightarrow> q \<noteq> p \<or> 0 < P p \<Longrightarrow> hold s2 q g"
    by auto
  have "hold s2 q g" if "hold s q g" for q g
    using s2(5) [OF s1(6) [OF that]] hold_pins [OF st] that by blast
  then show thesis
    using that [OF s1(1) _ s2(1,2)] get_ok [OF s1(2,3)] p s1(4,5) s2(3,4) by auto
qed

text \<open>Fetch a page, store new bytes, unpin it as dirty: one page changes.\<close>

lemma change:
  assumes st: "st s S P" and p: "S p = Some d" and room: "npin P < nframes s" and len: "length d' = PAGE_SIZE"
  obtains f s1 s2 where "fetch p s = (Inr (Some f), s1)" "get s1 f = d" "unpin p True (put f d' s1) = (Inr True, s2)"
    "st s2 (S(p \<mapsto> d')) P" "nframes s2 = nframes s" "\<And>q g. hold s q g \<Longrightarrow> hold s2 q g"
proof -
  have dom: "p \<in> dom S" using p by blast
  obtain f s1 where s1: "fetch p s = (Inr (Some f), s1)" "st s1 S (P(p := P p + 1))" "hold s1 p f"
     "nframes s1 = nframes s" "\<And>q g. hold s q g \<Longrightarrow> hold s1 q g"
    using fetch_ok [OF st dom room] by blast
  let ?t = "put f d' s1"
  have t: "st ?t (S(p \<mapsto> d')) (P(p := P p + 1))" "nframes ?t = nframes s1" "\<And>q g. hold s1 q g \<Longrightarrow> hold ?t q g"
    using put_ok [OF s1(2,3) len] by blast+
  from unpin_ok [OF t(1) t(3) [OF s1(3)], of True] obtain s2 where s2: "unpin p True ?t = (Inr True, s2)"
     "st s2 (S(p \<mapsto> d')) P" "nframes s2 = nframes ?t" "\<And>q g. hold ?t q g \<Longrightarrow> q \<noteq> p \<or> 0 < P p \<Longrightarrow> hold s2 q g"
    by auto
  have "hold s2 q g" if "hold s q g" for q g
    using s2(4) [OF t(3) [OF s1(5) [OF that]]] hold_pins [OF st] that by blast
  then show thesis
    using that [OF s1(1) _ s2(1,2)] get_ok [OF s1(2,3)] p s1(4) t(2) s2(3) by auto
qed

end

section \<open>The buffer pool implements the interface\<close>

definition pool_st :: "buffer_pool \<Rightarrow> (page_id \<rightharpoonup> byte list) \<Rightarrow> (page_id \<Rightarrow> int) \<Rightarrow> bool" where
  "pool_st b S P \<longleftrightarrow> (\<exists>fl. bp_inv b fl \<and> pool_store b fl = S \<and> pin_counts b = P)"

definition frame_ident :: "buffer_pool \<Rightarrow> frame_id \<Rightarrow> page_id" where
  "frame_ident b f = page_id_of (frame b f)"

lemma pool_stE:
  assumes "pool_st b S P"
  obtains fl where "bp_inv b fl" "pool_store b fl = S" "pin_counts b = P"
  using assms by (auto simp: pool_st_def)

lemma pool_st_fetch:
  assumes st: "pool_st b S P" and p: "p \<in> dom S" and room: "npin P < frames b"
  shows "\<exists>f b'. FetchPage p b = (Inr (Some f), b') \<and> pool_st b' S (P(p := P p + 1)) \<and> held b' p f \<and>
     frames b' = frames b \<and> (\<forall>q. synced b q \<longrightarrow> synced b' q) \<and> (\<forall>q g. held b q g \<longrightarrow> held b' q g)"
proof -
  obtain fl where fl: "bp_inv b fl" "pool_store b fl = S" "pin_counts b = P" using st by (rule pool_stE)
  from bpm.fetch_some [of b fl p] fl p room obtain f b' where b': "FetchPage p b = (Inr (Some f), b')" "bp_inv b' fl"
     "pool_store b' fl = S" "pin_counts b' = P(p := P p + 1)" "held b' p f" "frames b' = frames b"
     "\<forall>q. synced b q \<longrightarrow> synced b' q" "\<forall>q g. held b q g \<longrightarrow> held b' q g"
    by (auto simp: npin_def)
  have "pool_st b' S (P(p := P p + 1))" using b'(2-4) by (auto simp: pool_st_def)
  then show ?thesis using b' by (intro exI [of _ f] exI [of _ b']) simp
qed

lemma pool_st_new:
  assumes st: "pool_st b S P" and un: "unused_id S" and room: "npin P < frames b"
  shows "\<exists>p f b'. NewPage b = (Inr (p, Some f), b') \<and> p \<notin> dom S \<and> p \<noteq> 0 \<and> p \<noteq> INVALID_PAGE_ID \<and> P p = 0 \<and>
     pool_st b' (S(p \<mapsto> zero_page)) (P(p := 1)) \<and> held b' p f \<and> frames b' = frames b \<and>
     (\<forall>q g. held b q g \<longrightarrow> held b' q g)"
proof -
  obtain fl where fl: "bp_inv b fl" "pool_store b fl = S" "pin_counts b = P" using st by (rule pool_stE)
  from bpm.new_some [of b fl] fl un room obtain p f b' where b': "NewPage b = (Inr (p, Some f), b')" "bp_inv b' (tl fl)"
     "p \<notin> dom S" "p \<noteq> 0" "p \<noteq> INVALID_PAGE_ID" "P p = 0" "pool_store b' (tl fl) = S(p \<mapsto> zero_page)"
     "pin_counts b' = P(p := 1)" "held b' p f" "frames b' = frames b" "\<forall>q g. held b q g \<longrightarrow> held b' q g"
    by (auto simp: npin_def)
  have "pool_st b' (S(p \<mapsto> zero_page)) (P(p := 1))" unfolding pool_st_def using b'(2,7,8) by blast
  then show ?thesis using b' by (intro exI [of _ p] exI [of _ f] exI [of _ b']) simp
qed

lemma pool_st_unpin:
  assumes st: "pool_st b S P" and h: "held b p f" and ok: "dirty \<or> synced b p"
  shows "\<exists>b'. UnpinPage p dirty b = (Inr True, b') \<and> pool_st b' S (P(p := P p - 1)) \<and> frames b' = frames b \<and>
     (\<forall>q. synced b q \<longrightarrow> synced b' q) \<and> (\<forall>q g. held b q g \<and> (q \<noteq> p \<or> 1 < P p) \<longrightarrow> held b' q g)"
proof -
  obtain fl where fl: "bp_inv b fl" "pool_store b fl = S" "pin_counts b = P" using st by (rule pool_stE)
  have t: "pt b p = Some f" "0 < pin_count (frame b f)" "P p = pin_count (frame b f)"
    using h fl(3) by (auto simp: held_def pin_counts_def)
  have hon: "unpin_honest b p dirty" using ok t by (auto simp: unpin_honest_def synced_def)
  from bpm.unpin_some [OF fl(1) h ok] fl(2,3) obtain b' where b': "UnpinPage p dirty b = (Inr True, b')" "bp_inv b' fl"
     "pool_store b' fl = S" "pin_counts b' = P(p := P p - 1)" "frames b' = frames b" "\<forall>q. synced b q \<longrightarrow> synced b' q"
     "\<And>q g. q \<noteq> p \<Longrightarrow> held b q g \<Longrightarrow> held b' q g" by auto
  have "pt b' = pt b" using UnpinPage_ok [OF fl(1) t(1,2) hon] b'(1) by auto
  then have "held b' p g" if "held b p g" "1 < P p" for g
    using that b'(4) by (simp add: held_pin_counts)
  then have "\<forall>q g. held b q g \<and> (q \<noteq> p \<or> 1 < P p) \<longrightarrow> held b' q g" using b'(7) by metis
  moreover have "pool_st b' S (P(p := P p - 1))" using b'(2-4) by (auto simp: pool_st_def)
  ultimately show ?thesis using b' by (intro exI [of _ b']) simp
qed

lemma pool_st_put:
  assumes st: "pool_st b S P" and h: "held b p f" and len: "length d = PAGE_SIZE"
  shows "pool_st (put_data f d b) (S(p \<mapsto> d)) P \<and> frames (put_data f d b) = frames b \<and>
     (\<forall>q g. held b q g \<longrightarrow> held (put_data f d b) q g)"
proof -
  obtain fl where fl: "bp_inv b fl" "pool_store b fl = S" "pin_counts b = P" using st by (rule pool_stE)
  show ?thesis using bpm.put_held [OF fl(1) h len] fl(2,3) by (auto simp: pool_st_def)
qed

lemma pool_st_delete:
  assumes st: "pool_st b S P" and p: "p \<in> dom S" and pin: "P p = 0"
  shows "\<exists>b'. DeletePage p b = (Inr True, b') \<and> pool_st b' (S(p := None)) P \<and> frames b' = frames b \<and>
     (\<forall>q g. held b q g \<longrightarrow> held b' q g)"
proof -
  obtain fl where fl: "bp_inv b fl" "pool_store b fl = S" "pin_counts b = P" using st by (rule pool_stE)
  have live: "p \<in> live_pages (disk b) fl" using p fl(2) dom_pool_store by blast
  obtain b' where b': "DeletePage p b = (Inr True, b')" "op_ok b fl (Delete p) (RBool True) b' (p # fl)"
    using delete_sim [OF fl(1) live] pin fl(3) by auto
  have a: "pool_store b' (p # fl) = S(p := None)" "pin_counts b' = P"
    using op_ok_step [OF b'(2)] fl(2,3) by (auto elim!: spec_DeleteE dest!: pool_abs_eqD)
  have "held b' q g" if "held b q g" for q g
    using op_ok_held [OF b'(2) that] that a(2) fl(3) by (auto simp: held_pin_counts)
  moreover have "pool_st b' (S(p := None)) P" using op_ok_frames [OF b'(2)] a unfolding pool_st_def by blast
  ultimately show ?thesis using b' op_ok_frames [OF b'(2)] by blast
qed

interpretation pp: pinned_store FetchPage UnpinPage NewPage DeletePage page_data put_data frame_ident pool_st
  held synced frames
proof (unfold_locales, goal_cases)
  case (5 s p f)
  then show ?case by (auto simp: held_def DeletePage_pinned)
next
  case (7 s S P p f)
  then show ?case using bpm.get_held by (metis pool_stE)
next
  case (8 s S P p f)
  then show ?case
    by (elim pool_stE) (auto simp: held_def frame_ident_def entry_ok_def dest: bp_inv_entry)
next
  case (9 s S P p f)
  then show ?case by (auto simp: held_pin_counts elim: pool_stE)
next
  case (10 s S P p)
  then show ?case using synced_unpinned by (metis pool_stE)
next
  case (11 s S P p d)
  then show ?case using bpm.cells_length by (metis pool_stE)
next
  case (12 s S P p)
  then show ?case using pin_counts_nonneg by (metis pool_stE)
next
  case (13 s S P p)
  then obtain fl where fl: "bp_inv s fl" "pool_store s fl = S" "pin_counts s = P" by (elim pool_stE)
  have "pt s p = None" using 13(2) pool_store_cached [OF fl(1)] fl(2) by fastforce
  then show ?case using fl(3) by (auto simp: pin_counts_def)
qed (fact pool_st_fetch pool_st_unpin pool_st_new pool_st_delete pool_st_put)+

section \<open>A pool with one page for the witnesses\<close>

lemma sample_store:
  "\<exists>b S. pool_st b S (\<lambda>_. 0) \<and> frames b = 128 \<and> spare_ids 1000 S \<and> 1 \<in> dom S"
proof -
  obtain d where d: "disk_rep d []" "num_pages d = 2" "1 \<in> live_pages d []" using one_page_store by blast
  note pr = sample_pool_reach [OF d(1), of 128] and inv = sample_pool_inv [OF d(1), of 128]
  let ?b = "sample_pool 128 d"
  have "pin_counts ?b = (\<lambda>_. 0)" by (simp add: pin_counts_def pr(4) fun_eq_iff)
  then have st: "pool_st ?b (pool_store ?b []) (\<lambda>_. 0)" using inv unfolding pool_st_def by blast
  have fr: "frames ?b = 128" using no_leak_card [of ?b] inv pr(2) by (simp add: frames_def)
  have one: "1 \<in> dom (pool_store ?b [])" using d(3) pr(3) by (simp add: dom_pool_store)
  have dom: "dom (pool_store ?b []) \<subseteq> {1}"
  proof
    fix p assume "p \<in> dom (pool_store ?b [])"
    then have "p \<noteq> 0" "p < 2" using pr(3) d(2) by (auto simp: dom_pool_store live_pages_def)
    then have "0 < unat p" "unat p < 2" by (simp_all add: word_less_nat_alt unat_gt_0)
    then have "unat p = unat (1 :: page_id)" by simp
    then show "p \<in> {1}" by (simp add: word_unat_eq_iff)
  qed
  have "card (UNIV :: page_id set) - card {0 :: page_id, INVALID_PAGE_ID, 1} \<le> card (UNIV - {0 :: page_id, INVALID_PAGE_ID, 1})"
    by (rule diff_card_le_card_Diff) simp
  moreover have "card {0 :: page_id, INVALID_PAGE_ID, 1} \<le> 3" by (simp add: card_insert_if)
  moreover have "card (UNIV :: page_id set) = 2 ^ 32" by (simp add: card_word)
  ultimately have "1000 \<le> card (UNIV - {0 :: page_id, INVALID_PAGE_ID, 1})" by simp
  also have "\<dots> \<le> card {p. p \<noteq> 0 \<and> p \<noteq> INVALID_PAGE_ID \<and> p \<notin> dom (pool_store ?b [])}"
    by (rule card_mono) (use dom in auto)
  finally have "spare_ids 1000 (pool_store ?b [])" by (simp add: spare_ids_def)
  then show ?thesis using st fr one by blast
qed

end
