(* ===== verification/BPlus_Search.thy ===== *)
theory BPlus_Search
  imports BPlus_Tree BPlus_Shape Pinned_Store
begin

text \<open>
  The index represents a finite map from keys to record ids (\<open>index_rep\<close>): its pages form a tree in
  the page store, on any buffer pool. Search is shown to terminate and to look up that map.
\<close>

section \<open>Stepping through tree operations\<close>

lemma ix_step [simp]: "m (bpm t) = (r, b) \<Longrightarrow> ix m t = (r, t\<lparr>bpm := b\<rparr>)"
  by (simp add: ix_def)

lemma node_read_step [simp]: "m (node_data f t) = Some a \<Longrightarrow> node_read f m t = (Inr a, t)"
  by (simp add: node_read_def)

lemma node_set_step [simp]: "node_set f g t = (Inr (), t\<lparr>bpm := put_data f (g (page_data (bpm t) f)) (bpm t)\<rparr>)"
  by (simp add: node_set_def node_data_def)

lemma node_op_step [simp]: "m (node_data f t) = Some (a, d) \<Longrightarrow> node_op f m t = (Inr a, t\<lparr>bpm := put_data f d (bpm t)\<rparr>)"
  by (simp add: node_op_def)

lemma node_op2_step [simp]:
  "m (node_data f t) (node_data g t) = Some (d, r) \<Longrightarrow>
   node_op2 f g m t = (Inr (), t\<lparr>bpm := put_data g r (put_data f d (bpm t))\<rparr>)"
  by (simp add: node_op2_def)

lemma unit_op_step [simp]: "m d = Some d' \<Longrightarrow> unit_op m d = Some ((), d')"
  by (simp add: unit_op_def)

lemma set_root_step [simp]: "set_root p t = (Inr (), t\<lparr>root_page_id := p\<rparr>)"
  by (simp add: set_root_def)

lemma held_node_data:
  assumes "pool_st (bpm t) S P" "held (bpm t) p f" "S p = Some d"
  shows "node_data f t = d"
  using pp.get_ok [OF assms(1,2)] assms(3) by (simp add: node_data_def)

lemma unpin_frame_step:
  assumes "pool_st (bpm t) S P" "held (bpm t) p f"
  shows "unpin_frame f dirty t = ix (UnpinPage p dirty) t"
  using pp.ident_ok [OF assms] by (simp add: unpin_frame_def frame_ident_def)

section \<open>Representation\<close>

definition index_tree :: "bplus_tree \<Rightarrow> (page_id \<rightharpoonup> byte list) \<Rightarrow> (page_id \<Rightarrow> int) \<Rightarrow> nat \<Rightarrow> bt \<Rightarrow> bool" where
  "index_tree t S P h T \<longleftrightarrow>
     root_page_id t = root_id T \<and> tree_in S T \<and> tree_ok h T \<and> (\<forall>p \<in> set (ids T). P p = 0)"

text \<open>
  \<open>index_rep t S P A M\<close>: the index \<open>t\<close> has the pages \<open>A\<close> and stores the map \<open>M\<close>. The pool holds the
  pages \<open>S\<close> with the pins \<open>P\<close>, which are those of other clients: no page of \<open>A\<close> is pinned.
\<close>

definition index_rep ::
  "bplus_tree \<Rightarrow> (page_id \<rightharpoonup> byte list) \<Rightarrow> (page_id \<Rightarrow> int) \<Rightarrow> page_id set \<Rightarrow> (64 word \<rightharpoonup> RID) \<Rightarrow> bool" where
  "index_rep t S P A M \<longleftrightarrow> pool_st (bpm t) S P \<and>
     (if IsEmpty t then A = {} \<and> M = Map.empty
      else \<exists>h T. index_tree t S P h T \<and> A = set (ids T) \<and> M = map_of (entries T))"

text \<open>The outcome of a search: the leaf is pinned, everything else is as before.\<close>

definition leaf_found ::
  "64 word \<Rightarrow> (page_id \<rightharpoonup> byte list) \<Rightarrow> (page_id \<Rightarrow> int) \<Rightarrow> bt \<Rightarrow> buffer_pool \<Rightarrow> frame_id \<Rightarrow> page_id \<Rightarrow>
   leaf_entry list \<Rightarrow> step list \<Rightarrow> int \<Rightarrow> int \<Rightarrow> bool" where
  "leaf_found key S P T b f q es c lo hi \<longleftrightarrow>
     T = fill (Leaf q es) c \<and> located (Leaf q es) c 0 lo hi \<and> lo \<le> sint key \<and> sint key < hi \<and>
     pool_st b S (P(q := 1)) \<and> P q = 0 \<and> held b q f \<and> synced b q"

lemma find_leaf_loop_ok:
  assumes "located u c h lo hi" "tree_in S (fill u c)" "lo \<le> sint key" "sint key < hi"
    "pool_st (bpm t) S (P(root_id u := 1))" "held (bpm t) (root_id u) f" "synced (bpm t) (root_id u)"
    "npin P < frames (bpm t)" "\<forall>q \<in> set (ids (fill u c)). P q = 0"
  shows "\<exists>g b q es c' lo' hi'. find_leaf_loop key (root_id u) (Some f) t = Some (Inr (Some g), t\<lparr>bpm := b\<rparr>) \<and>
     leaf_found key S P (fill u c) b g q es c' lo' hi' \<and> frames b = frames (bpm t)"
  using assms
proof (induction h arbitrary: u c lo hi t f)
  case 0
  then obtain q es where u: "u = Leaf q es" by (cases u) (auto simp: located_def)
  obtain d where d: "S q = Some d" "leaf_node q (path_par c) (path_next c) es d"
    using tree_in_root [OF 0(2)] u by auto
  have "node_data f t = d" using held_node_data [OF 0(5,6)] d(1) u by simp
  then have "find_leaf_loop key (root_id u) (Some f) t = Some (Inr (Some f), t\<lparr>bpm := bpm t\<rparr>)"
    using leaf_nodeD(2) [OF d(2)] by (subst find_leaf_loop.simps) simp
  moreover have "P q = 0" using 0(9) u set_ids_fill [of u c] by simp
  moreover from this have "leaf_found key S P (fill u c) (bpm t) f q es c lo hi"
    using 0(1-7) unfolding leaf_found_def u root_id.simps by blast
  ultimately show ?case by blast
next
  case (Suc h)
  then obtain p cs where u: "u = Node p cs" and ok: "forest_ok h lo hi cs" by (cases u) (auto simp: located_def)
  obtain d where d: "S p = Some d" "inner_node p (path_par c) (child_ids cs) d"
    using tree_in_root [OF Suc.prems(2)] u by auto
  have P0: "P p = 0" using Suc.prems(9) u set_ids_fill [of u c] by simp
  obtain ls k v rs a b where s: "cs = ls @ (k, v) # rs" "Internal_Lookup key d = Some (root_id v)"
    "left_ok h lo a k ls" "bt_ok h a b v" "chain_ok h b hi rs" "a \<le> sint key" "sint key < b"
    by (rule descend_node [OF d(2) ok Suc.prems(3,4)])
  have data: "node_data f t = d" using held_node_data [OF Suc.prems(5,6)] d(1) u by simp
  have st: "pool_st (bpm t) S (P(p := 1))" "held (bpm t) p f" "False \<or> synced (bpm t) p"
    using Suc.prems(5-7) unfolding u root_id.simps by blast+
  obtain b1 where b1: "UnpinPage p False (bpm t) = (Inr True, b1)" "pool_st b1 S P" "frames b1 = frames (bpm t)"
    using pp.unpin_ok [OF st] P0 by (auto simp: fun_upd_idem)
  have v: "located v ((p, ls, k, rs) # c) h a b" "fill v ((p, ls, k, rs) # c) = fill u c"
    using located_down [of p ls k v rs c h lo hi a b] Suc.prems(1) u s by auto
  have ids: "set (ids v) \<subseteq> set (ids (fill u c))" using set_ids_fill [of v "(p, ls, k, rs) # c"] v(2) by auto
  then have vP: "P (root_id v) = 0" "root_id v \<in> dom S"
    using Suc.prems(9) tree_in_dom [OF Suc.prems(2)] root_in_ids [of v] by blast+
  obtain g b2 where b2: "FetchPage (root_id v) b1 = (Inr (Some g), b2)" "pool_st b2 S (P(root_id v := P (root_id v) + 1))"
    "held b2 (root_id v) g" "frames b2 = frames b1" "\<forall>q. synced b1 q \<longrightarrow> synced b2 q"
    using pp.fetch_ok [OF b1(2) vP(2)] Suc.prems(8) b1(3) by metis
  have syn: "synced b2 (root_id v)" using b2(5) pp.clean_idle [OF b1(2) vP(1)] by blast
  have step: "find_leaf_loop key (root_id u) (Some f) t = find_leaf_loop key (root_id v) (Some g) (t\<lparr>bpm := b2\<rparr>)"
    using data inner_nodeD(2) [OF d(2)] s(2) b1(1) b2(1) u by (subst find_leaf_loop.simps) simp
  have "\<exists>g' b q es c' lo' hi'. find_leaf_loop key (root_id v) (Some g) (t\<lparr>bpm := b2\<rparr>)
       = Some (Inr (Some g'), (t\<lparr>bpm := b2\<rparr>)\<lparr>bpm := b\<rparr>) \<and>
     leaf_found key S P (fill v ((p, ls, k, rs) # c)) b g' q es c' lo' hi' \<and> frames b = frames (bpm (t\<lparr>bpm := b2\<rparr>))"
    by (rule Suc.IH [OF v(1)]) (use Suc.prems v(2) s(6,7) b1(3) b2 vP(1) syn in \<open>simp_all add: fun_upd_def\<close>)
  then show ?case using step v(2) b2(4) b1(3) by simp
qed

lemma find_leaf_ok:
  assumes rep: "index_tree t S P h T" and st: "pool_st (bpm t) S P" and room: "npin P < frames (bpm t)"
  shows "\<exists>g b q es c lo hi. FindLeafPage key t = Some (Inr (Some g), t\<lparr>bpm := b\<rparr>) \<and>
     leaf_found key S P T b g q es c lo hi \<and> frames b = frames (bpm t)"
proof -
  have T: "root_page_id t = root_id T" "tree_in S T" "tree_ok h T" "\<forall>p \<in> set (ids T). P p = 0"
    using rep by (auto simp: index_tree_def)
  have root: "root_id T \<in> dom S" "P (root_id T) = 0" "root_id T \<noteq> INVALID_PAGE_ID"
    using subsetD [OF tree_in_dom [OF T(2)] root_in_ids] bspec [OF T(4) root_in_ids] T(2) root_in_ids [of T]
    unfolding tree_in_def by metis+
  obtain f b where b: "FetchPage (root_id T) (bpm t) = (Inr (Some f), b)" "pool_st b S (P(root_id T := P (root_id T) + 1))"
    "held b (root_id T) f" "frames b = frames (bpm t)" "\<forall>q. synced (bpm t) q \<longrightarrow> synced b q"
    using pp.fetch_ok [OF st root(1) room] by metis
  have syn: "synced b (root_id T)" using b(5) pp.clean_idle [OF st root(2)] by blast
  have "\<exists>g b' q es c lo hi. find_leaf_loop key (root_id T) (Some f) (t\<lparr>bpm := b\<rparr>)
       = Some (Inr (Some g), (t\<lparr>bpm := b\<rparr>)\<lparr>bpm := b'\<rparr>) \<and>
     leaf_found key S P (fill T []) b' g q es c lo hi \<and> frames b' = frames (bpm (t\<lparr>bpm := b\<rparr>))"
    by (rule find_leaf_loop_ok [OF located_root [OF T(3)]])
      (use T root b syn room sint64_bounds in simp_all)
  then show ?thesis using b(1,4) T(1) root(3) by (simp add: FindLeafPage_def)
qed

lemma leaf_found_data:
  assumes "leaf_found key S P T b f q es c lo hi" "tree_in S T" "bpm t = b"
  obtains d where "node_data f t = d" "S q = Some d" "leaf_node q (path_par c) (path_next c) es d" "sorted_keys es"
proof -
  have T: "tree_in S (fill (Leaf q es) c)" using assms(1,2) by (simp add: leaf_found_def)
  obtain d where d: "S q = Some d" "leaf_node q (path_par c) (path_next c) es d"
    using tree_in_root [OF T] by auto
  have "node_data f t = d" using held_node_data [of t S "P(q := 1)" q f d] assms(1,3) d(1) by (simp add: leaf_found_def)
  then show thesis using that d assms(1) by (simp add: leaf_found_def located_def)
qed

lemma leaf_found_entries:
  assumes "leaf_found key S P T b f q es c lo hi"
  shows "map_of (entries T) key = map_of es key"
  using assms map_of_path [of 0 lo hi c key es] by (auto simp: leaf_found_def located_def entries_fill)

lemma get_value_ok:
  assumes rep: "index_rep t S P A M" and room: "npin P < frames (bpm t)"
  shows "\<exists>b. GetValue key t = Some (Inr (M key), t\<lparr>bpm := b\<rparr>) \<and> index_rep (t\<lparr>bpm := b\<rparr>) S P A M \<and> frames b = frames (bpm t)"
proof (cases "IsEmpty t")
  case True
  then have "M key = None" "t\<lparr>bpm := bpm t\<rparr> = t" using rep by (auto simp: index_rep_def)
  then show ?thesis using True rep by (intro exI [of _ "bpm t"]) (simp add: GetValue_def)
next
  case False
  then obtain h T where T: "pool_st (bpm t) S P" "index_tree t S P h T" "M = map_of (entries T)" "A = set (ids T)"
    using rep by (auto simp: index_rep_def)
  obtain f b q es c lo hi where f: "FindLeafPage key t = Some (Inr (Some f), t\<lparr>bpm := b\<rparr>)"
    "leaf_found key S P T b f q es c lo hi" "frames b = frames (bpm t)"
    using find_leaf_ok [OF T(2,1) room] by blast
  have in_S: "tree_in S T" using T(2) by (simp add: index_tree_def)
  let ?t1 = "t\<lparr>bpm := b\<rparr>"
  obtain d where d: "node_data f ?t1 = d" "leaf_node q (path_par c) (path_next c) es d" "sorted_keys es"
    by (rule leaf_found_data [OF f(2) in_S, of ?t1]) auto
  have h: "pool_st b S (P(q := 1))" "held b q f" "synced b q" "P q = 0" using f(2) by (auto simp: leaf_found_def)
  obtain b2 where b2: "UnpinPage q False b = (Inr True, b2)" "pool_st b2 S P" "frames b2 = frames b"
    using pp.unpin_ok [OF h(1,2), of False] h(3,4) by (auto simp: fun_upd_idem)
  have "node_read f (Leaf_Lookup key) ?t1 = (Inr (M key), ?t1)"
    using leaf_lookup_eq [OF d(2,3), of key] d(1) leaf_found_entries [OF f(2)] T(3) by simp
  moreover have "unpin_frame f False ?t1 = (Inr True, t\<lparr>bpm := b2\<rparr>)"
    using unpin_frame_step [of ?t1 S "P(q := 1)" q f False] h b2(1) by simp
  ultimately have "GetValue key t = Some (Inr (M key), t\<lparr>bpm := b2\<rparr>)"
    using False f(1) by (simp add: GetValue_def)
  moreover have "index_rep (t\<lparr>bpm := b2\<rparr>) S P A M"
    using T b2(2) False by (auto simp: index_rep_def index_tree_def IsEmpty_def)
  ultimately show ?thesis using b2(3) f(3) by (intro exI [of _ b2]) simp
qed

end
