(* ===== verification/BPlus_Insert.thy ===== *)
theory BPlus_Insert
  imports BPlus_Search
begin

text \<open>
  Insertion into the index. The split of a node leaves two trees where its parent expects one;
  \<open>pair_in\<close> and \<open>pair_ok\<close> describe this situation along the path to the root, and \<open>grown\<close> what
  \<open>InsertIntoParent\<close> makes of it: a well-formed tree with the same entries, in which only new pages
  were added and no page outside the tree was touched.
\<close>

section \<open>Two trees in place of one\<close>

definition pair_in :: "(page_id \<rightharpoonup> byte list) \<Rightarrow> step list \<Rightarrow> bt \<Rightarrow> bt \<Rightarrow> bool" where
  "pair_in S c t1 t2 \<longleftrightarrow>
     sat S (path_desc c (root_id t1) (first_leaf t1)) \<and> sat S (desc (path_par c) (first_leaf t2) t1) \<and>
     (\<exists>x. sat S (desc x (path_next c) t2)) \<and> distinct (path_ids c @ ids t1 @ ids t2) \<and>
     INVALID_PAGE_ID \<notin> set (path_ids c @ ids t1 @ ids t2)"

definition pair_ok :: "step list \<Rightarrow> bt \<Rightarrow> 64 word \<Rightarrow> bt \<Rightarrow> nat \<Rightarrow> int \<Rightarrow> int \<Rightarrow> bool" where
  "pair_ok c t1 k t2 h lo hi \<longleftrightarrow>
     path_ok h lo hi c \<and> path_sized c \<and> bt_ok h lo (sint k) t1 \<and> bt_ok h (sint k) hi t2 \<and> sized False t1 \<and> sized False t2"

definition grown :: "(page_id \<rightharpoonup> byte list) \<Rightarrow> step list \<Rightarrow> bt \<Rightarrow> bt \<Rightarrow> (page_id \<rightharpoonup> byte list) \<Rightarrow> bt \<Rightarrow> bool" where
  "grown S c t1 t2 S' T \<longleftrightarrow>
     tree_in S' T \<and> (\<exists>h. tree_ok h T) \<and> entries T = path_left c @ entries t1 @ entries t2 @ path_right c \<and>
     set (path_ids c @ ids t1 @ ids t2) \<subseteq> set (ids T) \<and>
     (\<forall>q \<in> set (ids T). q \<notin> set (path_ids c @ ids t1 @ ids t2) \<longrightarrow> q \<notin> dom S) \<and>
     (\<forall>q. q \<notin> set (ids T) \<longrightarrow> S' q = S q)"

lemma roots_apart:
  assumes "distinct (ids t1 @ ids t2)"
  shows "root_id t1 \<notin> set (ids t2)" "root_id t2 \<notin> set (ids t1)" "root_id t1 \<noteq> root_id t2"
proof -
  have disj: "set (ids t1) \<inter> set (ids t2) = {}" using assms by simp
  show "root_id t1 \<notin> set (ids t2)" "root_id t2 \<notin> set (ids t1)"
    using disj root_in_ids [of t1] root_in_ids [of t2] by (meson disjoint_iff)+
  then show "root_id t1 \<noteq> root_id t2" using root_in_ids [of t1] by metis
qed

lemma root_neq: "r \<notin> set (ids t) \<Longrightarrow> root_id t \<noteq> r"
  by auto

lemma pair_in_roots:
  assumes "pair_in S c t1 t2"
  obtains e1 e2 x where "S (root_id t1) = Some e1" "node_ok (root_id t1) (root_desc (path_par c) (first_leaf t2) t1) e1"
    "S (root_id t2) = Some e2" "node_ok (root_id t2) (root_desc x (path_next c) t2) e2" "root_id t1 \<noteq> root_id t2"
proof -
  obtain x where x: "sat S (desc x (path_next c) t2)" using assms by (auto simp: pair_in_def)
  obtain e1 where e1: "S (root_id t1) = Some e1" "node_ok (root_id t1) (root_desc (path_par c) (first_leaf t2) t1) e1"
    using assms sat_root by (metis pair_in_def)
  obtain e2 where e2: "S (root_id t2) = Some e2" "node_ok (root_id t2) (root_desc x (path_next c) t2) e2"
    using x sat_root by metis
  have "root_id t1 \<noteq> root_id t2" by (rule roots_apart(3)) (use assms in \<open>simp add: pair_in_def\<close>)
  then show thesis using that e1 e2 by blast
qed

lemma node_ok_header:
  assumes "node_ok p (root_desc par nxt t) d"
  shows "Node_GetPageId d = p" "GetParentPageId d = par" "page_sized d"
  using assms by (cases t; auto simp: leaf_node_def inner_node_def)+

lemma SetParent_length: "page_sized d \<Longrightarrow> length (SetParentPageId p d) = PAGE_SIZE"
  using page_sized_setters(4) [of d p] by (simp add: page_sized_def)

section \<open>A new root\<close>

text \<open>The store after the two trees got a common parent page.\<close>

lemma new_root_store:
  assumes pi: "pair_in S [] t1 t2" and po: "pair_ok [] t1 k t2 h lo hi" and r: "r \<notin> dom S" "r \<noteq> INVALID_PAGE_ID"
    and d: "inner_node r INVALID_PAGE_ID [(k0, root_id t1), (k, root_id t2)] d"
    and e: "S (root_id t1) = Some e1" "S (root_id t2) = Some e2"
  shows "grown S [] t1 t2 (S(r \<mapsto> d, root_id t1 \<mapsto> SetParentPageId r e1, root_id t2 \<mapsto> SetParentPageId r e2))
     (Node r [(k0, t1), (k, t2)])"
proof -
  let ?S = "S(r \<mapsto> d, root_id t1 \<mapsto> SetParentPageId r e1, root_id t2 \<mapsto> SetParentPageId r e2)"
  obtain x where x: "sat S (desc x INVALID_PAGE_ID t2)" and t1: "sat S (desc INVALID_PAGE_ID (first_leaf t2) t1)"
    and dist: "distinct (ids t1 @ ids t2)" using pi by (auto simp: pair_in_def)
  have sub: "set (ids t1) \<subseteq> dom S" "set (ids t2) \<subseteq> dom S" using sat_dom [OF t1] sat_dom [OF x] by simp_all
  have ne: "r \<notin> set (ids t1)" "r \<notin> set (ids t2)" using sub r(1) by blast+
  have cross: "root_id t1 \<notin> set (ids t2)" "root_id t2 \<notin> set (ids t1)" "root_id t1 \<noteq> r" "root_id t2 \<noteq> r"
     "root_id t2 \<noteq> root_id t1"
    using roots_apart [OF dist] root_neq [OF ne(1)] root_neq [OF ne(2)] by metis+
  have "sat (S(r \<mapsto> d)) (desc INVALID_PAGE_ID (first_leaf t2) t1)" using t1 ne by simp
  from sat_set_parent [OF this, of e1 r] have s1: "sat ?S (desc r (first_leaf t2) t1)"
    using dist e(1) cross by simp
  have "sat (S(r \<mapsto> d, root_id t1 \<mapsto> SetParentPageId r e1)) (desc x INVALID_PAGE_ID t2)" using x ne cross by simp
  from sat_set_parent [OF this, of e2 r] have s2: "sat ?S (desc r INVALID_PAGE_ID t2)"
    using dist e(2) cross by simp
  have "tree_in ?S (Node r [(k0, t1), (k, t2)])"
    using s1 s2 d dist ne r pi cross by (auto simp: tree_in_def pair_in_def)
  moreover have "tree_ok (Suc h) (Node r [(k0, t1), (k, t2)])"
    using po by (auto simp: tree_ok_def pair_ok_def)
  ultimately show ?thesis using r(1) by (auto simp: grown_def)
qed

lemma insert_new_root_ok:
  assumes pi: "pair_in S [] t1 t2" and po: "pair_ok [] t1 k t2 h lo hi"
    and st: "pool_st (bpm t) S P" and f: "held (bpm t) (root_id t1) f" and g: "held (bpm t) (root_id t2) g"
    and room: "npin P < frames (bpm t)" and spare: "spare_ids (Suc 0) S"
  shows "\<exists>b S' T. insert_new_root f k g t = (Inr (), t\<lparr>root_page_id := root_id T, bpm := b\<rparr>) \<and>
     grown S [] t1 t2 S' T \<and> pool_st b S' P \<and> frames b = frames (bpm t) \<and>
     (\<forall>q x. held (bpm t) q x \<longrightarrow> held b q x) \<and> takes_ids (Suc 0) S S'"
proof -
  obtain e1 e2 x where e: "S (root_id t1) = Some e1" "node_ok (root_id t1) (root_desc INVALID_PAGE_ID (first_leaf t2) t1) e1"
    "S (root_id t2) = Some e2" "node_ok (root_id t2) (root_desc x INVALID_PAGE_ID t2) e2" "root_id t1 \<noteq> root_id t2"
    using pair_in_roots [OF pi] by auto
  note h1 = node_ok_header [OF e(2)] and h2 = node_ok_header [OF e(4)]
  obtain r n b1 where b1: "NewPage (bpm t) = (Inr (r, Some n), b1)" "r \<notin> dom S" "r \<noteq> INVALID_PAGE_ID" "P r = 0"
    "pool_st b1 (S(r \<mapsto> zero_page)) (P(r := 1))" "held b1 r n" "frames b1 = frames (bpm t)"
    "\<forall>q y. held (bpm t) q y \<longrightarrow> held b1 q y"
    using pp.new_ok [OF st spare_ids_unused [OF spare] room] by blast
  have ne: "root_id t1 \<noteq> r" "root_id t2 \<noteq> r" using e(1,3) b1(2) by auto
  have z: "page_data b1 n = zero_page" using pp.get_ok [OF b1(5,6)] by simp
  have zs: "page_sized zero_page" by (simp add: page_sized_def)
  note n0 = inner_init [OF zs, of r INVALID_PAGE_ID]
  obtain d1 k0 where d1: "Internal_Populate (root_id t1) k (root_id t2) (Internal_Init r INVALID_PAGE_ID 338 zero_page) = Some d1"
    "inner_node r INVALID_PAGE_ID [(k0, root_id t1), (k, root_id t2)] d1" using inner_populate [OF n0] by blast
  let ?d0 = "Internal_Init r INVALID_PAGE_ID 338 zero_page"
  let ?b2 = "put_data n ?d0 b1"
  have p2: "pool_st ?b2 (S(r \<mapsto> ?d0)) (P(r := 1))" "frames ?b2 = frames b1" "\<forall>q y. held b1 q y \<longrightarrow> held ?b2 q y"
    using pp.put_ok [OF b1(5,6), of ?d0] inner_nodeD(1) [OF n0] by (auto simp: page_sized_def)
  let ?b3 = "put_data n d1 ?b2"
  have p3: "pool_st ?b3 (S(r \<mapsto> d1)) (P(r := 1))" "frames ?b3 = frames b1" "\<forall>q y. held b1 q y \<longrightarrow> held ?b3 q y"
    using pp.put_ok [OF p2(1), of r n d1] p2(2,3) b1(6) inner_nodeD(1) [OF d1(2)] by (auto simp: page_sized_def)
  have f3: "held ?b3 (root_id t1) f" "held ?b3 (root_id t2) g" using p3(3) b1(8) f g by blast+
  let ?b4 = "put_data f (SetParentPageId r e1) ?b3"
  have p4: "pool_st ?b4 (S(r \<mapsto> d1, root_id t1 \<mapsto> SetParentPageId r e1)) (P(r := 1))" "frames ?b4 = frames b1"
    "\<forall>q y. held b1 q y \<longrightarrow> held ?b4 q y"
    using pp.put_ok [OF p3(1) f3(1) SetParent_length [OF h1(3)], of r] p3(2,3) by auto
  have f4: "held ?b4 (root_id t2) g" "held ?b4 r n" using p4(3) b1(6,8) g by blast+
  let ?b5 = "put_data g (SetParentPageId r e2) ?b4"
  let ?S = "S(r \<mapsto> d1, root_id t1 \<mapsto> SetParentPageId r e1, root_id t2 \<mapsto> SetParentPageId r e2)"
  have p5: "pool_st ?b5 ?S (P(r := 1))" "frames ?b5 = frames b1" "\<forall>q y. held b1 q y \<longrightarrow> held ?b5 q y"
    using pp.put_ok [OF p4(1) f4(1) SetParent_length [OF h2(3)], of r] p4(2,3) by auto
  have n5: "held ?b5 r n" using p5(3) b1(6) by blast
  obtain b6 where b6: "UnpinPage r True ?b5 = (Inr True, b6)" "pool_st b6 ?S P" "frames b6 = frames b1"
    "\<forall>q y. held ?b5 q y \<and> q \<noteq> r \<longrightarrow> held b6 q y"
    using pp.unpin_ok [OF p5(1) n5, of True] b1(4) p5(2) by (auto simp: fun_upd_idem)
  have data: "page_data ?b2 n = ?d0" "page_data ?b3 f = e1" "page_data ?b4 g = e2" "page_data ?b2 f = e1" "page_data ?b2 g = e2"
    using pp.get_ok [OF p2(1)] pp.get_ok [OF p3(1) f3(1)] pp.get_ok [OF p4(1) f4(1)] p2(3) b1(6,8) f g e ne by fastforce+
  have "held b6 q y" if "held (bpm t) q y" for q y
    using that b1(4,8) p5(3) b6(4) pp.hold_pins [OF st that] by (metis less_irrefl)
  moreover have "insert_new_root f k g t = (Inr (), t\<lparr>root_page_id := r, bpm := b6\<rparr>)"
    using b1(1) z d1(1) h1(1) h2(1) data b6(1) by (simp add: insert_new_root_def node_data_def)
  moreover have "takes_ids 0 (S(r \<mapsto> d1)) ?S" by (rule takes_ids_dom) (use e in auto)
  from takes_ids_trans [OF takes_ids_new this] have "takes_ids (Suc 0) S ?S" by simp
  ultimately show ?thesis
    using new_root_store [OF pi po b1(2,3) d1(2) e(1,3)] b6(2,3) b1(7)
    by (intro exI [of _ b6] exI [of _ ?S] exI [of _ "Node r [(k0, t1), (k, t2)]"]) auto
qed

section \<open>New parents for the children of a node\<close>

text \<open>Subtrees whose parent ids may be stale.\<close>

fun forest_sat :: "(page_id \<rightharpoonup> byte list) \<Rightarrow> page_id \<Rightarrow> (64 word \<times> bt) list \<Rightarrow> bool" where
  "forest_sat S nxt [] \<longleftrightarrow> True"
| "forest_sat S nxt ((k, t) # cs) \<longleftrightarrow> (\<exists>x. sat S (desc x (next_leaf nxt cs) t)) \<and> forest_sat S nxt cs"

lemma forest_sat_desc: "sat S (forest_desc x nxt cs) \<Longrightarrow> forest_sat S nxt cs"
  by (induction cs) auto

lemma forest_sat_append: "forest_sat S nxt (xs @ ys) \<longleftrightarrow> forest_sat S (next_leaf nxt ys) xs \<and> forest_sat S nxt ys"
  by (induction xs) auto

lemma forest_sat_cong:
  "forest_sat S nxt cs \<Longrightarrow> (\<And>p. p \<in> set (forest_ids cs) \<Longrightarrow> S' p = S p) \<Longrightarrow> forest_sat S' nxt cs"
proof (induction cs)
  case (Cons e cs)
  obtain k t where e: "e = (k, t)" by (cases e)
  obtain x where "sat S (desc x (next_leaf nxt cs) t)" using Cons(2) e by auto
  then have "sat S' (desc x (next_leaf nxt cs) t)" by (rule sat_cong) (use Cons(3) e in auto)
  then show ?case using Cons e by auto
qed simp

text \<open>The children \<open>ys\<close> behind \<open>xs\<close> get the parent \<open>q'\<close>; no other page changes.\<close>

lemma reparent_loop_ok:
  assumes "pool_st (bpm t) S P" "held (bpm t) q f" "S q = Some d" "inner_node q par (child_ids (xs @ ys)) d"
    "forest_sat S nxt ys" "distinct (forest_ids ys)" "q \<notin> set (forest_ids ys)"
    "npin P < frames (bpm t)"
  shows "\<exists>b S'. reparent_loop f q' (int (length xs)) t = Some (Inr (), t\<lparr>bpm := b\<rparr>) \<and> pool_st b S' P \<and>
     frames b = frames (bpm t) \<and> (\<forall>r y. held (bpm t) r y \<longrightarrow> held b r y) \<and> sat S' (forest_desc q' nxt ys) \<and>
     (\<forall>r. r \<notin> set (forest_ids ys) \<longrightarrow> S' r = S r)"
  using assms
proof (induction ys arbitrary: xs S t)
  case Nil
  have "node_data f t = d" using held_node_data [OF Nil(1,2,3)] .
  then have "reparent_loop f q' (int (length xs)) t = Some (Inr (), t)"
    using inner_nodeD(6) [OF Nil(4)] by (subst reparent_loop.simps) simp
  then show ?case using Nil(1) by (intro exI [of _ "bpm t"] exI [of _ S]) simp
next
  case (Cons e ys)
  obtain k u where e: "e = (k, u)" by (cases e)
  have data: "node_data f t = d" using held_node_data [OF Cons.prems(1,2,3)] .
  have dist: "distinct (ids u)" "set (ids u) \<inter> set (forest_ids ys) = {}" "distinct (forest_ids ys)"
    "q \<notin> set (ids u)" "q \<notin> set (forest_ids ys)" using Cons.prems(6,7) e by auto
  obtain x where su: "sat S (desc x (next_leaf nxt ys) u)" "forest_sat S nxt ys" using Cons.prems(5) e by auto
  obtain du where du: "S (root_id u) = Some du" "node_ok (root_id u) (root_desc x (next_leaf nxt ys) u) du"
    using sat_root [OF su(1)] .
  have rn: "root_id u \<notin> set (forest_ids ys)" "root_id u \<noteq> q"
    using dist(2) root_in_ids [of u] root_neq [OF dist(4)] by (meson disjoint_iff)+
  let ?du = "SetParentPageId q' du"
  obtain c b1 b2 where b: "FetchPage (root_id u) (bpm t) = (Inr (Some c), b1)" "page_data b1 c = du"
    "UnpinPage (root_id u) True (put_data c ?du b1) = (Inr True, b2)" "pool_st b2 (S(root_id u \<mapsto> ?du)) P"
    "frames b2 = frames (bpm t)" "\<And>r y. held (bpm t) r y \<Longrightarrow> held b2 r y"
    using pp.change [OF Cons.prems(1) du(1) Cons.prems(8) SetParent_length [OF node_ok_header(3) [OF du(2)], of q']] by blast
  define S1 where "S1 = S(root_id u \<mapsto> ?du)"
  have "forest_sat S1 nxt ys"
    by (rule forest_sat_cong [OF su(2)]) (use rn in \<open>auto simp: S1_def\<close>)
  then have S1: "pool_st b2 S1 P" "S1 q = Some d" "forest_sat S1 nxt ys"
    using b(4) Cons.prems(3) rn by (simp_all add: S1_def)
  let ?t = "t\<lparr>bpm := b2\<rparr>"
  have IH: "\<exists>b S'. reparent_loop f q' (int (length (xs @ [e]))) ?t = Some (Inr (), ?t\<lparr>bpm := b\<rparr>) \<and> pool_st b S' P \<and>
     frames b = frames (bpm ?t) \<and> (\<forall>r y. held (bpm ?t) r y \<longrightarrow> held b r y) \<and> sat S' (forest_desc q' nxt ys) \<and>
     (\<forall>r. r \<notin> set (forest_ids ys) \<longrightarrow> S' r = S1 r)"
    by (rule Cons.IH) (use Cons.prems(2-4,8) e b(5,6) S1 dist in simp_all)
  then obtain b3 S3 where b3: "reparent_loop f q' (int (Suc (length xs))) ?t = Some (Inr (), t\<lparr>bpm := b3\<rparr>)"
    "pool_st b3 S3 P" "frames b3 = frames b2" "\<forall>r y. held b2 r y \<longrightarrow> held b3 r y" "sat S3 (forest_desc q' nxt ys)"
    "\<forall>r. r \<notin> set (forest_ids ys) \<longrightarrow> S3 r = S1 r" by auto
  have "sat S1 (desc q' (next_leaf nxt ys) u)" unfolding S1_def by (rule sat_set_parent [OF su(1) dist(1) du(1)])
  then have "sat S3 (desc q' (next_leaf nxt ys) u)" by (rule sat_cong) (use b3(6) dist(2) in auto)
  then have "sat S3 (forest_desc q' nxt (e # ys))" using b3(5) e by simp
  moreover have "S3 r = S r" if "r \<notin> set (forest_ids (e # ys))" for r
    using that b3(6) e root_neq [of r u] by (auto simp: S1_def)
  moreover have "reparent_loop f q' (int (length xs)) t = Some (Inr (), t\<lparr>bpm := b3\<rparr>)"
    using data inner_nodeD(6) [OF Cons.prems(4)] inner_node_entry(3) [OF Cons.prems(4), of "length xs"] b b3(1) e
    by (subst reparent_loop.simps) (simp add: node_data_def nth_append add.commute)
  ultimately show ?case using b3(2-4) b(5,6) by (intro exI [of _ b3] exI [of _ S3]) simp
qed

section \<open>Insertion into the parent\<close>

lemma parent_store:
  assumes pi: "pair_in S ((p, ls, k0, rs) # c) t1 t2"
    and d: "inner_node p (path_par c) (child_ids (ls @ (k0, t1) # (k, t2) # rs)) d" and e: "S (root_id t2) = Some e2"
  defines "S' \<equiv> S(p \<mapsto> d, root_id t2 \<mapsto> SetParentPageId p e2)"
  shows "sat S' (path_desc c p (next_leaf (first_leaf t1) ls))"
    "sat S' (desc (path_par c) (path_next c) (Node p (ls @ (k0, t1) # (k, t2) # rs)))"
    "distinct (path_ids c @ ids (Node p (ls @ (k0, t1) # (k, t2) # rs)))"
    "INVALID_PAGE_ID \<notin> set (path_ids c @ ids (Node p (ls @ (k0, t1) # (k, t2) # rs)))"
proof -
  obtain x where x: "sat S (desc x (next_leaf (path_next c) rs) t2)" using pi by (auto simp: pair_in_def)
  have sat: "sat S (path_desc c p (next_leaf (first_leaf t1) ls))" "sat S (forest_desc p (first_leaf t1) ls)"
    "sat S (forest_desc p (path_next c) rs)" "sat S (desc p (first_leaf t2) t1)" using pi by (auto simp: pair_in_def)
  have dist: "distinct (path_ids ((p, ls, k0, rs) # c) @ ids t1 @ ids t2)" using pi by (simp add: pair_in_def)
  have r2: "root_id t2 \<notin> set (path_ids ((p, ls, k0, rs) # c) @ ids t1)"
    using dist root_in_ids [of t2] unfolding distinct_append set_append by blast
  have p: "p \<notin> set (path_ids c)" "p \<notin> set (forest_ids ls)" "p \<notin> set (forest_ids rs)" "p \<notin> set (ids t1)" "p \<notin> set (ids t2)"
    using dist by auto
  have ne: "root_id t2 \<noteq> p" using r2 by auto
  show "sat S' (path_desc c p (next_leaf (first_leaf t1) ls))" using sat(1) p(1) r2 by (simp add: S'_def)
  have "sat (S(p \<mapsto> d)) (desc x (next_leaf (path_next c) rs) t2)" using x p by simp
  from sat_set_parent [OF this, of e2 p] have s2: "sat S' (desc p (next_leaf (path_next c) rs) t2)"
    using dist e ne by (simp add: S'_def)
  have "sat S' (forest_desc p (first_leaf t1) ls)" "sat S' (forest_desc p (path_next c) rs)" "sat S' (desc p (first_leaf t2) t1)"
    using sat p r2 by (simp_all add: S'_def)
  moreover have "S' p = Some d" using ne by (simp add: S'_def)
  ultimately show "sat S' (desc (path_par c) (path_next c) (Node p (ls @ (k0, t1) # (k, t2) # rs)))"
    using s2 d by simp
  show "distinct (path_ids c @ ids (Node p (ls @ (k0, t1) # (k, t2) # rs)))" using dist by auto
  show "INVALID_PAGE_ID \<notin> set (path_ids c @ ids (Node p (ls @ (k0, t1) # (k, t2) # rs)))"
    using pi by (auto simp: pair_in_def)
qed

lemma parent_insert_ok:
  assumes pi: "pair_in S ((p, ls, k0, rs) # c) t1 t2" and sz: "Suc (length ls + length rs) \<le> 338"
    and st: "pool_st (bpm t) S P" and fp: "held (bpm t) p fp" and f: "held (bpm t) (root_id t1) f"
    and g: "held (bpm t) (root_id t2) g"
  shows "\<exists>b d e2. insert_into_parent_node f k g fp p t = (Inr (), t\<lparr>bpm := b\<rparr>) \<and>
     inner_node p (path_par c) (child_ids (ls @ (k0, t1) # (k, t2) # rs)) d \<and> S (root_id t2) = Some e2 \<and>
     pool_st b (S(p \<mapsto> d, root_id t2 \<mapsto> SetParentPageId p e2)) P \<and> frames b = frames (bpm t) \<and>
     (\<forall>q y. held (bpm t) q y \<longrightarrow> held b q y)"
proof -
  obtain e1 e2 x where e: "S (root_id t1) = Some e1" "node_ok (root_id t1) (root_desc p (first_leaf t2) t1) e1"
    "S (root_id t2) = Some e2" "node_ok (root_id t2) (root_desc x (next_leaf (path_next c) rs) t2) e2"
    by (rule pair_in_roots [OF pi, unfolded path_par.simps path_next.simps]) blast
  obtain d0 where d0: "S p = Some d0" "inner_node p (path_par c) (child_ids ls @ (k0, root_id t1) # child_ids rs) d0"
    using pi by (auto simp: pair_in_def)
  have dist: "distinct (path_ids ((p, ls, k0, rs) # c) @ ids t1 @ ids t2)" using pi by (simp add: pair_in_def)
  have "root_id t1 \<notin> set (forest_ids ls)" "root_id t2 \<noteq> p"
    using dist root_in_ids [of t1] root_in_ids [of t2] unfolding distinct_append set_append path_ids.simps
    by (auto simp del: root_in_ids)
  then have v: "root_id t1 \<notin> snd ` set (child_ids ls)" "root_id t2 \<noteq> p" using child_ids_subset [of ls] by blast+
  obtain d where d: "Internal_InsertNodeAfter (root_id t1) k (root_id t2) d0 = Some d"
    "inner_node p (path_par c) (child_ids ls @ (k0, root_id t1) # (k, root_id t2) # child_ids rs) d"
    using inner_insert_after [OF d0(2) v(1), of k "root_id t2"] sz by auto
  have data: "page_data (bpm t) f = e1" "page_data (bpm t) g = e2" "page_data (bpm t) fp = d0"
    using pp.get_ok [OF st f] pp.get_ok [OF st g] pp.get_ok [OF st fp] e d0(1) by simp_all
  let ?b1 = "put_data fp d (bpm t)"
  have p1: "pool_st ?b1 (S(p \<mapsto> d)) P" "frames ?b1 = frames (bpm t)" "\<forall>q y. held (bpm t) q y \<longrightarrow> held ?b1 q y"
    using pp.put_ok [OF st fp, of d] inner_nodeD(1) [OF d(2)] by (auto simp: page_sized_def)
  have g1: "held ?b1 (root_id t2) g" using p1(3) g by blast
  have data1: "page_data ?b1 g = e2" using pp.get_ok [OF p1(1) g1] e(3) v(2) by simp
  let ?b2 = "put_data g (SetParentPageId p e2) ?b1"
  have p2: "pool_st ?b2 (S(p \<mapsto> d, root_id t2 \<mapsto> SetParentPageId p e2)) P" "frames ?b2 = frames (bpm t)"
    "\<forall>q y. held (bpm t) q y \<longrightarrow> held ?b2 q y"
    using pp.put_ok [OF p1(1) g1 SetParent_length [OF node_ok_header(3) [OF e(4)]], of p] p1(2,3) by auto
  have "insert_into_parent_node f k g fp p t = (Inr (), t\<lparr>bpm := ?b2\<rparr>)"
    using data data1 d(1) node_ok_header(1) [OF e(2)] node_ok_header(1) [OF e(4)]
    by (simp add: insert_into_parent_node_def node_data_def)
  then show ?thesis using d(2) e(3) p2 by (intro exI [of _ ?b2] exI [of _ d] exI [of _ e2]) simp
qed

text \<open>The ranges: the pair of trees fits into the node that held the first one.\<close>

lemma pair_ok_node:
  assumes "pair_ok ((p, ls, k0, rs) # c) t1 k t2 h lo hi"
  obtains a b where "path_ok (Suc h) a b c" "path_sized c" "forest_ok h a b (ls @ (k0, t1) # (k, t2) # rs)"
    "forest_sized (ls @ (k0, t1) # (k, t2) # rs)" "Suc (length ls + length rs) \<le> 338"
    "(if c = [] then 2 else 169) \<le> Suc (length ls + length rs)"
proof -
  obtain a b where ab: "path_ok (Suc h) a b c" "left_ok h a lo k0 ls" "chain_ok h hi b rs"
    using assms by (auto simp: pair_ok_def)
  have "bt_ok h lo (sint k) t1" "chain_ok h (sint k) b ((k, t2) # rs)" using assms ab(3) by (auto simp: pair_ok_def)
  then have "forest_ok h a b (ls @ (k0, t1) # (k, t2) # rs)" using ab(2) unfolding forest_ok_mid by blast
  then show thesis using that [OF ab(1)] assms by (auto simp: pair_ok_def)
qed

section \<open>The split of a parent\<close>

lemma split_parent_ok:
  assumes st: "pool_st (bpm t) S P" and fp: "held (bpm t) p f" and fq: "held (bpm t) q g" and pq: "p \<noteq> q"
    and p: "S p = Some d" "inner_node p gp (child_ids cs) d" and q: "S q = Some z" and room: "npin P < frames (bpm t)"
    and sat: "sat S (forest_desc p nxt cs)" and dist: "distinct (forest_ids cs)"
    and new: "p \<notin> set (forest_ids cs)" "q \<notin> set (forest_ids cs)"
    and xy: "xs = take (kept (length cs)) cs" "ys = drop (kept (length cs)) cs"
  shows "\<exists>b S'. split_parent_node f g q t = Some (Inr (), t\<lparr>bpm := b\<rparr>) \<and> pool_st b S' P \<and>
     frames b = frames (bpm t) \<and> (\<forall>r y. held (bpm t) r y \<longrightarrow> held b r y) \<and>
     sat S' (desc gp (next_leaf nxt ys) (Node p xs)) \<and> sat S' (desc gp nxt (Node q ys)) \<and>
     (\<forall>r. r \<noteq> p \<and> r \<noteq> q \<and> r \<notin> set (forest_ids ys) \<longrightarrow> S' r = S r)"
proof -
  have cs: "cs = xs @ ys" using xy by simp
  let ?z = "Internal_Init q gp 338 z"
  have z: "inner_node q gp [] ?z" by (rule inner_init) (use pp.st_length [OF st q] in \<open>simp add: page_sized_def\<close>)
  have data: "page_data (bpm t) f = d" "page_data (bpm t) g = z"
    using pp.get_ok [OF st fp] pp.get_ok [OF st fq] p(1) q by simp_all
  let ?b1 = "put_data g ?z (bpm t)"
  have p1: "pool_st ?b1 (S(q \<mapsto> ?z)) P" "frames ?b1 = frames (bpm t)" "\<forall>r y. held (bpm t) r y \<longrightarrow> held ?b1 r y"
    using pp.put_ok [OF st fq, of ?z] inner_nodeD(1) [OF z] by (auto simp: page_sized_def)
  have h1: "held ?b1 p f" "held ?b1 q g" using p1(3) fp fq by blast+
  have data1: "page_data ?b1 f = d" "page_data ?b1 g = ?z"
    using pp.get_ok [OF p1(1) h1(1)] pp.get_ok [OF p1(1) h1(2)] p(1) pq by simp_all
  obtain d1 d2 where m: "Internal_MoveHalfTo d ?z = Some (d1, d2)" "inner_node p gp (child_ids xs) d1"
    "inner_node q gp (child_ids ys) d2"
    using inner_move_half [OF p(2) z] xy by (auto simp: child_ids_def take_map drop_map)
  let ?b2 = "put_data f d1 ?b1"
  have p2: "pool_st ?b2 (S(q \<mapsto> ?z, p \<mapsto> d1)) P" "frames ?b2 = frames (bpm t)" "\<forall>r y. held (bpm t) r y \<longrightarrow> held ?b2 r y"
    using pp.put_ok [OF p1(1) h1(1), of d1] p1(2,3) inner_nodeD(1) [OF m(2)] by (auto simp: page_sized_def)
  have h2: "held ?b2 q g" using p2(3) fq by blast
  let ?b3 = "put_data g d2 ?b2"
  define S3 where "S3 = S(q \<mapsto> ?z, p \<mapsto> d1, q \<mapsto> d2)"
  have p3: "pool_st ?b3 S3 P" "frames ?b3 = frames (bpm t)" "\<forall>r y. held (bpm t) r y \<longrightarrow> held ?b3 r y"
    using pp.put_ok [OF p2(1) h2, of d2] p2(2,3) inner_nodeD(1) [OF m(3)] by (auto simp: page_sized_def S3_def)
  have h3: "held ?b3 q g" using p3(3) fq by blast
  have S3: "S3 p = Some d1" "S3 q = Some d2" "sat S3 (forest_desc p nxt ys)" "sat S3 (forest_desc p (next_leaf nxt ys) xs)"
    "\<forall>r. r \<noteq> p \<and> r \<noteq> q \<longrightarrow> S3 r = S r"
    using sat new pq by (simp_all add: S3_def cs)
  have dy: "distinct (forest_ids ys)" "q \<notin> set (forest_ids ys)" "p \<notin> set (forest_ids ys)"
    "set (forest_ids xs) \<inter> set (forest_ids ys) = {}" "q \<notin> set (forest_ids xs)" using dist new cs by auto
  let ?t3 = "t\<lparr>bpm := ?b3\<rparr>"
  obtain b4 S4 where r: "reparent_loop g q 0 ?t3 = Some (Inr (), t\<lparr>bpm := b4\<rparr>)" "pool_st b4 S4 P"
    "frames b4 = frames (bpm t)" "\<forall>r y. held ?b3 r y \<longrightarrow> held b4 r y" "sat S4 (forest_desc q nxt ys)"
    "\<forall>r. r \<notin> set (forest_ids ys) \<longrightarrow> S4 r = S3 r"
    using reparent_loop_ok [of ?t3 S3 P q g d2 gp "[]" ys nxt q] p3 h3 S3(2) forest_sat_desc [OF S3(3)] m(3) dy room by auto
  have "sat S4 (forest_desc p (next_leaf nxt ys) xs)" by (rule sat_cong [OF S3(4)]) (use r(6) dy(4) in auto)
  then have "sat S4 (desc gp (next_leaf nxt ys) (Node p xs))" "sat S4 (desc gp nxt (Node q ys))"
    using r(5,6) dy(2,3) S3(1,2) m(2,3) by simp_all
  moreover have "split_parent_node f g q t = Some (Inr (), t\<lparr>bpm := b4\<rparr>)"
    using data data1 m(1) r(1) inner_nodeD(5) [OF p(2)] by (simp add: split_parent_node_def node_data_def)
  moreover have "\<forall>r y. held (bpm t) r y \<longrightarrow> held b4 r y" using p3(3) r(4) by blast
  moreover have "\<forall>r. r \<noteq> p \<and> r \<noteq> q \<and> r \<notin> set (forest_ids ys) \<longrightarrow> S4 r = S r" using r(6) S3(5) by metis
  ultimately show ?thesis using r(2,3) by blast
qed

lemma grown_split:
  assumes gr: "grown S' c (Node p xs) (Node q ys) S'' T"
    and eq: "xs @ ys = ls @ (k0, t1) # (k, t2) # rs" and q: "q \<notin> dom S"
    and dom: "dom S \<subseteq> dom S'" and same: "\<forall>r. r \<notin> set (ids (Node p (xs @ ys))) \<and> r \<noteq> q \<longrightarrow> S' r = S r"
  shows "grown S ((p, ls, k0, rs) # c) t1 t2 S'' T"
proof -
  have e: "forest_entries xs @ forest_entries ys = forest_entries ls @ entries t1 @ entries t2 @ forest_entries rs"
    using arg_cong [OF eq, of forest_entries] by simp
  have i: "set (forest_ids xs) \<union> set (forest_ids ys) =
      set (forest_ids ls) \<union> set (ids t1) \<union> set (ids t2) \<union> set (forest_ids rs)"
    using arg_cong [OF eq, of forest_ids] by (metis (no_types) forest_append(1) forest_ids.simps(2) set_append sup_assoc)
  have old: "set (path_ids c @ ids (Node p xs) @ ids (Node q ys)) =
      insert q (set (path_ids ((p, ls, k0, rs) # c) @ ids t1 @ ids t2))"
    using i by auto
  have "entries T = path_left ((p, ls, k0, rs) # c) @ entries t1 @ entries t2 @ path_right ((p, ls, k0, rs) # c)"
    using gr e by (simp add: grown_def)
  moreover have "r \<notin> dom S" if "r \<in> set (ids T)" "r \<notin> set (path_ids ((p, ls, k0, rs) # c) @ ids t1 @ ids t2)" for r
  proof (cases "r = q")
    case False
    then have "r \<notin> set (path_ids c @ ids (Node p xs) @ ids (Node q ys))" using that(2) unfolding old by blast
    then have "r \<notin> dom S'" using gr that(1) unfolding grown_def by metis
    then show ?thesis using dom by blast
  qed (use q in simp)
  moreover have "S'' r = S r" if "r \<notin> set (ids T)" for r
    using gr that old same unfolding grown_def by auto
  ultimately show ?thesis using gr old unfolding grown_def by blast
qed

text \<open>After the split of a parent there is a pair of trees one level up.\<close>

lemma split_pair_ok:
  assumes ok: "forest_ok h a b (xs @ ys)" and path: "path_ok (Suc h) a b c" "path_sized c"
    and sz: "forest_sized (xs @ ys)" "169 \<le> length xs" "length xs \<le> 338" "169 \<le> length ys" "length ys \<le> 338"
  shows "pair_ok c (Node p xs) (fst (hd ys)) (Node q ys) (Suc h) a b"
proof -
  obtain k t ys' where ys: "ys = (k, t) # ys'" using sz(4) by (cases ys) auto
  have "xs \<noteq> []" using sz(2) by auto
  then obtain m where "forest_ok h a m xs" "chain_ok h m b ys" using ok forest_ok_append by blast
  then show ?thesis using path sz ys by (auto simp: pair_ok_def)
qed

lemma split_pair_in:
  assumes s: "sat S (path_desc c p f0)" "distinct (path_ids c @ ids (Node p cs))"
      "INVALID_PAGE_ID \<notin> set (path_ids c @ ids (Node p cs))"
    and q: "q \<notin> set (path_ids c @ ids (Node p cs))" "q \<noteq> INVALID_PAGE_ID" and cs: "cs = xs @ ys" "xs \<noteq> []" "ys \<noteq> []"
    and f0: "f0 = first_leaf (Node p cs)"
    and s': "sat S' (desc (path_par c) (next_leaf (path_next c) ys) (Node p xs))"
      "sat S' (desc (path_par c) (path_next c) (Node q ys))"
      "\<forall>r. r \<noteq> p \<and> r \<noteq> q \<and> r \<notin> set (forest_ids ys) \<longrightarrow> S' r = S r"
  shows "pair_in S' c (Node p xs) (Node q ys)"
proof -
  have "first_leaf (Node p xs) = f0" using f0 cs by (cases xs) auto
  moreover have "sat S' (path_desc c p f0)" by (rule sat_cong [OF s(1)]) (use s(2) s'(3) q(1) cs(1) in auto)
  moreover have "first_leaf (Node q ys) = next_leaf (path_next c) ys" using first_leaf_Node [OF cs(3)] .
  ultimately show ?thesis using s q s'(1,2) cs(1) by (auto simp: pair_in_def)
qed

definition insert_up :: "step list \<Rightarrow> bool" where
  "insert_up c \<longleftrightarrow> (\<forall>t1 k t2 f g t S P h lo hi.
     pair_in S c t1 t2 \<longrightarrow> pair_ok c t1 k t2 h lo hi \<longrightarrow> pool_st (bpm t) S P \<longrightarrow>
     held (bpm t) (root_id t1) f \<longrightarrow> held (bpm t) (root_id t2) g \<longrightarrow> root_page_id t = root_id (fill t1 c) \<longrightarrow>
     npin P + 2 * length c + 1 \<le> frames (bpm t) \<longrightarrow> spare_ids (Suc (length c)) S \<longrightarrow>
     (\<exists>b S' T. InsertIntoParent f k g t = Some (Inr (), t\<lparr>root_page_id := root_id T, bpm := b\<rparr>) \<and>
       grown S c t1 t2 S' T \<and> pool_st b S' P \<and> frames b = frames (bpm t) \<and>
       (\<forall>q y. held (bpm t) q y \<longrightarrow> held b q y) \<and> takes_ids (Suc (length c)) S S'))"

lemma insert_up_root: "insert_up []"
  unfolding insert_up_def
proof (intro allI impI)
  fix t1 k t2 f g and t :: bplus_tree and S P h lo hi
  assume a: "pair_in S [] t1 t2" "pair_ok [] t1 k t2 h lo hi" "pool_st (bpm t) S P"
    "held (bpm t) (root_id t1) f" "held (bpm t) (root_id t2) g" "npin P + 2 * length [] + 1 \<le> frames (bpm t)"
    "spare_ids (Suc (length [])) S"
  obtain e1 where e1: "S (root_id t1) = Some e1" "node_ok (root_id t1) (root_desc INVALID_PAGE_ID (first_leaf t2) t1) e1"
    using pair_in_roots [OF a(1)] by auto
  have "IsRootPage (node_data f t)"
    using held_node_data [OF a(3,4) e1(1)] node_ok_header(2) [OF e1(2)] by (simp add: IsRootPage_def)
  then show "\<exists>b S' T. InsertIntoParent f k g t = Some (Inr (), t\<lparr>root_page_id := root_id T, bpm := b\<rparr>) \<and>
       grown S [] t1 t2 S' T \<and> pool_st b S' P \<and> frames b = frames (bpm t) \<and> (\<forall>q y. held (bpm t) q y \<longrightarrow> held b q y) \<and>
       takes_ids (Suc (length [])) S S'"
    using insert_new_root_ok [OF a(1-5)] a(6,7) by (subst InsertIntoParent.simps) simp
qed

text \<open>One level: the parent is fetched and takes the new entry.\<close>

lemma insert_up_fetch:
  assumes pi: "pair_in S ((p, ls, k0, rs) # c) t1 t2" and sz: "Suc (length ls + length rs) \<le> 338"
    and st: "pool_st (bpm t) S P" and f: "held (bpm t) (root_id t1) f" and g: "held (bpm t) (root_id t2) g"
    and room: "npin P < frames (bpm t)"
  obtains b0 b fp d e2 where "\<not> IsRootPage (node_data f t)" "GetParentPageId (node_data f t) = p"
    "FetchPage p (bpm t) = (Inr (Some fp), b0)"
    "insert_into_parent_node f k g fp p (t\<lparr>bpm := b0\<rparr>) = (Inr (), t\<lparr>bpm := b\<rparr>)"
    "inner_node p (path_par c) (child_ids (ls @ (k0, t1) # (k, t2) # rs)) d" "S (root_id t2) = Some e2"
    "pool_st b (S(p \<mapsto> d, root_id t2 \<mapsto> SetParentPageId p e2)) (P(p := P p + 1))" "frames b = frames (bpm t)"
    "held b p fp" "\<And>q y. held (bpm t) q y \<Longrightarrow> held b q y" "node_data fp (t\<lparr>bpm := b\<rparr>) = d"
proof -
  obtain e1 where e1: "S (root_id t1) = Some e1" "node_ok (root_id t1) (root_desc p (first_leaf t2) t1) e1"
    by (rule pair_in_roots [OF pi, unfolded path_par.simps path_next.simps]) blast
  have p: "p \<in> dom S" "p \<noteq> INVALID_PAGE_ID" using pi by (auto simp: pair_in_def)
  have fd: "GetParentPageId (node_data f t) = p" using held_node_data [OF st f e1(1)] node_ok_header(2) [OF e1(2)] by simp
  obtain fp b0 where b0: "FetchPage p (bpm t) = (Inr (Some fp), b0)" "pool_st b0 S (P(p := P p + 1))" "held b0 p fp"
    "frames b0 = frames (bpm t)" "\<forall>q y. held (bpm t) q y \<longrightarrow> held b0 q y"
    using pp.fetch_ok [OF st p(1) room] by blast
  have h0: "held b0 (root_id t1) f" "held b0 (root_id t2) g" using b0(5) f g by blast+
  obtain b d e2 where b: "insert_into_parent_node f k g fp p (t\<lparr>bpm := b0\<rparr>) = (Inr (), t\<lparr>bpm := b\<rparr>)"
     "inner_node p (path_par c) (child_ids (ls @ (k0, t1) # (k, t2) # rs)) d" "S (root_id t2) = Some e2"
     "pool_st b (S(p \<mapsto> d, root_id t2 \<mapsto> SetParentPageId p e2)) (P(p := P p + 1))" "frames b = frames b0"
     "\<forall>q y. held b0 q y \<longrightarrow> held b q y"
    using parent_insert_ok [OF pi sz, of "t\<lparr>bpm := b0\<rparr>" "P(p := P p + 1)" fp f g k] b0(2,3) h0 by auto
  have hp: "held b p fp" using b(6) b0(3) by blast
  have "root_id t2 \<noteq> p" using pi root_neq [of p t2] by (auto simp: pair_in_def)
  then have "node_data fp (t\<lparr>bpm := b\<rparr>) = d" using pp.get_ok [OF b(4) hp] by (simp add: node_data_def)
  then show thesis
    using that [OF _ fd b0(1) b(1-4) _ hp] fd p(2) b(5,6) b0(4,5) by (simp add: IsRootPage_def)
qed

lemma node_root_id: "root_id t = root_id u \<Longrightarrow> root_id (fill t c) = root_id (fill u c)"
proof (induction t c arbitrary: u rule: fill.induct)
  case (2 t p ls k rs c)
  show ?case using 2(1) [of "Node p (ls @ (k, u) # rs)"] by simp
qed simp

lemma insert_up_step:
  assumes IH: "insert_up c"
  shows "insert_up ((p, ls, k0, rs) # c)"
  unfolding insert_up_def
proof (intro allI impI)
  fix t1 k t2 f g and t :: bplus_tree and S P h lo hi
  let ?c = "(p, ls, k0, rs) # c"
  assume pi: "pair_in S ?c t1 t2" and po: "pair_ok ?c t1 k t2 h lo hi" and st: "pool_st (bpm t) S P"
    and f: "held (bpm t) (root_id t1) f" and g: "held (bpm t) (root_id t2) g"
    and root: "root_page_id t = root_id (fill t1 ?c)"
    and room: "npin P + 2 * length ?c + 1 \<le> frames (bpm t)" and spare: "spare_ids (Suc (length ?c)) S"
  let ?cs = "ls @ (k0, t1) # (k, t2) # rs"
  obtain a b where ab: "path_ok (Suc h) a b c" "path_sized c" "forest_ok h a b ?cs" "forest_sized ?cs"
    "Suc (length ls + length rs) \<le> 338" "(if c = [] then 2 else 169) \<le> Suc (length ls + length rs)"
    by (rule pair_ok_node [OF po])
  have room0: "npin P < frames (bpm t)" using room by simp
  obtain b0 b1 fp d e2 where s: "\<not> IsRootPage (node_data f t)" "GetParentPageId (node_data f t) = p"
    "FetchPage p (bpm t) = (Inr (Some fp), b0)"
    "insert_into_parent_node f k g fp p (t\<lparr>bpm := b0\<rparr>) = (Inr (), t\<lparr>bpm := b1\<rparr>)"
    "inner_node p (path_par c) (child_ids ?cs) d" "S (root_id t2) = Some e2"
    "pool_st b1 (S(p \<mapsto> d, root_id t2 \<mapsto> SetParentPageId p e2)) (P(p := P p + 1))" "frames b1 = frames (bpm t)"
    "held b1 p fp" "\<And>q y. held (bpm t) q y \<Longrightarrow> held b1 q y" "node_data fp (t\<lparr>bpm := b1\<rparr>) = d"
    by (rule insert_up_fetch [OF pi ab(5) st f g room0]) blast
  define S1 where "S1 = S(p \<mapsto> d, root_id t2 \<mapsto> SetParentPageId p e2)"
  note st1 = s(7) [folded S1_def] and ps = parent_store [OF pi s(5,6), folded S1_def]
  have domS: "p \<in> dom S" "root_id t2 \<in> dom S" using pi s(6) by (auto simp: pair_in_def)
  have dom1: "dom S1 = dom S" using domS by (auto simp: S1_def)
  have same1: "\<forall>r. r \<notin> set (ids (Node p ?cs)) \<longrightarrow> S1 r = S r" using root_neq [of _ t2] by (auto simp: S1_def)
  have size: "GetSize d = int (length ?cs)" "GetMaxSize d = 338" using inner_nodeD [OF s(5)] by simp_all
  note unfoldI = InsertIntoParent.simps [of f k g t]
  show "\<exists>b S' T. InsertIntoParent f k g t = Some (Inr (), t\<lparr>root_page_id := root_id T, bpm := b\<rparr>) \<and>
       grown S ?c t1 t2 S' T \<and> pool_st b S' P \<and> frames b = frames (bpm t) \<and> (\<forall>q y. held (bpm t) q y \<longrightarrow> held b q y) \<and>
       takes_ids (Suc (length ?c)) S S'"
  proof (cases "length ?cs \<le> 338")
    case True
    obtain b2 where b2: "UnpinPage p True b1 = (Inr True, b2)" "pool_st b2 S1 P" "frames b2 = frames b1"
      "\<forall>q y. held b1 q y \<and> (q \<noteq> p \<or> 1 < P p + 1) \<longrightarrow> held b2 q y"
      using pp.unpin_ok [OF st1 s(9), of True] by auto
    let ?T = "fill (Node p ?cs) c"
    have run: "InsertIntoParent f k g t = Some (Inr (), t\<lparr>bpm := b2\<rparr>)"
      using s(1-4,11) size True b2(1) by (subst unfoldI) simp
    have fl: "first_leaf (Node p ?cs) = next_leaf (first_leaf t1) ls" by (cases ls) auto
    have "sat S1 (desc INVALID_PAGE_ID INVALID_PAGE_ID ?T)" unfolding sat_fill root_id.simps fl using ps(1,2) by blast
    then have "tree_in S1 ?T"
      unfolding tree_in_def distinct_ids_fill set_ids_fill using ps(3,4) by simp
    moreover have "located (Node p ?cs) c (Suc h) a b" using ab True by (auto simp: located_def)
    then have "tree_ok (Suc h + length c) ?T" by (rule located_tree)
    moreover have "entries ?T = path_left ?c @ entries t1 @ entries t2 @ path_right ?c" by (simp add: entries_fill)
    ultimately have "grown S ?c t1 t2 S1 ?T"
      using same1 unfolding grown_def set_ids_fill by auto
    moreover have "\<forall>q y. held (bpm t) q y \<longrightarrow> held b2 q y" using b2(4) s(10) pp.hold_pins [OF st] by fastforce
    moreover have "root_page_id t = root_id ?T"
      using root node_root_id [of "Node p (ls @ (k0, t1) # rs)" "Node p ?cs" c] by simp
    then have "t\<lparr>bpm := b2\<rparr> = t\<lparr>root_page_id := root_id ?T, bpm := b2\<rparr>" by simp
    moreover have "takes_ids (Suc (length ?c)) S S1"
      by (rule takes_ids_mono [OF takes_ids_dom]) (use dom1 in simp_all)
    ultimately show ?thesis using run b2(2,3) s(8) by metis
  next
    case False
    then have len: "length ?cs = 339" using ab(5) by simp
    let ?P1 = "P(p := P p + 1)"
    have pin1: "npin ?P1 \<le> Suc (npin P)" by (rule npin_upd_le)
    have sp1: "spare_ids (Suc (Suc (length c))) S1" using spare spare_ids_dom [of S1 S] dom1 by simp
    obtain q n b2 where b2: "NewPage b1 = (Inr (q, Some n), b2)" "q \<notin> dom S1" "q \<noteq> INVALID_PAGE_ID" "?P1 q = 0"
      "pool_st b2 (S1(q \<mapsto> zero_page)) (?P1(q := 1))" "held b2 q n" "frames b2 = frames b1"
      "\<forall>r y. held b1 r y \<longrightarrow> held b2 r y"
      using pp.new_ok [OF st1 spare_ids_unused [OF sp1]] pin1 room s(8) by auto
    define S2 where "S2 = S1(q \<mapsto> zero_page)"
    define P2 where "P2 = ?P1(q := 1)"
    note st2 = b2(5) [folded S2_def P2_def]
    have pin2: "npin P2 \<le> Suc (Suc (npin P))" using npin_upd_le [of ?P1 q 1] pin1 by (simp add: P2_def)
    define xs where "xs = take (kept (length ?cs)) ?cs"
    define ys where "ys = drop (kept (length ?cs)) ?cs"
    have xy: "?cs = xs @ ys" unfolding xs_def ys_def by (rule append_take_drop_id [symmetric])
    have ln: "length xs = 170" "length ys = 169" using len by (simp_all add: xs_def ys_def kept_def)
    have inT: "set (path_ids c @ ids (Node p ?cs)) \<subseteq> dom S1"
      using sat_dom [OF ps(1)] sat_dom [OF ps(2)] unfolding fst_set_desc fst_set_path_desc set_append by (rule Un_least)
    have q: "q \<notin> set (path_ids c @ ids (Node p ?cs))" "p \<noteq> q" using inT b2(2) by auto
    have satq: "sat S2 (forest_desc p (path_next c) ?cs)" using ps(2) q by (simp add: S2_def)
    have pd: "S2 p = Some d" using q(2) root_neq [of p t2] pi by (auto simp: S2_def S1_def pair_in_def)
    have hp2: "held b2 p fp" using b2(8) s(9) by blast
    obtain b3 S3 where b3: "split_parent_node fp n q (t\<lparr>bpm := b2\<rparr>) = Some (Inr (), t\<lparr>bpm := b3\<rparr>)" "pool_st b3 S3 P2"
      "frames b3 = frames b2" "\<forall>r y. held b2 r y \<longrightarrow> held b3 r y"
      "sat S3 (desc (path_par c) (next_leaf (path_next c) ys) (Node p xs))" "sat S3 (desc (path_par c) (path_next c) (Node q ys))"
      "\<forall>r. r \<noteq> p \<and> r \<noteq> q \<and> r \<notin> set (forest_ids ys) \<longrightarrow> S3 r = S2 r"
      using split_parent_ok [of "t\<lparr>bpm := b2\<rparr>" S2 P2 p fp q n d "path_par c" ?cs zero_page "path_next c" xs ys]
        st2 hp2 b2(6) q pd s(5) satq ps(3) pin2 room s(8) b2(7) by (auto simp: S2_def xs_def ys_def)
    have dom3: "dom S3 \<subseteq> dom S2"
    proof
      fix r assume "r \<in> dom S3"
      then show "r \<in> dom S2" using b3(7) xy inT pd by (cases "r = q \<or> r = p \<or> r \<in> set (forest_ids ys)") (auto simp: S2_def)
    qed
    have held3: "held b3 p fp" "held b3 q n" using b3(4) hp2 b2(6) by blast+
    obtain d3 where d3: "S3 q = Some d3" "inner_node q (path_par c) (child_ids ys) d3" using b3(6) by auto
    have kq: "Internal_KeyAt (node_data n (t\<lparr>bpm := b3\<rparr>)) 0 = Some (fst (hd ys))"
      using held_node_data [of "t\<lparr>bpm := b3\<rparr>" S3 P2 q n d3] b3(2) held3(2) d3 inner_node_entry(2) [OF d3(2), of 0] ln(2)
      by (cases ys) auto
    have fl: "next_leaf (first_leaf t1) ls = first_leaf (Node p ?cs)" by (cases ls) auto
    have path2: "sat S2 (path_desc c p (next_leaf (first_leaf t1) ls))" using ps(1) q(1) by (simp add: S2_def)
    have pi3: "pair_in S3 c (Node p xs) (Node q ys)"
      by (rule split_pair_in [OF path2 ps(3,4) q(1) b2(3) xy _ _ fl b3(5-7)]) (use ln in auto)
    have po3: "pair_ok c (Node p xs) (fst (hd ys)) (Node q ys) (Suc h) a b"
      by (rule split_pair_ok) (use ab ln xy in auto)
    have rt: "root_page_id (t\<lparr>bpm := b3\<rparr>) = root_id (fill (Node p xs) c)"
      using root node_root_id [of "Node p (ls @ (k0, t1) # rs)" "Node p xs" c] by simp
    have "npin P2 + 2 * length c + 1 \<le> frames (bpm (t\<lparr>bpm := b3\<rparr>))"
      using pin2 room s(8) b2(7) b3(3) by simp
    moreover have "spare_ids (Suc (length c)) S3"
      using spare_ids_dom [OF dom3] spare_ids_new [OF sp1] by (simp add: S2_def)
    ultimately obtain b4 S4 T where b4: "InsertIntoParent fp (fst (hd ys)) n (t\<lparr>bpm := b3\<rparr>)
        = Some (Inr (), (t\<lparr>bpm := b3\<rparr>)\<lparr>root_page_id := root_id T, bpm := b4\<rparr>)"
      "grown S3 c (Node p xs) (Node q ys) S4 T" "pool_st b4 S4 P2" "frames b4 = frames (bpm (t\<lparr>bpm := b3\<rparr>))"
      "\<forall>r y. held (bpm (t\<lparr>bpm := b3\<rparr>)) r y \<longrightarrow> held b4 r y" "takes_ids (Suc (length c)) S3 S4"
      using IH [unfolded insert_up_def, rule_format, OF pi3 po3, of "t\<lparr>bpm := b3\<rparr>" P2 fp n] b3(2) held3 rt by auto
    have held4: "held b4 p fp" "held b4 q n" using b4(5) held3 by auto
    obtain b5 where b5: "UnpinPage p True b4 = (Inr True, b5)" "pool_st b5 S4 (P2(p := P2 p - 1))" "frames b5 = frames b4"
      "\<forall>r y. held b4 r y \<and> (r \<noteq> p \<or> 1 < P2 p) \<longrightarrow> held b5 r y"
      using pp.unpin_ok [OF b4(3) held4(1), of True] by auto
    have h5: "held b5 q n" using b5(4) held4(2) q(2) by blast
    have Peq: "(P2(p := P2 p - 1))(q := (P2(p := P2 p - 1)) q - 1) = P"
      using b2(4) q(2) by (auto simp: P2_def fun_eq_iff)
    obtain b6 where b6: "UnpinPage q True b5 = (Inr True, b6)" "pool_st b6 S4 P" "frames b6 = frames b5"
      "\<forall>r y. held b5 r y \<and> r \<noteq> q \<longrightarrow> held b6 r y"
      using pp.unpin_ok [OF b5(2) h5, of True] unfolding Peq by auto
    have run: "InsertIntoParent f k g t = Some (Inr (), t\<lparr>root_page_id := root_id T, bpm := b6\<rparr>)"
      using s(1-4,11) size len b2(1) b3(1) kq b4(1) b5(1) b6(1) by (subst unfoldI) simp
    have "grown S ?c t1 t2 S4 T"
    proof (rule grown_split [OF b4(2) xy [symmetric]])
      show "q \<notin> dom S" using b2(2) dom1 by simp
      have "p \<in> dom S3" "q \<in> dom S3" "set (forest_ids ys) \<subseteq> dom S3"
        using sat_dom [OF b3(5)] sat_dom [OF b3(6)] by simp_all
      then have "r \<in> dom S3" if "r \<in> dom S2" for r
        using that b3(7) by (cases "r = q \<or> r = p \<or> r \<in> set (forest_ids ys)") auto
      then show "dom S \<subseteq> dom S3" using dom1 by (auto simp: S2_def)
      show "\<forall>r. r \<notin> set (ids (Node p (xs @ ys))) \<and> r \<noteq> q \<longrightarrow> S3 r = S r"
        using b3(7) same1 xy by (auto simp: S2_def)
    qed
    moreover have "held b6 r y" if "held (bpm t) r y" for r y
    proof -
      have pr: "0 < P r" using pp.hold_pins [OF st that] .
      then have "r \<noteq> q" using b2(4) q(2) by auto
      moreover have "held b4 r y" using b4(5) b3(4) b2(8) s(10) [OF that] by simp
      moreover have "r \<noteq> p \<or> 1 < P2 p" using pr q(2) by (auto simp: P2_def)
      ultimately show ?thesis using b5(4) b6(4) by blast
    qed
    moreover have "takes_ids (0 + Suc 0) S S2"
      unfolding S2_def by (rule takes_ids_trans [OF takes_ids_dom takes_ids_new]) (use dom1 in simp)
    from takes_ids_trans [OF takes_ids_trans [OF this takes_ids_dom [OF dom3]] b4(6)]
    have "takes_ids (Suc (length ?c)) S S4" by simp
    ultimately show ?thesis using run b6(2,3) b5(3) b4(4) b3(3) b2(7) s(8)
      by (intro exI [of _ b6] exI [of _ S4] exI [of _ T]) simp
  qed
qed

lemma insert_up: "insert_up c"
proof (induction c)
  case (Cons e c)
  then show ?case using insert_up_step by (cases e) auto
qed (rule insert_up_root)

section \<open>Insert\<close>

text \<open>Only pages of the index change, and pages that join it were unused.\<close>

definition index_frame ::
  "(page_id \<rightharpoonup> byte list) \<Rightarrow> page_id set \<Rightarrow> (page_id \<rightharpoonup> byte list) \<Rightarrow> page_id set \<Rightarrow> bool" where
  "index_frame S A S' A' \<longleftrightarrow> (\<forall>q \<in> A' - A. q \<notin> dom S) \<and> (\<forall>q. q \<notin> A \<union> A' \<longrightarrow> S' q = S q)"

lemma index_treeD:
  assumes "index_tree t S P h T"
  shows "root_page_id t = root_id T" "tree_in S T" "tree_ok h T" "p \<in> set (ids T) \<Longrightarrow> P p = 0" "h \<le> 5"
    "root_page_id t \<noteq> INVALID_PAGE_ID"
  using assms depth_bound [of h T] by (auto simp: index_tree_def tree_in_def) (metis root_in_ids)

lemma index_rep_tree:
  assumes "pool_st b S P" "tree_in S T" "tree_ok h T" "\<forall>p \<in> set (ids T). P p = 0"
  shows "index_rep (t\<lparr>root_page_id := root_id T, bpm := b\<rparr>) S P (set (ids T)) (map_of (entries T))"
  using assms root_neq [of INVALID_PAGE_ID T] by (auto simp: index_rep_def index_tree_def IsEmpty_def tree_in_def)

lemma index_rep_keep:
  assumes "index_tree t S P h T" "pool_st b S P"
  shows "index_rep (t\<lparr>bpm := b\<rparr>) S P (set (ids T)) (map_of (entries T))"
  using assms index_treeD(6) [OF assms(1)] by (auto simp: index_rep_def index_tree_def IsEmpty_def)

lemma insert_first_ok:
  assumes st: "pool_st (bpm t) S P" and room: "npin P < frames (bpm t)" and spare: "spare_ids 1 S"
  shows "\<exists>r b S'. insert_first key v t = (Inr True, t\<lparr>root_page_id := r, bpm := b\<rparr>) \<and>
     index_rep (t\<lparr>root_page_id := r, bpm := b\<rparr>) S' P {r} [key \<mapsto> v] \<and> index_frame S {} S' {r} \<and>
     takes_ids (Suc 0) S S' \<and> frames b = frames (bpm t)"
proof -
  obtain r f b1 where b1: "NewPage (bpm t) = (Inr (r, Some f), b1)" "r \<notin> dom S" "r \<noteq> INVALID_PAGE_ID" "P r = 0"
    "pool_st b1 (S(r \<mapsto> zero_page)) (P(r := 1))" "held b1 r f" "frames b1 = frames (bpm t)"
    using pp.new_ok [OF st spare_ids_unused room] spare by (metis One_nat_def)
  let ?d0 = "Leaf_Init r INVALID_PAGE_ID 253 zero_page"
  have n0: "leaf_node r INVALID_PAGE_ID INVALID_PAGE_ID [] ?d0" by (rule leaf_init) (simp add: page_sized_def)
  obtain d where d: "Leaf_Insert key v ?d0 = Some (1, d)" "leaf_node r INVALID_PAGE_ID INVALID_PAGE_ID [(key, v)] d"
    using leaf_insert_new [OF n0, of key v] by (auto simp: sorted_keys_def ins_entry_def)
  have z: "page_data b1 f = zero_page" using pp.get_ok [OF b1(5,6)] by simp
  let ?b2 = "put_data f ?d0 b1"
  have p2: "pool_st ?b2 (S(r \<mapsto> ?d0)) (P(r := 1))" "frames ?b2 = frames b1" "held ?b2 r f"
    using pp.put_ok [OF b1(5,6), of ?d0] leaf_nodeD(1) [OF n0] b1(6) by (auto simp: page_sized_def)
  have data2: "page_data ?b2 f = ?d0" using pp.get_ok [OF p2(1,3)] by simp
  let ?b3 = "put_data f d ?b2"
  have p3: "pool_st ?b3 (S(r \<mapsto> d)) (P(r := 1))" "frames ?b3 = frames b1" "held ?b3 r f"
    using pp.put_ok [OF p2(1,3), of d] leaf_nodeD(1) [OF d(2)] p2(2,3) by (auto simp: page_sized_def)
  obtain b4 where b4: "UnpinPage r True ?b3 = (Inr True, b4)" "pool_st b4 (S(r \<mapsto> d)) P" "frames b4 = frames b1"
    using pp.unpin_ok [OF p3(1,3), of True] p3(2) b1(4) by (auto simp: fun_upd_idem)
  have run: "insert_first key v t = (Inr True, t\<lparr>root_page_id := r, bpm := b4\<rparr>)"
    using b1(1) z d(1) data2 b4(1) by (simp add: insert_first_def node_data_def)
  let ?T = "Leaf r [(key, v)]"
  have "tree_in (S(r \<mapsto> d)) ?T" using d(2) b1(3) by (simp add: tree_in_def)
  moreover have "tree_ok 0 ?T" using sint64_bounds [of key] by (simp add: tree_ok_def sorted_keys_def key_min_def key_max_def)
  ultimately have "index_rep (t\<lparr>root_page_id := root_id ?T, bpm := b4\<rparr>) (S(r \<mapsto> d)) P (set (ids ?T)) (map_of (entries ?T))"
    using index_rep_tree [OF b4(2), of ?T 0 t] b1(4) by simp
  then show ?thesis using run b4(3) b1(2,7)
    by (intro exI [of _ r] exI [of _ b4] exI [of _ "S(r \<mapsto> d)"]) (auto simp: index_frame_def intro: takes_ids_new)
qed

text \<open>One leaf of the tree changes and stays within its bounds.\<close>

lemma tree_in_upd_leaf:
  assumes "tree_in S (fill (Leaf q es) c)" "leaf_node q (path_par c) (path_next c) es' d"
  shows "tree_in (S(q \<mapsto> d)) (fill (Leaf q es') c)"
  using assms by (auto simp: tree_in_def sat_fill distinct_ids_fill set_ids_fill)

lemma map_of_fill_ins:
  assumes "tree_ok h T" "entries T = path_left c @ ins_entry key v es @ path_right c" "sorted_keys es" "key \<notin> fst ` set es"
  shows "map_of (entries T) = (map_of (path_left c @ es @ path_right c))(key \<mapsto> v)"
proof -
  have "sorted_keys (path_left c @ ins_entry key v es @ path_right c)"
    using ok_sorted(1) [of h key_min key_max T] assms(1,2) by (simp add: tree_ok_def)
  then have "distinct (map fst (path_left c @ ins_entry key v es @ path_right c))" by (rule sorted_keys_distinct)
  then have "key \<notin> fst ` set (path_left c)" by (auto simp: set_ins_entry)
  then have "map_of (path_left c) key = None" by (simp add: map_of_eq_None_iff)
  then show ?thesis
    unfolding assms(2) using map_of_ins_entry [OF assms(3,4), of v]
    by (auto simp: map_add_def fun_eq_iff split: option.splits)
qed

lemma located_ins:
  assumes "located (Leaf q es) c 0 lo hi" "lo \<le> sint key" "sint key < hi" "key \<notin> fst ` set es" "length es < 253"
  shows "located (Leaf q (ins_entry key v es)) c 0 lo hi"
  using assms by (auto simp: located_def set_ins_entry length_ins_entry intro: sorted_ins_entry)

lemma index_frame_refl: "S' = S(q \<mapsto> d) \<Longrightarrow> q \<in> A \<Longrightarrow> index_frame S A S' A"
  by (simp add: index_frame_def)

text \<open>The key is new and the leaf has room.\<close>

lemma insert_into_leaf_fits:
  assumes found: "leaf_found key S P T b f q es c lo hi" and rep: "index_tree t S P h T" and key: "key \<notin> fst ` set es"
    and sz: "length es < 253" and t1: "t1 = t\<lparr>bpm := b\<rparr>"
  shows "\<exists>b' S'. insert_into_leaf f key v t1 = Some (Inr True, t\<lparr>bpm := b'\<rparr>) \<and> frames b' = frames b \<and>
     index_rep (t\<lparr>bpm := b'\<rparr>) S' P (set (ids T)) ((map_of (entries T))(key \<mapsto> v)) \<and>
     index_frame S (set (ids T)) S' (set (ids T)) \<and> takes_ids 0 S S'"
proof -
  note R = index_treeD [OF rep]
  have F: "T = fill (Leaf q es) c" "located (Leaf q es) c 0 lo hi" "lo \<le> sint key" "sint key < hi"
    "pool_st b S (P(q := 1))" "P q = 0" "held b q f" using found by (auto simp: leaf_found_def)
  obtain d where d: "node_data f t1 = d" "S q = Some d" "leaf_node q (path_par c) (path_next c) es d" "sorted_keys es"
    by (rule leaf_found_data [OF found R(2), of t1]) (auto simp: t1)
  obtain d' where d': "Leaf_Insert key v d = Some (int (Suc (length es)), d')"
    "leaf_node q (path_par c) (path_next c) (ins_entry key v es) d'"
    using leaf_insert_new [OF d(3,4) key] sz by fastforce
  let ?b2 = "put_data f d' b"
  have p2: "pool_st ?b2 (S(q \<mapsto> d')) (P(q := 1))" "frames ?b2 = frames b" "held ?b2 q f"
    using pp.put_ok [OF F(5,7), of d'] leaf_nodeD(1) [OF d'(2)] F(7) by (auto simp: page_sized_def)
  have data2: "node_data f (t\<lparr>bpm := ?b2\<rparr>) = d'" using held_node_data [of "t\<lparr>bpm := ?b2\<rparr>" "S(q \<mapsto> d')" "P(q := 1)" q f d'] p2 by simp
  obtain b3 where b3: "UnpinPage q True ?b2 = (Inr True, b3)" "pool_st b3 (S(q \<mapsto> d')) P" "frames b3 = frames b"
    using pp.unpin_ok [OF p2(1,3), of True] F(6) p2(2) by (auto simp: fun_upd_idem)
  have "unpin_frame f True (t\<lparr>bpm := ?b2\<rparr>) = (Inr True, t\<lparr>bpm := b3\<rparr>)"
    using unpin_frame_step [of "t\<lparr>bpm := ?b2\<rparr>" "S(q \<mapsto> d')" "P(q := 1)" q f True] p2 b3(1) by simp
  then have run: "insert_into_leaf f key v t1 = Some (Inr True, t\<lparr>bpm := b3\<rparr>)"
    using d(1) d'(1) data2 leaf_nodeD(7) [OF d(3)] leaf_nodeD(3) [OF d'(2)] sz t1
    by (simp add: insert_into_leaf_def node_data_def)
  let ?T = "fill (Leaf q (ins_entry key v es)) c"
  have ids: "set (ids ?T) = set (ids T)" by (simp add: F(1) set_ids_fill)
  have ok: "tree_ok (0 + length c) ?T" by (rule located_tree [OF located_ins [OF F(2-4) key sz]])
  have "tree_in (S(q \<mapsto> d')) ?T" using tree_in_upd_leaf [OF _ d'(2)] R(2) F(1) by simp
  moreover have "\<forall>p \<in> set (ids ?T). P p = 0" using R(4) ids by blast
  ultimately have "index_rep (t\<lparr>root_page_id := root_id ?T, bpm := b3\<rparr>) (S(q \<mapsto> d')) P (set (ids ?T)) (map_of (entries ?T))"
    using index_rep_tree [OF b3(2) _ ok] by blast
  moreover have "root_id ?T = root_page_id t" using R(1) F(1) node_root_id [of "Leaf q es" "Leaf q (ins_entry key v es)" c] by simp
  then have "t\<lparr>root_page_id := root_id ?T, bpm := b3\<rparr> = t\<lparr>bpm := b3\<rparr>" by simp
  moreover have "map_of (entries ?T) = (map_of (entries T))(key \<mapsto> v)"
    using map_of_fill_ins [OF ok _ d(4) key] by (simp add: entries_fill F(1))
  moreover have "q \<in> set (ids T)" by (simp add: F(1) set_ids_fill)
  moreover have "takes_ids 0 S (S(q \<mapsto> d'))" by (rule takes_ids_dom) (use d(2) in auto)
  ultimately show ?thesis using run b3(3) ids index_frame_refl [of "S(q \<mapsto> d')" S q d'] by metis
qed

text \<open>The leaf is full: it is split, and the new leaf is linked behind it.\<close>

lemma split_leaf_ok:
  assumes st: "pool_st (bpm t) S P" and f: "held (bpm t) q f" and g: "held (bpm t) r g" and qr: "q \<noteq> r"
    and q: "S q = Some d" "leaf_node q par nxt es d" and r: "S r = Some z" and es: "2 \<le> length es"
    and xy: "xs = take (kept (length es)) es" "ys = drop (kept (length es)) es"
  shows "\<exists>b d1 d2. split_leaf_node f g r t = (Inr (fst (hd ys)), t\<lparr>bpm := b\<rparr>) \<and>
     leaf_node q par r xs d1 \<and> leaf_node r par nxt ys d2 \<and> pool_st b (S(q \<mapsto> d1, r \<mapsto> d2)) P \<and>
     frames b = frames (bpm t) \<and> (\<forall>p y. held (bpm t) p y \<longrightarrow> held b p y)"
proof -
  let ?z0 = "Leaf_Init r par 253 z" and ?z1 = "Leaf_SetNextPageId nxt (Leaf_Init r par 253 z)"
  let ?d0 = "Leaf_SetNextPageId r d"
  have z0: "leaf_node r par INVALID_PAGE_ID [] ?z0" by (rule leaf_init) (use pp.st_length [OF st r] in \<open>simp add: page_sized_def\<close>)
  note z1 = leaf_set_next [OF z0, of nxt] and d0 = leaf_set_next [OF q(2), of r]
  note sized = leaf_nodeD(1) [OF z0] leaf_nodeD(1) [OF z1] leaf_nodeD(1) [OF d0]
  have data: "page_data (bpm t) f = d" "page_data (bpm t) g = z" using pp.get_ok [OF st f] pp.get_ok [OF st g] q(1) r by simp_all
  let ?b1 = "put_data g ?z0 (bpm t)"
  have p1: "pool_st ?b1 (S(r \<mapsto> ?z0)) P" "frames ?b1 = frames (bpm t)" "\<forall>p y. held (bpm t) p y \<longrightarrow> held ?b1 p y"
    using pp.put_ok [OF st g, of ?z0] sized by (auto simp: page_sized_def)
  have h1: "held ?b1 q f" "held ?b1 r g" using p1(3) f g by blast+
  have data1: "page_data ?b1 f = d" "page_data ?b1 g = ?z0" using pp.get_ok [OF p1(1) h1(1)] pp.get_ok [OF p1(1) h1(2)] q(1) qr by simp_all
  let ?b2 = "put_data g ?z1 ?b1"
  have p2: "pool_st ?b2 (S(r \<mapsto> ?z1)) P" "frames ?b2 = frames (bpm t)" "\<forall>p y. held (bpm t) p y \<longrightarrow> held ?b2 p y"
    using pp.put_ok [OF p1(1) h1(2), of ?z1] sized p1(2,3) by (auto simp: page_sized_def)
  have h2: "held ?b2 q f" using p2(3) f by blast
  have data2: "page_data ?b2 f = d" using pp.get_ok [OF p2(1) h2] q(1) qr by simp
  let ?b3 = "put_data f ?d0 ?b2"
  have p3: "pool_st ?b3 (S(r \<mapsto> ?z1, q \<mapsto> ?d0)) P" "frames ?b3 = frames (bpm t)" "\<forall>p y. held (bpm t) p y \<longrightarrow> held ?b3 p y"
    using pp.put_ok [OF p2(1) h2, of ?d0] sized p2(2,3) by (auto simp: page_sized_def)
  have h3: "held ?b3 q f" "held ?b3 r g" using p3(3) f g by blast+
  have data3: "page_data ?b3 f = ?d0" "page_data ?b3 g = ?z1" using pp.get_ok [OF p3(1) h3(1)] pp.get_ok [OF p3(1) h3(2)] qr by simp_all
  obtain d1 d2 where m: "Leaf_MoveHalfTo ?d0 ?z1 = Some (d1, d2)" "leaf_node q par r xs d1" "leaf_node r par nxt ys d2"
    using leaf_move_half [OF d0 z1] xy by auto
  let ?b4 = "put_data f d1 ?b3"
  have p4: "pool_st ?b4 (S(r \<mapsto> ?z1, q \<mapsto> d1)) P" "frames ?b4 = frames (bpm t)" "\<forall>p y. held (bpm t) p y \<longrightarrow> held ?b4 p y"
    using pp.put_ok [OF p3(1) h3(1), of d1] leaf_nodeD(1) [OF m(2)] p3(2,3) by (auto simp: page_sized_def)
  have h4: "held ?b4 r g" using p4(3) g by blast
  let ?b5 = "put_data g d2 ?b4"
  have p5: "pool_st ?b5 (S(q \<mapsto> d1, r \<mapsto> d2)) P" "frames ?b5 = frames (bpm t)" "\<forall>p y. held (bpm t) p y \<longrightarrow> held ?b5 p y"
    using pp.put_ok [OF p4(1) h4, of d2] leaf_nodeD(1) [OF m(3)] p4(2,3) qr by (auto simp: page_sized_def fun_upd_twist)
  have h5: "held ?b5 r g" using p5(3) g by blast
  have "page_data ?b5 g = d2" using pp.get_ok [OF p5(1) h5] by simp
  moreover have "ys \<noteq> []" using es xy by (auto simp: kept_def)
  then have "Leaf_KeyAt d2 0 = Some (fst (hd ys))" using leaf_node_entry(2) [OF m(3), of 0] by (cases ys) auto
  ultimately have "split_leaf_node f g r t = (Inr (fst (hd ys)), t\<lparr>bpm := ?b5\<rparr>)"
    using data data1 data2 data3 m(1) leaf_nodeD(5,6) [OF q(2)] by (simp add: split_leaf_node_def node_data_def)
  then show ?thesis using m(2,3) p5 by (intro exI [of _ ?b5] exI [of _ d1] exI [of _ d2]) simp
qed

lemma leaf_pair_ok:
  assumes l: "located (Leaf q es) c 0 lo hi" and key: "lo \<le> sint key" "sint key < hi" "key \<notin> fst ` set es"
    and sz: "length es = 253" and xy: "xs @ ys = ins_entry key v es" "length xs = 127" "length ys = 127"
  shows "pair_ok c (Leaf q xs) (fst (hd ys)) (Leaf r ys) 0 lo hi"
proof -
  have L: "path_ok 0 lo hi c" "path_sized c" "lo \<le> hi" "sorted_keys es" "\<forall>e \<in> set es. lo \<le> sint (fst e) \<and> sint (fst e) < hi"
    using l by (auto simp: located_def)
  have s: "sorted_keys (xs @ ys)" unfolding xy(1) by (rule sorted_ins_entry [OF L(4) key(3)])
  have b: "lo \<le> sint (fst e) \<and> sint (fst e) < hi" if "e \<in> set (xs @ ys)" for e
    using that L(5) key(1,2) unfolding xy(1) by (auto simp: set_ins_entry)
  obtain e ys' where ys: "ys = e # ys'" using xy(3) by (cases ys) auto
  have "\<forall>e \<in> set xs. lo \<le> sint (fst e) \<and> sint (fst e) < sint (fst (hd ys))"
    using s b ys by (simp add: sorted_keys_append)
  moreover have "\<forall>e \<in> set ys. sint (fst (hd ys)) \<le> sint (fst e) \<and> sint (fst e) < hi"
    using s b ys by (auto simp: sorted_keys_append sorted_keys_Cons)
  moreover have "lo \<le> sint (fst (hd ys)) \<and> sint (fst (hd ys)) < hi" using b [of e] ys by simp
  moreover have "sorted_keys xs" "sorted_keys ys" using s by (simp_all only: sorted_keys_append)
  ultimately show ?thesis using L(1-3) xy(2,3) by (simp add: pair_ok_def)
qed

lemma insert_into_leaf_splits:
  assumes found: "leaf_found key S P T b f q es c lo hi" and rep: "index_tree t S P h T" and key: "key \<notin> fst ` set es"
    and sz: "length es = 253" and t1: "t1 = t\<lparr>bpm := b\<rparr>" and room: "npin P + 13 \<le> frames b" and spare: "spare_ids 7 S"
  shows "\<exists>r b' S' A'. insert_into_leaf f key v t1 = Some (Inr True, t\<lparr>root_page_id := r, bpm := b'\<rparr>) \<and> frames b' = frames b \<and>
     index_rep (t\<lparr>root_page_id := r, bpm := b'\<rparr>) S' P A' ((map_of (entries T))(key \<mapsto> v)) \<and>
     set (ids T) \<subseteq> A' \<and> index_frame S (set (ids T)) S' A' \<and> takes_ids 7 S S'"
proof -
  note R = index_treeD [OF rep]
  have F: "T = fill (Leaf q es) c" "located (Leaf q es) c 0 lo hi" "lo \<le> sint key" "sint key < hi"
    "pool_st b S (P(q := 1))" "P q = 0" "held b q f" using found by (auto simp: leaf_found_def)
  have "tree_ok (length c) T" using located_tree [OF F(2)] F(1) by simp
  then have c5: "length c \<le> 5" using depth_bound R(2) unfolding tree_in_def by blast
  obtain d where d: "node_data f t1 = d" "S q = Some d" "leaf_node q (path_par c) (path_next c) es d" "sorted_keys es"
    by (rule leaf_found_data [OF found R(2), of t1]) (auto simp: t1)
  let ?es = "ins_entry key v es"
  obtain d' where d': "Leaf_Insert key v d = Some (int (Suc (length es)), d')" "leaf_node q (path_par c) (path_next c) ?es d'"
    using leaf_insert_new [OF d(3,4) key] sz by fastforce
  let ?b2 = "put_data f d' b" and ?P1 = "P(q := 1)"
  define S2 where "S2 = S(q \<mapsto> d')"
  have p2: "pool_st ?b2 S2 ?P1" "frames ?b2 = frames b" "held ?b2 q f"
    using pp.put_ok [OF F(5,7), of d'] leaf_nodeD(1) [OF d'(2)] F(7) by (auto simp: page_sized_def S2_def)
  have data2: "node_data f (t\<lparr>bpm := ?b2\<rparr>) = d'"
    using held_node_data [of "t\<lparr>bpm := ?b2\<rparr>" S2 ?P1 q f d'] p2 by (simp add: S2_def)
  have dom2: "dom S2 = dom S" using d(2) by (auto simp: S2_def)
  have pin1: "npin ?P1 \<le> Suc (npin P)" by (rule npin_upd_le)
  have sp2: "spare_ids (Suc 6) S2" using spare spare_ids_dom [of S2 S] dom2 by simp
  obtain r g b3 where b3: "NewPage ?b2 = (Inr (r, Some g), b3)" "r \<notin> dom S2" "r \<noteq> INVALID_PAGE_ID" "?P1 r = 0"
    "pool_st b3 (S2(r \<mapsto> zero_page)) (?P1(r := 1))" "held b3 r g" "frames b3 = frames ?b2" "\<forall>p y. held ?b2 p y \<longrightarrow> held b3 p y"
    using pp.new_ok [OF p2(1) spare_ids_unused [OF sp2]] pin1 room p2(2) by auto
  have qr: "q \<noteq> r" using b3(2) by (auto simp: S2_def)
  let ?P2 = "?P1(r := 1)"
  have pin2: "npin ?P2 \<le> Suc (Suc (npin P))" using npin_upd_le [of ?P1 r 1] pin1 by simp
  define xs where "xs = take (kept (length ?es)) ?es"
  define ys where "ys = drop (kept (length ?es)) ?es"
  have xy: "xs @ ys = ?es" "length xs = 127" "length ys = 127"
    using sz by (simp_all add: xs_def ys_def length_ins_entry kept_def)
  have h3: "held b3 q f" using b3(8) p2(3) by blast
  obtain b4 d1 d2 where b4: "split_leaf_node f g r (t\<lparr>bpm := b3\<rparr>) = (Inr (fst (hd ys)), t\<lparr>bpm := b4\<rparr>)"
     "leaf_node q (path_par c) r xs d1" "leaf_node r (path_par c) (path_next c) ys d2"
     "pool_st b4 (S2(r \<mapsto> zero_page, q \<mapsto> d1, r \<mapsto> d2)) ?P2" "frames b4 = frames b3" "\<forall>p y. held b3 p y \<longrightarrow> held b4 p y"
    using split_leaf_ok [of "t\<lparr>bpm := b3\<rparr>" "S2(r \<mapsto> zero_page)" ?P2 q f r g d' "path_par c" "path_next c" ?es zero_page xs ys]
      b3(5,6) h3 qr d'(2) sz by (auto simp: S2_def xs_def ys_def length_ins_entry)
  define S4 where "S4 = S(q \<mapsto> d1, r \<mapsto> d2)"
  have st4: "pool_st b4 S4 ?P2" using b4(4) qr by (simp add: S4_def S2_def fun_upd_twist)
  have rT: "r \<notin> set (path_ids c)" "q \<notin> set (path_ids c)" "r \<notin> dom S"
    using R(2) tree_in_dom [OF R(2)] b3(2) dom2 unfolding F(1) tree_in_def distinct_ids_fill set_ids_fill by auto
  have sat: "sat S (path_desc c q q)" "INVALID_PAGE_ID \<notin> set (path_ids c)" "distinct (path_ids c)" "q \<noteq> INVALID_PAGE_ID"
    using R(2) unfolding F(1) tree_in_def sat_fill distinct_ids_fill set_ids_fill by auto
  have pi: "pair_in S4 c (Leaf q xs) (Leaf r ys)"
    using sat rT qr b4(2,3) b3(3) by (auto simp: pair_in_def S4_def)
  note po = leaf_pair_ok [OF F(2-4) key sz xy, of r]
  have h4: "held b4 q f" "held b4 r g" using b4(6) h3 b3(6) by blast+
  have rt: "root_page_id (t\<lparr>bpm := b4\<rparr>) = root_id (fill (Leaf q xs) c)"
    using R(1) F(1) node_root_id [of "Leaf q es" "Leaf q xs" c] by simp
  have fr4: "frames b4 = frames b" using b4(5) b3(7) p2(2) by simp
  have "npin ?P2 + 2 * length c + 1 \<le> frames (bpm (t\<lparr>bpm := b4\<rparr>))" using pin2 c5 room fr4 by simp
  moreover have "spare_ids 6 (S2(r \<mapsto> d2))" by (rule spare_ids_new [OF sp2])
  then have "spare_ids 6 S4" by (rule spare_ids_dom [rotated]) (auto simp: S4_def S2_def)
  then have "spare_ids (Suc (length c)) S4" by (rule spare_ids_mono) (use c5 in simp)
  ultimately obtain b5 S5 T5 where b5: "InsertIntoParent f (fst (hd ys)) g (t\<lparr>bpm := b4\<rparr>)
      = Some (Inr (), (t\<lparr>bpm := b4\<rparr>)\<lparr>root_page_id := root_id T5, bpm := b5\<rparr>)"
    "grown S4 c (Leaf q xs) (Leaf r ys) S5 T5" "pool_st b5 S5 ?P2" "frames b5 = frames b4" "\<forall>p y. held b4 p y \<longrightarrow> held b5 p y"
    "takes_ids (Suc (length c)) S4 S5"
    using insert_up [of c, unfolded insert_up_def, rule_format, OF pi po, of "t\<lparr>bpm := b4\<rparr>" ?P2 f g] st4 h4 rt by auto
  let ?t5 = "t\<lparr>root_page_id := root_id T5, bpm := b5\<rparr>"
  have h5: "held b5 q f" "held b5 r g" using b5(5) h4 by blast+
  obtain b6 where b6: "UnpinPage q True b5 = (Inr True, b6)" "pool_st b6 S5 (?P2(q := ?P2 q - 1))" "frames b6 = frames b5"
    "\<forall>p y. held b5 p y \<and> p \<noteq> q \<longrightarrow> held b6 p y"
    using pp.unpin_ok [OF b5(3) h5(1), of True] by auto
  have h6: "held b6 r g" using b6(4) h5(2) qr by blast
  have Peq: "(?P2(q := ?P2 q - 1))(r := (?P2(q := ?P2 q - 1)) r - 1) = P" using F(6) b3(4) qr by (auto simp: fun_eq_iff)
  obtain b7 where b7: "UnpinPage r True b6 = (Inr True, b7)" "pool_st b7 S5 P" "frames b7 = frames b6"
    using pp.unpin_ok [OF b6(2) h6, of True] unfolding Peq by auto
  have u1: "unpin_frame f True ?t5 = (Inr True, ?t5\<lparr>bpm := b6\<rparr>)"
    using unpin_frame_step [of ?t5 S5 ?P2 q f True] b5(3) h5(1) b6(1) by simp
  have u2: "unpin_frame g True (?t5\<lparr>bpm := b6\<rparr>) = (Inr True, ?t5\<lparr>bpm := b7\<rparr>)"
    using unpin_frame_step [of "?t5\<lparr>bpm := b6\<rparr>" S5 _ r g True] b6(2) h6 b7(1) by simp
  have run: "insert_into_leaf f key v t1 = Some (Inr True, t\<lparr>root_page_id := root_id T5, bpm := b7\<rparr>)"
    using d(1) d'(1) data2 leaf_nodeD(7) [OF d(3)] leaf_nodeD(3) [OF d'(2)] sz t1 b3(1) b4(1) b5(1) u1 u2
    by (simp add: insert_into_leaf_def node_data_def)
  obtain h5 where G: "tree_in S5 T5" "tree_ok h5 T5" "entries T5 = path_left c @ xs @ ys @ path_right c"
    "set (path_ids c) \<subseteq> set (ids T5)" "q \<in> set (ids T5)"
    "\<forall>p \<in> set (ids T5). p \<notin> set (path_ids c) \<and> p \<noteq> q \<and> p \<noteq> r \<longrightarrow> p \<notin> dom S4" "\<forall>p. p \<notin> set (ids T5) \<longrightarrow> S5 p = S4 p"
    "r \<in> set (ids T5)"
    using b5(2) by (auto simp: grown_def)
  have idsT: "set (ids T) = insert q (set (path_ids c))" by (auto simp: F(1) set_ids_fill)
  have new: "p \<notin> dom S" if "p \<in> set (ids T5)" "p \<notin> set (ids T)" for p
    using G(6) that idsT rT(3) by (cases "p = r") (auto simp: S4_def)
  have "P p = 0" if "p \<in> set (ids T5)" for p
  proof (cases "p \<in> set (ids T)")
    case False
    then have "p \<notin> dom S" by (rule new [OF that])
    moreover have "p \<noteq> q" using False idsT by blast
    ultimately show ?thesis using pp.pins_live [OF F(5), of p] by simp
  qed (use R(4) in blast)
  then have ir: "index_rep (t\<lparr>root_page_id := root_id T5, bpm := b7\<rparr>) S5 P (set (ids T5)) (map_of (entries T5))"
    using index_rep_tree [OF b7(2) G(1,2)] by blast
  have ent: "entries T5 = path_left c @ ins_entry key v es @ path_right c"
    using G(3) xy(1) [symmetric] by simp
  have "map_of (entries T5) = (map_of (entries T))(key \<mapsto> v)"
    using map_of_fill_ins [OF G(2) ent d(4) key] by (simp add: entries_fill F(1))
  then have "index_rep (t\<lparr>root_page_id := root_id T5, bpm := b7\<rparr>) S5 P (set (ids T5)) ((map_of (entries T))(key \<mapsto> v))"
    using ir by metis
  moreover have "index_frame S (set (ids T)) S5 (set (ids T5))"
    using new G(5,7,8) idsT by (auto simp: index_frame_def S4_def)
  moreover have "frames b7 = frames b" using b7(3) b6(3) b5(4) fr4 by simp
  moreover have "set (ids T) \<subseteq> set (ids T5)" using G(4,5) idsT by simp
  moreover have "takes_ids (0 + Suc 0) S S4" unfolding S4_def
    by (rule takes_ids_trans [OF takes_ids_dom takes_ids_new]) (use d(2) in auto)
  from takes_ids_trans [OF this b5(6)] have "takes_ids 7 S S5" by (rule takes_ids_mono) (use c5 in simp)
  ultimately show ?thesis using run
    by (intro exI [of _ "root_id T5"] exI [of _ b7] exI [of _ S5] exI [of _ "set (ids T5)"]) simp
qed

text \<open>The key occurs: nothing changes.\<close>

lemma put_data_same: "put_data f (page_data b f) b = b"
  by (simp add: put_data_def page_data_def set_frame_def frame_def)

lemma insert_into_leaf_dup:
  assumes found: "leaf_found key S P T b f q es c lo hi" and rep: "index_tree t S P h T" and key: "key \<in> fst ` set es"
    and t1: "t1 = t\<lparr>bpm := b\<rparr>"
  shows "\<exists>b'. insert_into_leaf f key v t1 = Some (Inr False, t\<lparr>bpm := b'\<rparr>) \<and> frames b' = frames b \<and>
     index_rep (t\<lparr>bpm := b'\<rparr>) S P (set (ids T)) (map_of (entries T))"
proof -
  note R = index_treeD [OF rep]
  have F: "pool_st b S (P(q := 1))" "P q = 0" "held b q f" "synced b q" using found by (auto simp: leaf_found_def)
  obtain d where d: "node_data f t1 = d" "S q = Some d" "leaf_node q (path_par c) (path_next c) es d" "sorted_keys es"
    by (rule leaf_found_data [OF found R(2), of t1]) (auto simp: t1)
  note ins = leaf_insert_dup [OF d(3,4) key, of v]
  let ?b2 = "put_data f d b"
  have same: "S(q \<mapsto> d) = S" using d(2) by (simp add: fun_upd_idem)
  have p2: "pool_st ?b2 S (P(q := 1))" "frames ?b2 = frames b" "held ?b2 q f"
    using pp.put_ok [OF F(1,3), of d] leaf_nodeD(1) [OF d(3)] F(3) by (auto simp: page_sized_def same)
  have "?b2 = b" using d(1) t1 put_data_same [of f b] by (simp add: node_data_def)
  then have "synced ?b2 q" using F(4) by metis
  then obtain b3 where b3: "UnpinPage q False ?b2 = (Inr True, b3)" "pool_st b3 S P" "frames b3 = frames b"
    using pp.unpin_ok [OF p2(1,3), of False] F(2) p2(2) by (auto simp: fun_upd_idem)
  have "unpin_frame f False (t\<lparr>bpm := ?b2\<rparr>) = (Inr True, t\<lparr>bpm := b3\<rparr>)"
    using unpin_frame_step [of "t\<lparr>bpm := ?b2\<rparr>" S "P(q := 1)" q f False] p2 b3(1) by simp
  then have "insert_into_leaf f key v t1 = Some (Inr False, t\<lparr>bpm := b3\<rparr>)"
    using d(1) ins leaf_nodeD(7) [OF d(3)] t1 by (simp add: insert_into_leaf_def node_data_def)
  moreover have "index_rep (t\<lparr>bpm := b3\<rparr>) S P (set (ids T)) (map_of (entries T))"
    using index_rep_keep [OF rep b3(2)] .
  ultimately show ?thesis using b3(3) by blast
qed

definition map_insert :: "64 word \<Rightarrow> RID \<Rightarrow> (64 word \<rightharpoonup> RID) \<Rightarrow> (64 word \<rightharpoonup> RID)" where
  "map_insert key v M = (if M key = None then M(key \<mapsto> v) else M)"

lemma insert_ok:
  assumes rep: "index_rep t S P A M" and room: "npin P + 13 \<le> frames (bpm t)" and spare: "spare_ids 7 S"
  shows "\<exists>t' S' A'. BPlusTree_Insert key v t = Some (Inr (M key = None), t') \<and> index_rep t' S' P A' (map_insert key v M) \<and>
     A \<subseteq> A' \<and> index_frame S A S' A' \<and> takes_ids 7 S S' \<and> frames (bpm t') = frames (bpm t)"
proof (cases "IsEmpty t")
  case True
  then have M: "M = Map.empty" "A = {}" "pool_st (bpm t) S P" using rep by (auto simp: index_rep_def)
  have "npin P < frames (bpm t)" "spare_ids 1 S" using room spare_ids_mono [OF spare] by simp_all
  from insert_first_ok [OF M(3) this, of key v] obtain r b S' where r: "insert_first key v t = (Inr True, t\<lparr>root_page_id := r, bpm := b\<rparr>)"
    "index_rep (t\<lparr>root_page_id := r, bpm := b\<rparr>) S' P {r} [key \<mapsto> v]" "index_frame S {} S' {r}" "takes_ids (Suc 0) S S'"
    "frames b = frames (bpm t)" by blast
  have "takes_ids 7 S S'" by (rule takes_ids_mono [OF r(4)]) simp
  then show ?thesis using r True M
    by (intro exI [of _ "t\<lparr>root_page_id := r, bpm := b\<rparr>"] exI [of _ S'] exI [of _ "{r}"])
      (simp add: BPlusTree_Insert_def map_insert_def)
next
  case False
  then obtain h T where T: "pool_st (bpm t) S P" "index_tree t S P h T" "M = map_of (entries T)" "A = set (ids T)"
    using rep by (auto simp: index_rep_def)
  have "npin P < frames (bpm t)" using room by simp
  from find_leaf_ok [OF T(2,1) this] obtain f b q es c lo hi where f: "FindLeafPage key t = Some (Inr (Some f), t\<lparr>bpm := b\<rparr>)"
    "leaf_found key S P T b f q es c lo hi" "frames b = frames (bpm t)" by blast
  have run: "BPlusTree_Insert key v t = insert_into_leaf f key v (t\<lparr>bpm := b\<rparr>)"
    using False f(1) by (simp add: BPlusTree_Insert_def)
  have Mk: "M key = None \<longleftrightarrow> key \<notin> fst ` set es" using leaf_found_entries [OF f(2)] T(3) by (simp add: map_of_eq_None_iff)
  have room': "npin P + 13 \<le> frames b" using room f(3) by simp
  consider "key \<in> fst ` set es" | "key \<notin> fst ` set es" "length es < 253" | "key \<notin> fst ` set es" "length es = 253"
    using f(2) by (fastforce simp: leaf_found_def located_def)
  then show ?thesis
  proof cases
    case 1
    from insert_into_leaf_dup [OF f(2) T(2) 1 refl, of v] obtain b' where b':
      "insert_into_leaf f key v (t\<lparr>bpm := b\<rparr>) = Some (Inr False, t\<lparr>bpm := b'\<rparr>)" "frames b' = frames b"
      "index_rep (t\<lparr>bpm := b'\<rparr>) S P (set (ids T)) (map_of (entries T))" by blast
    have "takes_ids 7 S S" by (rule takes_ids_mono [OF takes_ids_dom]) auto
    then show ?thesis using b' run 1 Mk T(3,4) f(3)
      by (intro exI [of _ "t\<lparr>bpm := b'\<rparr>"] exI [of _ S] exI [of _ A]) (auto simp: map_insert_def index_frame_def)
  next
    case 2
    from insert_into_leaf_fits [OF f(2) T(2) 2 refl, of v] obtain b' S' where b':
      "insert_into_leaf f key v (t\<lparr>bpm := b\<rparr>) = Some (Inr True, t\<lparr>bpm := b'\<rparr>)" "frames b' = frames b"
      "index_rep (t\<lparr>bpm := b'\<rparr>) S' P (set (ids T)) ((map_of (entries T))(key \<mapsto> v))"
      "index_frame S (set (ids T)) S' (set (ids T))" "takes_ids 0 S S'" by blast
    have "takes_ids 7 S S'" by (rule takes_ids_mono [OF b'(5)]) simp
    then show ?thesis using b' run 2 Mk T(3,4) f(3)
      by (intro exI [of _ "t\<lparr>bpm := b'\<rparr>"] exI [of _ S'] exI [of _ A]) (simp add: map_insert_def)
  next
    case 3
    from insert_into_leaf_splits [OF f(2) T(2) 3 refl room' spare, of v] obtain r b' S' A' where b':
      "insert_into_leaf f key v (t\<lparr>bpm := b\<rparr>) = Some (Inr True, t\<lparr>root_page_id := r, bpm := b'\<rparr>)" "frames b' = frames b"
      "index_rep (t\<lparr>root_page_id := r, bpm := b'\<rparr>) S' P A' ((map_of (entries T))(key \<mapsto> v))"
      "set (ids T) \<subseteq> A'" "index_frame S (set (ids T)) S' A'" "takes_ids 7 S S'" by blast
    then show ?thesis using run 3 Mk T(3,4) f(3)
      by (intro exI [of _ "t\<lparr>root_page_id := r, bpm := b'\<rparr>"] exI [of _ S'] exI [of _ A']) (simp add: map_insert_def)
  qed
qed

end
