(* ===== verification/BPlus_Underflow.thy ===== *)
theory BPlus_Underflow
  imports BPlus_Insert
begin

text \<open>
  The repair of a node that has become too small: an entry is borrowed from a sibling, or the two
  are merged. \<open>family\<close> says that the page store holds a parent and a run of adjacent children,
  \<open>balances\<close> what may replace such a run in a well-formed tree, and \<open>regrouped\<close> that the store
  holds the replacement and has changed nowhere else. Redistribution and merging, of leaves and of
  inner nodes and in both directions, are shown to do this on every buffer pool.
\<close>

section \<open>Stepping on a store\<close>

text \<open>The pages held in \<open>b\<close> are still held in \<open>b'\<close>.\<close>

definition keeps :: "buffer_pool \<Rightarrow> buffer_pool \<Rightarrow> bool" where
  "keeps b b' \<longleftrightarrow> frames b' = frames b \<and> (\<forall>q y. held b q y \<longrightarrow> held b' q y)"

lemma keeps_refl: "keeps b b"
  by (simp add: keeps_def)

lemma keeps_trans: "keeps b b1 \<Longrightarrow> keeps b1 b2 \<Longrightarrow> keeps b b2"
  by (simp add: keeps_def)

lemma keeps_held: "keeps b b' \<Longrightarrow> held b q f \<Longrightarrow> held b' q f"
  by (simp add: keeps_def)

lemma keeps_frames: "keeps b b' \<Longrightarrow> frames b' = frames b"
  by (simp add: keeps_def)

lemma data_at: "pool_st b S P \<Longrightarrow> held b q f \<Longrightarrow> S q = Some d \<Longrightarrow> node_data f (t\<lparr>bpm := b\<rparr>) = d"
  using held_node_data [of "t\<lparr>bpm := b\<rparr>" S P q f d] by simp

lemma read_at:
  "pool_st b S P \<Longrightarrow> held b q f \<Longrightarrow> S q = Some d \<Longrightarrow> m d = Some a \<Longrightarrow>
   node_read f m (t\<lparr>bpm := b\<rparr>) = (Inr a, t\<lparr>bpm := b\<rparr>)"
  using data_at by (metis node_read_step)

lemma put_at:
  assumes "pool_st b S P" "held b q f" "page_sized d"
  shows "pool_st (put_data f d b) (S(q \<mapsto> d)) P" "keeps b (put_data f d b)"
  using pp.put_ok [OF assms(1,2), of d] assms(3) by (auto simp: page_sized_def keeps_def)

lemma op_at:
  assumes st: "pool_st b S P" and h: "held b q f" and d: "S q = Some d" "m d = Some (a, d')" "page_sized d'"
  obtains b' where "node_op f m (t\<lparr>bpm := b\<rparr>) = (Inr a, t\<lparr>bpm := b'\<rparr>)" "pool_st b' (S(q \<mapsto> d')) P" "keeps b b'"
  using that [of "put_data f d' b"] put_at [OF st h d(3)] data_at [OF st h d(1), of t] d(2) by simp

lemma op2_at:
  assumes st: "pool_st b S P" and h: "held b q f" "held b r g" and qr: "q \<noteq> r"
    and d: "S q = Some d1" "S r = Some d2" "m d1 d2 = Some (e1, e2)" "page_sized e1" "page_sized e2"
  obtains b' where "node_op2 f g m (t\<lparr>bpm := b\<rparr>) = (Inr (), t\<lparr>bpm := b'\<rparr>)"
    "pool_st b' (S(q \<mapsto> e1, r \<mapsto> e2)) P" "keeps b b'"
proof -
  let ?b1 = "put_data f e1 b"
  note p1 = put_at [OF st h(1) d(4)]
  note p2 = put_at [OF p1(1) keeps_held [OF p1(2) h(2)] d(5)]
  show thesis
    using that [of "put_data g e2 ?b1"] p2(1) keeps_trans [OF p1(2) p2(2)] data_at [OF st h(1) d(1), of t]
      data_at [OF st h(2) d(2), of t] d(3) by simp
qed

text \<open>A child gets a new parent.\<close>

lemma reparent_child_ok:
  assumes st: "pool_st b S P" and h: "held b q f" "S q = Some d" "Node_GetPageId d = q"
    and c: "S c = Some dc" "page_sized dc" and room: "npin P < frames b"
  obtains b' where "reparent_child c f (t\<lparr>bpm := b\<rparr>) = (Inr (), t\<lparr>bpm := b'\<rparr>)"
    "pool_st b' (S(c \<mapsto> SetParentPageId q dc)) P" "keeps b b'"
proof -
  have dom: "c \<in> dom S" using c(1) by blast
  obtain g b1 where b1: "FetchPage c b = (Inr (Some g), b1)" "pool_st b1 S (P(c := P c + 1))" "held b1 c g"
    "frames b1 = frames b" "\<forall>q y. held b q y \<longrightarrow> held b1 q y"
    using pp.fetch_ok [OF st dom room] by blast
  let ?d = "SetParentPageId q dc"
  have ds: "page_sized ?d" using SetParent_length [OF c(2)] by (simp add: page_sized_def)
  have h1: "held b1 q f" using b1(5) h(1) by blast
  note p2 = put_at [OF b1(2,3) ds]
  have h2: "held (put_data g ?d b1) c g" by (rule keeps_held [OF p2(2) b1(3)])
  obtain b3 where b3: "UnpinPage c True (put_data g ?d b1) = (Inr True, b3)" "pool_st b3 (S(c \<mapsto> ?d)) P"
    "frames b3 = frames (put_data g ?d b1)"
    "\<forall>r y. held (put_data g ?d b1) r y \<and> (r \<noteq> c \<or> 1 < P c + 1) \<longrightarrow> held b3 r y"
    using pp.unpin_ok [OF p2(1) h2, of True] by auto
  have "held b3 r y" if "held b r y" for r y
  proof -
    have "held (put_data g ?d b1) r y" using keeps_held [OF p2(2)] b1(5) that by blast
    then show ?thesis using b3(4) pp.hold_pins [OF st that] by auto
  qed
  then have "keeps b b3" using b3(3) keeps_frames [OF p2(2)] b1(4) by (simp add: keeps_def)
  moreover have "page_data b1 g = dc" using pp.get_ok [OF b1(2,3)] c(1) by simp
  moreover have "page_data b1 f = d" using pp.get_ok [OF b1(2) h1] h(2) by simp
  ultimately show thesis using that [of b3] b1(1) b3(1,2) h(3) by (simp add: reparent_child_def node_data_def)
qed

section \<open>Runs of adjacent children\<close>

definition family ::
  "(page_id \<rightharpoonup> byte list) \<Rightarrow> page_id \<Rightarrow> page_id \<Rightarrow> (64 word \<times> bt) list \<Rightarrow> (64 word \<times> bt) list \<Rightarrow>
   (64 word \<times> bt) list \<Rightarrow> page_id \<Rightarrow> bool" where
  "family S p gp l0 ts r0 nxt \<longleftrightarrow>
     (\<exists>d. S p = Some d \<and> inner_node p gp (child_ids (l0 @ ts @ r0)) d) \<and>
     sat S (forest_desc p (next_leaf nxt r0) ts) \<and> distinct (p # forest_ids ts)"

definition regrouped ::
  "(page_id \<rightharpoonup> byte list) \<Rightarrow> (page_id \<rightharpoonup> byte list) \<Rightarrow> page_id \<Rightarrow> page_id \<Rightarrow> (64 word \<times> bt) list \<Rightarrow>
   (64 word \<times> bt) list \<Rightarrow> (64 word \<times> bt) list \<Rightarrow> (64 word \<times> bt) list \<Rightarrow> page_id \<Rightarrow> bool" where
  "regrouped S S' p gp l0 old new r0 nxt \<longleftrightarrow>
     family S' p gp l0 new r0 nxt \<and> (\<forall>q. q \<noteq> p \<and> q \<notin> set (forest_ids old) \<longrightarrow> S' q = S q)"

definition balances :: "nat \<Rightarrow> (64 word \<times> bt) list \<Rightarrow> (64 word \<times> bt) list \<Rightarrow> bool" where
  "balances h old new \<longleftrightarrow>
     new \<noteq> [] \<and> fst (hd new) = fst (hd old) \<and> forest_entries new = forest_entries old \<and>
     set (forest_ids new) \<subseteq> set (forest_ids old) \<and> (\<forall>x. next_leaf x new = next_leaf x old) \<and>
     forest_sized new \<and> (\<forall>lo hi. forest_ok h lo hi old \<longrightarrow> forest_ok h lo hi new)"

lemma forest_ok_seg:
  assumes "ts \<noteq> []"
  shows "forest_ok h a b (ls @ ts @ rs) \<longleftrightarrow>
     (\<exists>lo hi. left_ok h a lo (fst (hd ts)) ls \<and> forest_ok h lo hi ts \<and> chain_ok h hi b rs)"
proof -
  obtain k t us where ts: "ts = (k, t) # us" using assms by (cases ts) auto
  show ?thesis unfolding ts list.sel fst_conv append_Cons forest_ok_mid by (auto simp: chain_ok_append)
qed

lemma seg_ok:
  assumes "forest_ok h a b (l0 @ old @ r0)" "balances h old new" "old \<noteq> []"
  shows "forest_ok h a b (l0 @ new @ r0)"
proof -
  obtain lo hi where lh: "left_ok h a lo (fst (hd old)) l0" "forest_ok h lo hi old" "chain_ok h hi b r0"
    using assms(1) forest_ok_seg [OF assms(3)] by blast
  have n: "new \<noteq> []" "fst (hd new) = fst (hd old)" "forest_ok h lo hi new"
    using assms(2) lh(2) by (simp_all add: balances_def)
  show ?thesis unfolding forest_ok_seg [OF n(1)] n(2) using lh(1,3) n(3) by blast
qed

lemma forest_sorted: "forest_ok h lo hi cs \<Longrightarrow> sorted_keys (forest_entries cs)"
  using ok_sorted_aux(2) by blast

lemma family_tree:
  assumes "tree_in S (fill (Node p (l0 @ ts @ r0)) c)"
  shows "family S p (path_par c) l0 ts r0 (path_next c)"
  using assms by (auto simp: family_def tree_in_def sat_fill distinct_ids_fill)

lemma tree_regrouped:
  assumes T: "tree_in S (fill (Node p (l0 @ old @ r0)) c)" and old: "old \<noteq> []" and bal: "balances h old new"
    and re: "regrouped S S' p (path_par c) l0 old new r0 (path_next c)"
  shows "tree_in S' (fill (Node p (l0 @ new @ r0)) c)"
proof -
  have n: "new \<noteq> []" "\<And>x. next_leaf x new = next_leaf x old" "set (forest_ids new) \<subseteq> set (forest_ids old)"
    using bal by (simp_all add: balances_def)
  have same: "S' q = S q" if "q \<noteq> p" "q \<notin> set (forest_ids old)" for q using re that by (simp add: regrouped_def)
  have f: "family S' p (path_par c) l0 new r0 (path_next c)" using re by (simp add: regrouped_def)
  have dist: "distinct (path_ids c @ p # forest_ids l0 @ forest_ids old @ forest_ids r0)"
    "INVALID_PAGE_ID \<notin> set (path_ids c @ p # forest_ids l0 @ forest_ids old @ forest_ids r0)"
    using T unfolding tree_in_def distinct_ids_fill set_ids_fill by auto
  have s: "sat S (path_desc c p (first_leaf (Node p (l0 @ old @ r0))))"
    "sat S (forest_desc p (next_leaf (path_next c) (old @ r0)) l0)" "sat S (forest_desc p (path_next c) r0)"
    using T unfolding tree_in_def sat_fill by simp_all
  have fl: "first_leaf (Node p (l0 @ new @ r0)) = first_leaf (Node p (l0 @ old @ r0))"
    using first_leaf_Node [of "l0 @ new @ r0" p 0] first_leaf_Node [of "l0 @ old @ r0" p 0] n(1,2) old by simp
  have "sat S' (path_desc c p (first_leaf (Node p (l0 @ new @ r0))))"
    unfolding fl by (rule sat_cong [OF s(1)]) (use dist(1) in \<open>auto intro!: same\<close>)
  moreover have "sat S' (forest_desc p (next_leaf (path_next c) (new @ r0)) l0)"
    using s(2) unfolding forest_append n(2) by (rule sat_cong) (use dist(1) in \<open>auto intro!: same\<close>)
  moreover have "sat S' (forest_desc p (path_next c) r0)"
    by (rule sat_cong [OF s(3)]) (use dist(1) in \<open>auto intro!: same\<close>)
  ultimately have "sat S' (desc INVALID_PAGE_ID INVALID_PAGE_ID (fill (Node p (l0 @ new @ r0)) c))"
    unfolding sat_fill using f by (auto simp: family_def)
  moreover have "distinct (path_ids c @ ids (Node p (l0 @ new @ r0)))"
    using dist(1) n(3) f by (auto simp: family_def)
  moreover have "INVALID_PAGE_ID \<notin> set (path_ids c @ ids (Node p (l0 @ new @ r0)))"
    using dist(2) n(3) by auto
  ultimately show ?thesis unfolding tree_in_def distinct_ids_fill set_ids_fill by auto
qed

section \<open>Redistribution\<close>

text \<open>The number of entries a page must have to lend one.\<close>

fun width :: "bt \<Rightarrow> nat" where
  "width (Leaf p es) = length es"
| "width (Node p cs) = length cs"

fun least :: "bt \<Rightarrow> nat" where
  "least (Leaf p es) = 126"
| "least (Node p cs) = 169"

text \<open>A node that lacks one entry.\<close>

fun thin :: "bt \<Rightarrow> bool" where
  "thin (Leaf p es) \<longleftrightarrow> length es = 125"
| "thin (Node p cs) \<longleftrightarrow> length cs = 168 \<and> forest_sized cs"

lemma redistribute_leaf_left:
  assumes old: "old = [(k1, Leaf q (xs @ [e])), (k2, Leaf r ys)]" and new: "new = [(k1, Leaf q xs), (fst e, Leaf r (e # ys))]"
    and st: "pool_st b S P" and fam: "family S p gp l0 old r0 nxt" and ok: "forest_ok 0 lo hi old"
    and h: "held b p fp" "held b q g" "held b r f" and len: "length ys < 253"
  shows "\<exists>b' S'. redistribute_leaf f g fp (int (Suc (length l0))) True (t\<lparr>bpm := b\<rparr>) = (Inr (), t\<lparr>bpm := b'\<rparr>) \<and>
     pool_st b' S' P \<and> keeps b b' \<and> regrouped S S' p gp l0 old new r0 nxt"
proof -
  obtain d where d: "S p = Some d" "inner_node p gp ((child_ids l0 @ [(k1, q)]) @ (k2, r) # child_ids r0) d"
    using fam by (auto simp: family_def old)
  obtain dq dr where qr: "S q = Some dq" "leaf_node q p r (xs @ [e]) dq" "S r = Some dr"
    "leaf_node r p (next_leaf nxt r0) ys dr" "distinct [p, q, r]"
    using fam by (auto simp: family_def old)
  have sorted: "sorted_keys (e # ys)" "sorted_keys xs"
  proof -
    have "sorted_keys ((xs @ [e]) @ ys)" using forest_sorted [OF ok] by (simp add: old)
    then show "sorted_keys (e # ys)" "sorted_keys xs" by (simp_all add: sorted_keys_append sorted_keys_Cons)
  qed
  obtain dq' dr' where m: "Leaf_MoveLastToFrontOf dq dr = Some (dq', dr')" "leaf_node q p r xs dq'"
    "leaf_node r p (next_leaf nxt r0) (e # ys) dr'"
    using leaf_move_last [OF qr(2,4) sorted(1)] len by auto
  obtain b1 where b1: "node_op2 g f Leaf_MoveLastToFrontOf (t\<lparr>bpm := b\<rparr>) = (Inr (), t\<lparr>bpm := b1\<rparr>)"
    "pool_st b1 (S(q \<mapsto> dq', r \<mapsto> dr')) P" "keeps b b1"
    by (rule op2_at [OF st h(2,3) _ qr(1,3), of Leaf_MoveLastToFrontOf dq' dr' t])
      (use m(1) qr(5) leaf_nodeD(1) [OF m(2)] leaf_nodeD(1) [OF m(3)] in auto)
  note h1 = keeps_held [OF b1(3) h(1)] keeps_held [OF b1(3) h(3)]
  have k: "node_read f (\<lambda>d. Leaf_KeyAt d 0) (t\<lparr>bpm := b1\<rparr>) = (Inr (fst e), t\<lparr>bpm := b1\<rparr>)"
    by (rule read_at [OF b1(2) h1(2), of dr']) (use leaf_node_entry(2) [OF m(3), of 0] in auto)
  obtain d' where d': "Internal_SetKeyAt (int (Suc (length l0))) (fst e) d = Some d'"
    "inner_node p gp ((child_ids l0 @ [(k1, q)]) @ (fst e, r) # child_ids r0) d'"
    using inner_set_key [OF d(2), of "fst e"] by auto
  obtain b2 where b2: "node_op fp (unit_op (Internal_SetKeyAt (int (Suc (length l0))) (fst e))) (t\<lparr>bpm := b1\<rparr>)
      = (Inr (), t\<lparr>bpm := b2\<rparr>)" "pool_st b2 (S(q \<mapsto> dq', r \<mapsto> dr', p \<mapsto> d')) P" "keeps b1 b2"
    by (rule op_at [OF b1(2) h1(1), of d "unit_op (Internal_SetKeyAt (int (Suc (length l0))) (fst e))" "()" d' t])
      (use d(1) d'(1) qr(5) inner_nodeD(1) [OF d'(2)] in auto)
  have "regrouped S (S(q \<mapsto> dq', r \<mapsto> dr', p \<mapsto> d')) p gp l0 old new r0 nxt"
    using m(2,3) d'(2) qr(5) by (auto simp: regrouped_def family_def old new)
  then show ?thesis using b1(1) k b2 keeps_trans [OF b1(3) b2(3)]
    by (intro exI [of _ b2] exI [of _ "S(q \<mapsto> dq', r \<mapsto> dr', p \<mapsto> d')"]) (simp add: redistribute_leaf_def)
qed

lemma redistribute_leaf_right:
  assumes old: "old = [(k1, Leaf q xs), (k2, Leaf r (e # ys))]" and new: "new = [(k1, Leaf q (xs @ [e])), (fst (hd ys), Leaf r ys)]"
    and st: "pool_st b S P" and fam: "family S p gp l0 old r0 nxt" and ok: "forest_ok 0 lo hi old"
    and h: "held b p fp" "held b q f" "held b r g" and len: "length xs < 253" "ys \<noteq> []"
  shows "\<exists>b' S'. redistribute_leaf f g fp (int (length l0)) False (t\<lparr>bpm := b\<rparr>) = (Inr (), t\<lparr>bpm := b'\<rparr>) \<and>
     pool_st b' S' P \<and> keeps b b' \<and> regrouped S S' p gp l0 old new r0 nxt"
proof -
  let ?i = "int (length l0) + 1" and ?k = "fst (hd ys)"
  obtain d where d: "S p = Some d" "inner_node p gp ((child_ids l0 @ [(k1, q)]) @ (k2, r) # child_ids r0) d"
    using fam by (auto simp: family_def old)
  obtain dq dr where qr: "S q = Some dq" "leaf_node q p r xs dq" "S r = Some dr"
    "leaf_node r p (next_leaf nxt r0) (e # ys) dr" "distinct [p, q, r]"
    using fam by (auto simp: family_def old)
  have sorted: "sorted_keys (xs @ [e])"
  proof -
    have "sorted_keys ((xs @ [e]) @ ys)" using forest_sorted [OF ok] by (simp add: old)
    then show ?thesis using sorted_keys_append [of "xs @ [e]" ys] by blast
  qed
  obtain dr' dq' where m: "Leaf_MoveFirstToEndOf dr dq = Some (dr', dq')" "leaf_node r p (next_leaf nxt r0) ys dr'"
    "leaf_node q p r (xs @ [e]) dq'"
    using leaf_move_first [OF qr(4,2) sorted] len by auto
  obtain b1 where b1: "node_op2 g f Leaf_MoveFirstToEndOf (t\<lparr>bpm := b\<rparr>) = (Inr (), t\<lparr>bpm := b1\<rparr>)"
    "pool_st b1 (S(r \<mapsto> dr', q \<mapsto> dq')) P" "keeps b b1"
    by (rule op2_at [OF st h(3,2) _ qr(3,1), of Leaf_MoveFirstToEndOf dr' dq' t])
      (use m(1) qr(5) leaf_nodeD(1) [OF m(2)] leaf_nodeD(1) [OF m(3)] in auto)
  note h1 = keeps_held [OF b1(3) h(1)] keeps_held [OF b1(3) h(3)]
  have "Leaf_KeyAt dr' 0 = Some ?k" using leaf_node_entry(2) [OF m(2), of 0] len(2) by (cases ys) auto
  then have k: "node_read g (\<lambda>d. Leaf_KeyAt d 0) (t\<lparr>bpm := b1\<rparr>) = (Inr ?k, t\<lparr>bpm := b1\<rparr>)"
    by (intro read_at [OF b1(2) h1(2), of dr']) (use qr(5) in auto)
  obtain d' where d': "Internal_SetKeyAt ?i ?k d = Some d'"
    "inner_node p gp ((child_ids l0 @ [(k1, q)]) @ (?k, r) # child_ids r0) d'"
    using inner_set_key [OF d(2), of ?k] by (auto simp: add.commute)
  obtain b2 where b2: "node_op fp (unit_op (Internal_SetKeyAt ?i ?k)) (t\<lparr>bpm := b1\<rparr>)
      = (Inr (), t\<lparr>bpm := b2\<rparr>)" "pool_st b2 (S(r \<mapsto> dr', q \<mapsto> dq', p \<mapsto> d')) P" "keeps b1 b2"
    by (rule op_at [OF b1(2) h1(1), of d "unit_op (Internal_SetKeyAt ?i ?k)" "()" d' t])
      (use d(1) d'(1) qr(5) inner_nodeD(1) [OF d'(2)] in auto)
  have "regrouped S (S(r \<mapsto> dr', q \<mapsto> dq', p \<mapsto> d')) p gp l0 old new r0 nxt"
    using m(2,3) d'(2) qr(5) by (auto simp: regrouped_def family_def old new)
  then show ?thesis using b1(1) k b2 keeps_trans [OF b1(3) b2(3)]
    by (intro exI [of _ b2] exI [of _ "S(r \<mapsto> dr', q \<mapsto> dq', p \<mapsto> d')"]) (simp add: redistribute_leaf_def)
qed

lemma redistribute_inner_left:
  assumes old: "old = [(k1, Node q (xs @ [(k, v)])), (k2, Node r ((k0, u) # ys))]"
    and new: "new = [(k1, Node q xs), (k, Node r ((k0, v) # (k2, u) # ys))]"
    and st: "pool_st b S P" and fam: "family S p gp l0 old r0 nxt"
    and h: "held b p fp" "held b q g" "held b r f" and len: "length ys < 337" and room: "npin P < frames b"
  shows "\<exists>b' S'. redistribute_inner f g fp (int (Suc (length l0))) True (t\<lparr>bpm := b\<rparr>) = (Inr (), t\<lparr>bpm := b'\<rparr>) \<and>
     pool_st b' S' P \<and> keeps b b' \<and> regrouped S S' p gp l0 old new r0 nxt"
proof -
  let ?i = "int (Suc (length l0))"
  obtain d where d: "S p = Some d" "inner_node p gp ((child_ids l0 @ [(k1, q)]) @ (k2, r) # child_ids r0) d"
    using fam by (auto simp: family_def old)
  obtain dq dr where qr: "S q = Some dq" "inner_node q p (child_ids xs @ [(k, root_id v)]) dq" "S r = Some dr"
    "inner_node r p ((k0, root_id u) # child_ids ys) dr" "distinct [p, q, r]"
    using fam by (auto simp: family_def old)
  have sub: "sat S (forest_desc q (first_leaf v) xs)" "sat S (desc q (first_leaf u) v)"
    "sat S (desc r (next_leaf (next_leaf nxt r0) ys) u)" "sat S (forest_desc r (next_leaf nxt r0) ys)"
    "distinct (forest_ids xs @ ids v @ ids u @ forest_ids ys)"
    "{p, q, r} \<inter> set (forest_ids xs @ ids v @ ids u @ forest_ids ys) = {}"
    using fam by (auto simp: family_def old)
  obtain dv where dv: "S (root_id v) = Some dv" "node_ok (root_id v) (root_desc q (first_leaf u) v) dv"
    by (rule sat_root [OF sub(2)])
  have rv: "root_id v \<notin> {p, q, r}" "root_id v \<notin> set (forest_ids xs)" "root_id v \<notin> set (ids u)" "root_id v \<notin> set (forest_ids ys)"
    using sub(5,6) root_in_ids [of v] by (auto simp del: root_in_ids)
  have pk: "node_read fp (\<lambda>d. Internal_KeyAt d ?i) (t\<lparr>bpm := b\<rparr>) = (Inr k2, t\<lparr>bpm := b\<rparr>)"
    by (rule read_at [OF st h(1) d(1)]) (use inner_node_entry(2) [OF d(2), of "Suc (length l0)"] in \<open>simp add: nth_append\<close>)
  have nk: "node_read g (\<lambda>d. Internal_KeyAt d (GetSize d - 1)) (t\<lparr>bpm := b\<rparr>) = (Inr k, t\<lparr>bpm := b\<rparr>)"
    by (rule read_at [OF st h(2) qr(1)])
      (use inner_node_entry(2) [OF qr(2), of "length xs"] inner_nodeD(6) [OF qr(2)] in \<open>simp add: nth_append\<close>)
  obtain dq' dr' where m: "Internal_MoveLastToFrontOf k2 dq dr = Some (dq', dr')" "inner_node q p (child_ids xs) dq'"
    "inner_node r p ((k0, root_id v) # (k2, root_id u) # child_ids ys) dr'"
    using inner_move_last [OF qr(2,4), of k2] len by auto
  define S1 where "S1 = S(q \<mapsto> dq', r \<mapsto> dr')"
  obtain b1 where b1: "node_op2 g f (Internal_MoveLastToFrontOf k2) (t\<lparr>bpm := b\<rparr>) = (Inr (), t\<lparr>bpm := b1\<rparr>)"
    "pool_st b1 S1 P" "keeps b b1" unfolding S1_def
    by (rule op2_at [OF st h(2,3) _ qr(1,3), of "Internal_MoveLastToFrontOf k2" dq' dr' t])
      (use m(1) qr(5) inner_nodeD(1) [OF m(2)] inner_nodeD(1) [OF m(3)] in auto)
  obtain d' where d': "Internal_SetKeyAt ?i k d = Some d'"
    "inner_node p gp ((child_ids l0 @ [(k1, q)]) @ (k, r) # child_ids r0) d'"
    using inner_set_key [OF d(2), of k] by auto
  define S2 where "S2 = S1(p \<mapsto> d')"
  obtain b2 where b2: "node_op fp (unit_op (Internal_SetKeyAt ?i k)) (t\<lparr>bpm := b1\<rparr>) = (Inr (), t\<lparr>bpm := b2\<rparr>)"
    "pool_st b2 S2 P" "keeps b1 b2" unfolding S2_def
    by (rule op_at [OF b1(2) keeps_held [OF b1(3) h(1)], of d "unit_op (Internal_SetKeyAt ?i k)" "()" d' t])
      (use d(1) d'(1) qr(5) inner_nodeD(1) [OF d'(2)] in \<open>auto simp: S1_def\<close>)
  note k2 = keeps_trans [OF b1(3) b2(3)]
  note f2 = keeps_held [OF k2 h(3)]
  have S2: "S2 r = Some dr'" "S2 (root_id v) = Some dv" using qr(5) rv(1) dv(1) by (auto simp: S2_def S1_def)
  have mc: "node_read f (\<lambda>d. Internal_ValueAt d 0) (t\<lparr>bpm := b2\<rparr>) = (Inr (root_id v), t\<lparr>bpm := b2\<rparr>)"
    by (rule read_at [OF b2(2) f2 S2(1)]) (use inner_node_entry(3) [OF m(3), of 0] in simp)
  have room2: "npin P < frames b2" using room keeps_frames [OF k2] by simp
  obtain b3 where b3: "reparent_child (root_id v) f (t\<lparr>bpm := b2\<rparr>) = (Inr (), t\<lparr>bpm := b3\<rparr>)"
    "pool_st b3 (S2(root_id v \<mapsto> SetParentPageId r dv)) P" "keeps b2 b3"
    by (rule reparent_child_ok [OF b2(2) f2 S2(1) inner_nodeD(4) [OF m(3)] S2(2) node_ok_header(3) [OF dv(2)] room2, of t])
  let ?S = "S2(root_id v \<mapsto> SetParentPageId r dv)"
  have "sat S2 (desc q (first_leaf u) v)" using sub(2,6) by (simp add: S2_def S1_def)
  from sat_set_parent [OF this _ S2(2), of r] have "sat ?S (desc r (first_leaf u) v)" using sub(5) by simp
  then have "regrouped S ?S p gp l0 old new r0 nxt"
    using m(2,3) d'(2) qr(5) sub rv by (auto simp: regrouped_def family_def old new S2_def S1_def)
  then show ?thesis using pk nk b1(1) b2(1) mc b3(1,2) keeps_trans [OF k2 b3(3)]
    by (intro exI [of _ b3] exI [of _ ?S]) (simp add: redistribute_inner_def)
qed

lemma redistribute_inner_right:
  assumes old: "old = [(k1, Node q xs), (k2, Node r ((k0, v) # (k, u) # ys))]"
    and new: "new = [(k1, Node q (xs @ [(k2, v)])), (k, Node r ((k, u) # ys))]"
    and st: "pool_st b S P" and fam: "family S p gp l0 old r0 nxt"
    and h: "held b p fp" "held b q f" "held b r g" and len: "length xs < 338" and room: "npin P < frames b"
  shows "\<exists>b' S'. redistribute_inner f g fp (int (length l0)) False (t\<lparr>bpm := b\<rparr>) = (Inr (), t\<lparr>bpm := b'\<rparr>) \<and>
     pool_st b' S' P \<and> keeps b b' \<and> regrouped S S' p gp l0 old new r0 nxt"
proof -
  let ?i = "int (length l0) + 1"
  obtain d where d: "S p = Some d" "inner_node p gp ((child_ids l0 @ [(k1, q)]) @ (k2, r) # child_ids r0) d"
    using fam by (auto simp: family_def old)
  obtain dq dr where qr: "S q = Some dq" "inner_node q p (child_ids xs) dq" "S r = Some dr"
    "inner_node r p ((k0, root_id v) # (k, root_id u) # child_ids ys) dr" "distinct [p, q, r]"
    using fam by (auto simp: family_def old)
  have sub: "sat S (forest_desc q (first_leaf v) xs)" "sat S (desc r (first_leaf u) v)"
    "sat S (desc r (next_leaf (next_leaf nxt r0) ys) u)" "sat S (forest_desc r (next_leaf nxt r0) ys)"
    "distinct (forest_ids xs @ ids v @ ids u @ forest_ids ys)"
    "{p, q, r} \<inter> set (forest_ids xs @ ids v @ ids u @ forest_ids ys) = {}"
    using fam by (auto simp: family_def old)
  obtain dv where dv: "S (root_id v) = Some dv" "node_ok (root_id v) (root_desc r (first_leaf u) v) dv"
    by (rule sat_root [OF sub(2)])
  have rv: "root_id v \<notin> {p, q, r}" "root_id v \<notin> set (forest_ids xs)" "root_id v \<notin> set (ids u)" "root_id v \<notin> set (forest_ids ys)"
    using sub(5,6) root_in_ids [of v] by (auto simp del: root_in_ids)
  have pk: "node_read fp (\<lambda>d. Internal_KeyAt d ?i) (t\<lparr>bpm := b\<rparr>) = (Inr k2, t\<lparr>bpm := b\<rparr>)"
    by (rule read_at [OF st h(1) d(1)])
      (use inner_node_entry(2) [OF d(2), of "Suc (length l0)"] in \<open>simp add: nth_append add.commute\<close>)
  have nk: "node_read g (\<lambda>d. Internal_KeyAt d 1) (t\<lparr>bpm := b\<rparr>) = (Inr k, t\<lparr>bpm := b\<rparr>)"
    by (rule read_at [OF st h(3) qr(3)]) (use inner_node_entry(2) [OF qr(4), of 1] in simp)
  obtain dr' dq' where m: "Internal_MoveFirstToEndOf k2 dr dq = Some (dr', dq')"
    "inner_node r p ((k, root_id u) # child_ids ys) dr'" "inner_node q p (child_ids xs @ [(k2, root_id v)]) dq'"
    using inner_move_first [OF qr(4,2), of k2] len by auto
  define S1 where "S1 = S(r \<mapsto> dr', q \<mapsto> dq')"
  obtain b1 where b1: "node_op2 g f (Internal_MoveFirstToEndOf k2) (t\<lparr>bpm := b\<rparr>) = (Inr (), t\<lparr>bpm := b1\<rparr>)"
    "pool_st b1 S1 P" "keeps b b1" unfolding S1_def
    by (rule op2_at [OF st h(3,2) _ qr(3,1), of "Internal_MoveFirstToEndOf k2" dr' dq' t])
      (use m(1) qr(5) inner_nodeD(1) [OF m(2)] inner_nodeD(1) [OF m(3)] in auto)
  obtain d' where d': "Internal_SetKeyAt ?i k d = Some d'"
    "inner_node p gp ((child_ids l0 @ [(k1, q)]) @ (k, r) # child_ids r0) d'"
    using inner_set_key [OF d(2), of k] by (auto simp: add.commute)
  define S2 where "S2 = S1(p \<mapsto> d')"
  obtain b2 where b2: "node_op fp (unit_op (Internal_SetKeyAt ?i k)) (t\<lparr>bpm := b1\<rparr>) = (Inr (), t\<lparr>bpm := b2\<rparr>)"
    "pool_st b2 S2 P" "keeps b1 b2" unfolding S2_def
    by (rule op_at [OF b1(2) keeps_held [OF b1(3) h(1)], of d "unit_op (Internal_SetKeyAt ?i k)" "()" d' t])
      (use d(1) d'(1) qr(5) inner_nodeD(1) [OF d'(2)] in \<open>auto simp: S1_def\<close>)
  note k2 = keeps_trans [OF b1(3) b2(3)]
  note f2 = keeps_held [OF k2 h(2)]
  have S2: "S2 q = Some dq'" "S2 (root_id v) = Some dv" using qr(5) rv(1) dv(1) by (auto simp: S2_def S1_def)
  have mc: "node_read f (\<lambda>d. Internal_ValueAt d (GetSize d - 1)) (t\<lparr>bpm := b2\<rparr>) = (Inr (root_id v), t\<lparr>bpm := b2\<rparr>)"
    by (rule read_at [OF b2(2) f2 S2(1)])
      (use inner_node_entry(3) [OF m(3), of "length xs"] inner_nodeD(6) [OF m(3)] in \<open>simp add: nth_append\<close>)
  have room2: "npin P < frames b2" using room keeps_frames [OF k2] by simp
  obtain b3 where b3: "reparent_child (root_id v) f (t\<lparr>bpm := b2\<rparr>) = (Inr (), t\<lparr>bpm := b3\<rparr>)"
    "pool_st b3 (S2(root_id v \<mapsto> SetParentPageId q dv)) P" "keeps b2 b3"
    by (rule reparent_child_ok [OF b2(2) f2 S2(1) inner_nodeD(4) [OF m(3)] S2(2) node_ok_header(3) [OF dv(2)] room2, of t])
  let ?S = "S2(root_id v \<mapsto> SetParentPageId q dv)"
  have "sat S2 (desc r (first_leaf u) v)" using sub(2,6) by (simp add: S2_def S1_def)
  from sat_set_parent [OF this _ S2(2), of q] have "sat ?S (desc q (first_leaf u) v)" using sub(5) by simp
  then have "regrouped S ?S p gp l0 old new r0 nxt"
    using m(2,3) d'(2) qr(5) sub rv by (auto simp: regrouped_def family_def old new S2_def S1_def)
  then show ?thesis using pk nk b1(1) b2(1) mc b3(1,2) keeps_trans [OF k2 b3(3)]
    by (intro exI [of _ b3] exI [of _ ?S]) (simp add: redistribute_inner_def)
qed

subsection \<open>The trees after a redistribution\<close>

lemma sorted_keys_Nil: "sorted_keys []"
  by (simp add: sorted_keys_def)

lemma first_leaf_app: "xs \<noteq> [] \<Longrightarrow> first_leaf (Node p (xs @ ys)) = first_leaf (Node p xs)"
  by (cases xs) auto

lemma balancesI:
  assumes "\<And>lo hi. forest_ok h lo hi old \<Longrightarrow> forest_ok h lo hi new" "new \<noteq> []" "fst (hd new) = fst (hd old)"
    "forest_entries new = forest_entries old" "set (forest_ids new) \<subseteq> set (forest_ids old)"
    "\<And>x. next_leaf x new = next_leaf x old" "forest_sized new"
  shows "balances h old new"
  using assms by (simp add: balances_def)

lemma balances_leaf_left:
  assumes "125 = length ys" "127 \<le> length (xs @ [e])" "length (xs @ [e]) \<le> 253"
  shows "balances 0 [(k1, Leaf q (xs @ [e])), (k2, Leaf r ys)] [(k1, Leaf q xs), (fst e, Leaf r (e # ys))]"
proof -
  have "forest_ok 0 lo hi [(k1, Leaf q xs), (fst e, Leaf r (e # ys))]"
    if ok: "forest_ok 0 lo hi [(k1, Leaf q (xs @ [e])), (k2, Leaf r ys)]" for lo hi
  proof -
    have s: "sorted_keys xs" "\<forall>a \<in> set xs. sint (fst a) < sint (fst e)" "sorted_keys (e # ys)"
      using forest_sorted [OF ok] by (auto simp: sorted_keys_append sorted_keys_Cons sorted_keys_Nil)
    have b: "\<forall>a \<in> set (xs @ e # ys). lo \<le> sint (fst a) \<and> sint (fst a) < hi"
      using ok by fastforce
    have "bt_ok 0 lo (sint (fst e)) (Leaf q xs)" using s b by simp
    moreover have "bt_ok 0 (sint (fst e)) hi (Leaf r (e # ys))" using s b by (auto simp: sorted_keys_Cons)
    ultimately show ?thesis by auto
  qed
  then show ?thesis using assms by (auto simp: balances_def)
qed

lemma balances_leaf_right:
  assumes "length xs = 125" "127 \<le> length (e # ys)" "length (e # ys) \<le> 253"
  shows "balances 0 [(k1, Leaf q xs), (k2, Leaf r (e # ys))] [(k1, Leaf q (xs @ [e])), (fst (hd ys), Leaf r ys)]"
proof -
  obtain a zs where ys: "ys = a # zs" using assms(2) by (cases ys) auto
  have "forest_ok 0 lo hi [(k1, Leaf q (xs @ [e])), (fst (hd ys), Leaf r ys)]"
    if ok: "forest_ok 0 lo hi [(k1, Leaf q xs), (k2, Leaf r (e # ys))]" for lo hi
  proof -
    have s: "sorted_keys (xs @ [e])" "\<forall>b \<in> set (xs @ [e]). sint (fst b) < sint (fst a)" "sorted_keys ys"
      using forest_sorted [OF ok] ys by (auto simp: sorted_keys_append sorted_keys_Cons sorted_keys_Nil)
    have b: "\<forall>a \<in> set (xs @ e # ys). lo \<le> sint (fst a) \<and> sint (fst a) < hi"
      using ok by fastforce
    have "bt_ok 0 lo (sint (fst a)) (Leaf q (xs @ [e]))" using s b ys by auto
    moreover have "bt_ok 0 (sint (fst a)) hi (Leaf r ys)" using s b ys by (auto simp: sorted_keys_Cons)
    ultimately show ?thesis using ys by auto
  qed
  then show ?thesis using assms by (auto simp: balances_def)
qed

lemma balances_inner_left:
  assumes "length ys = 167" "170 \<le> length (xs @ [(k, v)])" "length (xs @ [(k, v)]) \<le> 338"
    "forest_sized (xs @ [(k, v)])" "forest_sized ((k0, u) # ys)"
  shows "balances h [(k1, Node q (xs @ [(k, v)])), (k2, Node r ((k0, u) # ys))] [(k1, Node q xs), (k, Node r ((k0, v) # (k2, u) # ys))]"
proof -
  have ne: "xs \<noteq> []" using assms(2) by auto
  then have ok: "forest_ok h lo hi [(k1, Node q xs), (k, Node r ((k0, v) # (k2, u) # ys))]"
    if "forest_ok h lo hi [(k1, Node q (xs @ [(k, v)])), (k2, Node r ((k0, u) # ys))]" for lo hi
    using that by (auto simp: forest_ok_append)
  show ?thesis by (rule balancesI [OF ok]) (use assms ne in \<open>auto simp: first_leaf_app\<close>)
qed

lemma balances_inner_right:
  assumes "length xs = 168" "170 \<le> length ((k0, v) # (k, u) # ys)" "length ((k0, v) # (k, u) # ys) \<le> 338"
    "forest_sized xs" "forest_sized ((k0, v) # (k, u) # ys)"
  shows "balances h [(k1, Node q xs), (k2, Node r ((k0, v) # (k, u) # ys))] [(k1, Node q (xs @ [(k2, v)])), (k, Node r ((k, u) # ys))]"
proof -
  have ne: "xs \<noteq> []" using assms(1) by auto
  then have ok: "forest_ok h lo hi [(k1, Node q (xs @ [(k2, v)])), (k, Node r ((k, u) # ys))]"
    if "forest_ok h lo hi [(k1, Node q xs), (k2, Node r ((k0, v) # (k, u) # ys))]" for lo hi
    using that by (auto simp: forest_ok_append)
  show ?thesis by (rule balancesI [OF ok]) (use assms ne in \<open>auto simp: first_leaf_app\<close>)
qed

subsection \<open>Both kinds of nodes\<close>

lemma family_child:
  assumes "pool_st b S P" "held b (root_id u) f" "sat S (desc par nxt u)"
  shows "\<exists>d. S (root_id u) = Some d \<and> node_ok (root_id u) (root_desc par nxt u) d \<and> node_data f (t\<lparr>bpm := b\<rparr>) = d"
  using data_at [OF assms(1,2)] by (metis sat_root [OF assms(3)])

lemma node_shape:
  assumes "node_ok p (root_desc par nxt u) d"
  shows "IsLeafPage d \<longleftrightarrow> (\<exists>q es. u = Leaf q es)" "GetSize d = int (width u)" "half (GetMaxSize d) = int (least u)"
  using assms by (cases u; auto simp: leaf_node_def inner_node_def half_def)+

lemma adjacent_kinds:
  assumes "forest_ok h lo hi [(k1, t1), (k2, t2)]"
  obtains q xs r ys where "h = 0" "t1 = Leaf q xs" "t2 = Leaf r ys"
    | h' q xs r ys where "h = Suc h'" "t1 = Node q xs" "t2 = Node r ys"
  using assms by (cases t1; cases t2; auto)

lemma redistribute_left:
  assumes old: "old = [(k1, t1), (k2, t2)]" and st: "pool_st b S P" and fam: "family S p gp l0 old r0 nxt"
    and ok: "forest_ok h lo hi old" and held: "held b p fp" "held b (root_id t1) g" "held b (root_id t2) f"
    and size: "thin t2" "sized False t1" "least t1 < width t1" and room: "npin P < frames b"
  shows "\<exists>b' S' new. Redistribute f g fp (int (Suc (length l0))) True (t\<lparr>bpm := b\<rparr>) = (Inr True, t\<lparr>bpm := b'\<rparr>) \<and>
     pool_st b' S' P \<and> keeps b b' \<and> regrouped S S' p gp l0 old new r0 nxt \<and> balances h old new \<and> length new = 2"
proof -
  have "sat S (desc p (next_leaf nxt r0) t2)" using fam by (simp add: family_def old)
  from family_child [OF st held(3) this, of t] obtain d where
    d: "node_ok (root_id t2) (root_desc p (next_leaf nxt r0) t2) d" "node_data f (t\<lparr>bpm := b\<rparr>) = d" by blast
  note kind = node_shape(1) [OF d(1)]
  show ?thesis
  proof (rule adjacent_kinds [OF ok [unfolded old]])
    fix q xs0 r ys assume t: "h = 0" "t1 = Leaf q xs0" "t2 = Leaf r ys"
    have "xs0 \<noteq> []" using size t by auto
    then obtain xs e where xs: "xs0 = xs @ [e]" by (cases xs0 rule: rev_cases) auto
    have "balances h old [(k1, Leaf q xs), (fst e, Leaf r (e # ys))]"
      unfolding old t xs by (rule balances_leaf_left) (use size t xs in auto)
    moreover have "IsLeafPage (node_data f (t\<lparr>bpm := b\<rparr>))" using kind d(2) t by simp
    moreover from held(2,3) size t obtain b' S' where
      "redistribute_leaf f g fp (int (Suc (length l0))) True (t\<lparr>bpm := b\<rparr>) = (Inr (), t\<lparr>bpm := b'\<rparr>)"
      "pool_st b' S' P" "keeps b b'" "regrouped S S' p gp l0 old [(k1, Leaf q xs), (fst e, Leaf r (e # ys))] r0 nxt"
      using redistribute_leaf_left [OF old [unfolded t xs] refl st fam ok [unfolded t(1)] held(1), of g f t] by auto
    ultimately show ?thesis
      by (intro exI [of _ b'] exI [of _ S'] exI [of _ "[(k1, Leaf q xs), (fst e, Leaf r (e # ys))]"])
        (simp add: Redistribute_def)
  next
    fix h' q xs0 r ys0 assume t: "h = Suc h'" "t1 = Node q xs0" "t2 = Node r ys0"
    have "xs0 \<noteq> []" "ys0 \<noteq> []" using size t by auto
    then obtain xs k v k0 u ys where xs: "xs0 = xs @ [(k, v)]" "ys0 = (k0, u) # ys"
      by (cases xs0 rule: rev_cases; cases ys0) auto
    have "balances h old [(k1, Node q xs), (k, Node r ((k0, v) # (k2, u) # ys))]"
      unfolding old t xs by (rule balances_inner_left) (use size t xs in auto)
    moreover have "\<not> IsLeafPage (node_data f (t\<lparr>bpm := b\<rparr>))" using kind d(2) t by simp
    moreover from held(2,3) size t xs room obtain b' S' where
      "redistribute_inner f g fp (int (Suc (length l0))) True (t\<lparr>bpm := b\<rparr>) = (Inr (), t\<lparr>bpm := b'\<rparr>)"
      "pool_st b' S' P" "keeps b b'"
      "regrouped S S' p gp l0 old [(k1, Node q xs), (k, Node r ((k0, v) # (k2, u) # ys))] r0 nxt"
      using redistribute_inner_left [OF old [unfolded t xs] refl st fam held(1), of g f t] by auto
    ultimately show ?thesis
      by (intro exI [of _ b'] exI [of _ S'] exI [of _ "[(k1, Node q xs), (k, Node r ((k0, v) # (k2, u) # ys))]"])
        (simp add: Redistribute_def)
  qed
qed

lemma redistribute_right:
  assumes old: "old = [(k1, t1), (k2, t2)]" and st: "pool_st b S P" and fam: "family S p gp l0 old r0 nxt"
    and ok: "forest_ok h lo hi old" and held: "held b p fp" "held b (root_id t1) f" "held b (root_id t2) g"
    and size: "thin t1" "sized False t2" "least t2 < width t2" and room: "npin P < frames b"
  shows "\<exists>b' S' new. Redistribute f g fp (int (length l0)) False (t\<lparr>bpm := b\<rparr>) = (Inr True, t\<lparr>bpm := b'\<rparr>) \<and>
     pool_st b' S' P \<and> keeps b b' \<and> regrouped S S' p gp l0 old new r0 nxt \<and> balances h old new \<and> length new = 2"
proof -
  have "sat S (desc p (first_leaf t2) t1)" using fam by (simp add: family_def old)
  from family_child [OF st held(2) this, of t] obtain d where
    d: "node_ok (root_id t1) (root_desc p (first_leaf t2) t1) d" "node_data f (t\<lparr>bpm := b\<rparr>) = d" by blast
  note kind = node_shape(1) [OF d(1)]
  show ?thesis
  proof (rule adjacent_kinds [OF ok [unfolded old]])
    fix q xs r ys0 assume t: "h = 0" "t1 = Leaf q xs" "t2 = Leaf r ys0"
    then obtain e ys where ys: "ys0 = e # ys" "ys \<noteq> []" using size
      by (cases ys0; cases "tl ys0") auto
    have "balances h old [(k1, Leaf q (xs @ [e])), (fst (hd ys), Leaf r ys)]"
      unfolding old t ys by (rule balances_leaf_right) (use size t ys in auto)
    moreover have "IsLeafPage (node_data f (t\<lparr>bpm := b\<rparr>))" using kind d(2) t by simp
    moreover from held(2,3) size t ys obtain b' S' where
      "redistribute_leaf f g fp (int (length l0)) False (t\<lparr>bpm := b\<rparr>) = (Inr (), t\<lparr>bpm := b'\<rparr>)"
      "pool_st b' S' P" "keeps b b'" "regrouped S S' p gp l0 old [(k1, Leaf q (xs @ [e])), (fst (hd ys), Leaf r ys)] r0 nxt"
      using redistribute_leaf_right [OF old [unfolded t ys] refl st fam ok [unfolded t(1)] held(1), of f g t] by auto
    ultimately show ?thesis
      by (intro exI [of _ b'] exI [of _ S'] exI [of _ "[(k1, Leaf q (xs @ [e])), (fst (hd ys), Leaf r ys)]"])
        (simp add: Redistribute_def)
  next
    fix h' q xs r ys0 assume t: "h = Suc h'" "t1 = Node q xs" "t2 = Node r ys0"
    then obtain k0 v k u ys where ys: "ys0 = (k0, v) # (k, u) # ys" using size
      by (cases ys0; cases "tl ys0") auto
    have "balances h old [(k1, Node q (xs @ [(k2, v)])), (k, Node r ((k, u) # ys))]"
      unfolding old t ys by (rule balances_inner_right) (use size t ys in auto)
    moreover have "\<not> IsLeafPage (node_data f (t\<lparr>bpm := b\<rparr>))" using kind d(2) t by simp
    moreover from held(2,3) size t ys room obtain b' S' where
      "redistribute_inner f g fp (int (length l0)) False (t\<lparr>bpm := b\<rparr>) = (Inr (), t\<lparr>bpm := b'\<rparr>)"
      "pool_st b' S' P" "keeps b b'"
      "regrouped S S' p gp l0 old [(k1, Node q (xs @ [(k2, v)])), (k, Node r ((k, u) # ys))] r0 nxt"
      using redistribute_inner_right [OF old [unfolded t ys] refl st fam held(1), of f g t] by auto
    ultimately show ?thesis
      by (intro exI [of _ b'] exI [of _ S'] exI [of _ "[(k1, Node q (xs @ [(k2, v)])), (k, Node r ((k, u) # ys))]"])
        (simp add: Redistribute_def)
  qed
qed

subsection \<open>Borrowing, if the sibling can spare an entry\<close>

definition borrowed ::
  "bool \<Rightarrow> bool \<Rightarrow> (page_id \<Rightarrow> int) \<Rightarrow> page_id \<Rightarrow> buffer_pool \<Rightarrow> (page_id \<rightharpoonup> byte list) \<Rightarrow> buffer_pool \<Rightarrow> (page_id \<rightharpoonup> byte list) \<Rightarrow>
   bool \<Rightarrow> bool" where
  "borrowed r spare P p b S b' S' X \<longleftrightarrow> r = spare \<and> frames b' = frames b \<and>
     (if r then pool_st b' S' (P(p := P p - 1)) \<and> (\<forall>q y. held b q y \<and> (q \<noteq> p \<or> 1 < P p) \<longrightarrow> held b' q y) \<and> X
      else pool_st b' S P \<and> keeps b b')"

lemma try_redistribute_ok:
  assumes st: "pool_st b S P" and fp: "held b p fp" and p: "S p = Some d" "Internal_ValueAt d sib_idx = Some s"
    and s: "S s = Some ds" "GetSize ds = int w" "half (GetMaxSize ds) = int l" "P s = 0" and room: "npin P < frames b"
    and redis: "\<And>b1 g. pool_st b1 S (P(s := 1)) \<Longrightarrow> keeps b b1 \<Longrightarrow> held b1 s g \<Longrightarrow> l < w \<Longrightarrow>
      \<exists>b' S' new. Redistribute f g fp child_idx fl (t\<lparr>bpm := b1\<rparr>) = (Inr True, t\<lparr>bpm := b'\<rparr>) \<and>
        pool_st b' S' (P(s := 1)) \<and> keeps b1 b' \<and> X S' new"
  shows "\<exists>b' S' new r. try_redistribute f fp p child_idx sib_idx fl (t\<lparr>bpm := b\<rparr>) = (Inr r, t\<lparr>bpm := b'\<rparr>) \<and>
     borrowed r (l < w) P p b S b' S' (X S' new)"
proof -
  have dom: "s \<in> dom S" using s(1) by blast
  have P1: "P(s := P s + 1) = P(s := 1)" using s(4) by simp
  obtain g b1 where b1: "FetchPage s b = (Inr (Some g), b1)" "pool_st b1 S (P(s := 1))" "held b1 s g" "keeps b b1" "synced b1 s"
    using pp.fetch_ok [OF st dom room] pp.clean_idle [OF st s(4)] unfolding P1 keeps_def by metis
  have val: "node_read fp (\<lambda>d. Internal_ValueAt d sib_idx) (t\<lparr>bpm := b\<rparr>) = (Inr s, t\<lparr>bpm := b\<rparr>)"
    by (rule read_at [OF st fp p(1)]) (rule p(2))
  have data: "node_data g (t\<lparr>bpm := b1\<rparr>) = ds" by (rule data_at [OF b1(2,3) s(1)])
  show ?thesis
  proof (cases "l < w")
    case True
    obtain b2 S' new where b2: "Redistribute f g fp child_idx fl (t\<lparr>bpm := b1\<rparr>) = (Inr True, t\<lparr>bpm := b2\<rparr>)"
      "pool_st b2 S' (P(s := 1))" "keeps b1 b2" "X S' new" using redis [OF b1(2,4,3) True] by blast
    note k2 = keeps_trans [OF b1(4) b2(3)]
    have hs: "held b2 s g" by (rule keeps_held [OF b2(3) b1(3)])
    obtain b3 where b3: "UnpinPage s True b2 = (Inr True, b3)" "pool_st b3 S' P" "frames b3 = frames b2"
      "\<forall>q y. held b2 q y \<and> q \<noteq> s \<longrightarrow> held b3 q y"
      using pp.unpin_ok [OF b2(2) hs, of True] s(4) by (auto simp: fun_upd_idem)
    have ps: "p \<noteq> s" using pp.hold_pins [OF st fp] s(4) by auto
    have hp: "held b3 p fp" using b3(4) keeps_held [OF k2 fp] ps by blast
    obtain b4 where b4: "UnpinPage p True b3 = (Inr True, b4)" "pool_st b4 S' (P(p := P p - 1))" "frames b4 = frames b3"
      "\<forall>q y. held b3 q y \<and> (q \<noteq> p \<or> 1 < P p) \<longrightarrow> held b4 q y"
      using pp.unpin_ok [OF b3(2) hp, of True] by auto
    have "held b4 q y" if "held b q y" "q \<noteq> p \<or> 1 < P p" for q y
      using b4(4) b3(4) keeps_held [OF k2 that(1)] that pp.hold_pins [OF st that(1)] s(4) by fastforce
    moreover have "try_redistribute f fp p child_idx sib_idx fl (t\<lparr>bpm := b\<rparr>) = (Inr True, t\<lparr>bpm := b4\<rparr>)"
      using val b1(1) data s(2,3) True b2(1) b3(1) b4(1) by (simp add: try_redistribute_def)
    moreover have "frames b4 = frames b" using b4(3) b3(3) keeps_frames [OF k2] by simp
    ultimately show ?thesis using True b4(2) b2(4)
      by (intro exI [of _ b4] exI [of _ S'] exI [of _ new] exI [of _ True]) (simp add: borrowed_def)
  next
    case False
    obtain b2 where b2: "UnpinPage s False b1 = (Inr True, b2)" "pool_st b2 S P" "frames b2 = frames b1"
      "\<forall>q y. held b1 q y \<and> q \<noteq> s \<longrightarrow> held b2 q y"
      using pp.unpin_ok [OF b1(2,3), of False] b1(5) s(4) by (auto simp: fun_upd_idem)
    have "held b2 q y" if "held b q y" for q y
      using b2(4) keeps_held [OF b1(4) that] pp.hold_pins [OF st that] s(4) by fastforce
    then have "keeps b b2" using b2(3) keeps_frames [OF b1(4)] by (simp add: keeps_def)
    moreover have "try_redistribute f fp p child_idx sib_idx fl (t\<lparr>bpm := b\<rparr>) = (Inr False, t\<lparr>bpm := b2\<rparr>)"
      using val b1(1) data s(2,3) False b2(1) by (simp add: try_redistribute_def)
    ultimately show ?thesis using False b2(2) keeps_frames
      by (intro exI [of _ b2] exI [of _ S] exI [of _ undefined] exI [of _ False]) (simp add: borrowed_def)
  qed
qed

lemma borrow_left:
  assumes old: "old = [(k1, t1), (k2, t2)]" and st: "pool_st b S P" and fam: "family S p gp l0 old r0 nxt"
    and ok: "forest_ok h lo hi old" and held: "held b p fp" "held b (root_id t2) f"
    and size: "thin t2" "sized False t1" and room: "npin P + 2 \<le> frames b" and idle: "P (root_id t1) = 0"
  shows "\<exists>b' S' new r. try_redistribute f fp p (int (Suc (length l0))) (int (length l0)) True (t\<lparr>bpm := b\<rparr>) = (Inr r, t\<lparr>bpm := b'\<rparr>) \<and>
     borrowed r (least t1 < width t1) P p b S b' S' (regrouped S S' p gp l0 old new r0 nxt \<and> balances h old new \<and> length new = 2)"
proof -
  obtain d where d: "S p = Some d" "inner_node p gp (child_ids l0 @ (k1, root_id t1) # (k2, root_id t2) # child_ids r0) d"
    using fam by (auto simp: family_def old)
  have "sat S (desc p (first_leaf t2) t1)" using fam by (simp add: family_def old)
  then obtain d1 where d1: "S (root_id t1) = Some d1" "node_ok (root_id t1) (root_desc p (first_leaf t2) t1) d1"
    by (rule sat_root)
  have val: "Internal_ValueAt d (int (length l0)) = Some (root_id t1)"
    using inner_node_entry(3) [OF d(2), of "length l0"] by (simp add: nth_append)
  have room': "npin P < frames b" using room by simp
  show ?thesis
  proof (rule try_redistribute_ok [OF st held(1) d(1) val d1(1) node_shape(2,3) [OF d1(2)] idle room'])
    fix b1 g assume a: "pool_st b1 S (P(root_id t1 := 1))" "keeps b b1" "held b1 (root_id t1) g" "least t1 < width t1"
    have "npin (P(root_id t1 := 1)) < frames b1" using npin_upd_le [of P "root_id t1" 1] room keeps_frames [OF a(2)] by simp
    from redistribute_left [OF old a(1) fam ok keeps_held [OF a(2) held(1)] a(3) keeps_held [OF a(2) held(2)] size a(4) this, of t]
    show "\<exists>b' S' new. Redistribute f g fp (int (Suc (length l0))) True (t\<lparr>bpm := b1\<rparr>) = (Inr True, t\<lparr>bpm := b'\<rparr>) \<and>
        pool_st b' S' (P(root_id t1 := 1)) \<and> keeps b1 b' \<and> regrouped S S' p gp l0 old new r0 nxt \<and> balances h old new \<and> length new = 2" .
  qed
qed

lemma borrow_right:
  assumes old: "old = [(k1, t1), (k2, t2)]" and st: "pool_st b S P" and fam: "family S p gp l0 old r0 nxt"
    and ok: "forest_ok h lo hi old" and held: "held b p fp" "held b (root_id t1) f"
    and size: "thin t1" "sized False t2" and room: "npin P + 2 \<le> frames b" and idle: "P (root_id t2) = 0"
  shows "\<exists>b' S' new r. try_redistribute f fp p (int (length l0)) (int (length l0) + 1) False (t\<lparr>bpm := b\<rparr>) = (Inr r, t\<lparr>bpm := b'\<rparr>) \<and>
     borrowed r (least t2 < width t2) P p b S b' S' (regrouped S S' p gp l0 old new r0 nxt \<and> balances h old new \<and> length new = 2)"
proof -
  obtain d where d: "S p = Some d" "inner_node p gp (child_ids l0 @ (k1, root_id t1) # (k2, root_id t2) # child_ids r0) d"
    using fam by (auto simp: family_def old)
  have "sat S (desc p (next_leaf nxt r0) t2)" using fam by (simp add: family_def old)
  then obtain d2 where d2: "S (root_id t2) = Some d2" "node_ok (root_id t2) (root_desc p (next_leaf nxt r0) t2) d2"
    by (rule sat_root)
  have val: "Internal_ValueAt d (int (length l0) + 1) = Some (root_id t2)"
    using inner_node_entry(3) [OF d(2), of "Suc (length l0)"] by (simp add: nth_append add.commute)
  have room': "npin P < frames b" using room by simp
  show ?thesis
  proof (rule try_redistribute_ok [OF st held(1) d(1) val d2(1) node_shape(2,3) [OF d2(2)] idle room'])
    fix b1 g assume a: "pool_st b1 S (P(root_id t2 := 1))" "keeps b b1" "held b1 (root_id t2) g" "least t2 < width t2"
    have "npin (P(root_id t2 := 1)) < frames b1" using npin_upd_le [of P "root_id t2" 1] room keeps_frames [OF a(2)] by simp
    from redistribute_right [OF old a(1) fam ok keeps_held [OF a(2) held(1)] keeps_held [OF a(2) held(2)] a(3) size a(4) this, of t]
    show "\<exists>b' S' new. Redistribute f g fp (int (length l0)) False (t\<lparr>bpm := b1\<rparr>) = (Inr True, t\<lparr>bpm := b'\<rparr>) \<and>
        pool_st b' S' (P(root_id t2 := 1)) \<and> keeps b1 b' \<and> regrouped S S' p gp l0 old new r0 nxt \<and> balances h old new \<and> length new = 2" .
  qed
qed

section \<open>Merging\<close>

fun merged :: "64 word \<Rightarrow> bt \<Rightarrow> bt \<Rightarrow> bt" where
  "merged k (Leaf q xs) (Leaf r ys) = Leaf q (xs @ ys)"
| "merged k (Node q xs) (Node r ((k0, v) # ys)) = Node q (xs @ (k, v) # ys)"
| "merged k t u = t"

fun kids :: "bt \<Rightarrow> (64 word \<times> bt) list" where
  "kids (Leaf p es) = []"
| "kids (Node p cs) = cs"

lemma balances_merged:
  assumes ok: "forest_ok h a b [(k1, t1), (k2, t2)]" and size: "width t1 + width t2 + 1 = 2 * least t1" "width t1 \<noteq> 0" "width t2 \<noteq> 0"
    "forest_sized (kids t1)" "forest_sized (kids t2)"
  shows "balances h [(k1, t1), (k2, t2)] [(k1, merged k2 t1 t2)]"
proof (rule adjacent_kinds [OF ok])
  fix q xs r ys assume t: "h = 0" "t1 = Leaf q xs" "t2 = Leaf r ys"
  have "forest_ok 0 lo hi [(k1, merged k2 t1 t2)]" if fo: "forest_ok 0 lo hi [(k1, t1), (k2, t2)]" for lo hi
    using forest_sorted [OF fo] fo by (fastforce simp: t)
  then show ?thesis unfolding t(1) by (rule balancesI) (use size t in auto)
next
  fix h' q xs r ys0 assume t: "h = Suc h'" "t1 = Node q xs" "t2 = Node r ys0"
  obtain k0 v ys where ys: "ys0 = (k0, v) # ys" using size(3) t(3) by (cases ys0) auto
  have ne: "xs \<noteq> []" using size(2) t(2) by auto
  have "forest_ok h lo hi [(k1, merged k2 t1 t2)]" if "forest_ok h lo hi [(k1, t1), (k2, t2)]" for lo hi
    using that ne unfolding t ys by (auto simp: forest_ok_append)
  then show ?thesis by (rule balancesI) (use size t ys ne in \<open>auto simp: first_leaf_app\<close>)
qed

lemma inner_unlink:
  assumes st: "pool_st b S P" and fp: "held b p fp" and d: "S p = Some d" "inner_node p gp (child_ids (l0 @ (k1, t1) # (k2, t2) # r0)) d"
    and root: "root_id t' = root_id t1"
  obtains b' d' where "node_op fp (unit_op (Internal_Remove (int (Suc (length l0))))) (t\<lparr>bpm := b\<rparr>) = (Inr (), t\<lparr>bpm := b'\<rparr>)"
    "inner_node p gp (child_ids (l0 @ (k1, t') # r0)) d'" "pool_st b' (S(p \<mapsto> d')) P" "keeps b b'"
proof -
  have n: "inner_node p gp ((child_ids l0 @ [(k1, root_id t1)]) @ (k2, root_id t2) # child_ids r0) d" using d(2) by simp
  obtain d' where d': "Internal_Remove (int (Suc (length l0))) d = Some d'"
    "inner_node p gp ((child_ids l0 @ [(k1, root_id t1)]) @ child_ids r0) d'"
    using inner_remove [OF n] by auto
  obtain b' where "node_op fp (unit_op (Internal_Remove (int (Suc (length l0))))) (t\<lparr>bpm := b\<rparr>) = (Inr (), t\<lparr>bpm := b'\<rparr>)"
    "pool_st b' (S(p \<mapsto> d')) P" "keeps b b'"
    by (rule op_at [OF st fp d(1), of "unit_op (Internal_Remove (int (Suc (length l0))))" "()" d' t])
      (use d'(1) inner_nodeD(1) [OF d'(2)] in auto)
  then show thesis using that d'(2) root by simp
qed

lemma merge_leaf:
  assumes old: "old = [(k1, Leaf q xs), (k2, Leaf r ys)]" and new: "new = [(k1, Leaf q (xs @ ys))]"
    and st: "pool_st b S P" and fam: "family S p gp l0 old r0 nxt"
    and h: "held b p fp" "held b q f" "held b r g" and len: "length xs + length ys \<le> 254"
  shows "\<exists>b' S' d. Merge f g fp (int (Suc (length l0))) (t\<lparr>bpm := b\<rparr>) = Some (Inr (), t\<lparr>bpm := b'\<rparr>) \<and>
     pool_st b' S' P \<and> keeps b b' \<and> regrouped S S' p gp l0 old new r0 nxt \<and> S' r = Some d \<and> Node_GetPageId d = r"
proof -
  obtain d where d: "S p = Some d" "inner_node p gp (child_ids (l0 @ (k1, Leaf q xs) # (k2, Leaf r ys) # r0)) d"
    using fam by (auto simp: family_def old)
  obtain dq dr where qr: "S q = Some dq" "leaf_node q p r xs dq" "S r = Some dr"
    "leaf_node r p (next_leaf nxt r0) ys dr" "distinct [p, q, r]"
    using fam by (auto simp: family_def old)
  obtain dr' dq' where m: "Leaf_MoveAllTo dr dq = Some (dr', dq')" "leaf_node r p (next_leaf nxt r0) [] dr'"
    "leaf_node q p (next_leaf nxt r0) (xs @ ys) dq'"
    using leaf_move_all [OF qr(4,2) len] by auto
  define S1 where "S1 = S(r \<mapsto> dr', q \<mapsto> dq')"
  obtain b1 where b1: "node_op2 g f Leaf_MoveAllTo (t\<lparr>bpm := b\<rparr>) = (Inr (), t\<lparr>bpm := b1\<rparr>)"
    "pool_st b1 S1 P" "keeps b b1" unfolding S1_def
    by (rule op2_at [OF st h(3,2) _ qr(3,1), of Leaf_MoveAllTo dr' dq' t])
      (use m(1) qr(5) leaf_nodeD(1) [OF m(2)] leaf_nodeD(1) [OF m(3)] in auto)
  have dp: "S1 p = Some d" using d(1) qr(5) by (auto simp: S1_def)
  obtain b2 d' where b2: "node_op fp (unit_op (Internal_Remove (int (Suc (length l0))))) (t\<lparr>bpm := b1\<rparr>) = (Inr (), t\<lparr>bpm := b2\<rparr>)"
    "inner_node p gp (child_ids (l0 @ (k1, Leaf q (xs @ ys)) # r0)) d'" "pool_st b2 (S1(p \<mapsto> d')) P" "keeps b1 b2"
    by (rule inner_unlink [where t = t and t' = "Leaf q (xs @ ys)", OF b1(2) keeps_held [OF b1(3) h(1)] dp d(2)]) auto
  have "regrouped S (S1(p \<mapsto> d')) p gp l0 old new r0 nxt"
    using m(3) b2(2) qr(5) by (auto simp: regrouped_def family_def old new S1_def)
  moreover have "IsLeafPage (node_data f (t\<lparr>bpm := b\<rparr>))" using data_at [OF st h(2) qr(1)] leaf_nodeD(2) [OF qr(2)] by simp
  ultimately show ?thesis
    using b1(1) b2(1,3) keeps_trans [OF b1(3) b2(4)] leaf_nodeD(4) [OF m(2)] qr(5)
    by (intro exI [of _ b2] exI [of _ "S1(p \<mapsto> d')"] exI [of _ dr']) (auto simp: Merge_def S1_def)
qed

lemma merge_inner:
  assumes old: "old = [(k1, Node q xs), (k2, Node r ((k0, v) # ys))]" and new: "new = [(k1, Node q (xs @ (k2, v) # ys))]"
    and st: "pool_st b S P" and fam: "family S p gp l0 old r0 nxt"
    and h: "held b p fp" "held b q f" "held b r g" and len: "length xs + Suc (length ys) \<le> 339" and room: "npin P < frames b"
  shows "\<exists>b' S' d. Merge f g fp (int (Suc (length l0))) (t\<lparr>bpm := b\<rparr>) = Some (Inr (), t\<lparr>bpm := b'\<rparr>) \<and>
     pool_st b' S' P \<and> keeps b b' \<and> regrouped S S' p gp l0 old new r0 nxt \<and> S' r = Some d \<and> Node_GetPageId d = r"
proof -
  let ?i = "int (Suc (length l0))" and ?nxt = "next_leaf nxt r0" and ?cs = "xs @ (k2, v) # ys"
  obtain d where d: "S p = Some d" "inner_node p gp (child_ids (l0 @ (k1, Node q xs) # (k2, Node r ((k0, v) # ys)) # r0)) d"
    using fam by (auto simp: family_def old)
  obtain dq dr where qr: "S q = Some dq" "inner_node q p (child_ids xs) dq" "S r = Some dr"
    "inner_node r p ((k0, root_id v) # child_ids ys) dr" "distinct [p, q, r]"
    using fam by (auto simp: family_def old)
  have sub: "sat S (forest_desc q (first_leaf v) xs)" "sat S (forest_desc r ?nxt ((k2, v) # ys))"
    "distinct (forest_ids ?cs)" "{p, q, r} \<inter> set (forest_ids ?cs) = {}"
    using fam by (auto simp: family_def old)
  have "forest_sat S (next_leaf ?nxt ((k2, v) # ys)) xs" using forest_sat_desc [OF sub(1)] by simp
  then have any: "forest_sat S ?nxt ?cs" unfolding forest_sat_append using forest_sat_desc [OF sub(2)] by blast
  have pk: "node_read fp (\<lambda>d. Internal_KeyAt d ?i) (t\<lparr>bpm := b\<rparr>) = (Inr k2, t\<lparr>bpm := b\<rparr>)"
    by (rule read_at [OF st h(1) d(1)]) (use inner_node_entry(2) [OF d(2), of "Suc (length l0)"] in \<open>simp add: nth_append\<close>)
  obtain dr' dq' where m: "Internal_MoveAllTo k2 dr dq = Some (dr', dq')" "inner_node r p [] dr'" "inner_node q p (child_ids ?cs) dq'"
    using inner_move_all [OF qr(4,2), of k2] len by auto
  define S1 where "S1 = S(r \<mapsto> dr', q \<mapsto> dq')"
  obtain b1 where b1: "node_op2 g f (Internal_MoveAllTo k2) (t\<lparr>bpm := b\<rparr>) = (Inr (), t\<lparr>bpm := b1\<rparr>)"
    "pool_st b1 S1 P" "keeps b b1" unfolding S1_def
    by (rule op2_at [OF st h(3,2) _ qr(3,1), of "Internal_MoveAllTo k2" dr' dq' t])
      (use m(1) qr(5) inner_nodeD(1) [OF m(2)] inner_nodeD(1) [OF m(3)] in auto)
  note f1 = keeps_held [OF b1(3) h(2)]
  have S1: "S1 q = Some dq'" "S1 r = Some dr'" "S1 p = Some d" using qr(5) d(1) by (auto simp: S1_def)
  have any1: "forest_sat S1 ?nxt ?cs" by (rule forest_sat_cong [OF any]) (use sub(4) in \<open>auto simp: S1_def\<close>)
  have id: "node_read f (\<lambda>d. Some (Node_GetPageId d)) (t\<lparr>bpm := b1\<rparr>) = (Inr q, t\<lparr>bpm := b1\<rparr>)"
    by (rule read_at [OF b1(2) f1 S1(1)]) (use inner_nodeD(4) [OF m(3)] in simp)
  have room1: "npin P < frames b1" using room keeps_frames [OF b1(3)] by simp
  obtain b2 S2 where b2: "reparent_loop f q 0 (t\<lparr>bpm := b1\<rparr>) = Some (Inr (), t\<lparr>bpm := b2\<rparr>)" "pool_st b2 S2 P"
    "keeps b1 b2" "sat S2 (forest_desc q ?nxt ?cs)" "\<forall>z. z \<notin> set (forest_ids ?cs) \<longrightarrow> S2 z = S1 z"
    using reparent_loop_ok [of "t\<lparr>bpm := b1\<rparr>" S1 P q f dq' p "[]" ?cs ?nxt q] b1(2) f1 S1(1) m(3) any1 sub(3,4) room1
    unfolding keeps_def by auto
  have S2: "S2 q = Some dq'" "S2 r = Some dr'" "S2 p = Some d" using b2(5) sub(4) S1 by auto
  obtain b3 d' where b3: "node_op fp (unit_op (Internal_Remove ?i)) (t\<lparr>bpm := b2\<rparr>) = (Inr (), t\<lparr>bpm := b3\<rparr>)"
    "inner_node p gp (child_ids (l0 @ (k1, Node q ?cs) # r0)) d'" "pool_st b3 (S2(p \<mapsto> d')) P" "keeps b2 b3"
    by (rule inner_unlink [where t = t and t' = "Node q ?cs", OF b2(2) keeps_held [OF keeps_trans [OF b1(3) b2(3)] h(1)] S2(3) d(2)]) auto
  have "S2 z = S z" if "z \<noteq> q" "z \<noteq> r" "z \<notin> set (forest_ids ?cs)" for z using b2(5) that by (simp add: S1_def)
  then have "regrouped S (S2(p \<mapsto> d')) p gp l0 old new r0 nxt"
    using m(3) b3(2) qr(5) S2 b2(4) sub(3,4) by (auto simp: regrouped_def family_def old new)
  moreover have "\<not> IsLeafPage (node_data f (t\<lparr>bpm := b\<rparr>))" using data_at [OF st h(2) qr(1)] inner_nodeD(2) [OF qr(2)] by simp
  ultimately show ?thesis
    using pk b1(1) id b2(1) b3(1,3) keeps_trans [OF keeps_trans [OF b1(3) b2(3)] b3(4)] inner_nodeD(4) [OF m(2)] qr(5) S2(2)
    by (intro exI [of _ b3] exI [of _ "S2(p \<mapsto> d')"] exI [of _ dr']) (auto simp: Merge_def)
qed

text \<open>Two siblings that hold one entry less than twice the minimum together.\<close>

definition mergeable :: "bt \<Rightarrow> bt \<Rightarrow> bool" where
  "mergeable t1 t2 \<longleftrightarrow> width t1 + width t2 + 1 = 2 * least t1 \<and> width t1 \<noteq> 0 \<and> width t2 \<noteq> 0 \<and>
     forest_sized (kids t1) \<and> forest_sized (kids t2)"

lemma merge_ok:
  assumes old: "old = [(k1, t1), (k2, t2)]" and st: "pool_st b S P" and fam: "family S p gp l0 old r0 nxt"
    and ok: "forest_ok h lo hi old" and held: "held b p fp" "held b (root_id t1) f" "held b (root_id t2) g"
    and size: "mergeable t1 t2" and room: "npin P < frames b"
  shows "\<exists>b' S' d. Merge f g fp (int (Suc (length l0))) (t\<lparr>bpm := b\<rparr>) = Some (Inr (), t\<lparr>bpm := b'\<rparr>) \<and>
     pool_st b' S' P \<and> keeps b b' \<and> regrouped S S' p gp l0 old [(k1, merged k2 t1 t2)] r0 nxt \<and>
     S' (root_id t2) = Some d \<and> Node_GetPageId d = root_id t2 \<and> root_id t2 \<notin> set (ids (merged k2 t1 t2)) \<and>
     root_id t2 \<noteq> p"
proof (rule adjacent_kinds [OF ok [unfolded old]])
  fix q xs r ys assume t: "h = 0" "t1 = Leaf q xs" "t2 = Leaf r ys"
  have "length xs + length ys \<le> 254" "r \<noteq> q" "r \<noteq> p" using size fam by (auto simp: t mergeable_def family_def old)
  with merge_leaf [OF old [unfolded t] refl st fam held(1), of f g t] held(2,3) show ?thesis
    by (simp add: t)
next
  fix h' q xs r ys0 assume t: "h = Suc h'" "t1 = Node q xs" "t2 = Node r ys0"
  obtain k0 v ys where ys: "ys0 = (k0, v) # ys" using size t(3) by (cases ys0) (auto simp: mergeable_def)
  have "length xs + Suc (length ys) \<le> 339" "r \<noteq> p" "r \<notin> set (ids (Node q (xs @ (k2, v) # ys)))"
    using size fam by (auto simp: t ys mergeable_def family_def old)
  with merge_inner [OF old [unfolded t ys] refl st fam held(1), of f g t] held(2,3) room show ?thesis
    by (simp add: t ys)
qed

lemma regrouped_drop:
  assumes "regrouped S S' p gp l0 old new r0 nxt" "r \<noteq> p" "r \<notin> set (forest_ids new)" "r \<in> set (forest_ids old)"
  shows "regrouped S (S'(r := None)) p gp l0 old new r0 nxt"
  using assms by (auto simp: regrouped_def family_def)

text \<open>
  \<^verbatim>\<open>node\<close> is merged into its left sibling. Its page stays allocated: it is still pinned by the caller,
  so the attempt to delete it is refused.
\<close>

lemma merge_left:
  assumes old: "old = [(k1, t1), (k2, t2)]" and st: "pool_st b S P" and fam: "family S p gp l0 old r0 nxt"
    and ok: "forest_ok h lo hi old" and held: "held b p fp" "held b (root_id t2) f"
    and size: "mergeable t1 t2" and room: "npin P + 2 \<le> frames b" and idle: "P (root_id t1) = 0"
  shows "\<exists>b' S'. merge_with_sibling f fp (int (Suc (length l0))) (t\<lparr>bpm := b\<rparr>) = Some (Inr (), t\<lparr>bpm := b'\<rparr>) \<and>
     pool_st b' S' P \<and> keeps b b' \<and> regrouped S S' p gp l0 old [(k1, merged k2 t1 t2)] r0 nxt"
proof -
  obtain d where d: "S p = Some d" "inner_node p gp (child_ids l0 @ (k1, root_id t1) # (k2, root_id t2) # child_ids r0) d"
    using fam by (auto simp: family_def old)
  have "sat S (desc p (first_leaf t2) t1)" using fam by (simp add: family_def old)
  then obtain d1 where d1: "S (root_id t1) = Some d1" by (rule sat_root)
  have val: "node_read fp (\<lambda>d. Internal_ValueAt d (int (length l0))) (t\<lparr>bpm := b\<rparr>) = (Inr (root_id t1), t\<lparr>bpm := b\<rparr>)"
    by (rule read_at [OF st held(1) d(1)]) (use inner_node_entry(3) [OF d(2), of "length l0"] in \<open>simp add: nth_append\<close>)
  let ?s = "root_id t1" and ?P = "P(root_id t1 := 1)"
  have dom: "?s \<in> dom S" using d1 by blast
  have room1: "npin P < frames b" using room by simp
  obtain g b1 where b1: "FetchPage ?s b = (Inr (Some g), b1)" "pool_st b1 S ?P" "held b1 ?s g" "keeps b b1"
    using pp.fetch_ok [OF st dom room1] idle unfolding keeps_def by fastforce
  have room2: "npin ?P < frames b1" using npin_upd_le [of P ?s 1] room keeps_frames [OF b1(4)] by simp
  obtain b2 S2 d2 where b2: "Merge g f fp (int (Suc (length l0))) (t\<lparr>bpm := b1\<rparr>) = Some (Inr (), t\<lparr>bpm := b2\<rparr>)"
    "pool_st b2 S2 ?P" "keeps b1 b2" "regrouped S S2 p gp l0 old [(k1, merged k2 t1 t2)] r0 nxt"
    "S2 (root_id t2) = Some d2" "Node_GetPageId d2 = root_id t2"
    using merge_ok [OF old b1(2) fam ok keeps_held [OF b1(4) held(1)] b1(3) keeps_held [OF b1(4) held(2)] size room2, of t] by blast
  obtain b3 where b3: "UnpinPage ?s True b2 = (Inr True, b3)" "pool_st b3 S2 P" "frames b3 = frames b2"
    "\<forall>q y. held b2 q y \<and> q \<noteq> ?s \<longrightarrow> held b3 q y"
    using pp.unpin_ok [OF b2(2) keeps_held [OF b2(3) b1(3)], of True] idle by (auto simp: fun_upd_idem)
  note k2 = keeps_trans [OF b1(4) b2(3)]
  have k3: "keeps b b3" unfolding keeps_def
  proof (intro conjI allI impI)
    fix q y assume a: "held b q y"
    then show "held b3 q y" using b3(4) keeps_held [OF k2 a] pp.hold_pins [OF st a] idle by fastforce
  qed (use b3(3) keeps_frames [OF k2] in simp)
  note f3 = keeps_held [OF k3 held(2)]
  have id: "node_read f (\<lambda>d. Some (Node_GetPageId d)) (t\<lparr>bpm := b3\<rparr>) = (Inr (root_id t2), t\<lparr>bpm := b3\<rparr>)"
    by (rule read_at [OF b3(2) f3 b2(5)]) (use b2(6) in simp)
  have "DeletePage (root_id t2) b3 = (Inr False, b3)" by (rule pp.del_pinned [OF f3])
  then have del: "bind (ix (DeletePage (root_id t2))) (\<lambda>_. ret ()) (t\<lparr>bpm := b3\<rparr>) = (Inr (), t\<lparr>bpm := b3\<rparr>)"
    by (simp add: bind_def ix_def)
  have "merge_with_sibling f fp (int (Suc (length l0))) (t\<lparr>bpm := b\<rparr>) = Some (Inr (), t\<lparr>bpm := b3\<rparr>)"
    using val b1(1) b2(1) b3(1) id del by (simp add: merge_with_sibling_def)
  then show ?thesis using b3(2) k3 b2(4) by blast
qed

text \<open>The first child takes over its right sibling, whose page is deleted.\<close>

lemma merge_right:
  assumes old: "old = [(k1, t1), (k2, t2)]" and st: "pool_st b S P" and fam: "family S p gp [] old r0 nxt"
    and ok: "forest_ok h lo hi old" and held: "held b p fp" "held b (root_id t1) f"
    and size: "mergeable t1 t2" and room: "npin P + 2 \<le> frames b" and idle: "P (root_id t2) = 0"
  shows "\<exists>b' S'. merge_with_sibling f fp 0 (t\<lparr>bpm := b\<rparr>) = Some (Inr (), t\<lparr>bpm := b'\<rparr>) \<and>
     pool_st b' S' P \<and> keeps b b' \<and> regrouped S S' p gp [] old [(k1, merged k2 t1 t2)] r0 nxt"
proof -
  obtain d where d: "S p = Some d" "inner_node p gp ((k1, root_id t1) # (k2, root_id t2) # child_ids r0) d"
    using fam by (auto simp: family_def old)
  have "sat S (desc p (next_leaf nxt r0) t2)" using fam by (simp add: family_def old)
  then obtain d2 where d2: "S (root_id t2) = Some d2" by (rule sat_root)
  let ?s = "root_id t2" and ?P = "P(root_id t2 := 1)"
  have val: "node_read fp (\<lambda>d. Internal_ValueAt d 1) (t\<lparr>bpm := b\<rparr>) = (Inr ?s, t\<lparr>bpm := b\<rparr>)"
    by (rule read_at [OF st held(1) d(1)]) (use inner_node_entry(3) [OF d(2), of 1] in simp)
  have dom: "?s \<in> dom S" using d2 by blast
  have room1: "npin P < frames b" using room by simp
  obtain g b1 where b1: "FetchPage ?s b = (Inr (Some g), b1)" "pool_st b1 S ?P" "held b1 ?s g" "keeps b b1"
    using pp.fetch_ok [OF st dom room1] idle unfolding keeps_def by fastforce
  have room2: "npin ?P < frames b1" using npin_upd_le [of P ?s 1] room keeps_frames [OF b1(4)] by simp
  obtain b2 S2 where b2: "Merge f g fp 1 (t\<lparr>bpm := b1\<rparr>) = Some (Inr (), t\<lparr>bpm := b2\<rparr>)"
    "pool_st b2 S2 ?P" "keeps b1 b2" "regrouped S S2 p gp [] old [(k1, merged k2 t1 t2)] r0 nxt"
    "?s \<notin> set (ids (merged k2 t1 t2))" "?s \<noteq> p" "?s \<in> dom S2"
    using merge_ok [OF old b1(2) fam ok keeps_held [OF b1(4) held(1)] keeps_held [OF b1(4) held(2)] b1(3) size room2, of t] by auto
  obtain b3 where b3: "UnpinPage ?s True b2 = (Inr True, b3)" "pool_st b3 S2 P" "frames b3 = frames b2"
    "\<forall>q y. held b2 q y \<and> q \<noteq> ?s \<longrightarrow> held b3 q y"
    using pp.unpin_ok [OF b2(2) keeps_held [OF b2(3) b1(3)], of True] idle by (auto simp: fun_upd_idem)
  obtain b4 where b4: "DeletePage ?s b3 = (Inr True, b4)" "pool_st b4 (S2(?s := None)) P" "frames b4 = frames b3"
    "\<forall>q y. held b3 q y \<longrightarrow> held b4 q y"
    using pp.del_ok [OF b3(2) b2(7) idle] by blast
  note k2 = keeps_trans [OF b1(4) b2(3)]
  have "keeps b b4" unfolding keeps_def
  proof (intro conjI allI impI)
    fix q y assume a: "held b q y"
    then show "held b4 q y" using b4(4) b3(4) keeps_held [OF k2 a] pp.hold_pins [OF st a] idle by fastforce
  qed (use b4(3) b3(3) keeps_frames [OF k2] in simp)
  moreover have "regrouped S (S2(?s := None)) p gp [] old [(k1, merged k2 t1 t2)] r0 nxt"
    by (rule regrouped_drop [OF b2(4,6)]) (use b2(5) in \<open>auto simp: old\<close>)
  moreover have "merge_with_sibling f fp 0 (t\<lparr>bpm := b\<rparr>) = Some (Inr (), t\<lparr>bpm := b4\<rparr>)"
    using val b1(1) b2(1) b3(1) b4(1) by (simp add: merge_with_sibling_def)
  ultimately show ?thesis using b4(2) by blast
qed

end
