(* ===== verification/BPlus_Delete.thy ===== *)
theory BPlus_Delete
  imports BPlus_Underflow
begin

text \<open>
  Deletion from the index. A node that has become too small is repaired along the path to the root:
  \<open>HandleUnderflow\<close> returns on every tree and leaves a well-formed tree with the same entries, which
  by induction over the path needs no more page ids and at most one more pinned page per level.
  \<open>Delete\<close> then refines the removal of a key from the represented map.
\<close>

section \<open>Repairing the path\<close>

definition shrunk :: "(page_id \<rightharpoonup> byte list) \<Rightarrow> step list \<Rightarrow> bt \<Rightarrow> (page_id \<rightharpoonup> byte list) \<Rightarrow> bt \<Rightarrow> bool" where
  "shrunk S c u S' T \<longleftrightarrow>
     tree_in S' T \<and> (\<exists>h. tree_ok h T) \<and> entries T = path_left c @ entries u @ path_right c \<and>
     set (ids T) \<subseteq> set (path_ids c) \<union> set (ids u) \<and>
     (\<forall>q. q \<notin> set (path_ids c) \<union> set (ids u) \<longrightarrow> S' q = S q)"

lemma shrunk_refl:
  assumes "tree_in S (fill u c)" "located u c h lo hi"
  shows "shrunk S c u S (fill u c)"
  using assms located_tree [OF assms(2)] by (auto simp: shrunk_def entries_fill set_ids_fill)

lemma shrunk_step:
  assumes sh: "shrunk S1 c (Node p (l0 @ new @ r0)) S' T" and eq: "ls @ (k, u) # rs = l0 @ old @ r0"
    and re: "regrouped S S1 p gp l0 old new r0 nxt" and bal: "balances h old new"
  shows "shrunk S ((p, ls, k, rs) # c) u S' T"
proof -
  have e: "forest_entries ls @ entries u @ forest_entries rs = forest_entries l0 @ forest_entries new @ forest_entries r0"
    using arg_cong [OF eq, of forest_entries] bal by (simp add: balances_def)
  have "set (forest_ids (ls @ (k, u) # rs)) = set (forest_ids (l0 @ old @ r0))" by (rule arg_cong [OF eq])
  then have i: "set (forest_ids ls) \<union> set (ids u) \<union> set (forest_ids rs)
      = set (forest_ids l0) \<union> set (forest_ids old) \<union> set (forest_ids r0)"
    by auto
  have n: "set (forest_ids new) \<subseteq> set (forest_ids old)" using bal by (simp add: balances_def)
  let ?A = "set (path_ids c) \<union> set (ids (Node p (l0 @ new @ r0)))" and ?B = "set (path_ids ((p, ls, k, rs) # c)) \<union> set (ids u)"
  have sub: "?A \<subseteq> ?B" "p \<in> ?B" "set (forest_ids old) \<subseteq> ?B" using i n by auto
  have s1: "S1 q = S q" if "q \<notin> ?B" for q
  proof -
    have "q \<noteq> p" "q \<notin> set (forest_ids old)" using that sub(2,3) by blast+
    then show ?thesis using re by (simp add: regrouped_def)
  qed
  have "S' q = S q" if q: "q \<notin> ?B" for q
  proof -
    have "q \<notin> ?A" using q sub(1) by blast
    then have "S' q = S1 q" using sh unfolding shrunk_def by blast
    then show ?thesis using s1 [OF q] by simp
  qed
  moreover have "entries T = path_left ((p, ls, k, rs) # c) @ entries u @ path_right ((p, ls, k, rs) # c)"
    using sh e by (simp add: shrunk_def)
  moreover have "set (ids T) \<subseteq> ?B" using sh sub(1) unfolding shrunk_def by blast
  ultimately show ?thesis using sh unfolding shrunk_def by blast
qed

text \<open>A node below its parent \<open>p\<close> lacks one entry; nobody else has pinned a page on the way up.\<close>

definition deficit ::
  "(page_id \<rightharpoonup> byte list) \<Rightarrow> (page_id \<Rightarrow> int) \<Rightarrow> nat \<Rightarrow> int \<Rightarrow> int \<Rightarrow> page_id \<Rightarrow> (64 word \<times> bt) list \<Rightarrow> 64 word \<Rightarrow>
   (64 word \<times> bt) list \<Rightarrow> step list \<Rightarrow> bt \<Rightarrow> bool" where
  "deficit S P h lo hi p ls k rs c u \<longleftrightarrow>
     tree_in S (fill u ((p, ls, k, rs) # c)) \<and> path_ok (Suc h) lo hi c \<and> path_sized ((p, ls, k, rs) # c) \<and>
     forest_ok h lo hi (ls @ (k, u) # rs) \<and> thin u \<and> (\<forall>q \<in> set (path_ids ((p, ls, k, rs) # c)). P q = 0)"

lemma deficit_family:
  assumes d: "deficit S P h lo hi p ls k rs c u" and eq: "ls @ (k, u) # rs = l0 @ old @ r0" and old: "old \<noteq> []"
  shows "family S p (path_par c) l0 old r0 (path_next c)" "tree_in S (fill (Node p (l0 @ old @ r0)) c)"
    "\<exists>lo hi. forest_ok h lo hi old"
proof -
  have t: "tree_in S (fill (Node p (ls @ (k, u) # rs)) c)" using d by (simp add: deficit_def)
  then show t': "tree_in S (fill (Node p (l0 @ old @ r0)) c)" unfolding eq .
  show "family S p (path_par c) l0 old r0 (path_next c)" by (rule family_tree [OF t'])
  have "forest_ok h lo hi (l0 @ old @ r0)" using d eq by (simp add: deficit_def)
  then show "\<exists>lo hi. forest_ok h lo hi old" unfolding forest_ok_seg [OF old] by blast
qed

lemma deficit_forest:
  assumes d: "deficit S P h lo hi p ls k rs c u" and eq: "ls @ (k, u) # rs = l0 @ old @ r0" and old: "old \<noteq> []"
    and bal: "balances h old new" and re: "regrouped S S' p (path_par c) l0 old new r0 (path_next c)"
    and sz: "forest_sized l0" "forest_sized r0"
  shows "tree_in S' (fill (Node p (l0 @ new @ r0)) c)" "bt_ok (Suc h) lo hi (Node p (l0 @ new @ r0))"
    "forest_sized (l0 @ new @ r0)"
proof -
  show "tree_in S' (fill (Node p (l0 @ new @ r0)) c)"
    by (rule tree_regrouped [OF deficit_family(2) [OF d eq old] old bal re])
  have "forest_ok h lo hi (l0 @ old @ r0)" using d eq by (simp add: deficit_def)
  then show "bt_ok (Suc h) lo hi (Node p (l0 @ new @ r0))" using seg_ok [OF _ bal old] by simp
  show "forest_sized (l0 @ new @ r0)" using bal sz by (simp add: balances_def)
qed

text \<open>After a redistribution the tree is repaired.\<close>

lemma deficit_repaired:
  assumes d: "deficit S P h lo hi p ls k rs c u" and eq: "ls @ (k, u) # rs = l0 @ old @ r0" and len: "length old = 2" "length new = 2"
    and bal: "balances h old new" and re: "regrouped S S' p (path_par c) l0 old new r0 (path_next c)"
    and sz: "forest_sized l0" "forest_sized r0"
  shows "shrunk S ((p, ls, k, rs) # c) u S' (fill (Node p (l0 @ new @ r0)) c)"
    "root_id (fill (Node p (l0 @ new @ r0)) c) = root_id (fill u ((p, ls, k, rs) # c))"
proof -
  have old: "old \<noteq> []" using len by auto
  note f = deficit_forest [OF d eq old bal re sz]
  have "length (l0 @ new @ r0) = Suc (length ls + length rs)" using arg_cong [OF eq, of length] len by simp
  then have "located (Node p (l0 @ new @ r0)) c (Suc h) lo hi"
    using d f(2,3) by (auto simp: located_def deficit_def)
  from shrunk_step [OF shrunk_refl [OF f(1) this] eq re bal]
  show "shrunk S ((p, ls, k, rs) # c) u S' (fill (Node p (l0 @ new @ r0)) c)" .
  show "root_id (fill (Node p (l0 @ new @ r0)) c) = root_id (fill u ((p, ls, k, rs) # c))"
    using node_root_id [of "Node p (l0 @ new @ r0)" "Node p (ls @ (k, u) # rs)" c] by simp
qed

section \<open>Borrowing from the neighbours\<close>

lemma mergeable_thin:
  assumes "forest_ok h lo hi [(k1, t1), (k2, t2)]"
  shows "thin t2 \<Longrightarrow> sized False t1 \<Longrightarrow> \<not> least t1 < width t1 \<Longrightarrow> mergeable t1 t2"
    "thin t1 \<Longrightarrow> sized False t2 \<Longrightarrow> \<not> least t2 < width t2 \<Longrightarrow> mergeable t1 t2"
  by (rule adjacent_kinds [OF assms]; auto simp: mergeable_def)+

definition attempt ::
  "bool \<Rightarrow> (page_id \<rightharpoonup> byte list) \<Rightarrow> (page_id \<Rightarrow> int) \<Rightarrow> page_id \<Rightarrow> step list \<Rightarrow> bt \<Rightarrow> buffer_pool \<Rightarrow> buffer_pool \<Rightarrow> buffer_pool \<Rightarrow>
   bool \<Rightarrow> bool" where
  "attempt r S P p c u b b1 b2 X \<longleftrightarrow>
     (if r then \<exists>S' T. shrunk S c u S' T \<and> root_id T = root_id (fill u c) \<and> pool_st b2 S' P \<and> keeps b b2
      else pool_st b2 S (P(p := 1)) \<and> keeps b1 b2 \<and> X)"

lemma attemptI:
  assumes d: "deficit S P h lo hi p ls k rs c u" and eq: "ls @ (k, u) # rs = l0 @ old @ r0" and len: "length old = 2"
    and sz: "forest_sized l0" "forest_sized r0" and st: "pool_st b S P" and kb: "keeps b b1"
    and bo: "borrowed r sp (P(p := 1)) p b1 S b2 S' (regrouped S S' p (path_par c) l0 old new r0 (path_next c) \<and> balances h old new \<and> length new = 2)"
    and X: "\<not> sp \<Longrightarrow> X"
  shows "attempt r S P p ((p, ls, k, rs) # c) u b b1 b2 X"
proof (cases r)
  case True
  have Pp: "P p = 0" using d by (simp add: deficit_def)
  have P1: "(P(p := 1))(p := (P(p := 1)) p - 1) = P" using Pp by auto
  have b2: "pool_st b2 S' P" "frames b2 = frames b1" "\<forall>q y. held b1 q y \<and> q \<noteq> p \<longrightarrow> held b2 q y"
    "regrouped S S' p (path_par c) l0 old new r0 (path_next c)" "balances h old new" "length new = 2"
    using bo True unfolding borrowed_def P1 by auto
  have "keeps b b2" unfolding keeps_def
  proof (intro conjI allI impI)
    fix q y assume a: "held b q y"
    then have "q \<noteq> p" using pp.hold_pins [OF st a] Pp by auto
    then show "held b2 q y" using b2(3) keeps_held [OF kb a] by blast
  qed (use b2(2) keeps_frames [OF kb] in simp)
  then show ?thesis using True b2(1) deficit_repaired [OF d eq len b2(6,5,4) sz] unfolding attempt_def by auto
next
  case False
  then have "\<not> sp" "pool_st b2 S (P(p := 1))" "keeps b1 b2" using bo by (auto simp: borrowed_def)
  then show ?thesis using False X by (simp add: attempt_def)
qed

lemma attempt_left:
  assumes d: "deficit S P h lo hi p ls k rs c u" and st: "pool_st b S P" and st1: "pool_st b1 S (P(p := 1))"
    and held: "held b1 p fp" "held b1 (root_id u) f" and kb: "keeps b b1" and room: "npin P + 3 \<le> frames b"
  shows "\<exists>b2 r. (if 0 < int (length ls) then try_redistribute f fp p (int (length ls)) (int (length ls) - 1) True else ret False)
       (t\<lparr>bpm := b1\<rparr>) = (Inr r, t\<lparr>bpm := b2\<rparr>) \<and>
     attempt r S P p ((p, ls, k, rs) # c) u b b1 b2 (ls \<noteq> [] \<longrightarrow> mergeable (snd (last ls)) u)"
proof (cases ls rule: rev_cases)
  case Nil
  then show ?thesis using st1 keeps_refl by (intro exI [of _ b1] exI [of _ False]) (simp add: attempt_def)
next
  case (snoc l0 e)
  obtain k1 t1 where e: "e = (k1, t1)" by (cases e)
  let ?old = "[(k1, t1), (k, u)]"
  have eq: "ls @ (k, u) # rs = l0 @ ?old @ rs" using snoc e by simp
  have len: "length ?old = 2" "?old \<noteq> []" by simp_all
  obtain lo' hi' where ok: "forest_ok h lo' hi' ?old" using deficit_family(3) [OF d eq len(2)] by blast
  have D: "thin u" "sized False t1" "forest_sized l0" "forest_sized rs" "root_id t1 \<in> set (path_ids ((p, ls, k, rs) # c))"
    "root_id t1 \<noteq> p" "P (root_id t1) = 0"
    using d snoc e root_neq [of p t1] by (auto simp: deficit_def tree_in_def distinct_ids_fill)
  have room1: "npin (P(p := 1)) + 2 \<le> frames b1" using npin_upd_le [of P p 1] room keeps_frames [OF kb] by simp
  have idle: "(P(p := 1)) (root_id t1) = 0" using D by simp
  obtain b' S' new r where b': "try_redistribute f fp p (int (Suc (length l0))) (int (length l0)) True (t\<lparr>bpm := b1\<rparr>) = (Inr r, t\<lparr>bpm := b'\<rparr>)"
    "borrowed r (least t1 < width t1) (P(p := 1)) p b1 S b' S'
       (regrouped S S' p (path_par c) l0 ?old new rs (path_next c) \<and> balances h ?old new \<and> length new = 2)"
    using borrow_left [OF refl st1 deficit_family(1) [OF d eq len(2)] ok held D(1,2) room1 idle, of t] by blast
  have "attempt r S P p ((p, ls, k, rs) # c) u b b1 b' (ls \<noteq> [] \<longrightarrow> mergeable (snd (last ls)) u)"
    by (rule attemptI [OF d eq len(1) D(3,4) st kb b'(2)]) (use mergeable_thin(1) [OF ok D(1,2)] snoc e in simp)
  then show ?thesis using b'(1) snoc by (intro exI [of _ b'] exI [of _ r]) simp
qed

lemma attempt_right:
  assumes d: "deficit S P h lo hi p ls k rs c u" and st: "pool_st b S P" and st1: "pool_st b1 S (P(p := 1))"
    and held: "held b1 p fp" "held b1 (root_id u) f" and kb: "keeps b b1" and room: "npin P + 3 \<le> frames b"
  shows "\<exists>b2 r. (if int (length ls) < int (length ls + length rs)
       then try_redistribute f fp p (int (length ls)) (int (length ls) + 1) False else ret False)
       (t\<lparr>bpm := b1\<rparr>) = (Inr r, t\<lparr>bpm := b2\<rparr>) \<and>
     attempt r S P p ((p, ls, k, rs) # c) u b b1 b2 (rs \<noteq> [] \<longrightarrow> mergeable u (snd (hd rs)))"
proof (cases rs)
  case Nil
  then show ?thesis using st1 keeps_refl by (intro exI [of _ b1] exI [of _ False]) (simp add: attempt_def)
next
  case (Cons e r0)
  obtain k2 t2 where e: "e = (k2, t2)" by (cases e)
  let ?old = "[(k, u), (k2, t2)]"
  have eq: "ls @ (k, u) # rs = ls @ ?old @ r0" using Cons e by simp
  have len: "length ?old = 2" "?old \<noteq> []" by simp_all
  obtain lo' hi' where ok: "forest_ok h lo' hi' ?old" using deficit_family(3) [OF d eq len(2)] by blast
  have D: "thin u" "sized False t2" "forest_sized ls" "forest_sized r0" "root_id t2 \<in> set (path_ids ((p, ls, k, rs) # c))"
    "root_id t2 \<noteq> p" "P (root_id t2) = 0"
    using d Cons e root_neq [of p t2] by (auto simp: deficit_def tree_in_def distinct_ids_fill)
  have room1: "npin (P(p := 1)) + 2 \<le> frames b1" using npin_upd_le [of P p 1] room keeps_frames [OF kb] by simp
  have idle: "(P(p := 1)) (root_id t2) = 0" using D by simp
  obtain b' S' new r where b': "try_redistribute f fp p (int (length ls)) (int (length ls) + 1) False (t\<lparr>bpm := b1\<rparr>) = (Inr r, t\<lparr>bpm := b'\<rparr>)"
    "borrowed r (least t2 < width t2) (P(p := 1)) p b1 S b' S'
       (regrouped S S' p (path_par c) ls ?old new r0 (path_next c) \<and> balances h ?old new \<and> length new = 2)"
    using borrow_right [OF refl st1 deficit_family(1) [OF d eq len(2)] ok held D(1,2) room1 idle, of t] by blast
  have "attempt r S P p ((p, ls, k, rs) # c) u b b1 b' (rs \<noteq> [] \<longrightarrow> mergeable u (snd (hd rs)))"
    by (rule attemptI [OF d eq len(1) D(3,4) st kb b'(2)]) (use mergeable_thin(2) [OF ok D(1,2)] Cons e in simp)
  then show ?thesis using b'(1) Cons by (intro exI [of _ b'] exI [of _ r]) simp
qed

section \<open>Merging with a neighbour\<close>

lemma merge_step:
  assumes d: "deficit S P h lo hi p ls k rs c u" and st1: "pool_st b1 S (P(p := 1))"
    and held: "held b1 p fp" "held b1 (root_id u) f" and room: "npin P + 3 \<le> frames b1"
    and nb: "ls \<noteq> [] \<Longrightarrow> mergeable (snd (last ls)) u" "rs \<noteq> [] \<Longrightarrow> mergeable u (snd (hd rs))"
  shows "\<exists>b2 S2 cs. merge_with_sibling f fp (int (length ls)) (t\<lparr>bpm := b1\<rparr>) = Some (Inr (), t\<lparr>bpm := b2\<rparr>) \<and>
     pool_st b2 S2 (P(p := 1)) \<and> keeps b1 b2 \<and> tree_in S2 (fill (Node p cs) c) \<and> bt_ok (Suc h) lo hi (Node p cs) \<and>
     forest_sized cs \<and> length cs = length ls + length rs \<and>
     (\<forall>S' T. shrunk S2 c (Node p cs) S' T \<longrightarrow> shrunk S ((p, ls, k, rs) # c) u S' T)"
proof -
  have sz: "forest_sized ls" "forest_sized rs" "ls \<noteq> [] \<or> rs \<noteq> []"
    using d by (auto simp: deficit_def split: if_splits)
  have room1: "npin (P(p := 1)) + 2 \<le> frames b1" using npin_upd_le [of P p 1] room by simp
  have fin: ?thesis if run: "merge_with_sibling f fp (int (length ls)) (t\<lparr>bpm := b1\<rparr>) = Some (Inr (), t\<lparr>bpm := b2\<rparr>)"
      "pool_st b2 S2 (P(p := 1))" "keeps b1 b2" and eq: "ls @ (k, u) # rs = l0 @ [(k1, t1), (k2, t2)] @ r0"
      and re: "regrouped S S2 p (path_par c) l0 [(k1, t1), (k2, t2)] [(k1, merged k2 t1 t2)] r0 (path_next c)"
      and ok: "forest_ok h lo' hi' [(k1, t1), (k2, t2)]" and mg: "mergeable t1 t2" and sz: "forest_sized l0" "forest_sized r0"
    for b2 S2 l0 k1 t1 k2 t2 r0 lo' hi'
  proof -
    have bal: "balances h [(k1, t1), (k2, t2)] [(k1, merged k2 t1 t2)]"
      by (rule balances_merged [OF ok]) (use mg in \<open>auto simp: mergeable_def\<close>)
    note f = deficit_forest [OF d eq _ bal re sz, simplified]
    have "length (l0 @ [(k1, merged k2 t1 t2)] @ r0) = length ls + length rs" using arg_cong [OF eq, of length] by simp
    moreover have "\<forall>S' T. shrunk S2 c (Node p (l0 @ [(k1, merged k2 t1 t2)] @ r0)) S' T \<longrightarrow> shrunk S ((p, ls, k, rs) # c) u S' T"
      using shrunk_step [OF _ eq re bal] by blast
    ultimately show ?thesis using run f
      by (intro exI [of _ b2] exI [of _ S2] exI [of _ "l0 @ [(k1, merged k2 t1 t2)] @ r0"]) simp
  qed
  show ?thesis
  proof (cases ls rule: rev_cases)
    case (snoc l0 e)
    obtain k1 t1 where e: "e = (k1, t1)" by (cases e)
    have eq: "ls @ (k, u) # rs = l0 @ [(k1, t1), (k, u)] @ rs" using snoc e by simp
    obtain lo' hi' where ok: "forest_ok h lo' hi' [(k1, t1), (k, u)]" using deficit_family(3) [OF d eq] by blast
    have fam: "family S p (path_par c) l0 [(k1, t1), (k, u)] rs (path_next c)" by (rule deficit_family(1) [OF d eq]) simp
    have mg: "mergeable t1 u" using nb(1) snoc e by simp
    have idle: "(P(p := 1)) (root_id t1) = 0"
      using d snoc e root_neq [of p t1] by (auto simp: deficit_def tree_in_def distinct_ids_fill)
    obtain b2 S2 where "merge_with_sibling f fp (int (Suc (length l0))) (t\<lparr>bpm := b1\<rparr>) = Some (Inr (), t\<lparr>bpm := b2\<rparr>)"
      "pool_st b2 S2 (P(p := 1))" "keeps b1 b2"
      "regrouped S S2 p (path_par c) l0 [(k1, t1), (k, u)] [(k1, merged k t1 u)] rs (path_next c)"
      using merge_left [OF refl st1 fam ok held mg room1 idle, of t] by blast
    then show ?thesis using fin [OF _ _ _ eq _ ok mg, of b2 S2] snoc sz by simp
  next
    case Nil
    then obtain k2 t2 r0 where rs: "rs = (k2, t2) # r0" using sz(3) by (cases rs) auto
    have eq: "ls @ (k, u) # rs = [] @ [(k, u), (k2, t2)] @ r0" using Nil rs by simp
    obtain lo' hi' where ok: "forest_ok h lo' hi' [(k, u), (k2, t2)]" using deficit_family(3) [OF d eq] by blast
    have fam: "family S p (path_par c) [] [(k, u), (k2, t2)] r0 (path_next c)" by (rule deficit_family(1) [OF d eq]) simp
    have mg: "mergeable u t2" using nb(2) rs by simp
    have idle: "(P(p := 1)) (root_id t2) = 0"
      using d rs root_neq [of p t2] by (auto simp: deficit_def tree_in_def distinct_ids_fill)
    obtain b2 S2 where "merge_with_sibling f fp 0 (t\<lparr>bpm := b1\<rparr>) = Some (Inr (), t\<lparr>bpm := b2\<rparr>)"
      "pool_st b2 S2 (P(p := 1))" "keeps b1 b2"
      "regrouped S S2 p (path_par c) [] [(k, u), (k2, t2)] [(k, merged k2 u t2)] r0 (path_next c)"
      using merge_right [OF refl st1 fam ok held mg room1 idle, of t] by blast
    then show ?thesis using fin [OF _ _ _ eq _ ok mg, of b2 S2] Nil rs sz by simp
  qed
qed

section \<open>The root\<close>

lemma collapse_root_ok:
  assumes T: "tree_in S (Node p cs)" and ok: "bt_ok h key_min key_max (Node p cs)" and cs: "forest_sized cs" "length cs \<le> 338"
    and st: "pool_st b S P" and f: "held b p f" and root: "root_page_id t = p" and room: "npin P < frames b"
  shows "\<exists>b' S' T. collapse_root f (t\<lparr>bpm := b\<rparr>) = (Inr (), t\<lparr>root_page_id := root_id T, bpm := b'\<rparr>) \<and>
     shrunk S [] (Node p cs) S' T \<and> pool_st b' S' P \<and> keeps b b'"
proof -
  obtain d where d: "S p = Some d" "inner_node p INVALID_PAGE_ID (child_ids cs) d" using T by (auto simp: tree_in_def)
  note data = data_at [OF st f d(1), of t]
  obtain k0 v cs' where c: "cs = (k0, v) # cs'" using ok by (cases cs) auto
  show ?thesis
  proof (cases cs')
    case (Cons e cs'')
    then have "collapse_root f (t\<lparr>bpm := b\<rparr>) = (Inr (), t\<lparr>root_page_id := root_id (Node p cs), bpm := b\<rparr>)"
      using data inner_nodeD(6) [OF d(2)] c root by (simp add: collapse_root_def)
    moreover have "located (Node p cs) [] h key_min key_max" using ok cs c Cons by (simp add: located_def)
    then have "shrunk S [] (Node p cs) S (fill (Node p cs) [])" using shrunk_refl [of S "Node p cs" "[]"] T by simp
    ultimately show ?thesis using st keeps_refl [of b] by (metis fill.simps(1))
  next
    case Nil
    have v: "sat S (desc p INVALID_PAGE_ID v)" "distinct (ids v)" "p \<notin> set (ids v)" "INVALID_PAGE_ID \<notin> set (ids v)"
      using T c Nil by (auto simp: tree_in_def)
    obtain dv where dv: "S (root_id v) = Some dv" "node_ok (root_id v) (root_desc p INVALID_PAGE_ID v) dv"
      by (rule sat_root [OF v(1)])
    let ?d = "SetParentPageId INVALID_PAGE_ID dv"
    obtain g b1 b2 where b: "FetchPage (root_id v) b = (Inr (Some g), b1)" "page_data b1 g = dv"
      "UnpinPage (root_id v) True (put_data g ?d b1) = (Inr True, b2)" "pool_st b2 (S(root_id v \<mapsto> ?d)) P"
      "frames b2 = frames b" "\<And>q y. held b q y \<Longrightarrow> held b2 q y"
      using pp.change [OF st dv(1) room SetParent_length [OF node_ok_header(3) [OF dv(2)]]] by blast
    have val: "node_read f (\<lambda>d. Internal_ValueAt d 0) (t\<lparr>bpm := b\<rparr>) = (Inr (root_id v), t\<lparr>bpm := b\<rparr>)"
      by (rule read_at [OF st f d(1)]) (use inner_node_entry(3) [OF d(2), of 0] c in simp)
    have del: "DeletePage p b2 = (Inr False, b2)" by (rule pp.del_pinned [OF b(6) [OF f]])
    have "collapse_root f (t\<lparr>bpm := b\<rparr>) = (Inr (), t\<lparr>root_page_id := root_id v, bpm := b2\<rparr>)"
      using data inner_nodeD(2,6) [OF d(2)] c Nil root val b(1-3) del
      by (simp add: collapse_root_def bind_def ix_def set_root_def node_data_def)
    moreover have "shrunk S [] (Node p cs) (S(root_id v \<mapsto> ?d)) v"
    proof -
      have "tree_in (S(root_id v \<mapsto> ?d)) v"
        using sat_set_parent [OF v(1,2) dv(1), of INVALID_PAGE_ID] v(2,4) by (simp add: tree_in_def)
      moreover have "\<exists>h. tree_ok h v" using ok cs(1) c Nil sized_False by (auto simp: tree_ok_def)
      ultimately show ?thesis using c Nil root_neq [of _ v] by (auto simp: shrunk_def)
    qed
    ultimately show ?thesis using b(4-6) unfolding keeps_def by blast
  qed
qed

section \<open>HandleUnderflow\<close>

text \<open>What the node is that \<open>HandleUnderflow\<close> is called for: the root may have any number of children.\<close>

definition lacking :: "step list \<Rightarrow> bt \<Rightarrow> bool" where
  "lacking c u \<longleftrightarrow> (if c = [] then \<exists>p cs. u = Node p cs \<and> length cs \<le> 338 \<and> forest_sized cs else thin u)"

definition underflow_ok :: "step list \<Rightarrow> bool" where
  "underflow_ok c \<longleftrightarrow> (\<forall>u f t b S P h lo hi.
     tree_in S (fill u c) \<longrightarrow> path_ok h lo hi c \<longrightarrow> path_sized c \<longrightarrow> bt_ok h lo hi u \<longrightarrow> lacking c u \<longrightarrow>
     pool_st b S P \<longrightarrow> held b (root_id u) f \<longrightarrow> (\<forall>q \<in> set (path_ids c). P q = 0) \<longrightarrow>
     root_page_id t = root_id (fill u c) \<longrightarrow> npin P + length c + 2 \<le> frames b \<longrightarrow>
     (\<exists>b' S' T. HandleUnderflow f (t\<lparr>bpm := b\<rparr>) = Some (Inr (), t\<lparr>root_page_id := root_id T, bpm := b'\<rparr>) \<and>
       shrunk S c u S' T \<and> pool_st b' S' P \<and> keeps b b'))"

lemma underflow_root: "underflow_ok []"
  unfolding underflow_ok_def
proof (intro allI impI)
  fix u f b and t :: bplus_tree and S P h lo hi
  assume a: "tree_in S (fill u [])" "path_ok h lo hi []" "bt_ok h lo hi u" "lacking [] u" "pool_st b S P"
    "held b (root_id u) f" "root_page_id t = root_id (fill u [])" "npin P + length [] + 2 \<le> frames b"
  obtain p cs where u: "u = Node p cs" "length cs \<le> 338" "forest_sized cs" using a(4) by (auto simp: lacking_def)
  obtain d where d: "S p = Some d" "inner_node p INVALID_PAGE_ID (child_ids cs) d" using a(1) u(1) by (auto simp: tree_in_def)
  have "IsRootPage (node_data f (t\<lparr>bpm := b\<rparr>))"
    using data_at [OF a(5,6), of d t] d inner_nodeD(5) [OF d(2)] u(1) by (simp add: IsRootPage_def)
  then show "\<exists>b' S' T. HandleUnderflow f (t\<lparr>bpm := b\<rparr>) = Some (Inr (), t\<lparr>root_page_id := root_id T, bpm := b'\<rparr>) \<and>
       shrunk S [] u S' T \<and> pool_st b' S' P \<and> keeps b b'"
    using collapse_root_ok [of S p cs h b P f t] a u by (subst HandleUnderflow.simps) simp
qed

text \<open>The node after a merge, which is the parent: it lacks an entry itself, or the repair is finished.\<close>

lemma underflow_up:
  assumes IH: "underflow_ok c" and T: "tree_in S (fill (Node p cs) c)" "bt_ok (Suc h) lo hi (Node p cs)" "forest_sized cs"
    and c: "path_ok (Suc h) lo hi c" "path_sized c" "length cs \<le> 337" "(if c = [] then 1 else 168) \<le> length cs"
    and st: "pool_st b S P" and fp: "held b p f" and idle: "\<forall>q \<in> set (path_ids c). P q = 0"
    and root: "root_page_id t = root_id (fill (Node p cs) c)" and room: "npin P + length c + 2 \<le> frames b"
  shows "\<exists>b' S' T. (if GetSize (node_data f (t\<lparr>bpm := b\<rparr>)) < half (GetMaxSize (node_data f (t\<lparr>bpm := b\<rparr>)))
       then HandleUnderflow f (t\<lparr>bpm := b\<rparr>) else Some (Inr (), t\<lparr>bpm := b\<rparr>))
       = Some (Inr (), t\<lparr>root_page_id := root_id T, bpm := b'\<rparr>) \<and>
     shrunk S c (Node p cs) S' T \<and> pool_st b' S' P \<and> keeps b b'"
proof -
  obtain d where d: "S p = Some d" "inner_node p (path_par c) (child_ids cs) d"
    using T(1) by (auto simp: tree_in_def sat_fill)
  have size: "GetSize (node_data f (t\<lparr>bpm := b\<rparr>)) = int (length cs)" "half (GetMaxSize (node_data f (t\<lparr>bpm := b\<rparr>))) = 169"
    using data_at [OF st fp d(1), of t] inner_nodeD(3,6) [OF d(2)] by (simp_all add: half_def)
  show ?thesis
  proof (cases "length cs < 169")
    case True
    then have "lacking c (Node p cs)" using T(3) c(4) by (auto simp: lacking_def split: if_splits)
    from IH [unfolded underflow_ok_def, rule_format, OF T(1) c(1,2) T(2) this st _ idle [rule_format] root room, of f] fp
    show ?thesis using size True by simp
  next
    case False
    then have "located (Node p cs) c (Suc h) lo hi" using T(2,3) c by (auto simp: located_def)
    from shrunk_refl [OF T(1) this] have "shrunk S c (Node p cs) S (fill (Node p cs) c)" .
    moreover have "t\<lparr>bpm := b\<rparr> = t\<lparr>root_page_id := root_id (fill (Node p cs) c), bpm := b\<rparr>" using root by simp
    ultimately show ?thesis using size False st keeps_refl [of b] by (metis not_le of_nat_le_iff of_nat_numeral)
  qed
qed

lemma underflow_step:
  assumes IH: "underflow_ok c"
  shows "underflow_ok ((p, ls, k, rs) # c)"
  unfolding underflow_ok_def
proof (intro allI impI)
  fix u f b and t :: bplus_tree and S P h lo0 hi0
  let ?c = "(p, ls, k, rs) # c"
  assume a: "tree_in S (fill u ?c)" "path_ok h lo0 hi0 ?c" "path_sized ?c" "bt_ok h lo0 hi0 u" "lacking ?c u"
    and st: "pool_st b S P" and f: "held b (root_id u) f" and idle: "\<forall>q \<in> set (path_ids ?c). P q = 0"
    and root: "root_page_id t = root_id (fill u ?c)" and room: "npin P + length ?c + 2 \<le> frames b"
  obtain lo hi where ab: "path_ok (Suc h) lo hi c" "forest_ok h lo hi (ls @ (k, u) # rs)"
    using a(2,4) unfolding path_ok.simps forest_ok_mid by blast
  have df: "deficit S P h lo hi p ls k rs c u"
    using a ab idle by (simp add: deficit_def lacking_def)
  have s: "sat S (desc p (next_leaf (path_next c) rs) u)" "p \<noteq> INVALID_PAGE_ID" "root_id u \<notin> set (forest_ids ls)" "p \<in> dom S" "P p = 0"
    using a(1) idle root_in_ids [of u] by (auto simp: tree_in_def sat_fill distinct_ids_fill set_ids_fill simp del: root_in_ids)
  obtain d where d: "S p = Some d" "inner_node p (path_par c) (child_ids ls @ (k, root_id u) # child_ids rs) d"
    using a(1) by (auto simp: tree_in_def sat_fill)
  obtain du where du: "S (root_id u) = Some du" "node_ok (root_id u) (root_desc p (next_leaf (path_next c) rs) u) du"
    by (rule sat_root [OF s(1)])
  note du0 = data_at [OF st f du(1), of t] and hdr = node_ok_header [OF du(2)]
  have rt: "\<not> IsRootPage (node_data f (t\<lparr>bpm := b\<rparr>))" "GetParentPageId (node_data f (t\<lparr>bpm := b\<rparr>)) = p"
    using du0 hdr s(2) by (simp_all add: IsRootPage_def)
  define P1 where "P1 = P(p := 1)"
  have room0: "npin P < frames b" "npin P + 3 \<le> frames b" using room by simp_all
  obtain fp b1 where b1: "FetchPage p b = (Inr (Some fp), b1)" "pool_st b1 S P1" "held b1 p fp" "keeps b b1"
    using pp.fetch_ok [OF st s(4) room0(1)] s(5) unfolding keeps_def P1_def by fastforce
  note f1 = keeps_held [OF b1(4) f]
  have v: "root_id u \<notin> snd ` set (child_ids ls)" using s(3) child_ids_subset [of ls] by blast
  have idx: "node_read fp (\<lambda>d. inner_find_value d (Node_GetPageId (node_data f (t\<lparr>bpm := b1\<rparr>))) 0) (t\<lparr>bpm := b1\<rparr>)
      = (Inr (int (length ls)), t\<lparr>bpm := b1\<rparr>)"
    by (rule read_at [OF b1(2,3) d(1)]) (use data_at [OF b1(2) f1 du(1), of t] hdr(1) inner_find [OF d(2) v] in simp)
  obtain b2 r where b2: "(if 0 < int (length ls) then try_redistribute f fp p (int (length ls)) (int (length ls) - 1) True else ret False)
       (t\<lparr>bpm := b1\<rparr>) = (Inr r, t\<lparr>bpm := b2\<rparr>)"
     "attempt r S P p ?c u b b1 b2 (ls \<noteq> [] \<longrightarrow> mergeable (snd (last ls)) u)"
    using attempt_left [OF df st b1(2) [unfolded P1_def] b1(3) f1 b1(4) room0(2), of t] by blast
  note unf = HandleUnderflow.simps [of f "t\<lparr>bpm := b\<rparr>"]
  show "\<exists>b' S' T. HandleUnderflow f (t\<lparr>bpm := b\<rparr>) = Some (Inr (), t\<lparr>root_page_id := root_id T, bpm := b'\<rparr>) \<and>
       shrunk S ?c u S' T \<and> pool_st b' S' P \<and> keeps b b'"
  proof (cases r)
    case True
    then obtain S' T where T: "shrunk S ?c u S' T" "root_id T = root_page_id t" "pool_st b2 S' P" "keeps b b2"
      using b2(2) root by (auto simp: attempt_def)
    have "HandleUnderflow f (t\<lparr>bpm := b\<rparr>) = Some (Inr (), t\<lparr>bpm := b2\<rparr>)"
      using rt b1(1) idx b2(1) True by (subst unf) simp
    moreover have "t\<lparr>bpm := b2\<rparr> = t\<lparr>root_page_id := root_id T, bpm := b2\<rparr>" using T(2) by simp
    ultimately show ?thesis using T by metis
  next
    case False
    then have L: "pool_st b2 S P1" "keeps b1 b2" "ls \<noteq> [] \<longrightarrow> mergeable (snd (last ls)) u"
      using b2(2) by (simp_all add: attempt_def P1_def)
    note k2 = keeps_trans [OF b1(4) L(2)]
    note h2 = keeps_held [OF L(2) b1(3)] keeps_held [OF L(2) f1]
    have size: "GetSize (node_data fp (t\<lparr>bpm := b2\<rparr>)) - 1 = int (length ls + length rs)"
      using data_at [OF L(1) h2(1) d(1), of t] inner_nodeD(6) [OF d(2)] by simp
    obtain b3 r2 where b3: "(if int (length ls) < int (length ls + length rs)
         then try_redistribute f fp p (int (length ls)) (int (length ls) + 1) False else ret False)
         (t\<lparr>bpm := b2\<rparr>) = (Inr r2, t\<lparr>bpm := b3\<rparr>)"
       "attempt r2 S P p ?c u b b2 b3 (rs \<noteq> [] \<longrightarrow> mergeable u (snd (hd rs)))"
      using attempt_right [OF df st L(1) [unfolded P1_def] h2 k2 room0(2), of t] by blast
    show ?thesis
    proof (cases r2)
      case True
      then obtain S' T where T: "shrunk S ?c u S' T" "root_id T = root_page_id t" "pool_st b3 S' P" "keeps b b3"
        using b3(2) root by (auto simp: attempt_def)
      have "HandleUnderflow f (t\<lparr>bpm := b\<rparr>) = Some (Inr (), t\<lparr>bpm := b3\<rparr>)"
        using rt b1(1) idx b2(1) False size b3(1) True by (subst unf) simp
      moreover have "t\<lparr>bpm := b3\<rparr> = t\<lparr>root_page_id := root_id T, bpm := b3\<rparr>" using T(2) by simp
      ultimately show ?thesis using T by metis
    next
      case r2: False
      then have R: "pool_st b3 S P1" "keeps b2 b3" "rs \<noteq> [] \<longrightarrow> mergeable u (snd (hd rs))"
        using b3(2) by (simp_all add: attempt_def P1_def)
      note k3 = keeps_trans [OF k2 R(2)]
      note h3 = keeps_held [OF R(2) h2(1)] keeps_held [OF R(2) h2(2)]
      have room3: "npin P + 3 \<le> frames b3" using room0(2) keeps_frames [OF k3] by simp
      obtain b4 S4 cs where b4: "merge_with_sibling f fp (int (length ls)) (t\<lparr>bpm := b3\<rparr>) = Some (Inr (), t\<lparr>bpm := b4\<rparr>)"
        "pool_st b4 S4 P1" "keeps b3 b4" "tree_in S4 (fill (Node p cs) c)" "bt_ok (Suc h) lo hi (Node p cs)"
        "forest_sized cs" "length cs = length ls + length rs"
        "\<forall>S' T. shrunk S4 c (Node p cs) S' T \<longrightarrow> shrunk S ?c u S' T"
        using merge_step [OF df R(1) [unfolded P1_def] h3 room3, of t] L(3) R(3) unfolding P1_def by blast
      note k4 = keeps_trans [OF k3 b4(3)]
      note h4 = keeps_held [OF b4(3) h3(1)]
      have idle1: "\<forall>q \<in> set (path_ids c). P1 q = 0" "p \<notin> set (path_ids c)"
        using idle a(1) by (auto simp: P1_def tree_in_def distinct_ids_fill)
      have rt4: "root_page_id t = root_id (fill (Node p cs) c)"
        using root node_root_id [of "Node p (ls @ (k, u) # rs)" "Node p cs" c] by simp
      have room4: "npin P1 + length c + 2 \<le> frames b4"
        using npin_upd_le [of P p 1] room keeps_frames [OF k4] by (simp add: P1_def)
      have sz: "path_sized c" "length cs \<le> 337" "(if c = [] then 1 else 168) \<le> length cs"
        using a(3) b4(7) by (auto split: if_splits)
      obtain b5 S5 T where b5: "(if GetSize (node_data fp (t\<lparr>bpm := b4\<rparr>)) < half (GetMaxSize (node_data fp (t\<lparr>bpm := b4\<rparr>)))
         then HandleUnderflow fp (t\<lparr>bpm := b4\<rparr>) else Some (Inr (), t\<lparr>bpm := b4\<rparr>))
         = Some (Inr (), t\<lparr>root_page_id := root_id T, bpm := b5\<rparr>)"
        "shrunk S4 c (Node p cs) S5 T" "pool_st b5 S5 P1" "keeps b4 b5"
        using underflow_up [OF IH b4(4-6) ab(1) sz b4(2) h4 idle1(1) rt4 room4] by blast
      have P1: "P1(p := P1 p - 1) = P" using s(5) by (auto simp: P1_def)
      obtain b6 where b6: "UnpinPage p True b5 = (Inr True, b6)" "pool_st b6 S5 P" "frames b6 = frames b5"
        "\<forall>q y. held b5 q y \<and> q \<noteq> p \<longrightarrow> held b6 q y"
        using pp.unpin_ok [OF b5(3) keeps_held [OF b5(4) h4], of True] unfolding P1 by auto
      note k5 = keeps_trans [OF k4 b5(4)]
      have "keeps b b6" unfolding keeps_def
      proof (intro conjI allI impI)
        fix q y assume h: "held b q y"
        then have "q \<noteq> p" using pp.hold_pins [OF st h] s(5) by auto
        then show "held b6 q y" using b6(4) keeps_held [OF k5 h] by blast
      qed (use b6(3) keeps_frames [OF k5] in simp)
      moreover have "HandleUnderflow f (t\<lparr>bpm := b\<rparr>) = Some (Inr (), t\<lparr>root_page_id := root_id T, bpm := b6\<rparr>)"
        using rt b1(1) idx b2(1) False size b3(1) r2 b4(1) b5(1) b6(1) by (subst unf) simp
      ultimately show ?thesis using b4(8) b5(2) b6(2) by blast
    qed
  qed
qed

lemma underflow_all: "underflow_ok c"
proof (induction c)
  case (Cons e c)
  then show ?case using underflow_step by (cases e) auto
qed (rule underflow_root)

section \<open>Delete\<close>

lemma map_of_fill_del:
  assumes "path_ok 0 lo hi c" "lo \<le> sint key" "sint key < hi"
  shows "map_of (path_left c @ del_entry key es @ path_right c) = (map_of (path_left c @ es @ path_right c))(key := None)"
proof -
  have n: "key \<notin> fst ` set (path_left c)" "key \<notin> fst ` set (path_right c)" using path_bounds [OF assms(1)] assms(2,3) by force+
  then have "del_entry key (path_left c) = path_left c" "del_entry key (path_right c) = path_right c"
    by (auto simp: del_entry_def filter_id_conv)
  then have "path_left c @ del_entry key es @ path_right c = del_entry key (path_left c @ es @ path_right c)"
    by (simp add: del_entry_def)
  then show ?thesis by (simp only: map_of_del_entry)
qed

lemma fill_not_Leaf: "c \<noteq> [] \<Longrightarrow> fill u c \<noteq> Leaf q es"
proof (induction u c rule: fill.induct)
  case (2 t p ls k rs c)
  then show ?case by (cases "c = []") auto
qed simp

lemma length_del_entry:
  assumes "sorted_keys es" "key \<in> fst ` set es"
  shows "Suc (length (del_entry key es)) = length es"
proof -
  obtain i where i: "i < length es" "fst (es ! i) = key" using assms(2) by (auto simp: in_set_conv_nth)
  show ?thesis unfolding del_entry_nth [OF assms(1) i] using i(1) by simp
qed

lemma located_del:
  assumes "located (Leaf q es) c 0 lo hi" "c = [] \<or> 126 \<le> length (del_entry key es)"
  shows "located (Leaf q (del_entry key es)) c 0 lo hi"
proof -
  have "length (del_entry key es) \<le> length es" by (simp add: del_entry_def)
  then show ?thesis using assms by (auto simp: located_def intro: sorted_del_entry) (auto simp: del_entry_def)
qed

text \<open>The outcome of an operation that may only give up pages.\<close>

lemma shrunk_frame:
  assumes "dom S1 = dom S" "set (path_ids c) \<union> set (ids u) = A" "A \<subseteq> dom S" "\<forall>q. q \<notin> A \<longrightarrow> S1 q = S q" "shrunk S1 c u S' T"
  shows "index_frame S A S' (set (ids T))" "takes_ids 0 S S'"
proof -
  have out: "S' q = S q" if "q \<notin> A" for q using assms(2,4,5) that unfolding shrunk_def by metis
  moreover have "set (ids T) \<subseteq> A" using assms(2,5) unfolding shrunk_def by blast
  ultimately show "index_frame S A S' (set (ids T))" by (auto simp: index_frame_def)
  have "dom S' \<subseteq> dom S"
  proof
    fix q assume "q \<in> dom S'"
    then show "q \<in> dom S" using out assms(3) by (cases "q \<in> A") auto
  qed
  then show "takes_ids 0 S S'" by (rule takes_ids_dom)
qed

lemma delete_from_leaf_ok:
  assumes found: "leaf_found key S P T b f q es c lo hi" and rep: "index_tree t S P h T" and room: "npin P + 8 \<le> frames b"
  shows "\<exists>t' S' P' A'. delete_from_leaf f key (t\<lparr>bpm := b\<rparr>) = Some (Inr (key \<in> fst ` set es), t') \<and>
     index_rep t' S' P' A' ((map_of (entries T))(key := None)) \<and> A' \<subseteq> set (ids T) \<and> index_frame S (set (ids T)) S' A' \<and>
     takes_ids 0 S S' \<and> frames (bpm t') = frames b \<and>
     (if key \<in> fst ` set es \<and> T = Leaf q es \<and> length es = 1 then IsEmpty t' \<and> P' = P(q := 1) else P' = P)"
proof -
  note R = index_treeD [OF rep]
  have F: "T = fill (Leaf q es) c" "located (Leaf q es) c 0 lo hi" "lo \<le> sint key" "sint key < hi"
    "pool_st b S (P(q := 1))" "P q = 0" "held b q f" "synced b q" using found by (auto simp: leaf_found_def)
  obtain d where d: "S q = Some d" "leaf_node q (path_par c) (path_next c) es d" "sorted_keys es"
    by (rule leaf_found_data [OF found R(2), of "t\<lparr>bpm := b\<rparr>"]) auto
  let ?es = "del_entry key es" and ?k = "key \<in> fst ` set es" and ?P1 = "P(q := 1)" and ?A = "set (ids T)"
  obtain d' where d': "Leaf_Remove key d = Some (?k, d')" "leaf_node q (path_par c) (path_next c) ?es d'" "\<not> ?k \<longrightarrow> d' = d"
    using leaf_remove_eq [OF d(2,3)] by blast
  define S1 where "S1 = S(q \<mapsto> d')"
  obtain b1 where b1: "node_op f (Leaf_Remove key) (t\<lparr>bpm := b\<rparr>) = (Inr ?k, t\<lparr>bpm := b1\<rparr>)" "pool_st b1 S1 ?P1" "keeps b b1"
    unfolding S1_def by (rule op_at [OF F(5,7) d(1), of "Leaf_Remove key" ?k d' t]) (use d'(1) leaf_nodeD(1) [OF d'(2)] in auto)
  note f1 = keeps_held [OF b1(3) F(7)] and fr1 = keeps_frames [OF b1(3)]
  have S1: "S1 q = Some d'" "dom S1 = dom S" "\<forall>x. x \<notin> ?A \<longrightarrow> S1 x = S x"
    using d(1) by (auto simp: S1_def F(1) set_ids_fill)
  note data1 = data_at [OF b1(2) f1 S1(1), of t]
  have qA: "q \<in> ?A" "?A \<subseteq> dom S" "set (path_ids c) \<union> set (ids (Leaf q ?es)) = ?A"
    using tree_in_dom [OF R(2)] by (auto simp: F(1) set_ids_fill)
  have T1: "tree_in S1 (fill (Leaf q ?es) c)" unfolding S1_def using tree_in_upd_leaf [OF _ d'(2)] R(2) F(1) by simp
  have M: "map_of (path_left c @ ?es @ path_right c) = (map_of (entries T))(key := None)"
    using map_of_fill_del [of lo hi c key es] F(2-4) by (simp add: located_def F(1) entries_fill)
  have root: "root_id (fill (Leaf q ?es) c) = root_page_id t" using R(1) F(1) node_root_id [of "Leaf q es" "Leaf q ?es" c] by simp
  have isroot: "IsRootPage d' \<longleftrightarrow> c = []"
    using leaf_nodeD(5) [OF d'(2)] R(2) unfolding F(1)
    by (cases c) (auto simp: IsRootPage_def tree_in_def distinct_ids_fill set_ids_fill)
  have P1: "?P1(q := ?P1 q - 1) = P" using F(6) by auto
  \<comment> \<open>the leaf is unpinned as dirty when the tree is well-formed again\<close>
  have fin: "\<exists>t' S' P' A'. delete_from_leaf f key (t\<lparr>bpm := b\<rparr>) = Some (Inr ?k, t') \<and>
     index_rep t' S' P' A' ((map_of (entries T))(key := None)) \<and> A' \<subseteq> ?A \<and> index_frame S ?A S' A' \<and>
     takes_ids 0 S S' \<and> frames (bpm t') = frames b \<and>
     (if ?k \<and> T = Leaf q es \<and> length es = 1 then IsEmpty t' \<and> P' = P(q := 1) else P' = P)"
    if run: "delete_from_leaf f key (t\<lparr>bpm := b\<rparr>) = always (bind (unpin_frame f True) (\<lambda>_. ret True)) (t\<lparr>root_page_id := root_id T', bpm := b2\<rparr>)"
      and st: "pool_st b2 S' ?P1" "keeps b1 b2" and sh: "shrunk S1 c (Leaf q ?es) S' T'" and k: "?k"
      and nl: "\<not> (c = [] \<and> length es = 1)" for b2 S' T'
  proof -
    note f2 = keeps_held [OF st(2) f1]
    obtain b3 where b3: "UnpinPage q True b2 = (Inr True, b3)" "pool_st b3 S' P" "frames b3 = frames b2"
      using pp.unpin_ok [OF st(1) f2, of True] unfolding P1 by auto
    have "unpin_frame f True (t\<lparr>root_page_id := root_id T', bpm := b2\<rparr>) = (Inr True, t\<lparr>root_page_id := root_id T', bpm := b3\<rparr>)"
      using unpin_frame_step [of "t\<lparr>root_page_id := root_id T', bpm := b2\<rparr>" S' ?P1 q f True] st(1) f2 b3(1) by simp
    then have r: "delete_from_leaf f key (t\<lparr>bpm := b\<rparr>) = Some (Inr True, t\<lparr>root_page_id := root_id T', bpm := b3\<rparr>)"
      using run by simp
    have sub: "set (ids T') \<subseteq> ?A" "tree_in S' T'" "\<exists>h. tree_ok h T'" "entries T' = path_left c @ ?es @ path_right c"
      using sh qA(3) by (simp_all add: shrunk_def)
    have "\<forall>p \<in> set (ids T'). P p = 0" using sub(1) R(4) by blast
    then have "index_rep (t\<lparr>root_page_id := root_id T', bpm := b3\<rparr>) S' P (set (ids T')) ((map_of (entries T))(key := None))"
      using index_rep_tree [OF b3(2) sub(2)] sub(3,4) M by metis
    moreover have "frames b3 = frames b" using b3(3) keeps_frames [OF st(2)] fr1 by simp
    moreover have "\<not> (T = Leaf q es \<and> length es = 1)" using nl F(1) fill_not_Leaf [of c "Leaf q es" q es] by auto
    ultimately show ?thesis
      using r k sub(1) shrunk_frame [OF S1(2) qA(3,2) S1(3) sh]
      by (intro exI [of _ "t\<lparr>root_page_id := root_id T', bpm := b3\<rparr>"] exI [of _ S'] exI [of _ P] exI [of _ "set (ids T')"]) auto
  qed
  have D: "delete_from_leaf f key (t\<lparr>bpm := b\<rparr>) = (if \<not> ?k then always (bind (unpin_frame f False) (\<lambda>_. ret False)) (t\<lparr>bpm := b1\<rparr>)
      else if c = [] then (if ?es = []
         then always (bind (ix (DeletePage (root_page_id t))) (\<lambda>_. bind (set_root INVALID_PAGE_ID) (\<lambda>_. ret True))) (t\<lparr>bpm := b1\<rparr>)
         else always (bind (unpin_frame f True) (\<lambda>_. ret True)) (t\<lparr>bpm := b1\<rparr>))
      else if 126 \<le> length ?es then always (bind (unpin_frame f True) (\<lambda>_. ret True)) (t\<lparr>bpm := b1\<rparr>)
      else pbind (HandleUnderflow f) (\<lambda>_. always (bind (unpin_frame f True) (\<lambda>_. ret True))) (t\<lparr>bpm := b1\<rparr>))"
    using b1(1) data1 isroot leaf_nodeD(3,7) [OF d'(2)] by (simp add: delete_from_leaf_def half_def)
  have keep: "t\<lparr>bpm := b1\<rparr> = t\<lparr>root_page_id := root_id (fill (Leaf q ?es) c), bpm := b1\<rparr>" using root by simp
  have sz: "length es \<le> 253" "c \<noteq> [] \<longrightarrow> 126 \<le> length es" using F(2) by (auto simp: located_def)
  consider "\<not> ?k" | "?k" "c = []" "?es = []" | "?k" "c = [] \<and> ?es \<noteq> [] \<or> c \<noteq> [] \<and> 126 \<le> length ?es"
    | "?k" "c \<noteq> []" "length ?es < 126" by linarith
  then show ?thesis
  proof cases
    case 1
    have same: "S1 = S" using d'(3) 1 d(1) by (auto simp: S1_def)
    have "put_data f d b = b" using put_data_same [of f b] data_at [OF F(5,7) d(1), of t] by (simp add: node_data_def)
    moreover have "node_op f (Leaf_Remove key) (t\<lparr>bpm := b\<rparr>) = (Inr False, t\<lparr>bpm := put_data f d b\<rparr>)"
      using d'(1,3) 1 data_at [OF F(5,7) d(1), of t] by simp
    ultimately have "t\<lparr>bpm := b1\<rparr> = t\<lparr>bpm := b\<rparr>" using b1(1) by simp
    then have bb: "b1 = b" by (metis bplus_tree.select_convs(2) bplus_tree.surjective bplus_tree.update_convs(2))
    obtain b2 where b2: "UnpinPage q False b = (Inr True, b2)" "pool_st b2 S P" "frames b2 = frames b"
      using pp.unpin_ok [OF F(5,7), of False] F(8) unfolding P1 by auto
    have "unpin_frame f False (t\<lparr>bpm := b\<rparr>) = (Inr True, t\<lparr>bpm := b2\<rparr>)"
      using unpin_frame_step [of "t\<lparr>bpm := b\<rparr>" S ?P1 q f False] F(5,7) b2(1) by simp
    then have r: "delete_from_leaf f key (t\<lparr>bpm := b\<rparr>) = Some (Inr False, t\<lparr>bpm := b2\<rparr>)" using D 1 bb by simp
    have "map_of (entries T) key = None" using leaf_found_entries [OF found] 1 by (simp add: map_of_eq_None_iff)
    then have "index_rep (t\<lparr>bpm := b2\<rparr>) S P ?A ((map_of (entries T))(key := None))"
      using index_rep_keep [OF rep b2(2)] by (simp add: fun_upd_idem)
    moreover have "takes_ids 0 S S" by (rule takes_ids_dom) simp
    ultimately show ?thesis using r 1 b2(3)
      by (intro exI [of _ "t\<lparr>bpm := b2\<rparr>"] exI [of _ S] exI [of _ P] exI [of _ ?A]) (auto simp: index_frame_def)
  next
    case 2
    have T: "T = Leaf q es" "length es = 1" "root_page_id t = q"
      using F(1) 2 length_del_entry [OF d(3) 2(1)] R(1) by auto
    have del: "DeletePage q b1 = (Inr False, b1)" by (rule pp.del_pinned [OF f1])
    let ?t = "t\<lparr>root_page_id := INVALID_PAGE_ID, bpm := b1\<rparr>"
    have r: "delete_from_leaf f key (t\<lparr>bpm := b\<rparr>) = Some (Inr True, ?t)"
      using D 2 T(3) del by (simp add: bind_def ix_def set_root_def)
    have "(map_of (entries T))(key := None) = Map.empty" using M 2 by simp
    then have "index_rep ?t S1 ?P1 {} ((map_of (entries T))(key := None))"
      using b1(2) by (simp add: index_rep_def IsEmpty_def)
    moreover have "index_frame S ?A S1 {}" using S1(3) by (auto simp: index_frame_def)
    moreover have "takes_ids 0 S S1" by (rule takes_ids_dom) (use S1(2) in simp)
    ultimately show ?thesis using r 2 T fr1
      by (intro exI [of _ ?t] exI [of _ S1] exI [of _ ?P1] exI [of _ "{}"]) (auto simp: IsEmpty_def)
  next
    case 3
    have "located (Leaf q ?es) c 0 lo hi" by (rule located_del [OF F(2)]) (use 3 in blast)
    from shrunk_refl [OF T1 this] have sh: "shrunk S1 c (Leaf q ?es) S1 (fill (Leaf q ?es) c)" .
    have run: "delete_from_leaf f key (t\<lparr>bpm := b\<rparr>) = always (bind (unpin_frame f True) (\<lambda>_. ret True))
        (t\<lparr>root_page_id := root_id (fill (Leaf q ?es) c), bpm := b1\<rparr>)"
      unfolding keep [symmetric] using D 3 by auto
    have "\<not> (c = [] \<and> length es = 1)" using 3 length_del_entry [OF d(3) 3(1)] by auto
    from fin [OF run b1(2) keeps_refl sh 3(1) this] show ?thesis .
  next
    case 4
    have th: "lacking c (Leaf q ?es)" using 4 length_del_entry [OF d(3) 4(1)] sz(2) by (auto simp: lacking_def)
    have L: "path_ok 0 lo hi c" "path_sized c" "bt_ok 0 lo hi (Leaf q ?es)"
      using F(2) by (auto simp: located_def intro: sorted_del_entry) (auto simp: del_entry_def)
    have c5: "length c \<le> 5"
      using depth_bound [of "length c" T] located_tree [OF F(2)] R(2) F(1) by (simp add: tree_in_def)
    have idle: "\<forall>x \<in> set (path_ids c). ?P1 x = 0"
      using R(2,4) F(1) by (auto simp: tree_in_def distinct_ids_fill set_ids_fill)
    have rm: "npin ?P1 + length c + 2 \<le> frames b1" using npin_upd_le [of P q 1] room c5 fr1 by simp
    obtain b2 S' T' where u: "HandleUnderflow f (t\<lparr>bpm := b1\<rparr>) = Some (Inr (), t\<lparr>root_page_id := root_id T', bpm := b2\<rparr>)"
      "shrunk S1 c (Leaf q ?es) S' T'" "pool_st b2 S' ?P1" "keeps b1 b2"
      using underflow_all [of c, unfolded underflow_ok_def, rule_format, OF T1 L th b1(2) _ idle [rule_format] root [symmetric] rm, of f] f1
      by auto
    have run: "delete_from_leaf f key (t\<lparr>bpm := b\<rparr>) = always (bind (unpin_frame f True) (\<lambda>_. ret True))
        (t\<lparr>root_page_id := root_id T', bpm := b2\<rparr>)"
      using D 4 u(1) by simp
    from fin [OF run u(3,4,2) 4(1)] 4(2) show ?thesis by simp
  qed
qed

text \<open>
  The removal of the last key leaves the root page pinned, because the code deletes it instead of
  unpinning it: its pin is added to those of the other clients.
\<close>

definition pins_after_delete :: "(page_id \<Rightarrow> int) \<Rightarrow> page_id \<Rightarrow> bool \<Rightarrow> (page_id \<Rightarrow> int) \<Rightarrow> bool" where
  "pins_after_delete P root emptied P' \<longleftrightarrow> (if emptied then P root = 0 \<and> P' = P(root := 1) else P' = P)"

lemma many_entries:
  "sized False t \<Longrightarrow> 126 \<le> length (entries t)" "forest_sized cs \<Longrightarrow> length cs * 126 \<le> length (forest_entries cs)"
  by (induction t and cs rule: ids_forest_ids.induct) auto

lemma small_tree:
  assumes "tree_ok h (fill (Leaf q es) c)" "length (entries (fill (Leaf q es) c)) \<le> 1"
  shows "c = []"
proof (rule ccontr)
  assume "c \<noteq> []"
  then obtain p cs where T: "fill (Leaf q es) c = Node p cs" using fill_not_Leaf [of c "Leaf q es"] by (cases "fill (Leaf q es) c") auto
  then have "2 \<le> length cs" "forest_sized cs" using assms(1) by (auto simp: tree_ok_def)
  then show False using many_entries(2) [of cs] assms(2) T by simp
qed

lemma delete_ok:
  assumes rep: "index_rep t S P A M" and room: "npin P + 8 \<le> frames (bpm t)"
  shows "\<exists>t' S' P' A'. BPlusTree_Delete key t = Some (Inr (M key \<noteq> None), t') \<and> index_rep t' S' P' A' (M(key := None)) \<and>
     A' \<subseteq> A \<and> index_frame S A S' A' \<and> takes_ids 0 S S' \<and> frames (bpm t') = frames (bpm t) \<and>
     pins_after_delete P (root_page_id t) (M key \<noteq> None \<and> M(key := None) = Map.empty) P' \<and>
     (M key \<noteq> None \<and> M(key := None) = Map.empty \<longrightarrow> IsEmpty t')"
proof (cases "IsEmpty t")
  case True
  then have "M = Map.empty" "A = {}" using rep by (auto simp: index_rep_def)
  moreover have "takes_ids 0 S S" by (rule takes_ids_dom) simp
  ultimately show ?thesis using rep True
    by (intro exI [of _ t] exI [of _ S] exI [of _ P] exI [of _ A])
      (simp add: BPlusTree_Delete_def index_frame_def pins_after_delete_def)
next
  case False
  then obtain h T where T: "pool_st (bpm t) S P" "index_tree t S P h T" "M = map_of (entries T)" "A = set (ids T)"
    using rep by (auto simp: index_rep_def)
  have "npin P < frames (bpm t)" using room by simp
  from find_leaf_ok [OF T(2,1) this] obtain f b q es c lo hi where f: "FindLeafPage key t = Some (Inr (Some f), t\<lparr>bpm := b\<rparr>)"
    "leaf_found key S P T b f q es c lo hi" "frames b = frames (bpm t)" by blast
  have Mk: "M key \<noteq> None \<longleftrightarrow> key \<in> fst ` set es" using leaf_found_entries [OF f(2)] T(3) by (metis map_of_eq_None_iff)
  have room': "npin P + 8 \<le> frames b" using room f(3) by simp
  have Mk': "key \<in> fst ` set es \<longleftrightarrow> M key \<noteq> None" using Mk by blast
  from delete_from_leaf_ok [OF f(2) T(2) room', unfolded Mk', folded T(3,4)] obtain t' S' P' A' where d:
    "delete_from_leaf f key (t\<lparr>bpm := b\<rparr>) = Some (Inr (M key \<noteq> None), t')" "index_rep t' S' P' A' (M(key := None))"
    "A' \<subseteq> A" "index_frame S A S' A'" "takes_ids 0 S S'" "frames (bpm t') = frames b"
    "if M key \<noteq> None \<and> T = Leaf q es \<and> length es = 1 then IsEmpty t' \<and> P' = P(q := 1) else P' = P"
    by blast
  have run: "BPlusTree_Delete key t = Some (Inr (M key \<noteq> None), t')" using False f(1) d(1) by (simp add: BPlusTree_Delete_def)
  have q: "P q = 0" using f(2) T(4) by (auto simp: leaf_found_def set_ids_fill)
  have "pins_after_delete P (root_page_id t) (M key \<noteq> None \<and> M(key := None) = Map.empty) P' \<and>
     (M key \<noteq> None \<and> M(key := None) = Map.empty \<longrightarrow> IsEmpty t')"
  proof (cases "M key \<noteq> None \<and> T = Leaf q es \<and> length es = 1")
    case True
    then have "IsEmpty t'" "P' = P(q := 1)" "root_page_id t = q" using d(7) index_treeD(1) [OF T(2)] by auto
    moreover from this(1) have "M(key := None) = Map.empty" using d(2) by (simp add: index_rep_def)
    ultimately show ?thesis using q True by (auto simp: pins_after_delete_def)
  next
    case no: False
    then have P': "P' = P" using d(7) by metis
    have "\<not> (M key \<noteq> None \<and> M(key := None) = Map.empty)"
    proof
      assume a: "M key \<noteq> None \<and> M(key := None) = Map.empty"
      then have none: "M(key := None) = Map.empty" by blast
      obtain e where e: "e \<in> set es" "fst e = key" using a Mk by auto
      have srt: "sorted_keys (entries T)" using index_treeD(3) [OF T(2)] ok_sorted(1) unfolding tree_ok_def by blast
      have all: "fst x = key" if "x \<in> set (entries T)" for x
      proof (rule ccontr)
        assume "fst x \<noteq> key"
        moreover have "M (fst x) \<noteq> None" using that T(3) by (auto simp: map_of_eq_None_iff)
        ultimately show False using fun_cong [OF none, of "fst x"] by simp
      qed
      have "length (entries T) \<le> 1"
      proof (cases "entries T")
        case (Cons x xs)
        then have "xs = []" using all srt by (cases xs) (auto simp: sorted_keys_Cons)
        then show ?thesis using Cons by simp
      qed simp
      moreover have tc: "T = fill (Leaf q es) c" using f(2) by (simp add: leaf_found_def)
      ultimately have "c = []" using small_tree index_treeD(3) [OF T(2)] by metis
      then have "T = Leaf q es" "length es = 1" using tc \<open>length (entries T) \<le> 1\<close> e(1) by (cases es; auto)+
      then show False using no a by blast
    qed
    then show ?thesis using P' by (auto simp: pins_after_delete_def)
  qed
  then show ?thesis using run d(2-6) f(3) by (intro exI [of _ t'] exI [of _ S'] exI [of _ P'] exI [of _ A']) simp
qed

end
