(* ===== verification/BPlus_Iter.thy ===== *)
theory BPlus_Iter
  imports BPlus_Delete
begin

text \<open>
  Iteration over the index. The leaves form a chain through their next ids (\<open>leaf_chain\<close>), in the
  order of the tree; \<open>collect\<close> is the client that dereferences and increments an iterator. From
  \<open>Begin\<close> it sees every entry once, in key order, and ends at \<open>End\<close> with all pins released.
\<close>

section \<open>The chain of leaves\<close>

type_synonym leaf_view = "page_id \<times> leaf_entry list"

fun leaves :: "bt \<Rightarrow> leaf_view list" and forest_leaves :: "(64 word \<times> bt) list \<Rightarrow> leaf_view list" where
  "leaves (Leaf p es) = [(p, es)]"
| "leaves (Node p cs) = forest_leaves cs"
| "forest_leaves [] = []"
| "forest_leaves ((k, t) # cs) = leaves t @ forest_leaves cs"

fun head_id :: "page_id \<Rightarrow> leaf_view list \<Rightarrow> page_id" where
  "head_id nxt [] = nxt"
| "head_id nxt ((p, es) # ls) = p"

fun leaf_chain :: "(page_id \<rightharpoonup> byte list) \<Rightarrow> page_id \<Rightarrow> leaf_view list \<Rightarrow> bool" where
  "leaf_chain S nxt [] \<longleftrightarrow> True"
| "leaf_chain S nxt ((p, es) # ls) \<longleftrightarrow>
     (\<exists>d par. S p = Some d \<and> leaf_node p par (head_id nxt ls) es d) \<and> leaf_chain S nxt ls"

definition chain_entries :: "leaf_view list \<Rightarrow> leaf_entry list" where
  "chain_entries ls = concat (map snd ls)"

lemma chain_entries_simps [simp]:
  "chain_entries [] = []" "chain_entries ((p, es) # ls) = es @ chain_entries ls"
  "chain_entries (xs @ ys) = chain_entries xs @ chain_entries ys"
  by (simp_all add: chain_entries_def)

lemma head_id_append: "head_id nxt (xs @ ys) = head_id (head_id nxt ys) xs"
  by (cases xs) auto

lemma leaf_chain_append: "leaf_chain S nxt (xs @ ys) \<longleftrightarrow> leaf_chain S (head_id nxt ys) xs \<and> leaf_chain S nxt ys"
  by (induction S nxt xs rule: leaf_chain.induct) (auto simp: head_id_append)

lemma entries_leaves: "chain_entries (leaves t) = entries t" "chain_entries (forest_leaves cs) = forest_entries cs"
  by (induction t and cs rule: ids_forest_ids.induct) auto

lemma leaves_ids: "fst ` set (leaves t) \<subseteq> set (ids t)" "fst ` set (forest_leaves cs) \<subseteq> set (forest_ids cs)"
  by (induction t and cs rule: ids_forest_ids.induct) auto

lemma leaves_head:
  "bt_ok h lo hi t \<Longrightarrow> leaves t \<noteq> [] \<and> head_id nxt (leaves t) = first_leaf t"
  "chain_ok h lo hi cs \<or> forest_ok h lo hi cs \<Longrightarrow>
     (cs \<noteq> [] \<longrightarrow> forest_leaves cs \<noteq> []) \<and> head_id nxt (forest_leaves cs) = next_leaf nxt cs"
proof (induction t and cs arbitrary: h lo hi nxt and h lo hi nxt rule: ids_forest_ids.induct)
  case (2 p cs)
  obtain h' where h': "forest_ok h' lo hi cs" using 2(2) by auto
  then have "cs \<noteq> []" by auto
  then show ?case using 2(1) [of h' lo hi nxt] h' first_leaf_Node [of cs p nxt] by simp
next
  case (4 k t cs)
  obtain m where "bt_ok h lo m t" using forest_or_chain [OF 4(3)] by blast
  then show ?case using 4(1) [of h lo m "head_id nxt (forest_leaves cs)"] by (simp add: head_id_append)
qed auto

lemma leaf_chain_tree:
  "bt_ok h lo hi t \<Longrightarrow> sat S (desc par nxt t) \<Longrightarrow> leaf_chain S nxt (leaves t)"
  "chain_ok h lo hi cs \<or> forest_ok h lo hi cs \<Longrightarrow> sat S (forest_desc par nxt cs) \<Longrightarrow> leaf_chain S nxt (forest_leaves cs)"
proof (induction t and cs arbitrary: h lo hi par nxt and h lo hi par nxt rule: ids_forest_ids.induct)
  case (2 p cs)
  obtain h' where "forest_ok h' lo hi cs" using 2(2) by auto
  then show ?case using 2(1) [OF disjI2, of h' lo hi p nxt] 2(3) by simp
next
  case (4 k t cs)
  obtain m where m: "bt_ok h lo m t" "chain_ok h m hi cs" using forest_or_chain [OF 4(3)] by blast
  have "head_id nxt (forest_leaves cs) = next_leaf nxt cs" using leaves_head(2) m(2) by blast
  then show ?case using 4(1) [OF m(1), of par "next_leaf nxt cs"] 4(2) [of h m hi par nxt] m(2) 4(4)
    by (simp add: leaf_chain_append)
qed auto

section \<open>A position of an iterator\<close>

definition positioned ::
  "(page_id \<rightharpoonup> byte list) \<Rightarrow> (page_id \<Rightarrow> int) \<Rightarrow> buffer_pool \<Rightarrow> BPlusTreeIterator \<Rightarrow> page_id \<Rightarrow> nat \<Rightarrow> bool" where
  "positioned S P b it p j \<longleftrightarrow>
     (\<exists>f. it = \<lparr>curr_page_id = p, curr_index = int j, curr_page = Some f\<rparr> \<and> held b p f) \<and>
     pool_st b S (P(p := 1)) \<and> synced b p \<and> P p = 0 \<and> p \<noteq> INVALID_PAGE_ID"

text \<open>A fresh iterator on an existing page.\<close>

lemma iterator_new_ok:
  assumes "pool_st b S P" "p \<in> dom S" "P p = 0" "p \<noteq> INVALID_PAGE_ID" "npin P < frames b"
  shows "\<exists>it b'. Iterator_new p (int j) b = (Inr it, b') \<and> positioned S P b' it p j \<and> frames b' = frames b"
proof -
  obtain f b' where b': "FetchPage p b = (Inr (Some f), b')" "pool_st b' S (P(p := P p + 1))" "held b' p f"
    "frames b' = frames b" "\<forall>q. synced b q \<longrightarrow> synced b' q"
    using pp.fetch_ok [OF assms(1,2,5)] by blast
  have "synced b' p" using b'(5) pp.clean_idle [OF assms(1,3)] by blast
  then have "positioned S P b' \<lparr>curr_page_id = p, curr_index = int j, curr_page = Some f\<rparr> p j"
    using b'(2,3) assms(3,4) by (simp add: positioned_def)
  then show ?thesis using b'(1,4) assms(4) by (simp add: Iterator_new_def)
qed

lemma deref_ok:
  assumes "positioned S P b it p j" "S p = Some d" "leaf_node p par nxt es d" "j < length es"
  shows "Iterator_deref it b = (Inr (es ! j), b)"
proof -
  obtain f where f: "it = \<lparr>curr_page_id = p, curr_index = int j, curr_page = Some f\<rparr>" "held b p f"
    using assms(1) by (auto simp: positioned_def)
  have "page_data b f = d" using pp.get_ok [OF _ f(2)] assms(1,2) by (fastforce simp: positioned_def)
  then show ?thesis using f(1) leaf_node_entry(1) [OF assms(3,4)] by (simp add: Iterator_deref_def)
qed

lemma next_within:
  assumes "positioned S P b it p j" "S p = Some d" "leaf_node p par nxt es d" "Suc j < length es"
  shows "\<exists>it'. Iterator_next it b = (Inr it', b) \<and> positioned S P b it' p (Suc j)"
proof -
  obtain f where f: "it = \<lparr>curr_page_id = p, curr_index = int j, curr_page = Some f\<rparr>" "held b p f" "p \<noteq> INVALID_PAGE_ID"
    using assms(1) by (auto simp: positioned_def)
  have "page_data b f = d" using pp.get_ok [OF _ f(2)] assms(1,2) by (fastforce simp: positioned_def)
  then have "Iterator_next it b = (Inr \<lparr>curr_page_id = p, curr_index = int (Suc j), curr_page = Some f\<rparr>, b)"
    using f leaf_nodeD(7) [OF assms(3)] assms(4) by (simp add: Iterator_next_def add.commute)
  then show ?thesis using assms(1) f by (auto simp: positioned_def)
qed

text \<open>Behind the last entry of a leaf: its pin is released, and the next leaf is pinned, if any.\<close>

lemma next_leaf_ok:
  assumes pos: "positioned S P b it p j" and p: "S p = Some d" "leaf_node p par nxt es d" "Suc j = length es"
    and room: "npin P < frames b" and nxt: "nxt \<noteq> INVALID_PAGE_ID \<Longrightarrow> nxt \<in> dom S \<and> P nxt = 0"
  shows "\<exists>it' b'. Iterator_next it b = (Inr it', b') \<and> frames b' = frames b \<and>
     (if nxt = INVALID_PAGE_ID then it' = \<lparr>curr_page_id = INVALID_PAGE_ID, curr_index = 0, curr_page = None\<rparr> \<and> pool_st b' S P
      else positioned S P b' it' nxt 0)"
proof -
  obtain f where f: "it = \<lparr>curr_page_id = p, curr_index = int j, curr_page = Some f\<rparr>" "held b p f"
    using pos by (auto simp: positioned_def)
  have st: "pool_st b S (P(p := 1))" "synced b p" "P p = 0" "p \<noteq> INVALID_PAGE_ID" using pos by (auto simp: positioned_def)
  have data: "page_data b f = d" using pp.get_ok [OF st(1) f(2)] p(1) by simp
  obtain b1 where b1: "UnpinPage p False b = (Inr True, b1)" "pool_st b1 S P" "frames b1 = frames b"
    using pp.unpin_ok [OF st(1) f(2), of False] st(2,3) by (auto simp: fun_upd_idem)
  have step: "Iterator_next it b = Iterator_new nxt 0 b1"
    using f(1) st(4) data leaf_nodeD(6,7) [OF p(2)] p(3) b1(1) by (simp add: Iterator_next_def)
  show ?thesis
  proof (cases "nxt = INVALID_PAGE_ID")
    case True
    then show ?thesis using step b1(2,3) by (simp add: Iterator_new_def)
  next
    case False
    then show ?thesis using iterator_new_ok [OF b1(2), of nxt 0] nxt room b1(3) step by auto
  qed
qed

section \<open>Collecting the entries\<close>

fun collect :: "nat \<Rightarrow> BPlusTreeIterator \<Rightarrow> (buffer_pool, leaf_entry list \<times> BPlusTreeIterator) comp" where
  "collect 0 it = ret ([], it)"
| "collect (Suc n) it =
     bind (Iterator_deref it) (\<lambda>e. bind (Iterator_next it) (\<lambda>it'.
     bind (collect n it') (\<lambda>r. ret (e # fst r, snd r))))"

lemma collect_chain:
  assumes "positioned S P b it p j" "leaf_chain S INVALID_PAGE_ID ((p, es) # ls)" "j < length es"
    "\<forall>l \<in> set ls. snd l \<noteq> [] \<and> P (fst l) = 0 \<and> fst l \<noteq> INVALID_PAGE_ID" "npin P < frames b"
  shows "\<exists>b'. collect (length (drop j es @ chain_entries ls)) it b =
       (Inr (drop j es @ chain_entries ls, \<lparr>curr_page_id = INVALID_PAGE_ID, curr_index = 0, curr_page = None\<rparr>), b') \<and>
     pool_st b' S P \<and> frames b' = frames b"
  using assms
proof (induction "length (drop j es @ chain_entries ls)" arbitrary: b it p j es ls)
  case 0
  then show ?case by simp
next
  case (Suc n)
  obtain d par where d: "S p = Some d" "leaf_node p par (head_id INVALID_PAGE_ID ls) es d"
    using Suc.prems(2) by auto
  note de = deref_ok [OF Suc.prems(1) d Suc.prems(3)]
  have dj: "drop j es = es ! j # drop (Suc j) es" using Suc.prems(3) by (simp add: Cons_nth_drop_Suc)
  show ?case
  proof (cases "Suc j < length es")
    case True
    obtain it' where it': "Iterator_next it b = (Inr it', b)" "positioned S P b it' p (Suc j)"
      using next_within [OF Suc.prems(1) d True] by blast
    have n: "n = length (drop (Suc j) es @ chain_entries ls)" using Suc.hyps(2) dj by simp
    from Suc.hyps(1) [OF n it'(2) Suc.prems(2) True Suc.prems(4,5)] obtain b' where b':
      "collect n it' b = (Inr (drop (Suc j) es @ chain_entries ls, \<lparr>curr_page_id = INVALID_PAGE_ID, curr_index = 0, curr_page = None\<rparr>), b')"
      "pool_st b' S P" "frames b' = frames b" unfolding n [symmetric] by blast
    have "collect (Suc n) it b = (Inr (drop j es @ chain_entries ls, \<lparr>curr_page_id = INVALID_PAGE_ID, curr_index = 0, curr_page = None\<rparr>), b')"
      using de it'(1) b'(1) dj by simp
    then show ?thesis using b'(2,3) unfolding Suc.hyps(2) by blast
  next
    case False
    then have last: "Suc j = length es" using Suc.prems(3) by simp
    have nx: "head_id INVALID_PAGE_ID ls \<in> dom S \<and> P (head_id INVALID_PAGE_ID ls) = 0"
      if "head_id INVALID_PAGE_ID ls \<noteq> INVALID_PAGE_ID"
      using that Suc.prems(2,4) by (cases ls) (auto split: prod.splits)
    obtain it' b1 where it': "Iterator_next it b = (Inr it', b1)" "frames b1 = frames b"
      "if head_id INVALID_PAGE_ID ls = INVALID_PAGE_ID
       then it' = \<lparr>curr_page_id = INVALID_PAGE_ID, curr_index = 0, curr_page = None\<rparr> \<and> pool_st b1 S P
       else positioned S P b1 it' (head_id INVALID_PAGE_ID ls) 0"
      using next_leaf_ok [OF Suc.prems(1) d last Suc.prems(5) nx] by blast
    show ?thesis
    proof (cases ls)
      case Nil
      then have "n = 0" using Suc.hyps(2) dj last by simp
      then have "collect (Suc n) it b = (Inr (drop j es @ chain_entries ls, \<lparr>curr_page_id = INVALID_PAGE_ID, curr_index = 0, curr_page = None\<rparr>), b1)"
        using de it'(1,3) dj last Nil by simp
      then show ?thesis using it' Nil unfolding Suc.hyps(2) by auto
    next
      case (Cons l ls')
      obtain p' es' where l: "l = (p', es')" by (cases l)
      have ne: "p' \<noteq> INVALID_PAGE_ID" "es' \<noteq> []" using Suc.prems(4) Cons l by auto
      have n: "n = length (drop 0 es' @ chain_entries ls')" using Suc.hyps(2) dj last Cons l by simp
      have pos: "positioned S P b1 it' p' 0" using it'(3) Cons l ne(1) by simp
      have ch: "leaf_chain S INVALID_PAGE_ID ((p', es') # ls')" using Suc.prems(2) Cons l by simp
      have rest: "\<forall>l \<in> set ls'. snd l \<noteq> [] \<and> P (fst l) = 0 \<and> fst l \<noteq> INVALID_PAGE_ID" using Suc.prems(4) Cons by simp
      have rm: "npin P < frames b1" "0 < length es'" using Suc.prems(5) it'(2) ne(2) by simp_all
      from Suc.hyps(1) [OF n pos ch rm(2) rest rm(1)] obtain b' where b':
        "collect n it' b1 = (Inr (es' @ chain_entries ls', \<lparr>curr_page_id = INVALID_PAGE_ID, curr_index = 0, curr_page = None\<rparr>), b')"
        "pool_st b' S P" "frames b' = frames b1" unfolding n [symmetric] by auto
      have "collect (Suc n) it b = (Inr (drop j es @ chain_entries ls, \<lparr>curr_page_id = INVALID_PAGE_ID, curr_index = 0, curr_page = None\<rparr>), b')"
        using de it'(1) b'(1) dj last Cons l by simp
      then show ?thesis using b'(2,3) it'(2) unfolding Suc.hyps(2) by auto
    qed
  qed
qed

section \<open>Begin\<close>

abbreviation end_iterator :: BPlusTreeIterator where
  "end_iterator \<equiv> \<lparr>curr_page_id = INVALID_PAGE_ID, curr_index = 0, curr_page = None\<rparr>"

lemma begin_loop_ok:
  assumes "bt_ok h lo hi u" "sat S (desc par nxt u)" "pool_st (bpm t) S (P(root_id u := 1))" "held (bpm t) (root_id u) f"
    "synced (bpm t) (root_id u)" "npin P < frames (bpm t)" "\<forall>q \<in> set (ids u). P q = 0" "INVALID_PAGE_ID \<notin> set (ids u)"
  shows "\<exists>it b. begin_loop (root_id u) (Some f) t = Some (Inr it, t\<lparr>bpm := b\<rparr>) \<and>
     positioned S P b it (first_leaf u) 0 \<and> frames b = frames (bpm t)"
  using assms
proof (induction h arbitrary: u lo hi par nxt t f)
  case 0
  then obtain q es where u: "u = Leaf q es" by (cases u) auto
  obtain d where d: "S q = Some d" "leaf_node q par nxt es d" using 0(2) u by auto
  have data: "node_data f t = d" using held_node_data [OF 0(3,4)] d(1) u by simp
  have st: "pool_st (bpm t) S (P(q := 1))" "held (bpm t) q f" "False \<or> synced (bpm t) q" "P q = 0" "q \<noteq> INVALID_PAGE_ID"
    using 0(3-5,7,8) u by (auto simp: fun_upd_def)
  obtain b1 where b1: "UnpinPage q False (bpm t) = (Inr True, b1)" "pool_st b1 S P" "frames b1 = frames (bpm t)"
    using pp.unpin_ok [OF st(1-3)] st(4) by (auto simp: fun_upd_idem)
  have "q \<in> dom S" "npin P < frames b1" using d(1) 0(6) b1(3) by auto
  from iterator_new_ok [OF b1(2) this(1) st(4,5) this(2), of 0] obtain it b where
    "Iterator_new q 0 b1 = (Inr it, b)" "positioned S P b it q 0" "frames b = frames b1" by auto
  then show ?case using data leaf_nodeD(2) [OF d(2)] u b1(1,3)
    by (intro exI [of _ it] exI [of _ b]) (subst begin_loop.simps, simp)
next
  case (Suc h)
  then obtain p cs where u: "u = Node p cs" and ok: "forest_ok h lo hi cs" by (cases u) auto
  then obtain k v cs' where cs: "cs = (k, v) # cs'" by (cases cs) auto
  obtain d where d: "S p = Some d" "inner_node p par (child_ids cs) d" using Suc.prems(2) u by auto
  have data: "node_data f t = d" using held_node_data [OF Suc.prems(3,4)] d(1) u by simp
  have st: "pool_st (bpm t) S (P(p := 1))" "held (bpm t) p f" "False \<or> synced (bpm t) p" "P p = 0"
    using Suc.prems(3-5,7) u by (auto simp: fun_upd_def)
  obtain b1 where b1: "UnpinPage p False (bpm t) = (Inr True, b1)" "pool_st b1 S P" "frames b1 = frames (bpm t)"
    using pp.unpin_ok [OF st(1-3)] st(4) by (auto simp: fun_upd_idem)
  obtain m where v: "bt_ok h lo m v" "sat S (desc p (next_leaf nxt cs') v)" "set (ids v) \<subseteq> set (ids u)"
    using ok Suc.prems(2) u cs by auto
  have vr: "root_id v \<in> dom S" "P (root_id v) = 0"
    using sat_root [OF v(2)] Suc.prems(7) v(3) root_in_ids [of v] by blast+
  obtain g b2 where b2: "FetchPage (root_id v) b1 = (Inr (Some g), b2)" "pool_st b2 S (P(root_id v := P (root_id v) + 1))"
    "held b2 (root_id v) g" "frames b2 = frames b1" "\<forall>q. synced b1 q \<longrightarrow> synced b2 q"
    using pp.fetch_ok [OF b1(2) vr(1)] Suc.prems(6) b1(3) by metis
  have syn: "synced b2 (root_id v)" using b2(5) pp.clean_idle [OF b1(2) vr(2)] by blast
  have step: "begin_loop (root_id u) (Some f) t = begin_loop (root_id v) (Some g) (t\<lparr>bpm := b2\<rparr>)"
    using data inner_nodeD(2) [OF d(2)] inner_node_entry(3) [OF d(2), of 0] b1(1) b2(1) u cs
    by (subst begin_loop.simps) simp
  have "\<exists>it b. begin_loop (root_id v) (Some g) (t\<lparr>bpm := b2\<rparr>) = Some (Inr it, (t\<lparr>bpm := b2\<rparr>)\<lparr>bpm := b\<rparr>) \<and>
     positioned S P b it (first_leaf v) 0 \<and> frames b = frames (bpm (t\<lparr>bpm := b2\<rparr>))"
    by (rule Suc.IH [OF v(1,2)]) (use Suc.prems(6-8) v(3) vr b1(3) b2 syn in \<open>auto simp: fun_upd_def\<close>)
  then show ?case using step u cs b2(4) b1(3) by simp
qed

lemma leaves_filled: "sized False t \<Longrightarrow> \<forall>l \<in> set (leaves t). snd l \<noteq> []"
  "forest_sized cs \<Longrightarrow> \<forall>l \<in> set (forest_leaves cs). snd l \<noteq> []"
  by (induction t and cs rule: ids_forest_ids.induct) auto

text \<open>The leaves of an index and what an iterator meets on them.\<close>

lemma index_leaves:
  assumes rep: "index_tree t S P h T" and ne: "entries T \<noteq> []"
  shows "leaf_chain S INVALID_PAGE_ID (leaves T)"
    "\<forall>l \<in> set (leaves T). snd l \<noteq> [] \<and> P (fst l) = 0 \<and> fst l \<noteq> INVALID_PAGE_ID"
proof -
  note R = index_treeD [OF rep]
  have ok: "bt_ok h key_min key_max T" "sized True T" using R(3) by (simp_all add: tree_ok_def)
  show "leaf_chain S INVALID_PAGE_ID (leaves T)"
    using leaf_chain_tree(1) [OF ok(1)] R(2) unfolding tree_in_def by blast
  have "\<forall>l \<in> set (leaves T). snd l \<noteq> []"
    using ok(2) ne leaves_filled(2) by (cases T) auto
  then show "\<forall>l \<in> set (leaves T). snd l \<noteq> [] \<and> P (fst l) = 0 \<and> fst l \<noteq> INVALID_PAGE_ID"
    using leaves_ids(1) [of T] R(2,4) unfolding tree_in_def by force
qed

lemma begin_ok:
  assumes rep: "index_rep t S P A M" and ne: "M \<noteq> Map.empty" and room: "npin P < frames (bpm t)"
  shows "\<exists>es it t' b. Begin t = Some (Inr it, t') \<and> collect (length es) it (bpm t') = (Inr (es, end_iterator), b) \<and>
     sorted_keys es \<and> map_of es = M \<and> index_rep (t'\<lparr>bpm := b\<rparr>) S P A M \<and> frames b = frames (bpm t)"
proof -
  have nE: "\<not> IsEmpty t" using rep ne by (auto simp: index_rep_def)
  then obtain h T where T: "pool_st (bpm t) S P" "index_tree t S P h T" "M = map_of (entries T)" "A = set (ids T)"
    using rep by (auto simp: index_rep_def)
  note R = index_treeD [OF T(2)]
  have ok: "bt_ok h key_min key_max T" using R(3) by (simp add: tree_ok_def)
  have ent: "entries T \<noteq> []" using ne T(3) by auto
  have sT: "sat S (desc INVALID_PAGE_ID INVALID_PAGE_ID T)" "INVALID_PAGE_ID \<notin> set (ids T)" using R(2) by (auto simp: tree_in_def)
  have rt: "root_id T \<in> dom S" "P (root_id T) = 0" using sat_root [OF sT(1)] R(4) root_in_ids [of T] by blast+
  obtain f b0 where b0: "FetchPage (root_id T) (bpm t) = (Inr (Some f), b0)" "pool_st b0 S (P(root_id T := P (root_id T) + 1))"
    "held b0 (root_id T) f" "frames b0 = frames (bpm t)" "\<forall>q. synced (bpm t) q \<longrightarrow> synced b0 q"
    using pp.fetch_ok [OF T(1) rt(1) room] by metis
  have syn: "synced b0 (root_id T)" using b0(5) pp.clean_idle [OF T(1) rt(2)] by blast
  have "\<exists>it b. begin_loop (root_id T) (Some f) (t\<lparr>bpm := b0\<rparr>) = Some (Inr it, (t\<lparr>bpm := b0\<rparr>)\<lparr>bpm := b\<rparr>) \<and>
     positioned S P b it (first_leaf T) 0 \<and> frames b = frames (bpm (t\<lparr>bpm := b0\<rparr>))"
    by (rule begin_loop_ok [OF ok sT(1)]) (use b0 rt syn room R(4) sT(2) in \<open>simp_all\<close>)
  then obtain it b1 where b1: "begin_loop (root_id T) (Some f) (t\<lparr>bpm := b0\<rparr>) = Some (Inr it, t\<lparr>bpm := b1\<rparr>)"
    "positioned S P b1 it (first_leaf T) 0" "frames b1 = frames (bpm t)" using b0(4) by auto
  have run: "Begin t = Some (Inr it, t\<lparr>bpm := b1\<rparr>)" using nE b0(1) b1(1) R(1) by (simp add: Begin_def)
  obtain es ls where lv: "leaves T = (first_leaf T, es) # ls"
    using leaves_head(1) [OF ok, of INVALID_PAGE_ID] by (cases "leaves T") auto
  note il = index_leaves [OF T(2) ent]
  have all: "entries T = drop 0 es @ chain_entries ls" using entries_leaves(1) [of T] lv by simp
  have "0 < length es" using il(2) lv by auto
  from collect_chain [OF b1(2) il(1) [unfolded lv] this] il(2) room b1(3) obtain b2 where b2:
    "collect (length (entries T)) it b1 = (Inr (entries T, end_iterator), b2)" "pool_st b2 S P" "frames b2 = frames b1"
    unfolding all lv by auto
  have "index_rep (t\<lparr>bpm := b2\<rparr>) S P A M" using index_rep_keep [OF T(2) b2(2)] T(3,4) by simp
  moreover have "sorted_keys (entries T)" by (rule ok_sorted(1) [OF ok])
  ultimately show ?thesis using run b2 b1(3) T(3)
    by (intro exI [of _ "entries T"] exI [of _ it] exI [of _ "t\<lparr>bpm := b1\<rparr>"] exI [of _ b2]) simp
qed

section \<open>Begin at a key\<close>

lemma leaves_fill:
  "\<exists>xs ys. leaves (fill u c) = xs @ leaves u @ ys \<and> chain_entries xs = path_left c \<and> chain_entries ys = path_right c"
proof (induction u c rule: fill.induct)
  case (1 t)
  show ?case by (intro exI [of _ "[]"]) simp
next
  case (2 t p ls k rs c)
  have split: "forest_leaves (ls @ (k, t) # rs) = forest_leaves ls @ leaves t @ forest_leaves rs" by (induction ls) auto
  obtain xs ys where x: "leaves (fill (Node p (ls @ (k, t) # rs)) c) = xs @ leaves (Node p (ls @ (k, t) # rs)) @ ys"
    "chain_entries xs = path_left c" "chain_entries ys = path_right c" using 2 by blast
  then show ?case using split entries_leaves(2)
    by (intro exI [of _ "xs @ forest_leaves ls"] exI [of _ "forest_leaves rs @ ys"]) simp
qed

text \<open>The keys that an iterator from \<open>key\<close> has to see.\<close>

definition from_key :: "64 word \<Rightarrow> leaf_entry list \<Rightarrow> leaf_entry list" where
  "from_key key es = filter (\<lambda>e. sint key \<le> sint (fst e)) es"

lemma from_key_sorted: "sorted_keys es \<Longrightarrow> from_key key es = drop (prefix_len (key_lt key) es) es"
proof (induction es)
  case (Cons e es)
  then have s: "sorted_keys es" "\<forall>b \<in> set es. sint (fst e) < sint (fst b)" by (simp_all add: sorted_keys_Cons)
  show ?case
  proof (cases "sint (fst e) < sint key")
    case True
    then show ?thesis using Cons(1) [OF s(1)] by (simp add: from_key_def prefix_len_def)
  next
    case False
    then have "\<forall>b \<in> set es. sint key \<le> sint (fst b)" using s(2) by fastforce
    then show ?thesis using False by (simp add: from_key_def prefix_len_def)
  qed
qed (simp add: from_key_def prefix_len_def)

lemma from_key_found:
  assumes "leaf_found key S P T b f q es c lo hi"
  shows "from_key key (entries T) = drop (prefix_len (key_lt key) es) es @ path_right c"
proof -
  have F: "T = fill (Leaf q es) c" "path_ok 0 lo hi c" "sorted_keys es" "lo \<le> sint key" "sint key < hi"
    using assms by (auto simp: leaf_found_def located_def)
  have "\<forall>e \<in> set (path_left c). sint (fst e) < sint key" "\<forall>e \<in> set (path_right c). sint key \<le> sint (fst e)"
    using path_bounds [OF F(2)] F(4,5) by force+
  then have "from_key key (path_left c) = []" "from_key key (path_right c) = path_right c"
    by (auto simp: from_key_def filter_empty_conv filter_id_conv)
  then show ?thesis using from_key_sorted [OF F(3), of key] by (simp add: F(1) entries_fill from_key_def)
qed

text \<open>The iterator stands behind the entries of the leaf with smaller keys.\<close>

lemma begin_at_pos:
  assumes rep: "index_tree t S P h T" and st: "pool_st (bpm t) S P" and room: "npin P < frames (bpm t)"
  shows "\<exists>it b0 b f q es c lo hi. Begin_at key t = Some (Inr it, t\<lparr>bpm := b\<rparr>) \<and> leaf_found key S P T b0 f q es c lo hi \<and>
     positioned S P b it q (prefix_len (key_lt key) es) \<and> frames b = frames (bpm t)"
proof -
  note R = index_treeD [OF rep]
  obtain f b0 q es c lo hi where f: "FindLeafPage key t = Some (Inr (Some f), t\<lparr>bpm := b0\<rparr>)"
    "leaf_found key S P T b0 f q es c lo hi" "frames b0 = frames (bpm t)"
    using find_leaf_ok [OF rep st room] by blast
  have F: "T = fill (Leaf q es) c" "pool_st b0 S (P(q := 1))" "P q = 0" "held b0 q f" "synced b0 q"
    using f(2) by (auto simp: leaf_found_def)
  obtain d where d: "node_data f (t\<lparr>bpm := b0\<rparr>) = d" "S q = Some d" "leaf_node q (path_par c) (path_next c) es d" "sorted_keys es"
    by (rule leaf_found_data [OF f(2) R(2), of "t\<lparr>bpm := b0\<rparr>"]) auto
  obtain b1 where b1: "UnpinPage q False b0 = (Inr True, b1)" "pool_st b1 S P" "frames b1 = frames b0"
    using pp.unpin_ok [OF F(2,4), of False] F(3,5) by (auto simp: fun_upd_idem)
  have q: "q \<in> dom S" "q \<noteq> INVALID_PAGE_ID"
    using d(2) R(2) by (auto simp: F(1) tree_in_def set_ids_fill)
  obtain it b2 where b2: "Iterator_new q (int (prefix_len (key_lt key) es)) b1 = (Inr it, b2)"
    "positioned S P b2 it q (prefix_len (key_lt key) es)" "frames b2 = frames b1"
    using iterator_new_ok [OF b1(2) q(1) F(3) q(2)] room f(3) b1(3) by metis
  have "page_id_of (frame b0 f) = q" using pp.ident_ok [OF F(2,4)] by (simp add: frame_ident_def)
  moreover have "\<not> IsEmpty t" using R(6) by (simp add: IsEmpty_def)
  ultimately have "Begin_at key t = Some (Inr it, t\<lparr>bpm := b2\<rparr>)"
    using f(1) d(1) leaf_key_index [OF d(3,4), of key] b1(1) b2(1) by (simp add: Begin_at_def bind_def ix_def)
  then show ?thesis using f b2 b1(3) by metis
qed

lemma begin_at_ok:
  assumes rep: "index_rep t S P A M" and key: "M key \<noteq> None" and room: "npin P < frames (bpm t)"
  shows "\<exists>es it t' b. Begin_at key t = Some (Inr it, t') \<and>
     collect (length (from_key key es)) it (bpm t') = (Inr (from_key key es, end_iterator), b) \<and>
     sorted_keys es \<and> map_of es = M \<and> index_rep (t'\<lparr>bpm := b\<rparr>) S P A M \<and> frames b = frames (bpm t)"
proof -
  have nE: "\<not> IsEmpty t" using rep key by (auto simp: index_rep_def)
  then obtain h T where T: "pool_st (bpm t) S P" "index_tree t S P h T" "M = map_of (entries T)" "A = set (ids T)"
    using rep by (auto simp: index_rep_def)
  note R = index_treeD [OF T(2)]
  have ent: "entries T \<noteq> []" using key T(3) by auto
  obtain it b0 b f q es c lo hi where p: "Begin_at key t = Some (Inr it, t\<lparr>bpm := b\<rparr>)" "leaf_found key S P T b0 f q es c lo hi"
    "positioned S P b it q (prefix_len (key_lt key) es)" "frames b = frames (bpm t)"
    using begin_at_pos [OF T(2,1) room] by blast
  have F: "T = fill (Leaf q es) c" "sorted_keys es" using p(2) by (auto simp: leaf_found_def located_def)
  have "key \<in> fst ` set es" using leaf_found_entries [OF p(2)] key T(3) by (metis map_of_eq_None_iff)
  then have j: "prefix_len (key_lt key) es < length es" using key_at_cut [OF F(2)] by blast
  obtain xs ys where lv: "leaves T = xs @ (q, es) # ys" "chain_entries ys = path_right c"
    using leaves_fill [of "Leaf q es" c] F(1) by auto
  note il = index_leaves [OF T(2) ent]
  have ch: "leaf_chain S INVALID_PAGE_ID ((q, es) # ys)" using il(1) unfolding lv(1) leaf_chain_append by blast
  have rest: "\<forall>l \<in> set ys. snd l \<noteq> [] \<and> P (fst l) = 0 \<and> fst l \<noteq> INVALID_PAGE_ID" using il(2) lv(1) by simp
  have "npin P < frames b" using room p(4) by simp
  from collect_chain [OF p(3) ch j rest this, unfolded lv(2), folded from_key_found [OF p(2)]] obtain b2 where b2:
    "collect (length (from_key key (entries T))) it b = (Inr (from_key key (entries T), end_iterator), b2)"
    "pool_st b2 S P" "frames b2 = frames b" by blast
  have "index_rep (t\<lparr>bpm := b2\<rparr>) S P A M" using index_rep_keep [OF T(2) b2(2)] T(3,4) by simp
  moreover have "sorted_keys (entries T)" using R(3) ok_sorted(1) unfolding tree_ok_def by blast
  ultimately show ?thesis using p(1,4) b2 T(3)
    by (intro exI [of _ "entries T"] exI [of _ it] exI [of _ "t\<lparr>bpm := b\<rparr>"] exI [of _ b2]) simp
qed

text \<open>The largest key is below \<open>key\<close>: the iterator is not at the end, but points behind the last entry.\<close>

lemma begin_at_behind:
  assumes rep: "index_rep t S P A M" and ne: "\<not> IsEmpty t" and key: "\<forall>k \<in> dom M. sint k < sint key" and room: "npin P < frames (bpm t)"
  shows "\<exists>it t' q f es d par nxt. Begin_at key t = Some (Inr it, t') \<and> \<not> IsEnd it \<and>
     it = \<lparr>curr_page_id = q, curr_index = int (length es), curr_page = Some f\<rparr> \<and> page_data (bpm t') f = d \<and>
     leaf_node q par nxt es d"
proof -
  obtain h T where T: "pool_st (bpm t) S P" "index_tree t S P h T" "M = map_of (entries T)" "A = set (ids T)"
    using rep ne by (auto simp: index_rep_def)
  obtain it b0 b f q es c lo hi where p: "Begin_at key t = Some (Inr it, t\<lparr>bpm := b\<rparr>)" "leaf_found key S P T b0 f q es c lo hi"
    "positioned S P b it q (prefix_len (key_lt key) es)" "frames b = frames (bpm t)"
    using begin_at_pos [OF T(2,1) room] by blast
  obtain d where d: "S q = Some d" "leaf_node q (path_par c) (path_next c) es d" "sorted_keys es"
    by (rule leaf_found_data [OF p(2) index_treeD(2) [OF T(2)], of "t\<lparr>bpm := b0\<rparr>"]) auto
  have "set es \<subseteq> set (entries T)" using p(2) by (auto simp: leaf_found_def entries_fill)
  then have "sint (fst e) < sint key" if "e \<in> set es" for e
    using that key unfolding T(3) dom_map_of_conv_image_fst by blast
  then have "takeWhile (key_lt key) es = es" unfolding takeWhile_eq_all_conv by blast
  then have len: "prefix_len (key_lt key) es = length es" unfolding prefix_len_def by metis
  obtain g where g: "it = \<lparr>curr_page_id = q, curr_index = int (length es), curr_page = Some g\<rparr>" "held b q g" "q \<noteq> INVALID_PAGE_ID"
    "pool_st b S (P(q := 1))"
    using p(3) unfolding positioned_def len by blast
  have "page_data b g = d" using pp.get_ok [OF g(4,2)] d(1) by simp
  then show ?thesis using p(1) g(1,3) d(2) by (auto simp: IsEnd_def)
qed

end
