(* ===== verification/BPlus_Index.thy ===== *)
theory BPlus_Index
  imports BPlus_Iter
begin

text \<open>
  The index as its clients see it. The locale \<open>map_index\<close> is the contract of an index: it stores a
  map and may use up resources. Sessions of operations are treated inside it, and the B+ tree on
  the buffer pool is its interpretation \<open>bpt\<close>. The properties of the index follow, with witnesses
  on a new database.
\<close>

section \<open>The contract\<close>

datatype ('k, 'v) index_op = OpInsert 'k 'v | OpDelete 'k | OpGet 'k

datatype 'v index_result = Done bool | Got "'v option"

text \<open>What an operation does to a map.\<close>

fun map_op :: "('k, 'v) index_op \<Rightarrow> ('k \<rightharpoonup> 'v) \<Rightarrow> 'v index_result \<times> ('k \<rightharpoonup> 'v)" where
  "map_op (OpInsert k v) M = (Done (M k = None), if M k = None then M(k \<mapsto> v) else M)"
| "map_op (OpDelete k) M = (Done (M k \<noteq> None), M(k := None))"
| "map_op (OpGet k) M = (Got (M k), M)"

fun map_session :: "('k, 'v) index_op list \<Rightarrow> ('k \<rightharpoonup> 'v) \<Rightarrow> 'v index_result list \<times> ('k \<rightharpoonup> 'v)" where
  "map_session [] M = ([], M)"
| "map_session (x # xs) M =
     (let (r, M1) = map_op x M; (rs, M2) = map_session xs M1 in (r # rs, M2))"

text \<open>A session of an index given by its three operations.\<close>

fun session ::
  "('k \<Rightarrow> 'v \<Rightarrow> ('s, bool) pcomp) \<Rightarrow> ('k \<Rightarrow> ('s, bool) pcomp) \<Rightarrow> ('k \<Rightarrow> ('s, 'v option) pcomp) \<Rightarrow>
   ('k, 'v) index_op list \<Rightarrow> ('s, 'v index_result list) pcomp" where
  "session ins del look [] = always (ret [])"
| "session ins del look (x # xs) =
     pbind (case x of OpInsert k v \<Rightarrow> pbind (ins k v) (\<lambda>b. always (ret (Done b)))
                    | OpDelete k \<Rightarrow> pbind (del k) (\<lambda>b. always (ret (Done b)))
                    | OpGet k \<Rightarrow> pbind (look k) (\<lambda>r. always (ret (Got r))))
       (\<lambda>r. pbind (session ins del look xs) (\<lambda>rs. always (ret (r # rs))))"

fun is_insert :: "('k, 'v) index_op \<Rightarrow> bool" where
  "is_insert (OpInsert k v) \<longleftrightarrow> True" | "is_insert _ \<longleftrightarrow> False"

fun is_delete :: "('k, 'v) index_op \<Rightarrow> bool" where
  "is_delete (OpDelete k) \<longleftrightarrow> True" | "is_delete _ \<longleftrightarrow> False"

text \<open>\<open>rep s m n M\<close>: \<open>s\<close> stores \<open>M\<close> and has the resources for \<open>m\<close> insertions and \<open>n\<close> deletions.\<close>

locale map_index =
  fixes ins :: "'k \<Rightarrow> 'v \<Rightarrow> ('s, bool) pcomp"
    and del :: "'k \<Rightarrow> ('s, bool) pcomp"
    and look :: "'k \<Rightarrow> ('s, 'v option) pcomp"
    and rep :: "'s \<Rightarrow> nat \<Rightarrow> nat \<Rightarrow> ('k \<rightharpoonup> 'v) \<Rightarrow> bool"
  assumes look_ok: "rep s m n M \<Longrightarrow> \<exists>s'. look k s = Some (Inr (M k), s') \<and> rep s' m n M"
    and ins_ok: "rep s (Suc m) n M \<Longrightarrow>
      \<exists>s'. ins k v s = Some (Inr (M k = None), s') \<and> rep s' m n (if M k = None then M(k \<mapsto> v) else M)"
    and del_ok: "rep s m (Suc n) M \<Longrightarrow> \<exists>s'. del k s = Some (Inr (M k \<noteq> None), s') \<and> rep s' m n (M(k := None))"
begin

lemma session_ok:
  "rep s (m + length (filter is_insert ops)) (n + length (filter is_delete ops)) M \<Longrightarrow>
   \<exists>s'. session ins del look ops s = Some (Inr (fst (map_session ops M)), s') \<and> rep s' m n (snd (map_session ops M))"
proof (induction ops arbitrary: s M)
  case (Cons x ops)
  let ?m = "m + length (filter is_insert ops)" and ?n = "n + length (filter is_delete ops)"
  have step: "\<exists>s1. (case x of OpInsert k v \<Rightarrow> pbind (ins k v) (\<lambda>b. always (ret (Done b)))
                    | OpDelete k \<Rightarrow> pbind (del k) (\<lambda>b. always (ret (Done b)))
                    | OpGet k \<Rightarrow> pbind (look k) (\<lambda>r. always (ret (Got r)))) s = Some (Inr (fst (map_op x M)), s1) \<and>
      rep s1 ?m ?n (snd (map_op x M))"
  proof (cases x)
    case (OpInsert k v)
    then have "rep s (Suc ?m) ?n M" using Cons.prems by simp
    from ins_ok [OF this, of k v] OpInsert show ?thesis by (auto simp: pbind_def)
  next
    case (OpDelete k)
    then have "rep s ?m (Suc ?n) M" using Cons.prems by simp
    from del_ok [OF this, of k] OpDelete show ?thesis by (auto simp: pbind_def)
  next
    case (OpGet k)
    then have "rep s ?m ?n M" using Cons.prems by simp
    from look_ok [OF this, of k] OpGet show ?thesis by (auto simp: pbind_def)
  qed
  then obtain s1 where s1: "(case x of OpInsert k v \<Rightarrow> pbind (ins k v) (\<lambda>b. always (ret (Done b)))
                    | OpDelete k \<Rightarrow> pbind (del k) (\<lambda>b. always (ret (Done b)))
                    | OpGet k \<Rightarrow> pbind (look k) (\<lambda>r. always (ret (Got r)))) s = Some (Inr (fst (map_op x M)), s1)"
    "rep s1 ?m ?n (snd (map_op x M))" by blast
  from Cons.IH [OF s1(2)] obtain s2 where
    "session ins del look ops s1 = Some (Inr (fst (map_session ops (snd (map_op x M)))), s2)"
    "rep s2 m n (snd (map_session ops (snd (map_op x M))))" by blast
  then show ?case using s1(1) by (auto simp: pbind_def split: prod.splits)
qed simp

end

section \<open>The B+ tree implements the contract\<close>

definition index_store :: "bplus_tree \<Rightarrow> nat \<Rightarrow> nat \<Rightarrow> (64 word \<rightharpoonup> RID) \<Rightarrow> bool" where
  "index_store t m n M \<longleftrightarrow>
     (\<exists>S P A. index_rep t S P A M \<and> npin P + n + 13 \<le> frames (bpm t) \<and> spare_ids (7 * m) S)"

lemma npin_after_delete:
  assumes "pins_after_delete P r x P'"
  shows "npin P' \<le> Suc (npin P)"
  using assms npin_upd_le [of P _ 1] by (auto simp: pins_after_delete_def split: if_splits)

interpretation bpt: map_index BPlusTree_Insert BPlusTree_Delete GetValue index_store
proof (unfold_locales, goal_cases)
  case (1 t m n M k)
  then obtain S P A where s: "index_rep t S P A M" "npin P + n + 13 \<le> frames (bpm t)" "spare_ids (7 * m) S"
    by (auto simp: index_store_def)
  have "npin P < frames (bpm t)" using s(2) by simp
  from get_value_ok [OF s(1) this, of k] show ?case
    using s(2,3) unfolding index_store_def by (metis bplus_tree.select_convs(2) bplus_tree.surjective bplus_tree.update_convs(2))
next
  case (2 t m n M k v)
  then obtain S P A where s: "index_rep t S P A M" "npin P + n + 13 \<le> frames (bpm t)" "spare_ids (7 * Suc m) S"
    by (auto simp: index_store_def)
  have "npin P + 13 \<le> frames (bpm t)" using s(2) by simp
  from insert_ok [OF s(1) this spare_ids_mono [OF s(3)], of k v] obtain t' S' A' where t':
    "BPlusTree_Insert k v t = Some (Inr (M k = None), t')" "index_rep t' S' P A' (map_insert k v M)" "takes_ids 7 S S'"
    "frames (bpm t') = frames (bpm t)" by auto
  have "spare_ids (7 * m) S'" using t'(3) s(3) by (simp add: takes_ids_def add.commute)
  then have "index_store t' m n (map_insert k v M)" using t'(2,4) s(2) unfolding index_store_def by metis
  then show ?case using t'(1) unfolding map_insert_def by metis
next
  case (3 t m n M k)
  then obtain S P A where s: "index_rep t S P A M" "npin P + Suc n + 13 \<le> frames (bpm t)" "spare_ids (7 * m) S"
    by (auto simp: index_store_def)
  have "npin P + 8 \<le> frames (bpm t)" using s(2) by simp
  from delete_ok [OF s(1) this, of k] obtain t' S' P' A' where t':
    "BPlusTree_Delete k t = Some (Inr (M k \<noteq> None), t')" "index_rep t' S' P' A' (M(k := None))" "takes_ids 0 S S'"
    "frames (bpm t') = frames (bpm t)" "pins_after_delete P (root_page_id t) (M k \<noteq> None \<and> M(k := None) = Map.empty) P'" by blast
  have "npin P' + n + 13 \<le> frames (bpm t')" using npin_after_delete [OF t'(5)] s(2) t'(4) by simp
  moreover have "spare_ids (7 * m) S'" using t'(3) s(3) by (simp add: takes_ids_def)
  ultimately show ?case using t'(1,2) unfolding index_store_def by blast
qed

section \<open>An empty index for the witnesses\<close>

lemma empty_index:
  assumes "pool_st b S P"
  shows "index_rep (BPlusTree_new INVALID_PAGE_ID b) S P {} Map.empty"
  using assms by (simp add: index_rep_def IsEmpty_def BPlusTree_new_def)

lemma sample_index:
  "\<exists>b S. index_rep (BPlusTree_new INVALID_PAGE_ID b) S (\<lambda>_. 0) {} Map.empty \<and> frames b = 128 \<and> spare_ids 1000 S"
  using sample_store empty_index by blast

lemma npin_0 [simp]: "npin (\<lambda>_. 0) = 0"
  by (simp add: npin_def)

text \<open>An index with one key.\<close>

lemma sample_index_one:
  "\<exists>t S A. index_rep t S (\<lambda>_. 0) A [k \<mapsto> v] \<and> frames (bpm t) = 128 \<and> \<not> IsEmpty t"
proof -
  obtain b S where b: "index_rep (BPlusTree_new INVALID_PAGE_ID b) S (\<lambda>_. 0) {} Map.empty" "frames b = 128" "spare_ids 1000 S"
    using sample_index by blast
  have f: "npin (\<lambda>_. 0) + 13 \<le> frames (bpm (BPlusTree_new INVALID_PAGE_ID b))" "frames (bpm (BPlusTree_new INVALID_PAGE_ID b)) = 128"
    using b(2) by (simp_all add: BPlusTree_new_def)
  from insert_ok [OF b(1) f(1) spare_ids_mono [OF b(3)], of k v] f(2) obtain t S' A' where
    "index_rep t S' (\<lambda>_. 0) A' [k \<mapsto> v]" "frames (bpm t) = 128" by (auto simp: map_insert_def)
  moreover from this(1) have "\<not> IsEmpty t" by (auto simp: index_rep_def fun_eq_iff split: if_splits)
  ultimately show ?thesis by blast
qed

lemma one_entry:
  assumes "sorted_keys es" "map_of es = [k \<mapsto> v]"
  shows "es = [(k, v)]"
proof -
  have d: "distinct (map fst es)" by (rule sorted_keys_distinct [OF assms(1)])
  have "x = (k, v)" if "x \<in> set es" for x
  proof -
    have "map_of es (fst x) = Some (snd x)" using d that by simp
    then show ?thesis using assms(2) by (cases x) (auto split: if_splits)
  qed
  moreover have "map_of es k = Some v" using assms(2) by simp
  then obtain y ys where es: "es = y # ys" by (cases es) auto
  ultimately have "y = (k, v)" "\<forall>x \<in> set ys. x = (k, v)" by simp_all
  moreover from this have "ys = []" using d es by (cases ys) auto
  ultimately show ?thesis using es by simp
qed

section \<open>A pool in which all frames are pinned\<close>

lemma fetch_all_pinned:
  assumes st: "pool_st b S P" and full: "npin P = frames b" and p: "P p = 0"
  shows "FetchPage p b = (Inr None, b)"
proof -
  obtain fl where fl: "bp_inv b fl" "pin_counts b = P" using st by (rule pool_stE)
  have "card (pinned b) = card (tracked b)" using full fl(2) by (simp add: npin_def frames_def pinned_def)
  then have e: "free_list b = []" "evictable b = {}" using full_iff [OF fl(1)] by blast+
  have "pt b p = None"
  proof (rule ccontr)
    assume "pt b p \<noteq> None"
    then obtain f where f: "pt b p = Some f" by blast
    then have "f \<in> evictable b" using p fl(2) by (auto simp: evictable_def pin_counts_def fun_eq_iff split: option.splits)
    with e(2) show False by simp
  qed
  then show ?thesis by (rule FetchPage_full) (rule acquire_frame_full [OF fl(1) e])
qed

lemma lookup_all_pinned:
  assumes rep: "index_rep t S P A M" and ne: "\<not> IsEmpty t" and full: "npin P = frames (bpm t)"
  shows "GetValue key t = Some (Inl NullDeref, t)"
proof -
  obtain h T where T: "pool_st (bpm t) S P" "index_tree t S P h T" using rep ne by (auto simp: index_rep_def)
  have "P (root_page_id t) = 0" using index_treeD(1,4) [OF T(2)] root_in_ids by (metis)
  then have "FetchPage (root_page_id t) (bpm t) = (Inr None, bpm t)" using fetch_all_pinned [OF T(1) full] by blast
  moreover have "root_page_id t \<noteq> INVALID_PAGE_ID" using ne by (simp add: IsEmpty_def)
  ultimately show ?thesis
    using ne by (simp add: GetValue_def FindLeafPage_def pbind_def always_def ix_def find_leaf_loop.simps)
qed

section \<open>Properties\<close>

text \<open>
  C2. Refinement. Every sequence of insertions, deletions and lookups on the index returns, gives
  exactly the answers of a finite map from keys to record ids, and leaves an index that stores the
  map after the sequence: whatever splits, redistributions, merges and evictions happen on the
  way. It suffices that 13 frames of the pool are not pinned by others, plus one for every
  deletion, and that 7 page ids are left for every insertion.
\<close>

theorem index_session_refines:
  assumes "index_rep t S P A M" "npin P + length (filter is_delete ops) + 13 \<le> frames (bpm t)"
    "spare_ids (7 * length (filter is_insert ops)) S"
  shows "\<exists>t' S' P' A'. session BPlusTree_Insert BPlusTree_Delete GetValue ops t = Some (Inr (fst (map_session ops M)), t') \<and>
     index_rep t' S' P' A' (snd (map_session ops M))"
proof -
  have "index_store t (0 + length (filter is_insert ops)) (0 + length (filter is_delete ops)) M"
    using assms unfolding index_store_def by auto
  from bpt.session_ok [OF this] show ?thesis by (auto simp: index_store_def)
qed

theorem index_session_refines_witness:
  "\<exists>t t' S' P' A'. IsEmpty t \<and>
     session BPlusTree_Insert BPlusTree_Delete GetValue
       [OpInsert 5 RID_default, OpInsert 3 \<lparr>rid_page_id = 1, rid_slot_num = 2\<rparr>, OpInsert 5 \<lparr>rid_page_id = 1, rid_slot_num = 2\<rparr>, OpGet 5, OpDelete 5, OpGet 5, OpGet 3] t =
       Some (Inr [Done True, Done True, Done False, Got (Some RID_default), Done True, Got None, Got (Some \<lparr>rid_page_id = 1, rid_slot_num = 2\<rparr>)], t') \<and>
     index_rep t' S' P' A' [3 \<mapsto> \<lparr>rid_page_id = 1, rid_slot_num = 2\<rparr>]"
proof -
  obtain b S where b: "index_rep (BPlusTree_new INVALID_PAGE_ID b) S (\<lambda>_. 0) {} Map.empty" "frames b = 128" "spare_ids 1000 S"
    using sample_index by blast
  let ?ops = "[OpInsert (5 :: 64 word) RID_default, OpInsert 3 \<lparr>rid_page_id = 1, rid_slot_num = 2\<rparr>, OpInsert 5 \<lparr>rid_page_id = 1, rid_slot_num = 2\<rparr>, OpGet 5, OpDelete 5, OpGet 5, OpGet 3]" and ?t = "BPlusTree_new INVALID_PAGE_ID b"
  have "npin (\<lambda>_. 0) + length (filter is_delete ?ops) + 13 \<le> frames (bpm ?t)" using b(2) by (simp add: BPlusTree_new_def)
  moreover have "spare_ids (7 * length (filter is_insert ?ops)) S" by (rule spare_ids_mono [OF b(3)]) simp
  moreover have empty: "IsEmpty ?t" by (simp add: IsEmpty_def BPlusTree_new_def)
  moreover have "fst (map_session ?ops Map.empty) =
      [Done True, Done True, Done False, Got (Some RID_default), Done True, Got None, Got (Some \<lparr>rid_page_id = 1, rid_slot_num = 2\<rparr>)]"
    "snd (map_session ?ops Map.empty) = [3 \<mapsto> \<lparr>rid_page_id = 1, rid_slot_num = 2\<rparr>]" by (simp_all add: fun_eq_iff)
  ultimately show ?thesis
    using index_session_refines [OF b(1), of ?ops] by (metis (no_types) empty)
qed

text \<open>
  C11. \<^verbatim>\<open>Insert\<close> adds a new key and refuses one that is present. Afterwards no page outside the index
  has changed, the pages that joined the index were not allocated before, at most 7 page ids were
  used, no page of the index was given up, and all pins taken on the way are released.
\<close>

theorem index_insert_refines:
  assumes "index_rep t S P A M" "npin P + 13 \<le> frames (bpm t)" "spare_ids 7 S"
  shows "\<exists>t' S' A'. BPlusTree_Insert key v t = Some (Inr (M key = None), t') \<and>
     index_rep t' S' P A' (if M key = None then M(key \<mapsto> v) else M) \<and> A \<subseteq> A' \<and>
     (\<forall>q. q \<notin> A' \<longrightarrow> S' q = S q) \<and> (\<forall>q \<in> A' - A. S q = None) \<and> takes_ids 7 S S'"
proof -
  obtain t' S' A' where r: "BPlusTree_Insert key v t = Some (Inr (M key = None), t')" "index_rep t' S' P A' (map_insert key v M)"
    "A \<subseteq> A'" "index_frame S A S' A'" "takes_ids 7 S S'"
    using insert_ok [OF assms, of key v] by blast
  have "(\<forall>q. q \<notin> A' \<longrightarrow> S' q = S q) \<and> (\<forall>q \<in> A' - A. S q = None)"
    using r(3,4) by (auto simp: index_frame_def)
  then show ?thesis using r unfolding map_insert_def by blast
qed

theorem index_insert_refines_witness:
  "\<exists>t S A t' S' A'. index_rep t S (\<lambda>_. 0) A Map.empty \<and> BPlusTree_Insert 7 RID_default t = Some (Inr True, t') \<and>
     index_rep t' S' (\<lambda>_. 0) A' [7 \<mapsto> RID_default] \<and> (\<forall>q. q \<notin> A' \<longrightarrow> S' q = S q)"
proof -
  obtain b S where b: "index_rep (BPlusTree_new INVALID_PAGE_ID b) S (\<lambda>_. 0) {} Map.empty" "frames b = 128" "spare_ids 1000 S"
    using sample_index by blast
  have f: "npin (\<lambda>_. 0) + 13 \<le> frames (bpm (BPlusTree_new INVALID_PAGE_ID b))" using b(2) by (simp add: BPlusTree_new_def)
  have "spare_ids 7 S" by (rule spare_ids_mono [OF b(3)]) simp
  from index_insert_refines [OF b(1) f this, of 7 RID_default] obtain t' S' A' where
    "BPlusTree_Insert 7 RID_default (BPlusTree_new INVALID_PAGE_ID b) = Some (Inr True, t')"
    "index_rep t' S' (\<lambda>_. 0) A' [7 \<mapsto> RID_default]" "\<forall>q. q \<notin> A' \<longrightarrow> S' q = S q" by auto
  then show ?thesis using b(1) by blast
qed

text \<open>
  C12. \<^verbatim>\<open>Delete\<close> removes a key, and says whether it was present. No page outside the index changes, no
  page joins the index and no page id is used. The pins are as before, unless the last key went.
\<close>

theorem index_delete_refines:
  assumes "index_rep t S P A M" "npin P + 8 \<le> frames (bpm t)"
  shows "\<exists>t' S' P' A'. BPlusTree_Delete key t = Some (Inr (M key \<noteq> None), t') \<and>
     index_rep t' S' P' A' (M(key := None)) \<and> A' \<subseteq> A \<and> (\<forall>q. q \<notin> A \<longrightarrow> S' q = S q) \<and> takes_ids 0 S S' \<and>
     (M key = None \<or> M(key := None) \<noteq> Map.empty \<longrightarrow> P' = P)"
proof -
  obtain t' S' P' A' where r: "BPlusTree_Delete key t = Some (Inr (M key \<noteq> None), t')" "index_rep t' S' P' A' (M(key := None))"
    "A' \<subseteq> A" "index_frame S A S' A'" "takes_ids 0 S S'" "pins_after_delete P (root_page_id t) (M key \<noteq> None \<and> M(key := None) = Map.empty) P'"
    using delete_ok [OF assms, of key] by blast
  have "\<forall>q. q \<notin> A \<longrightarrow> S' q = S q" using r(3,4) by (auto simp: index_frame_def)
  moreover have "M key = None \<or> M(key := None) \<noteq> Map.empty \<longrightarrow> P' = P"
    using r(6) by (simp add: pins_after_delete_def split: if_splits)
  ultimately show ?thesis using r(1-3,5) by blast
qed

theorem index_delete_refines_witness:
  "\<exists>t S A t' S' P' A'. index_rep t S (\<lambda>_. 0) A [7 \<mapsto> RID_default] \<and> BPlusTree_Delete 8 t = Some (Inr False, t') \<and>
     index_rep t' S' P' A' [7 \<mapsto> RID_default]"
proof -
  obtain t S A where t: "index_rep t S (\<lambda>_. 0) A [7 \<mapsto> RID_default]" "frames (bpm t) = 128" using sample_index_one by blast
  have e: "[7 \<mapsto> RID_default](8 := None) = [7 :: 64 word \<mapsto> RID_default]" by (simp add: fun_eq_iff)
  have "npin (\<lambda>_. 0) + 8 \<le> frames (bpm t)" using t(2) by simp
  from index_delete_refines [OF t(1) this, of 8] obtain t' S' P' A' where
    "BPlusTree_Delete 8 t = Some (Inr False, t')" "index_rep t' S' P' A' [7 \<mapsto> RID_default]" unfolding e by auto
  then show ?thesis using t(1) by blast
qed

text \<open>
  C14. Iteration. On an index that is not empty, \<^verbatim>\<open>Begin\<close> returns, and dereferencing and incrementing the
  iterator yields every entry exactly once, in ascending key order; the iterator is then equal to
  \<^verbatim>\<open>End\<close>, and the index and all pins are as before.
\<close>

theorem index_scan:
  assumes "index_rep t S P A M" "M \<noteq> Map.empty" "npin P < frames (bpm t)"
  shows "\<exists>es it t' it' b. Begin t = Some (Inr it, t') \<and> collect (length es) it (bpm t') = (Inr (es, it'), b) \<and>
     sorted_keys es \<and> map_of es = M \<and> IsEnd it' \<and> fst (End b) = Inr it' \<and> index_rep (t'\<lparr>bpm := b\<rparr>) S P A M"
  using begin_ok [OF assms] by (force simp: End_def Iterator_new_def IsEnd_def)

theorem index_scan_witness:
  "\<exists>t it t' it' b. Begin t = Some (Inr it, t') \<and> collect 1 it (bpm t') = (Inr ([(7, RID_default)], it'), b) \<and> IsEnd it'"
proof -
  obtain t S A where t: "index_rep t S (\<lambda>_. 0) A [7 \<mapsto> RID_default]" "frames (bpm t) = 128" using sample_index_one by blast
  have "npin (\<lambda>_. 0) < frames (bpm t)" "[7 \<mapsto> RID_default] \<noteq> Map.empty" using t(2) by simp_all
  from index_scan [OF t(1) this(2,1)] obtain es it t' it' b where s: "Begin t = Some (Inr it, t')"
    "collect (length es) it (bpm t') = (Inr (es, it'), b)" "sorted_keys es" "map_of es = [7 \<mapsto> RID_default]" "IsEnd it'" by blast
  have "es = [(7, RID_default)]" by (rule one_entry [OF s(3,4)])
  then have "collect 1 it (bpm t') = (Inr ([(7, RID_default)], it'), b)" using s(2) by (simp del: collect.simps)
  then show ?thesis using s(1,5) by blast
qed

text \<open>
  C20. Iteration from a key that is in the index: \<^verbatim>\<open>Begin(key)\<close> yields exactly the entries whose keys
  are not below it, in ascending order, up to \<^verbatim>\<open>End\<close>.
\<close>

theorem index_scan_from:
  assumes "index_rep t S P A M" "M key \<noteq> None" "npin P < frames (bpm t)"
  shows "\<exists>es it t' it' b. Begin_at key t = Some (Inr it, t') \<and>
     collect (length (from_key key es)) it (bpm t') = (Inr (from_key key es, it'), b) \<and>
     sorted_keys es \<and> map_of es = M \<and> IsEnd it' \<and> index_rep (t'\<lparr>bpm := b\<rparr>) S P A M"
  using begin_at_ok [OF assms] by (force simp: IsEnd_def)

theorem index_scan_from_witness:
  "\<exists>t it t' it' b. Begin_at 7 t = Some (Inr it, t') \<and> collect 1 it (bpm t') = (Inr ([(7, RID_default)], it'), b) \<and> IsEnd it'"
proof -
  obtain t S A where t: "index_rep t S (\<lambda>_. 0) A [7 \<mapsto> RID_default]" "frames (bpm t) = 128" using sample_index_one by blast
  have "npin (\<lambda>_. 0) < frames (bpm t)" "[7 \<mapsto> RID_default] 7 \<noteq> None" using t(2) by simp_all
  from index_scan_from [OF t(1) this(2,1)] obtain es it t' it' b where s: "Begin_at 7 t = Some (Inr it, t')"
    "collect (length (from_key 7 es)) it (bpm t') = (Inr (from_key 7 es, it'), b)" "sorted_keys es" "map_of es = [7 \<mapsto> RID_default]" "IsEnd it'"
    by blast
  have "es = [(7, RID_default)]" by (rule one_entry [OF s(3,4)])
  then have "from_key 7 es = [(7, RID_default)]" by (simp add: from_key_def)
  then have "collect 1 it (bpm t') = (Inr ([(7, RID_default)], it'), b)" using s(2) by (simp del: collect.simps)
  then show ?thesis using s(1,5) by blast
qed

text \<open>
  C39. A defect of \<^verbatim>\<open>Begin(key)\<close>: for a key above all keys of the index the iterator is not at the end.
  It points behind the last entry of its leaf, so a loop up to \<^verbatim>\<open>End\<close> reads an entry that is not there.
\<close>

theorem begin_above_all_keys_not_end:
  assumes "index_rep t S P A M" "\<not> IsEmpty t" "\<forall>k \<in> dom M. sint k < sint key" "npin P < frames (bpm t)"
  shows "\<exists>it t' f. Begin_at key t = Some (Inr it, t') \<and> \<not> IsEnd it \<and> curr_page it = Some f \<and>
     IsLeafPage (page_data (bpm t') f) \<and> curr_index it = GetSize (page_data (bpm t') f)"
proof -
  obtain it t' q f es d par nxt where b: "Begin_at key t = Some (Inr it, t')" "\<not> IsEnd it"
    "it = \<lparr>curr_page_id = q, curr_index = int (length es), curr_page = Some f\<rparr>" "page_data (bpm t') f = d" "leaf_node q par nxt es d"
    using begin_at_behind [OF assms] by metis
  then show ?thesis using leaf_nodeD(2,7) [OF b(5)] by auto
qed

theorem begin_above_all_keys_not_end_witness:
  "\<exists>t it t' f. Begin_at 8 t = Some (Inr it, t') \<and> \<not> IsEnd it \<and> curr_page it = Some f \<and>
     curr_index it = GetSize (page_data (bpm t') f)"
proof -
  obtain t S A where t: "index_rep t S (\<lambda>_. 0) A [7 \<mapsto> RID_default]" "frames (bpm t) = 128" "\<not> IsEmpty t" using sample_index_one by blast
  have "npin (\<lambda>_. 0) < frames (bpm t)" "\<forall>k \<in> dom [7 :: 64 word \<mapsto> RID_default]. sint k < sint (8 :: 64 word)" using t(2) by simp_all
  from begin_above_all_keys_not_end [OF t(1,3) this(2,1)] show ?thesis by blast
qed

text \<open>
  C38. A defect of \<^verbatim>\<open>Delete\<close>: removing the only key of an index leaves an empty index and its old root
  page pinned. The search still holds the page, so \<^verbatim>\<open>DeletePage\<close>, called instead of \<^verbatim>\<open>UnpinPage\<close>,
  refuses: the page stays allocated although no tree refers to it, and nobody is left who would
  unpin it.
\<close>

theorem delete_last_key_leaks_pin:
  assumes "index_rep t S P A [key \<mapsto> v]" "npin P + 8 \<le> frames (bpm t)"
  shows "\<exists>t' S'. BPlusTree_Delete key t = Some (Inr True, t') \<and> IsEmpty t' \<and>
     P (root_page_id t) = 0 \<and> pin_counts (bpm t') = P(root_page_id t := 1) \<and>
     index_rep t' S' (P(root_page_id t := 1)) {} Map.empty \<and> root_page_id t \<in> dom S' \<and>
     DeletePage (root_page_id t) (bpm t') = (Inr False, bpm t')"
proof -
  let ?r = "root_page_id t"
  have e: "[key \<mapsto> v](key := None) = Map.empty" by (simp add: fun_eq_iff)
  from delete_ok [OF assms, of key] obtain t' S' P' A' where d: "BPlusTree_Delete key t = Some (Inr True, t')"
    "index_rep t' S' P' A' Map.empty" "pins_after_delete P ?r True P'" "IsEmpty t'" unfolding e by auto
  have P': "P ?r = 0" "P' = P(?r := 1)" using d(3) by (simp_all add: pins_after_delete_def)
  have st: "pool_st (bpm t') S' P'" using d(2) by (simp add: index_rep_def)
  have live: "?r \<in> dom S'" using pp.pins_live [OF st, of ?r] P'(2) by auto
  have pc: "pin_counts (bpm t') = P'" using st by (auto elim: pool_stE)
  then have "pin_counts (bpm t') ?r = 1" using P'(2) by simp
  then obtain f where "held (bpm t') ?r f" by (auto simp: held_pin_counts pin_counts_def split: option.splits)
  then have "DeletePage ?r (bpm t') = (Inr False, bpm t')" by (rule pp.del_pinned)
  moreover have "index_rep t' S' P' {} Map.empty" using d(2,4) by (auto simp: index_rep_def)
  ultimately show ?thesis using d(1,4) P' pc live by auto
qed

theorem delete_last_key_leaks_pin_witness:
  "\<exists>t t' S A. index_rep t S (\<lambda>_. 0) A [7 \<mapsto> RID_default] \<and> BPlusTree_Delete 7 t = Some (Inr True, t') \<and>
     IsEmpty t' \<and> pin_counts (bpm t') (root_page_id t) = 1"
proof -
  obtain t S A where t: "index_rep t S (\<lambda>_. 0) A [7 \<mapsto> RID_default]" "frames (bpm t) = 128" using sample_index_one by blast
  have "npin (\<lambda>_. 0) + 8 \<le> frames (bpm t)" using t(2) by simp
  from delete_last_key_leaks_pin [OF t(1) this] show ?thesis using t(1) by (metis fun_upd_same)
qed

end
