(* ===== verification/Indexed_Table.thy ===== *)
theory Indexed_Table
  imports Table_Heap BPlus_Index
begin

text \<open>
  A table and an index on one buffer pool. \<^verbatim>\<open>TableMetadata\<close> of \<^verbatim>\<open>table_catalog.hpp\<close> names the first page
  of a \<^verbatim>\<open>TableHeap\<close> and the root page of a \<^verbatim>\<open>BPlusTree\<close> of the same table, so pages of both lie in the
  same pool and the same file, and both take new pages from it. The frames of the two components
  show that neither touches a page of the other: every operation of the heap leaves the index as it
  was, and every operation of the index the heap.
\<close>

section \<open>Heap and index side by side\<close>

text \<open>
  Nobody holds a page; the heap has the tuples \<open>H\<close> on the pages \<open>ps\<close>, the tree with root page \<open>root\<close>
  the entries \<open>X\<close> on the pages \<open>A\<close>, and the two sets of pages are disjoint.
\<close>

definition side_by_side ::
  "Schema \<Rightarrow> buffer_pool \<Rightarrow> (page_id \<rightharpoonup> byte list) \<Rightarrow> page_id list \<Rightarrow> (RID \<rightharpoonup> Tuple) \<Rightarrow>
   page_id \<Rightarrow> page_id set \<Rightarrow> (64 word \<rightharpoonup> RID) \<Rightarrow> bool" where
  "side_by_side sch b S ps H root A X \<longleftrightarrow>
     heap_rep sch S ps H \<and> index_rep (BPlusTree_new root b) S (\<lambda>_. 0) A X \<and> set ps \<inter> A = {}"

lemma index_pages_live: "index_rep t S P A X \<Longrightarrow> A \<subseteq> dom S"
  using tree_in_dom by (fastforce simp: index_rep_def index_tree_def split: if_splits)

lemma index_rep_cong:
  assumes rep: "index_rep (BPlusTree_new root b) S P A X" and st: "pool_st b' S' P'"
    and same: "\<And>q. q \<in> A \<Longrightarrow> S' q = S q" and free: "\<And>q. q \<in> A \<Longrightarrow> P' q = 0"
  shows "index_rep (BPlusTree_new root b') S' P' A X"
proof (cases "root = INVALID_PAGE_ID")
  case True
  then show ?thesis using rep st by (simp add: index_rep_def IsEmpty_def BPlusTree_new_def)
next
  case False
  then obtain h T where T: "index_tree (BPlusTree_new root b) S P h T" "A = set (ids T)" "X = map_of (entries T)"
    using rep by (auto simp: index_rep_def IsEmpty_def BPlusTree_new_def)
  have "fst ` set (desc INVALID_PAGE_ID INVALID_PAGE_ID T) = A"
    using map_fst_desc(1) [of INVALID_PAGE_ID INVALID_PAGE_ID T] T(2) by (metis set_map)
  then have "tree_in S' T"
    using T(1) sat_cong [of S "desc INVALID_PAGE_ID INVALID_PAGE_ID T" S'] same by (simp add: index_tree_def tree_in_def)
  then have "index_tree (BPlusTree_new root b') S' P' h T" using T(1,2) free by (simp add: index_tree_def BPlusTree_new_def)
  then show ?thesis using T(2,3) st False unfolding index_rep_def by (auto simp: IsEmpty_def BPlusTree_new_def)
qed

lemma index_rep_new: "index_rep t S P A X \<longleftrightarrow> index_rep (BPlusTree_new (root_page_id t) (bpm t)) S P A X"
  by (simp add: index_rep_def index_tree_def IsEmpty_def BPlusTree_new_def)

lemma side_pool:
  assumes "side_by_side sch b S ps H root A X"
  obtains fl where "idle b fl" "pool_store b fl = S"
  using assms by (auto simp: side_by_side_def index_rep_def BPlusTree_new_def idle_def elim: pool_stE)

lemma idle_pool_st: "idle b fl \<Longrightarrow> pool_st b (pool_store b fl) (\<lambda>_. 0)"
  by (auto simp: idle_def pool_st_def)

text \<open>The heap changes, the index does not.\<close>

lemma side_heap_change:
  assumes rep: "side_by_side sch b S ps H root A X" and id: "idle b' fl" and h: "heap_rep sch (pool_store b' fl) ps' H'"
    and ps: "set ps' \<inter> A = {}" and same: "\<And>q. q \<in> A \<Longrightarrow> pool_store b' fl q = S q"
  shows "side_by_side sch b' (pool_store b' fl) ps' H' root A X"
  using rep h ps index_rep_cong [OF _ idle_pool_st [OF id] same] by (auto simp: side_by_side_def)

text \<open>The index changes, the heap does not.\<close>

lemma side_index_change:
  assumes rep: "side_by_side sch b S ps H root A X" and t: "index_rep t S' (\<lambda>_. 0) A' X'" and fr: "index_frame S A S' A'"
  shows "side_by_side sch (bpm t) S' ps H (root_page_id t) A' X'"
proof -
  have r: "heap_rep sch S ps H" "set ps \<inter> A = {}" using rep by (simp_all add: side_by_side_def)
  have live: "set ps \<subseteq> dom S" by (rule heap_rep_dom [OF r(1)])
  have dis: "set ps \<inter> A' = {}" using fr r(2) live unfolding index_frame_def by blast
  have "heap_rep sch S' ps H"
    by (rule heap_rep_cong [OF r(1)]) (use fr r(2) dis in \<open>auto simp: index_frame_def\<close>)
  moreover have "index_rep (BPlusTree_new (root_page_id t) (bpm t)) S' (\<lambda>_. 0) A' X'" using t index_rep_new by blast
  ultimately show ?thesis using dis by (simp add: side_by_side_def)
qed

section \<open>The operations of the heap\<close>

lemma takes_one_page:
  fixes S :: "page_id \<rightharpoonup> byte list"
  assumes "dom S' \<subseteq> insert p (dom S)" "spare_ids (Suc n) S"
  shows "spare_ids n S'"
proof -
  have "dom S' \<subseteq> dom (S(p \<mapsto> []))" using assms(1) by auto
  from spare_ids_dom [OF this spare_ids_new [OF assms(2)]] show ?thesis .
qed

lemma side_insert_tuple:
  assumes rep: "side_by_side sch b S ps H root A X" and fr: "2 \<le> frames b" and sp: "spare_ids (Suc n) S"
    and t: "good_tuple sch t" "fits_page t"
  shows "\<exists>rid b' S' ps'. TableHeap_InsertTuple junk (hd ps) t b = Some (Inr (Some rid), b') \<and> H rid = None \<and>
     hd ps' = hd ps \<and> rid_page_id rid \<in> set ps' \<and> frames b' = frames b \<and> spare_ids n S' \<and>
     side_by_side sch b' S' ps' (H(rid \<mapsto> t)) root A X"
proof -
  have h: "heap_rep sch S ps H" "index_rep (BPlusTree_new root b) S (\<lambda>_. 0) A X" "set ps \<inter> A = {}"
    using rep by (simp_all add: side_by_side_def)
  obtain fl where fl: "idle b fl" "pool_store b fl = S" by (rule side_pool [OF rep])
  obtain rid b' fl' qs where b: "TableHeap_InsertTuple junk (hd ps) t b = Some (Inr (Some rid), b')"
    "H rid = None" "heap_rep sch (pool_store b' fl') qs (H(rid \<mapsto> t))" "hd qs = hd ps" "idle b' fl'"
    "frames b' = frames b" "\<forall>q \<in> dom S - set ps. pool_store b' fl' q = S q"
    "set qs \<subseteq> insert (rid_page_id rid) (set ps)" "rid_page_id rid \<in> set qs"
    "rid_page_id rid \<in> set ps \<or> rid_page_id rid \<notin> dom S" "dom (pool_store b' fl') \<subseteq> insert (rid_page_id rid) (dom S)"
    using heap_insert_table [OF h(1) [folded fl(2)] fl(1) fr spare_ids_unused [OF sp, folded fl(2)] t, of junk]
    unfolding fl(2) by blast
  have A: "A \<subseteq> dom S" by (rule index_pages_live [OF h(2)])
  have same: "pool_store b' fl' q = S q" if "q \<in> A" for q using b(7) A h(3) that by blast
  have dis: "set qs \<inter> A = {}" using b(8,10) A h(3) by blast
  from side_heap_change [OF rep b(5,3) dis same] takes_one_page [OF b(11) sp] show ?thesis
    using b(1,2,4,6,9) by blast
qed

text \<open>A tuple is updated, deleted or read: only its page may change.\<close>

lemma side_page_change:
  assumes rep: "side_by_side sch b S ps H root A X" and p: "p \<in> set ps" and id: "idle b' fl"
    and h: "heap_rep sch (pool_store b' fl) ps H'" and S': "pool_store b' fl = S(p \<mapsto> d')" and sp: "spare_ids n S"
  shows "side_by_side sch b' (S(p \<mapsto> d')) ps H' root A X \<and> spare_ids n (S(p \<mapsto> d'))"
proof -
  have r: "heap_rep sch S ps H" "set ps \<inter> A = {}" using rep by (simp_all add: side_by_side_def)
  have "pool_store b' fl q = S q" if "q \<in> A" for q using S' p r(2) that by auto
  from side_heap_change [OF rep id h r(2) this] have "side_by_side sch b' (S(p \<mapsto> d')) ps H' root A X" using S' by simp
  moreover have "dom (S(p \<mapsto> d')) \<subseteq> dom S" using p heap_rep_dom [OF r(1)] by auto
  ultimately show ?thesis using spare_ids_dom sp by blast
qed

lemma side_update_tuple:
  assumes rep: "side_by_side sch b S ps H root A X" and fr: "0 < frames b" and p: "rid_page_id rid \<in> set ps"
    and t: "good_tuple sch t" and sp: "spare_ids n S"
  shows "\<exists>r b' S'. TableHeap_UpdateTuple rid t b = (Inr r, b') \<and> frames b' = frames b \<and> spare_ids n S' \<and>
     (r \<longleftrightarrow> (\<exists>v d. H rid = Some v \<and> S (rid_page_id rid) = Some d \<and> update_fits d (tuple_bytes v) (tuple_bytes t))) \<and>
     side_by_side sch b' S' ps (if r then H(rid \<mapsto> t) else H) root A X"
proof -
  have h: "heap_rep sch S ps H" using rep by (simp add: side_by_side_def)
  obtain fl where fl: "idle b fl" "pool_store b fl = S" by (rule side_pool [OF rep])
  obtain r b' d' where u: "TableHeap_UpdateTuple rid t b = (Inr r, b')" "idle b' fl" "frames b' = frames b"
    "r \<longleftrightarrow> (\<exists>v d. H rid = Some v \<and> S (rid_page_id rid) = Some d \<and> update_fits d (tuple_bytes v) (tuple_bytes t))"
    "heap_rep sch (pool_store b' fl) ps (if r then H(rid \<mapsto> t) else H)" "pool_store b' fl = S(rid_page_id rid \<mapsto> d')"
    using heap_update [OF h [folded fl(2)] fl(1) fr p t] unfolding fl(2) by (elim exE conjE)
  from side_page_change [OF rep p u(2,5,6) sp] u(1,3,4) show ?thesis by blast
qed

lemma side_delete_tuple:
  assumes rep: "side_by_side sch b S ps H root A X" and fr: "0 < frames b" and p: "rid_page_id rid \<in> set ps" and sp: "spare_ids n S"
  shows "\<exists>b' S'. TableHeap_DeleteTuple rid b = (Inr (H rid \<noteq> None), b') \<and> frames b' = frames b \<and> spare_ids n S' \<and>
     side_by_side sch b' S' ps (H(rid := None)) root A X"
proof -
  have h: "heap_rep sch S ps H" using rep by (simp add: side_by_side_def)
  obtain fl where fl: "idle b fl" "pool_store b fl = S" by (rule side_pool [OF rep])
  obtain b' d' where u: "TableHeap_DeleteTuple rid b = (Inr (H rid \<noteq> None), b')" "idle b' fl" "frames b' = frames b"
    "heap_rep sch (pool_store b' fl) ps (H(rid := None))" "pool_store b' fl = S(rid_page_id rid \<mapsto> d')"
    using heap_delete_frame [OF h [folded fl(2)] fl(1) fr p] unfolding fl(2) by (elim exE conjE)
  from side_page_change [OF rep p u(2,4,5) sp] u(1,3) show ?thesis by blast
qed

lemma side_get_tuple:
  assumes rep: "side_by_side sch b S ps H root A X" and fr: "0 < frames b" and p: "rid_page_id rid \<in> set ps"
  shows "\<exists>b'. TableHeap_GetTuple rid sch b = (Inr (H rid), b') \<and> frames b' = frames b \<and> side_by_side sch b' S ps H root A X"
proof -
  have h: "heap_rep sch S ps H" "set ps \<inter> A = {}" using rep by (simp_all add: side_by_side_def)
  obtain fl where fl: "idle b fl" "pool_store b fl = S" by (rule side_pool [OF rep])
  obtain e m where e: "S (rid_page_id rid) = Some e" "holds_tuples sch e m" "H rid = m (unat (rid_slot_num rid))"
    by (rule heap_rep_rid [OF h(1) p])
  obtain b' where b': "TableHeap_GetTuple rid sch b = (Inr (H rid), b')" "idle b' fl" "pool_store b' fl = S" "frames b' = frames b"
    using heap_get [OF fl(1) fr e(1) [folded fl(2)] e(2)] fl(2) e(3) by auto
  from side_heap_change [OF rep b'(2) h(1) [folded b'(3)] h(2)] b' show ?thesis by auto
qed

section \<open>The operations of the index\<close>

lemma side_index_insert:
  assumes rep: "side_by_side sch b S ps H root A X" and fr: "13 \<le> frames b" and sp: "spare_ids (7 + n) S"
  shows "\<exists>t S' A'. BPlusTree_Insert key rid (BPlusTree_new root b) = Some (Inr (X key = None), t) \<and>
     frames (bpm t) = frames b \<and> spare_ids n S' \<and>
     side_by_side sch (bpm t) S' ps H (root_page_id t) A' (map_insert key rid X)"
proof -
  have i: "index_rep (BPlusTree_new root b) S (\<lambda>_. 0) A X" using rep by (simp add: side_by_side_def)
  have room: "npin (\<lambda>_. 0) + 13 \<le> frames (bpm (BPlusTree_new root b))" using fr by (simp add: BPlusTree_new_def)
  have "spare_ids 7 S" by (rule spare_ids_mono [OF sp]) simp
  from insert_ok [OF i room this, of key rid] obtain t S' A' where
    t: "BPlusTree_Insert key rid (BPlusTree_new root b) = Some (Inr (X key = None), t)"
      "index_rep t S' (\<lambda>_. 0) A' (map_insert key rid X)" "index_frame S A S' A'" "takes_ids 7 S S'"
      "frames (bpm t) = frames b" by (auto simp: BPlusTree_new_def)
  have "spare_ids n S'" using t(4) sp by (simp add: takes_ids_def add.commute)
  then show ?thesis using t(1,5) side_index_change [OF rep t(2,3)] by blast
qed

lemma side_index_delete:
  assumes rep: "side_by_side sch b S ps H root A X" and fr: "8 \<le> frames b" and sp: "spare_ids n S"
    and more: "X key = None \<or> X(key := None) \<noteq> Map.empty"
  shows "\<exists>t S' A'. BPlusTree_Delete key (BPlusTree_new root b) = Some (Inr (X key \<noteq> None), t) \<and>
     frames (bpm t) = frames b \<and> spare_ids n S' \<and>
     side_by_side sch (bpm t) S' ps H (root_page_id t) A' (X(key := None))"
proof -
  have i: "index_rep (BPlusTree_new root b) S (\<lambda>_. 0) A X" using rep by (simp add: side_by_side_def)
  have room: "npin (\<lambda>_. 0) + 8 \<le> frames (bpm (BPlusTree_new root b))" using fr by (simp add: BPlusTree_new_def)
  obtain t S' P' A' where t: "BPlusTree_Delete key (BPlusTree_new root b) = Some (Inr (X key \<noteq> None), t)"
    "index_rep t S' P' A' (X(key := None))" "index_frame S A S' A'" "takes_ids 0 S S'"
    "frames (bpm t) = frames (bpm (BPlusTree_new root b))"
    "pins_after_delete (\<lambda>_. 0) (root_page_id (BPlusTree_new root b)) (X key \<noteq> None \<and> X(key := None) = Map.empty) P'"
    using delete_ok [OF i room, of key] by blast
  have fr': "frames (bpm t) = frames b" using t(5) by (simp add: BPlusTree_new_def)
  have P': "P' = (\<lambda>_. 0)" using t(6) more by (simp add: pins_after_delete_def split: if_splits)
  have "spare_ids n S'" using t(4) sp by (simp add: takes_ids_def)
  then show ?thesis using t(1) fr' side_index_change [OF rep t(2) [unfolded P'] t(3)] by blast
qed

lemma side_lookup:
  assumes rep: "side_by_side sch b S ps H root A X" and fr: "0 < frames b"
  shows "\<exists>t. GetValue key (BPlusTree_new root b) = Some (Inr (X key), t) \<and> frames (bpm t) = frames b \<and> root_page_id t = root \<and>
     side_by_side sch (bpm t) S ps H root A X"
proof -
  let ?t = "BPlusTree_new root b"
  have i: "index_rep ?t S (\<lambda>_. 0) A X" using rep by (simp add: side_by_side_def)
  have "npin (\<lambda>_. 0) < frames (bpm ?t)" using fr by (simp add: BPlusTree_new_def)
  from get_value_ok [OF i this, of key] obtain b' where b': "GetValue key ?t = Some (Inr (X key), ?t\<lparr>bpm := b'\<rparr>)"
    "index_rep (?t\<lparr>bpm := b'\<rparr>) S (\<lambda>_. 0) A X" "frames b' = frames (bpm ?t)" by blast
  have "index_frame S A S A" by (simp add: index_frame_def)
  from side_index_change [OF rep b'(2) this] show ?thesis
    using b'(1,3) by (intro exI [of _ "?t\<lparr>bpm := b'\<rparr>"]) (simp add: BPlusTree_new_def)
qed

section \<open>Property\<close>


text \<open>A heap with one tuple and an empty index, on a pool with room.\<close>

lemma sample_row: "good_tuple sample_schema (sample_tuple i [65])" "fits_page (sample_tuple i [65])"
  by (auto intro: sample_good simp: fits_page_def sample_tuple_bytes PAGE_SIZE_def)

lemma sample_side:
  "\<exists>b S ps rid. side_by_side sample_schema b S ps [rid \<mapsto> sample_tuple 1 [65]] INVALID_PAGE_ID {} Map.empty \<and> frames b = 128 \<and>
     spare_ids 900 S \<and> rid_page_id rid \<in> set ps"
proof -
  obtain b S where b: "pool_st b S (\<lambda>_. 0)" "frames b = 128" "spare_ids 1000 S" using sample_store by blast
  from b(1) obtain fl where fl: "idle b fl" "pool_store b fl = S" by (auto simp: idle_def elim: pool_stE)
  have "spare_ids (Suc 999) S" using b(3) by simp
  note sp = this [folded fl(2)]
  have "0 < frames b" using b(2) by simp
  from heap_new [OF fl(1) this spare_ids_unused [OF sp]] obtain p c where
    c: "p \<noteq> INVALID_PAGE_ID" "pool_store c (tl fl) = (pool_store b fl)(p \<mapsto> TablePage_Init p INVALID_PAGE_ID zero_page)"
      "idle c (tl fl)" "frames c = frames b" by blast
  let ?S = "pool_store c (tl fl)"
  have "heap_rep sample_schema ?S [p] Map.empty" unfolding c(2) by (rule heap_rep_new [OF c(1)])
  then have side: "side_by_side sample_schema c ?S [p] Map.empty INVALID_PAGE_ID {} Map.empty"
    using empty_index [OF idle_pool_st [OF c(3)]] by (simp add: side_by_side_def)
  have "spare_ids 999 ?S" unfolding c(2) by (rule spare_ids_new [OF sp])
  then have "spare_ids (Suc 900) ?S" by (rule spare_ids_mono) simp
  moreover have "2 \<le> frames c" using b(2) c(4) by simp
  ultimately show ?thesis using side_insert_tuple [OF side _ _ sample_row, of 900 0 1] b(2) c(4) by auto
qed


end
