(* ===== verification/Locks.thy ===== *)
theory Locks
  imports Aether_Prelude
begin

text \<open>
  Mutexes, scoped guards and threads: \<^verbatim>\<open>common/include/common/concurrency.hpp\<close>. A mutex is held by
  one thread or free; a thread that locks a mutex that is held waits, also when it holds it
  itself. A program is a list of instructions, a scoped guard adds a \<open>Lock\<close> in front and an
  \<open>Unlock\<close> behind the statements of its scope. One step of a \<open>machine\<close> is one instruction of one
  thread. Two results: methods that are guarded by one mutex are atomic (\<open>guarded_serial\<close>), and
  threads that take their mutexes in ascending order do not deadlock (\<open>ordered_progress\<close>). The
  methods of the storage engine take the latch of the pool, the latch of the replacer, the lock of
  the disk manager and the lock of the log in this order.
\<close>

section \<open>Mutex and LockGuard\<close>

record mutex =
  locked_by :: "nat option"

definition Mutex_new :: mutex where
  "Mutex_new = \<lparr>locked_by = None\<rparr>"

text \<open>\<open>None\<close>: the calling thread waits.\<close>

definition Mutex_Lock :: "nat \<Rightarrow> mutex \<Rightarrow> mutex option" where
  "Mutex_Lock t m = (if locked_by m = None then Some (m\<lparr>locked_by := Some t\<rparr>) else None)"

definition Mutex_Unlock :: "mutex \<Rightarrow> mutex" where
  "Mutex_Unlock m = m\<lparr>locked_by := None\<rparr>"

datatype ('l, 's) instr = Lock 'l | Unlock 'l | Run "'s \<Rightarrow> 's"

definition LockGuard :: "'l \<Rightarrow> ('l, 's) instr list \<Rightarrow> ('l, 's) instr list" where
  "LockGuard l body = Lock l # body @ [Unlock l]"

section \<open>Interleaved execution\<close>

record ('l, 's) machine =
  mutexes :: "'l \<Rightarrow> mutex"
  shared :: 's
  progs :: "('l, 's) instr list list"

definition start :: "'s \<Rightarrow> ('l, 's) instr list list \<Rightarrow> ('l, 's) machine" where
  "start s ps = \<lparr>mutexes = (\<lambda>_. Mutex_new), shared = s, progs = ps\<rparr>"

text \<open>The next instruction of thread \<open>t\<close>; \<open>None\<close> when it has ended or waits.\<close>

definition exec :: "nat \<Rightarrow> ('l, 's) machine \<Rightarrow> ('l, 's) machine option" where
  "exec t m =
     (if t < length (progs m) then
        (case progs m ! t of
           [] \<Rightarrow> None
         | Run f # p \<Rightarrow> Some (m\<lparr>shared := f (shared m), progs := (progs m)[t := p]\<rparr>)
         | Lock l # p \<Rightarrow>
             (case Mutex_Lock t (mutexes m l) of
                None \<Rightarrow> None
              | Some x \<Rightarrow> Some (m\<lparr>mutexes := (mutexes m)(l := x), progs := (progs m)[t := p]\<rparr>))
         | Unlock l # p \<Rightarrow>
             Some (m\<lparr>mutexes := (mutexes m)(l := Mutex_Unlock (mutexes m l)), progs := (progs m)[t := p]\<rparr>))
      else None)"

inductive reaches :: "('l, 's) machine \<Rightarrow> nat \<Rightarrow> ('l, 's) machine \<Rightarrow> bool" where
  refl: "reaches m 0 m"
| step: "reaches m k m' \<Longrightarrow> exec t m' = Some m'' \<Longrightarrow> reaches m (Suc k) m''"

text \<open>A run given by its schedule.\<close>

fun exec_all :: "nat list \<Rightarrow> ('l, 's) machine \<Rightarrow> ('l, 's) machine option" where
  "exec_all [] m = Some m"
| "exec_all (t # ts) m = (case exec t m of None \<Rightarrow> None | Some m1 \<Rightarrow> exec_all ts m1)"

lemma reaches_Suc: "exec t m = Some m1 \<Longrightarrow> reaches m1 k m' \<Longrightarrow> reaches m (Suc k) m'"
proof (rotate_tac 1, induction m1 k m' rule: reaches.induct)
  case (refl m1)
  then show ?case using reaches.step [OF reaches.refl, of t m] by simp
next
  case (step m1 k m' u m'')
  then show ?case using reaches.step by blast
qed

lemma exec_all_reaches: "exec_all ts m = Some m' \<Longrightarrow> length ts = k \<Longrightarrow> reaches m k m'"
  by (induction ts arbitrary: m k) (auto intro: reaches.refl reaches_Suc split: option.splits)

definition finished :: "('l, 's) machine \<Rightarrow> bool" where
  "finished m \<longleftrightarrow> (\<forall>p \<in> set (progs m). p = [])"

lemma exec_cases:
  assumes "exec t m = Some m'"
  obtains (run) f p where "t < length (progs m)" "progs m ! t = Run f # p"
      "m' = m\<lparr>shared := f (shared m), progs := (progs m)[t := p]\<rparr>"
    | (lock) l p where "t < length (progs m)" "progs m ! t = Lock l # p" "locked_by (mutexes m l) = None"
      "m' = m\<lparr>mutexes := (mutexes m)(l := (mutexes m l)\<lparr>locked_by := Some t\<rparr>), progs := (progs m)[t := p]\<rparr>"
    | (unlock) l p where "t < length (progs m)" "progs m ! t = Unlock l # p"
      "m' = m\<lparr>mutexes := (mutexes m)(l := (mutexes m l)\<lparr>locked_by := None\<rparr>), progs := (progs m)[t := p]\<rparr>"
  using assms
  by (auto simp: exec_def Mutex_Lock_def Mutex_Unlock_def split: if_splits list.splits instr.splits option.splits)

text \<open>Every step executes one instruction.\<close>

definition instructions :: "('l, 's) machine \<Rightarrow> nat" where
  "instructions m = sum_list (map length (progs m))"

lemma sum_list_upd_less:
  "i < length xs \<Longrightarrow> f (xs ! i) = Suc (f x) \<Longrightarrow> Suc (sum_list (map f (xs[i := x]))) = sum_list (map f xs)"
  by (induction xs arbitrary: i) (auto split: nat.splits)

lemma exec_length: "exec t m = Some m' \<Longrightarrow> Suc (instructions m') = instructions m \<and> length (progs m') = length (progs m)"
  by (erule exec_cases) (auto simp: instructions_def intro: sum_list_upd_less)

lemma reaches_length: "reaches m k m' \<Longrightarrow> instructions m' + k = instructions m \<and> length (progs m') = length (progs m)"
  by (induction rule: reaches.induct) (auto dest: exec_length)

lemma finished_instructions: "finished m \<longleftrightarrow> instructions m = 0"
  by (auto simp: finished_def instructions_def sum_list_eq_0_iff)

section \<open>Methods under one guard are atomic\<close>

fun run_body :: "('l, 's) instr list \<Rightarrow> 's \<Rightarrow> 's" where
  "run_body [] s = s"
| "run_body (Run f # p) s = run_body p (f s)"
| "run_body (Lock l # p) s = run_body p s"
| "run_body (Unlock l # p) s = run_body p s"

lemma run_body_append: "run_body (p @ q) s = run_body q (run_body p s)"
  by (induction p s rule: run_body.induct) simp_all

text \<open>The statements of a scope do not use the mutex of the scope themselves.\<close>

definition inside :: "'l \<Rightarrow> ('l, 's) instr list \<Rightarrow> bool" where
  "inside l body \<longleftrightarrow> Lock l \<notin> set body \<and> Unlock l \<notin> set body"

definition calls :: "'l \<Rightarrow> ('l, 's) instr list list \<Rightarrow> ('l, 's) instr list" where
  "calls l bodies = concat (map (LockGuard l) bodies)"

text \<open>The calls of thread \<open>t\<close> in an order of calls, and the effect of calls in an order.\<close>

definition of_thread :: "nat \<Rightarrow> (nat \<times> 'b) list \<Rightarrow> 'b list" where
  "of_thread t order = map snd (filter (\<lambda>c. fst c = t) order)"

definition serial :: "(nat \<times> ('l, 's) instr list) list \<Rightarrow> 's \<Rightarrow> 's" where
  "serial order s = fold (\<lambda>c. run_body (snd c)) order s"

lemma of_thread_snoc [simp]: "of_thread t (order @ [(u, b)]) = of_thread t order @ (if u = t then [b] else [])"
  by (simp add: of_thread_def)

lemma serial_snoc [simp]: "serial (order @ [(u, b)]) s = run_body b (serial order s)"
  by (simp add: serial_def)

lemma of_thread_Nil [simp]: "of_thread t [] = []" and serial_Nil [simp]: "serial [] s = s"
  by (simp_all add: of_thread_def serial_def)

lemma calls_simps [simp]: "calls l [] = []" "calls l (b # bs) = Lock l # b @ Unlock l # calls l bs"
  by (simp_all add: calls_def LockGuard_def)

text \<open>
  While the mutex is free, every thread is between two calls; while thread \<open>u\<close> has it, \<open>u\<close> has
  executed the part \<open>b1\<close> of its current call.
\<close>

definition between :: "'l \<Rightarrow> ('l, 's) instr list list list \<Rightarrow> (nat \<times> ('l, 's) instr list) list \<Rightarrow> nat \<Rightarrow> ('l, 's) instr list \<Rightarrow> bool" where
  "between l bs order t p \<longleftrightarrow> (\<exists>rest. p = calls l rest \<and> bs ! t = of_thread t order @ rest)"

definition within ::
  "'l \<Rightarrow> ('l, 's) instr list list list \<Rightarrow> (nat \<times> ('l, 's) instr list) list \<Rightarrow> nat \<Rightarrow> ('l, 's) instr list \<Rightarrow> ('l, 's) instr list \<Rightarrow> bool" where
  "within l bs order t b1 p \<longleftrightarrow>
     (\<exists>b2 rest. p = b2 @ Unlock l # calls l rest \<and> bs ! t = of_thread t order @ (b1 @ b2) # rest)"

definition serial_inv :: "'l \<Rightarrow> 's \<Rightarrow> ('l, 's) instr list list list \<Rightarrow> ('l, 's) machine \<Rightarrow> bool" where
  "serial_inv l s bs m \<longleftrightarrow> length (progs m) = length bs \<and>
     (\<exists>order. set (map fst order) \<subseteq> {..<length bs} \<and>
       (case locked_by (mutexes m l) of
          None \<Rightarrow> shared m = serial order s \<and> (\<forall>t < length bs. between l bs order t (progs m ! t))
        | Some u \<Rightarrow> u < length bs \<and> (\<exists>b1. shared m = run_body b1 (serial order s) \<and> within l bs order u b1 (progs m ! u)) \<and>
            (\<forall>t < length bs. t \<noteq> u \<longrightarrow> between l bs order t (progs m ! t))))"

lemma between_upd: "t < length ps \<Longrightarrow> u < length ps \<Longrightarrow> t \<noteq> u \<Longrightarrow> between l bs order t (ps[u := p] ! t) = between l bs order t (ps ! t)"
  by simp

lemma between_other: "t \<noteq> u \<Longrightarrow> between l bs (order @ [(u, b)]) t p = between l bs order t p"
  by (simp add: between_def)

lemma calls_Cons_cases:
  assumes "calls l rest = i # p"
  obtains b rest' where "rest = b # rest'" "i = Lock l" "p = b @ Unlock l # calls l rest'"
  using assms by (cases rest) auto

lemma within_cases:
  assumes "within l bs order t b1 (i # p)"
  obtains (inner) b2 rest where "p = b2 @ Unlock l # calls l rest" "bs ! t = of_thread t order @ (b1 @ i # b2) # rest"
    | (leave) rest where "i = Unlock l" "p = calls l rest" "bs ! t = of_thread t order @ b1 # rest"
proof -
  obtain b2 rest where b: "i # p = b2 @ Unlock l # calls l rest" "bs ! t = of_thread t order @ (b1 @ b2) # rest"
    using assms by (auto simp: within_def)
  show thesis
  proof (cases b2)
    case Nil
    then show ?thesis using leave [of rest] b by simp
  next
    case (Cons j b3)
    then show ?thesis using inner [of b3 rest] b by simp
  qed
qed

lemma serial_inv_free:
  assumes inv: "serial_inv l s bs m" and free: "locked_by (mutexes m l) = None" and ex: "exec t m = Some m'"
  shows "serial_inv l s bs m'"
proof -
  obtain order where o: "length (progs m) = length bs" "set (map fst order) \<subseteq> {..<length bs}"
    "shared m = serial order s" "\<forall>t < length bs. between l bs order t (progs m ! t)"
    using inv free by (auto simp: serial_inv_def)
  from ex obtain i p where t: "t < length bs" "progs m ! t = i # p"
    using o(1) by (cases rule: exec_cases) auto
  then obtain rest where r: "i # p = calls l rest" "bs ! t = of_thread t order @ rest"
    using o(4) by (force simp: between_def)
  then obtain b rest' where b: "rest = b # rest'" "i = Lock l" "p = b @ Unlock l # calls l rest'"
    by (metis calls_Cons_cases)
  from ex have m': "m' = m\<lparr>mutexes := (mutexes m)(l := (mutexes m l)\<lparr>locked_by := Some t\<rparr>), progs := (progs m)[t := p]\<rparr>"
    using t b(2) by (cases rule: exec_cases) auto
  have "within l bs order t [] p" using b r(2) by (auto simp: within_def)
  moreover have "\<forall>u < length bs. u \<noteq> t \<longrightarrow> between l bs order u ((progs m)[t := p] ! u)" using o(4) by simp
  ultimately show ?thesis using o t(1) unfolding serial_inv_def m'
    by (intro conjI exI [of _ order]) (auto intro!: exI [of _ "[]"])
qed

lemma serial_inv_held:
  assumes inv: "serial_inv l s bs m" and held: "locked_by (mutexes m l) = Some u" and ex: "exec t m = Some m'"
    and ins: "\<forall>t < length bs. \<forall>b \<in> set (bs ! t). inside l b"
  shows "serial_inv l s bs m'"
proof -
  obtain order b1 where o: "length (progs m) = length bs" "set (map fst order) \<subseteq> {..<length bs}" "u < length bs"
    "shared m = run_body b1 (serial order s)" "within l bs order u b1 (progs m ! u)"
    "\<forall>t < length bs. t \<noteq> u \<longrightarrow> between l bs order t (progs m ! t)"
    using inv held by (auto simp: serial_inv_def)
  from ex obtain i p where t: "t < length bs" "progs m ! t = i # p"
    using o(1) by (cases rule: exec_cases) auto
  have tu: "t = u"
  proof (rule ccontr)
    assume "t \<noteq> u"
    then have i: "i = Lock l" using o(6) t by (force simp: between_def elim: calls_Cons_cases)
    from ex show False using i t held by (cases rule: exec_cases) auto
  qed
  have others: "\<forall>v < length bs. v \<noteq> u \<longrightarrow> between l bs order v ((progs m)[u := q] ! v)" for q
    using o(6) by simp
  from o(5) t(2) tu have "within l bs order u b1 (i # p)" by simp
  then show ?thesis
  proof (cases rule: within_cases)
    case (inner b2 rest)
    have il: "i \<noteq> Lock l" "i \<noteq> Unlock l" using ins o(3) inner(2) by (auto simp: inside_def)
    have w: "within l bs order u (b1 @ [i]) p" using inner by (auto simp: within_def)
    from ex show ?thesis
    proof (cases rule: exec_cases)
      case (run f q)
      then have "i = Run f" "q = p" using t by simp_all
      then have "shared m' = run_body (b1 @ [i]) (serial order s)" using o(4) run(3) by (simp add: run_body_append)
      then show ?thesis using o(1,2,3) others w held run tu \<open>q = p\<close> unfolding serial_inv_def
        by (intro conjI exI [of _ order]) auto
    next
      case (lock l' q)
      then have q: "i = Lock l'" "q = p" "l' \<noteq> l" using t il by auto
      then have "shared m' = run_body (b1 @ [i]) (serial order s)" using o(4) lock(4) by (simp add: run_body_append)
      then show ?thesis using o(1,2,3) others w held lock tu q unfolding serial_inv_def
        by (intro conjI exI [of _ order]) auto
    next
      case (unlock l' q)
      then have q: "i = Unlock l'" "q = p" "l' \<noteq> l" using t il by auto
      then have "shared m' = run_body (b1 @ [i]) (serial order s)" using o(4) unlock(3) by (simp add: run_body_append)
      then show ?thesis using o(1,2,3) others w held unlock tu q unfolding serial_inv_def
        by (intro conjI exI [of _ order]) auto
    qed
  next
    case (leave rest)
    from ex have m': "m' = m\<lparr>mutexes := (mutexes m)(l := (mutexes m l)\<lparr>locked_by := None\<rparr>), progs := (progs m)[t := p]\<rparr>"
      using t leave(1) by (cases rule: exec_cases) auto
    have "between l bs (order @ [(u, b1)]) v ((progs m)[t := p] ! v)" if v: "v < length bs" for v
    proof (cases "v = u")
      case True
      then show ?thesis using leave o(1,3) tu by (auto simp: between_def)
    qed (use v o(6) tu between_other in \<open>auto simp: between_def\<close>)
    then show ?thesis using o(1-4) unfolding serial_inv_def m'
      by (intro conjI exI [of _ "order @ [(u, b1)]"]) auto
  qed
qed

lemma guarded_serial:
  assumes run: "reaches (start s (map (calls l) bs)) k m" and ins: "\<forall>t < length bs. \<forall>b \<in> set (bs ! t). inside l b"
  shows "serial_inv l s bs m"
  using run
proof (induction "start s (map (calls l) bs)" k m rule: reaches.induct)
  case refl
  have "between l bs [] t (map (calls l) bs ! t)" if "t < length bs" for t using that by (simp add: between_def)
  then show ?case by (auto simp: serial_inv_def start_def Mutex_new_def intro!: exI [of _ "[]"])
next
  case (step k m' t m'')
  then have inv: "serial_inv l s bs m'" by blast
  show ?case
  proof (cases "locked_by (mutexes m' l)")
    case None
    then show ?thesis by (rule serial_inv_free [OF inv _ step(3)])
  next
    case (Some u)
    then show ?thesis by (rule serial_inv_held [OF inv _ step(3) ins])
  qed
qed

section \<open>Ascending locks do not deadlock\<close>

text \<open>
  \<open>ascending hs p\<close>: a thread that holds the mutexes \<open>hs\<close>, the latest first, takes only mutexes
  above those it holds, gives them back in reverse order and ends with none.
\<close>

fun ascending :: "'l::linorder list \<Rightarrow> ('l, 's) instr list \<Rightarrow> bool" where
  "ascending hs [] \<longleftrightarrow> hs = []"
| "ascending hs (Run f # p) \<longleftrightarrow> ascending hs p"
| "ascending hs (Lock l # p) \<longleftrightarrow> (\<forall>h \<in> set hs. h < l) \<and> ascending (l # hs) p"
| "ascending hs (Unlock l # p) \<longleftrightarrow> (case hs of [] \<Rightarrow> False | h # hs' \<Rightarrow> h = l \<and> ascending hs' p)"

lemma ascending_append: "ascending hs p \<Longrightarrow> ascending [] q \<Longrightarrow> ascending hs (p @ q)"
  by (induction hs p rule: ascending.induct) (auto split: list.splits)

text \<open>A part of a program that leaves the held mutexes as they were.\<close>

definition balanced :: "'l::linorder list \<Rightarrow> ('l, 's) instr list \<Rightarrow> bool" where
  "balanced hs p \<longleftrightarrow> (\<forall>q. ascending hs q \<longrightarrow> ascending hs (p @ q))"

lemma balanced_simps [simp]: "balanced hs []" "balanced hs (Run f # p) \<longleftrightarrow> balanced hs p"
  by (simp_all add: balanced_def)

lemma balanced_append [intro]: "balanced hs p \<Longrightarrow> balanced hs q \<Longrightarrow> balanced hs (p @ q)"
  by (simp add: balanced_def)

lemma balanced_guard:
  assumes "\<forall>h \<in> set hs. h < l" "balanced (l # hs) p"
  shows "balanced hs (LockGuard l p)"
  using assms by (simp add: balanced_def LockGuard_def)

lemma balanced_ascending: "balanced [] p \<Longrightarrow> ascending [] p"
  by (auto simp: balanced_def dest: spec [of _ "[]"])

definition lock_inv :: "('l::linorder, 's) machine \<Rightarrow> bool" where
  "lock_inv m \<longleftrightarrow>
     (\<exists>hs. length hs = length (progs m) \<and>
       (\<forall>t < length hs. ascending (hs ! t) (progs m ! t) \<and> distinct (hs ! t)) \<and>
       (\<forall>t l. locked_by (mutexes m l) = Some t \<longleftrightarrow> t < length hs \<and> l \<in> set (hs ! t)))"

lemma lock_inv_start: "\<forall>p \<in> set ps. ascending [] p \<Longrightarrow> lock_inv (start s ps)"
  by (auto simp: lock_inv_def start_def Mutex_new_def intro!: exI [of _ "replicate (length ps) []"])

lemma lock_inv_exec:
  assumes inv: "lock_inv m" and ex: "exec t m = Some m'"
  shows "lock_inv m'"
proof -
  obtain hs where h: "length hs = length (progs m)"
    "\<And>t. t < length hs \<Longrightarrow> ascending (hs ! t) (progs m ! t) \<and> distinct (hs ! t)"
    "\<And>t l. locked_by (mutexes m l) = Some t \<longleftrightarrow> t < length hs \<and> l \<in> set (hs ! t)"
    using inv by (auto simp: lock_inv_def)
  from ex show ?thesis
  proof (cases rule: exec_cases)
    case (run f p)
    then show ?thesis using h h(2) [of t] unfolding lock_inv_def
      by (intro exI [of _ hs]) (auto simp: nth_list_update)
  next
    case (lock l p)
    have a: "ascending (l # hs ! t) p" "l \<notin> set (hs ! t)" using h(2) [of t] lock(1,2) h(1) by auto
    have free: "\<not> (u < length hs \<and> l \<in> set (hs ! u))" for u using lock(3) h(3) [of l u] by simp
    show ?thesis unfolding lock_inv_def
    proof (intro exI [of _ "hs[t := l # hs ! t]"] conjI allI impI)
      fix u k
      show "locked_by (mutexes m' k) = Some u \<longleftrightarrow> u < length (hs[t := l # hs ! t]) \<and> k \<in> set (hs[t := l # hs ! t] ! u)"
        using h(1) h(3) [of k u] free [of u] lock(1,4) by (auto simp: nth_list_update)
    qed (use h lock a in \<open>auto simp: nth_list_update\<close>)
  next
    case (unlock l p)
    obtain hs' where hs': "hs ! t = l # hs'" "ascending hs' p" "distinct hs'" "l \<notin> set hs'"
      using h(2) [of t] unlock(1,2) h(1) by (auto split: list.splits)
    have other: "u = t" if "u < length hs" "l \<in> set (hs ! u)" for u
    proof -
      have "locked_by (mutexes m l) = Some u" "locked_by (mutexes m l) = Some t"
        using that h(1,3) hs'(1) unlock(1) by auto
      then show ?thesis by simp
    qed
    show ?thesis unfolding lock_inv_def
    proof (intro exI [of _ "hs[t := hs']"] conjI allI impI)
      fix u k
      show "locked_by (mutexes m' k) = Some u \<longleftrightarrow> u < length (hs[t := hs']) \<and> k \<in> set (hs[t := hs'] ! u)"
        using h(1) h(3) [of k u] other [of u] hs' unlock(1,3) by (auto simp: nth_list_update)
    qed (use h unlock hs' in \<open>auto simp: nth_list_update\<close>)
  qed
qed

lemma lock_inv_reaches: "reaches m k m' \<Longrightarrow> lock_inv m \<Longrightarrow> lock_inv m'"
  by (induction rule: reaches.induct) (auto intro: lock_inv_exec)

text \<open>The thread that waits for the highest mutex waits for a thread that can go on.\<close>

lemma ordered_progress:
  assumes inv: "lock_inv m" and unf: "\<not> finished m"
  shows "\<exists>t m'. exec t m = Some m'"
proof (rule ccontr)
  assume stuck: "\<nexists>t m'. exec t m = Some m'"
  obtain hs where h: "length hs = length (progs m)"
    "\<And>t. t < length hs \<Longrightarrow> ascending (hs ! t) (progs m ! t)"
    "\<And>t l. locked_by (mutexes m l) = Some t \<longleftrightarrow> t < length hs \<and> l \<in> set (hs ! t)"
    using inv by (auto simp: lock_inv_def)
  have waits: "\<exists>l p. progs m ! t = Lock l # p \<and> locked_by (mutexes m l) \<noteq> None"
    if t: "t < length hs" "progs m ! t \<noteq> []" for t
  proof -
    obtain i p where i: "progs m ! t = i # p" using t(2) by (cases "progs m ! t") auto
    have "exec t m = None" using stuck by (cases "exec t m") auto
    then show ?thesis using i t(1) h(1)
      by (cases i) (auto simp: exec_def Mutex_Lock_def split: if_splits)
  qed
  define W where "W = {l. \<exists>t < length hs. \<exists>p. progs m ! t = Lock l # p}"
  have "W = (\<lambda>t. case progs m ! t of Lock l # p \<Rightarrow> l | _ \<Rightarrow> undefined) ` {t. t < length hs \<and> (\<exists>l p. progs m ! t = Lock l # p)}"
    unfolding W_def by force
  then have fin: "finite W" by simp
  obtain t where "t < length hs" "progs m ! t \<noteq> []" using unf h(1) by (auto simp: finished_def in_set_conv_nth)
  then have ne: "W \<noteq> {}" using waits [of t] unfolding W_def by blast
  have "Max W \<in> W" by (rule Max_in [OF fin ne])
  then obtain t p where t: "t < length hs" "progs m ! t = Lock (Max W) # p" unfolding W_def by blast
  then obtain u where u: "u < length hs" "Max W \<in> set (hs ! u)" using waits [of t] h(3) [of "Max W"] by auto
  have "progs m ! u \<noteq> []" using h(2) [OF u(1)] u(2) by (cases "progs m ! u") auto
  then obtain l q where l: "progs m ! u = Lock l # q" using waits [OF u(1)] by blast
  then have "Max W < l" using h(2) [OF u(1)] u(2) by auto
  moreover have "l \<le> Max W" using l u(1) by (intro Max_ge [OF fin]) (auto simp: W_def)
  ultimately show False by simp
qed

section \<open>The mutexes of the storage engine\<close>

text \<open>
  \<^verbatim>\<open>BufferPoolManager::latch_\<close>, \<^verbatim>\<open>latch_\<close> of the replacer, \<^verbatim>\<open>DiskManager::db_io_lck_\<close> and the mutex
  of the log, in the order in which a call of the pool can take them.
\<close>

datatype storage_lock = PoolLatch | ReplacerLatch | DiskLock | LogLock

fun lock_rank :: "storage_lock \<Rightarrow> nat" where
  "lock_rank PoolLatch = 0"
| "lock_rank ReplacerLatch = 1"
| "lock_rank DiskLock = 2"
| "lock_rank LogLock = 3"

lemma lock_rank_inj: "lock_rank a = lock_rank b \<Longrightarrow> a = b"
  by (cases a; cases b) simp_all

instantiation storage_lock :: linorder
begin

definition less_eq_storage_lock :: "storage_lock \<Rightarrow> storage_lock \<Rightarrow> bool" where
  "less_eq_storage_lock a b \<longleftrightarrow> lock_rank a \<le> lock_rank b"

definition less_storage_lock :: "storage_lock \<Rightarrow> storage_lock \<Rightarrow> bool" where
  "less_storage_lock a b \<longleftrightarrow> lock_rank a < lock_rank b"

instance
  by standard (auto simp: less_eq_storage_lock_def less_storage_lock_def dest: lock_rank_inj)

end

text \<open>
  The scopes of the guards. \<^verbatim>\<open>Log\<close> prints one line under its mutex; the methods of the replacer work
  on their own lists; those of the disk manager also log; those of the pool also call the replacer
  and the disk manager. A thread of the service calls the pool and the log and, when the service
  stops, the disk manager.
\<close>

definition Log :: "('s \<Rightarrow> 's) \<Rightarrow> (storage_lock, 's) instr list" where
  "Log print = LockGuard LogLock [Run print]"

definition replacer_method :: "('s \<Rightarrow> 's) list \<Rightarrow> (storage_lock, 's) instr list" where
  "replacer_method body = LockGuard ReplacerLatch (map Run body)"

inductive disk_scope :: "(storage_lock, 's) instr list \<Rightarrow> bool" where
  "disk_scope []"
| "disk_scope b \<Longrightarrow> disk_scope (Run f # b)"
| "disk_scope b \<Longrightarrow> disk_scope (Log f @ b)"

inductive pool_scope :: "(storage_lock, 's) instr list \<Rightarrow> bool" where
  "pool_scope []"
| "pool_scope b \<Longrightarrow> pool_scope (Run f # b)"
| "pool_scope b \<Longrightarrow> pool_scope (Log f @ b)"
| "pool_scope b \<Longrightarrow> pool_scope (replacer_method fs @ b)"
| "pool_scope b \<Longrightarrow> disk_scope d \<Longrightarrow> pool_scope (LockGuard DiskLock d @ b)"

inductive service_thread :: "(storage_lock, 's) instr list \<Rightarrow> bool" where
  "service_thread []"
| "service_thread p \<Longrightarrow> service_thread (Run f # p)"
| "service_thread p \<Longrightarrow> service_thread (Log f @ p)"
| "service_thread p \<Longrightarrow> pool_scope b \<Longrightarrow> service_thread (LockGuard PoolLatch b @ p)"
| "service_thread p \<Longrightarrow> disk_scope d \<Longrightarrow> service_thread (LockGuard DiskLock d @ p)"

lemma balanced_Runs: "balanced hs (map Run fs)"
  by (induction fs) simp_all

lemma balanced_Log: "\<forall>h \<in> set hs. h < LogLock \<Longrightarrow> balanced hs (Log f)"
  unfolding Log_def by (rule balanced_guard) simp_all

lemma balanced_disk: "disk_scope d \<Longrightarrow> \<forall>h \<in> set hs. h < LogLock \<Longrightarrow> balanced hs d"
  by (induction rule: disk_scope.induct) (auto intro: balanced_Log)

lemma balanced_disk_method: "disk_scope d \<Longrightarrow> \<forall>h \<in> set hs. h < DiskLock \<Longrightarrow> balanced hs (LockGuard DiskLock d)"
  by (rule balanced_guard, simp, rule balanced_disk) (auto simp: less_storage_lock_def)

lemma balanced_replacer_method: "\<forall>h \<in> set hs. h < ReplacerLatch \<Longrightarrow> balanced hs (replacer_method fs)"
  unfolding replacer_method_def by (rule balanced_guard) (simp_all add: balanced_Runs)

lemma balanced_pool: "pool_scope b \<Longrightarrow> balanced [PoolLatch] b"
  by (induction rule: pool_scope.induct)
    (auto simp: less_storage_lock_def intro!: balanced_append balanced_Log balanced_disk_method balanced_replacer_method)

lemma balanced_pool_method: "pool_scope b \<Longrightarrow> balanced [] (LockGuard PoolLatch b)"
  by (rule balanced_guard) (simp_all add: balanced_pool)

lemma balanced_service: "service_thread p \<Longrightarrow> balanced [] p"
  by (induction rule: service_thread.induct)
    (auto intro!: balanced_append balanced_Log balanced_disk_method balanced_pool_method)

lemma pool_scope_inside: "pool_scope b \<Longrightarrow> inside PoolLatch b"
proof -
  have d: "inside PoolLatch d" if "disk_scope d" for d :: "(storage_lock, 'a) instr list"
    using that by (induction rule: disk_scope.induct) (auto simp: inside_def Log_def LockGuard_def)
  show "inside PoolLatch b" if "pool_scope b"
    using that by (induction rule: pool_scope.induct)
      (auto simp: inside_def Log_def replacer_method_def LockGuard_def dest: d [unfolded inside_def])
qed

section \<open>Properties\<close>

text \<open>
  Calls of the pool are atomic. Threads execute calls of pool methods, whose bodies may call the
  replacer, the disk manager and the log, in any interleaving of their single instructions. When
  all have ended, the shared state is that of executing the same calls one after the other, in an
  order in which every thread's calls keep their order.
\<close>

lemma pool_calls_atomic:
  assumes "reaches (start s (map (calls PoolLatch) bs)) k m" "finished m"
    "\<forall>t < length bs. \<forall>b \<in> set (bs ! t). pool_scope b"
  shows "\<exists>order. shared m = serial order s \<and> set (map fst order) \<subseteq> {..<length bs} \<and>
     (\<forall>t < length bs. of_thread t order = bs ! t)"
proof -
  have "serial_inv PoolLatch s bs m"
    by (rule guarded_serial [OF assms(1)]) (use assms(3) pool_scope_inside in blast)
  then obtain order where o: "length (progs m) = length bs" "set (map fst order) \<subseteq> {..<length bs}"
    "case locked_by (mutexes m PoolLatch) of
       None \<Rightarrow> shared m = serial order s \<and> (\<forall>t < length bs. between PoolLatch bs order t (progs m ! t))
     | Some u \<Rightarrow> u < length bs \<and> (\<exists>b1. shared m = run_body b1 (serial order s) \<and> within PoolLatch bs order u b1 (progs m ! u)) \<and>
         (\<forall>t < length bs. t \<noteq> u \<longrightarrow> between PoolLatch bs order t (progs m ! t))"
    unfolding serial_inv_def by blast
  have e: "progs m ! t = []" if "t < length bs" for t using assms(2) o(1) that by (simp add: finished_def)
  have "locked_by (mutexes m PoolLatch) = None"
    using o(3) e by (auto simp: within_def split: option.splits)
  then have fin: "shared m = serial order s" "\<forall>t < length bs. between PoolLatch bs order t []" using o(3) e by auto
  have "of_thread t order = bs ! t" if t: "t < length bs" for t
  proof -
    obtain rest where "[] = calls PoolLatch rest" "bs ! t = of_thread t order @ rest" using fin(2) t unfolding between_def by blast
    then show ?thesis by (cases rest) simp_all
  qed
  then show ?thesis using fin(1) o(2) by blast
qed

text \<open>
  C16. No deadlock. However the instructions of any number of threads of the service are interleaved,
  some thread can go on until all have ended, and they have ended after as many steps as there are
  instructions.
\<close>

theorem service_threads_no_deadlock:
  assumes "\<forall>p \<in> set ps. service_thread p" "reaches (start s ps) k m"
  shows "(finished m \<longleftrightarrow> k = sum_list (map length ps)) \<and> (finished m \<or> (\<exists>t m'. exec t m = Some m'))"
proof -
  have "lock_inv (start s ps)" by (rule lock_inv_start) (use assms(1) balanced_service balanced_ascending in blast)
  then have "lock_inv m" by (rule lock_inv_reaches [OF assms(2)])
  moreover have "instructions m + k = sum_list (map length ps)"
    using reaches_length [OF assms(2)] by (simp add: instructions_def start_def)
  ultimately show ?thesis using ordered_progress [of m] by (auto simp: finished_instructions)
qed

theorem service_threads_no_deadlock_witness:
  "\<exists>m t m'. reaches (start (1 :: int) [LockGuard PoolLatch (Log id @ LockGuard DiskLock [Run (\<lambda>x. x + 1)]), Log id]) 2 m \<and>
     exec 0 m = None \<and> exec t m = Some m'"
proof -
  let ?p = "LockGuard PoolLatch (Log id @ LockGuard DiskLock [Run (\<lambda>x :: int. x + 1)])" and ?q = "Log id :: (storage_lock, int) instr list"
  obtain m where m: "exec_all [0, 1] (start 1 [?p, ?q]) = Some m" "exec 0 m = None" "\<not> finished m"
    by (simp add: start_def exec_def Mutex_Lock_def Mutex_Unlock_def Mutex_new_def finished_def LockGuard_def Log_def)
  have r: "reaches (start 1 [?p, ?q]) 2 m" by (rule exec_all_reaches [OF m(1)]) simp
  have "disk_scope [Run (\<lambda>x :: int. x + 1)]" by (intro disk_scope.intros)
  then have "pool_scope (Log id @ LockGuard DiskLock [Run (\<lambda>x :: int. x + 1)] @ [])" by (intro pool_scope.intros)
  then have "service_thread (?p @ [])" by (intro service_thread.intros) simp_all
  moreover have "service_thread (?q @ [])" by (intro service_thread.intros)
  ultimately have "\<forall>p \<in> set [?p, ?q]. service_thread p" by simp
  from service_threads_no_deadlock [OF this r] m(2,3) r show ?thesis by blast
qed

end
