(* ===== verification/Storage_Service.thy ===== *)
theory Storage_Service
  imports Table_Heap
begin

text \<open>
  The network front end: the byte-stream helpers of \<^verbatim>\<open>socket.cpp\<close>, the packed headers of
  \<^verbatim>\<open>protocol.hpp\<close> and \<open>StorageService\<close> of \<^verbatim>\<open>storage_service.cpp\<close>. What the operating system
  does is an argument: a connection carries the chunks that successive \<^verbatim>\<open>recv\<close> calls deliver and
  the numbers of bytes that successive \<^verbatim>\<open>send\<close> calls accept; an empty chunk or a zero is a result
  \<open>\<le> 0\<close>. When the chunks are used up the peer has closed its end or stays silent for ever, and then
  \<^verbatim>\<open>recv\<close> blocks. When the numbers are used up \<^verbatim>\<open>send\<close> fails, blocks (the peer does not read), or
  raises SIGPIPE: \<^verbatim>\<open>Socket::Send\<close> passes no flags and \<^verbatim>\<open>main\<close> leaves the default action of that
  signal, which ends the process. One call of \<open>HandleClient\<close> serves one connection; here it runs
  alone, and \<open>Concurrent_Service\<close> interleaves it with other handlers and with \<open>Stop\<close>.
\<close>

section \<open>Sockets\<close>

datatype recv_end = Peer_closes | Peer_silent

datatype send_end = Send_fails | Send_blocks | Send_signals

record connection =
  fd_valid :: bool
  incoming :: "byte list list"
  recv_end :: recv_end
  send_quota :: "nat list"
  send_end :: send_end
  sent :: "byte list"

definition recv_call :: "nat \<Rightarrow> (connection, byte list) comp" where
  "recv_call n c =
     (case incoming c of
        [] \<Rightarrow> (case recv_end c of Peer_closes \<Rightarrow> (Inr [], c) | Peer_silent \<Rightarrow> (Inl NoReturn, c))
      | x # xs \<Rightarrow> if length x \<le> n then (Inr x, c\<lparr>incoming := xs\<rparr>)
                  else (Inr (take n x), c\<lparr>incoming := drop n x # xs\<rparr>))"

definition send_call :: "byte list \<Rightarrow> (connection, nat) comp" where
  "send_call bs c =
     (case send_quota c of
        [] \<Rightarrow> (case send_end c of Send_fails \<Rightarrow> (Inr 0, c) | Send_blocks \<Rightarrow> (Inl NoReturn, c)
               | Send_signals \<Rightarrow> (Inl Killed, c))
      | q # qs \<Rightarrow> (Inr (min q (length bs)), c\<lparr>send_quota := qs, sent := sent c @ take q bs\<rparr>))"

text \<open>The loops of \<open>Socket::Send\<close> and \<open>Socket::Recv\<close>; each round transfers at least one byte.\<close>

function send_loop :: "byte list \<Rightarrow> (connection, bool) comp" where
  "send_loop bs c =
     (if bs = [] then (Inr True, c)
      else case send_call bs c of
        (Inl e, c1) \<Rightarrow> (Inl e, c1)
      | (Inr n, c1) \<Rightarrow> if n = 0 then (Inr False, c1) else send_loop (drop n bs) c1)"
  by pat_completeness auto
termination
  by (relation "measure (\<lambda>(bs, c). length bs)") auto

definition Send :: "byte list \<Rightarrow> (connection, bool) comp" where
  "Send bs c = (if fd_valid c then send_loop bs c else (Inr False, c))"

function recv_loop :: "nat \<Rightarrow> byte list \<Rightarrow> (connection, byte list option) comp" where
  "recv_loop n acc c =
     (if n = 0 then (Inr (Some acc), c)
      else case recv_call n c of
        (Inl e, c1) \<Rightarrow> (Inl e, c1)
      | (Inr bs, c1) \<Rightarrow> if bs = [] then (Inr None, c1) else recv_loop (n - length bs) (acc @ bs) c1)"
  by pat_completeness auto
termination
  by (relation "measure (\<lambda>(n, acc, c). n)") auto

definition Recv :: "nat \<Rightarrow> (connection, byte list option) comp" where
  "Recv n c = (if fd_valid c then recv_loop n [] c else (Inr None, c))"

definition Socket_Close :: "connection \<Rightarrow> connection" where
  "Socket_Close c = (if fd_valid c then c\<lparr>fd_valid := False\<rparr> else c)"

declare send_loop.simps [simp del] recv_loop.simps [simp del]

section \<open>Protocol\<close>

datatype OpType = READ_PAGE | WRITE_PAGE | ALLOCATE_PAGE | DEALLOCATE_PAGE

fun OpType_code :: "OpType \<Rightarrow> byte" where
  "OpType_code READ_PAGE = 0"
| "OpType_code WRITE_PAGE = 1"
| "OpType_code ALLOCATE_PAGE = 2"
| "OpType_code DEALLOCATE_PAGE = 3"

datatype StatusCode = SUCCESS | ERROR

fun StatusCode_code :: "StatusCode \<Rightarrow> byte" where
  "StatusCode_code SUCCESS = 0"
| "StatusCode_code ERROR = 1"

record RequestHeader =
  op_type :: byte
  req_page_id :: page_id
  req_data_len :: "32 word"

record ResponseHeader =
  status :: byte
  resp_page_id :: page_id
  resp_data_len :: "32 word"

definition RequestHeader_size :: nat where
  "RequestHeader_size = 9"

text \<open>The packed structs as they are laid over the bytes of the stream.\<close>

definition decode_request :: "byte list \<Rightarrow> RequestHeader" where
  "decode_request bs = \<lparr>op_type = bs ! 0, req_page_id = get_u32 bs 1, req_data_len = get_u32 bs 5\<rparr>"

definition encode_request :: "RequestHeader \<Rightarrow> byte list" where
  "encode_request h = op_type h # le_bytes 4 (req_page_id h) @ le_bytes 4 (req_data_len h)"

definition encode_response :: "ResponseHeader \<Rightarrow> byte list" where
  "encode_response r = status r # le_bytes 4 (resp_page_id r) @ le_bytes 4 (resp_data_len r)"

definition response :: "StatusCode \<Rightarrow> page_id \<Rightarrow> 32 word \<Rightarrow> byte list" where
  "response st p len = encode_response \<lparr>status = StatusCode_code st, resp_page_id = p, resp_data_len = len\<rparr>"

section \<open>Request handlers\<close>

record session =
  pool :: buffer_pool
  conn :: connection

definition on_pool :: "(buffer_pool, 'a) comp \<Rightarrow> (session, 'a) comp" where
  "on_pool m s = (case m (pool s) of (r, b) \<Rightarrow> (r, s\<lparr>pool := b\<rparr>))"

definition send_bytes :: "byte list \<Rightarrow> (session, bool) comp" where
  "send_bytes bs s = (case Send bs (conn s) of (r, c) \<Rightarrow> (r, s\<lparr>conn := c\<rparr>))"

definition recv_bytes :: "nat \<Rightarrow> (session, byte list option) comp" where
  "recv_bytes n s = (case Recv n (conn s) of (r, c) \<Rightarrow> (r, s\<lparr>conn := c\<rparr>))"

definition read_frame :: "frame_id \<Rightarrow> (session, byte list) comp" where
  "read_frame f s = (Inr (page_data (pool s) f), s)"

text \<open>A handler \<^verbatim>\<open>catch (const std::exception&)\<close> around \<open>m\<close>.\<close>

definition catch_std :: "('s, 'a) comp \<Rightarrow> ('s, 'a) comp \<Rightarrow> ('s, 'a) comp" where
  "catch_std m h s =
     (case m s of
        (Inl e, s') \<Rightarrow> if is_std_exception e then h s' else (Inl e, s')
      | (Inr a, s') \<Rightarrow> (Inr a, s'))"

datatype loop_control = Continue | Break

definition continue_if :: "bool \<Rightarrow> loop_control" where
  "continue_if b = (if b then Continue else Break)"

definition handle_read :: "page_id \<Rightarrow> (session, loop_control) comp" where
  "handle_read p =
     catch_std
       (bind (on_pool (FetchPage p)) (\<lambda>r. case r of
          None \<Rightarrow> throw (RuntimeError ''Failed to fetch page from buffer pool'')
        | Some f \<Rightarrow>
            bind (send_bytes (response SUCCESS p (of_nat PAGE_SIZE))) (\<lambda>b1.
            bind (if b1 then bind (read_frame f) send_bytes else ret False) (\<lambda>b2.
            bind (on_pool (UnpinPage p False)) (\<lambda>_.
            ret (continue_if b2))))))
       (bind (send_bytes (response ERROR p 0)) (\<lambda>_. ret Continue))"

definition handle_write :: "page_id \<Rightarrow> (session, loop_control) comp" where
  "handle_write p =
     bind (recv_bytes PAGE_SIZE) (\<lambda>buffer. case buffer of
        None \<Rightarrow> ret Break
      | Some bs \<Rightarrow>
          catch_std
            (bind (on_pool (FetchPage p)) (\<lambda>r. case r of
               None \<Rightarrow> throw (RuntimeError ''Failed to fetch page from buffer pool for write'')
             | Some f \<Rightarrow>
                 bind (on_pool (modify f (\<lambda>_. bs))) (\<lambda>_.
                 bind (on_pool (UnpinPage p True)) (\<lambda>_.
                 bind (send_bytes (response SUCCESS p 0)) (\<lambda>b.
                 ret (continue_if b))))))
            (bind (send_bytes (response ERROR p 0)) (\<lambda>_. ret Continue)))"

definition handle_allocate :: "(session, loop_control) comp" where
  "handle_allocate =
     catch_std
       (bind (on_pool NewPage) (\<lambda>(p, r). case r of
          None \<Rightarrow> throw (RuntimeError ''Failed to allocate new page in buffer pool'')
        | Some f \<Rightarrow>
            bind (on_pool (UnpinPage p True)) (\<lambda>_.
            bind (send_bytes (response SUCCESS p 0)) (\<lambda>b.
            ret (continue_if b)))))
       (bind (send_bytes (response ERROR INVALID_PAGE_ID 0)) (\<lambda>_. ret Continue))"

definition handle_deallocate :: "page_id \<Rightarrow> (session, loop_control) comp" where
  "handle_deallocate p =
     catch_std
       (bind (on_pool (DeletePage p)) (\<lambda>success.
          if \<not> success
          then throw (RuntimeError ''Failed to delete page from buffer pool (page might be pinned)'')
          else bind (send_bytes (response SUCCESS p 0)) (\<lambda>b. ret (continue_if b))))
       (bind (send_bytes (response ERROR p 0)) (\<lambda>_. ret Continue))"

definition handle_unknown :: "(session, loop_control) comp" where
  "handle_unknown = bind (send_bytes (response ERROR INVALID_PAGE_ID 0)) (\<lambda>_. ret Continue)"

definition handle_request :: "RequestHeader \<Rightarrow> (session, loop_control) comp" where
  "handle_request h =
     (if op_type h = OpType_code READ_PAGE then handle_read (req_page_id h)
      else if op_type h = OpType_code WRITE_PAGE then handle_write (req_page_id h)
      else if op_type h = OpType_code ALLOCATE_PAGE then handle_allocate
      else if op_type h = OpType_code DEALLOCATE_PAGE then handle_deallocate (req_page_id h)
      else handle_unknown)"

text \<open>
  The loop of \<open>HandleClient\<close>; \<open>running k\<close> is what its \<open>k\<close>-th test of \<^verbatim>\<open>is_running_\<close> reads. It
  ends with \<open>Inr ()\<close>, or with an error that is no \<^verbatim>\<open>std::exception\<close>.
\<close>

partial_function (option) client_loop ::
  "(nat \<Rightarrow> bool) \<Rightarrow> nat \<Rightarrow> session \<Rightarrow> ((err + unit) \<times> session) option" where
  "client_loop running k s =
     (if \<not> running k then Some (Inr (), s)
      else case recv_bytes RequestHeader_size s of
        (Inl e, s1) \<Rightarrow> Some (Inl e, s1)
      | (Inr None, s1) \<Rightarrow> Some (Inr (), s1)
      | (Inr (Some bs), s1) \<Rightarrow>
         (case handle_request (decode_request bs) s1 of
            (Inl e, s2) \<Rightarrow> Some (Inl e, s2)
          | (Inr Break, s2) \<Rightarrow> Some (Inr (), s2)
          | (Inr Continue, s2) \<Rightarrow> client_loop running (Suc k) s2))"

text \<open>
  The socket is closed behind the loop and behind the handler of \<^verbatim>\<open>std::exception\<close>; a call that
  blocks for ever, undefined behaviour and the end of the process do not get there.
\<close>

definition HandleClient :: "(nat \<Rightarrow> bool) \<Rightarrow> session \<Rightarrow> ((err + unit) \<times> session) option" where
  "HandleClient running s =
     map_option (\<lambda>(r, s').
         case r of
           Inl e \<Rightarrow> if is_std_exception e then (Inr (), s'\<lparr>conn := Socket_Close (conn s')\<rparr>) else (Inl e, s')
         | Inr u \<Rightarrow> (Inr (), s'\<lparr>conn := Socket_Close (conn s')\<rparr>))
       (client_loop running 0 s)"

section \<open>Life cycle of the service\<close>

record storage_service =
  svc_pool :: buffer_pool
  is_running :: bool

definition StorageService_new :: "disk_manager \<Rightarrow> storage_service" where
  "StorageService_new d =
     \<lparr>svc_pool = BufferPoolManager_new 128 d (LRUReplacer (LRUReplacer_new 128)), is_running = False\<rparr>"

text \<open>
  \<open>Stop\<close>: flush, destroy the pool (its destructor flushes once more), close the file. The
  result is the disk manager that is left.
\<close>

definition BufferPoolManager_destroy :: "(buffer_pool, unit) comp" where
  "BufferPoolManager_destroy = FlushAllPages"

definition StorageService_Stop :: "storage_service \<Rightarrow> (err + unit) \<times> disk_manager" where
  "StorageService_Stop v =
     (if \<not> is_running v then (Inr (), disk (svc_pool v))
      else case bind FlushAllPages (\<lambda>_. BufferPoolManager_destroy) (svc_pool v) of
        (Inl e, b) \<Rightarrow> (Inl e, disk b)
      | (Inr u, b) \<Rightarrow> (Inr (), Close (disk b)))"

section \<open>The byte stream\<close>

text \<open>
  \<open>accepts c n\<close>: the connection is open and none of the next \<open>n\<close> \<^verbatim>\<open>send\<close> calls fails, which is
  enough for \<open>n\<close> bytes, because every call that does not fail takes at least one.
\<close>

definition accepts :: "connection \<Rightarrow> nat \<Rightarrow> bool" where
  "accepts c n \<longleftrightarrow> fd_valid c \<and> n \<le> length (send_quota c) \<and> 0 \<notin> set (send_quota c)"

definition stream :: "connection \<Rightarrow> byte list" where
  "stream c = concat (incoming c)"

definition same_input :: "connection \<Rightarrow> connection \<Rightarrow> bool" where
  "same_input c c' \<longleftrightarrow> incoming c' = incoming c \<and> recv_end c' = recv_end c \<and> send_end c' = send_end c \<and> fd_valid c' = fd_valid c"

definition same_output :: "connection \<Rightarrow> connection \<Rightarrow> bool" where
  "same_output c c' \<longleftrightarrow> sent c' = sent c \<and> send_quota c' = send_quota c \<and> recv_end c' = recv_end c \<and> send_end c' = send_end c \<and>
     fd_valid c' = fd_valid c"

lemma send_loop_input: "send_loop bs c = (b, c') \<Longrightarrow> same_input c c'"
proof (induction bs c arbitrary: b c' rule: send_loop.induct)
  case (1 bs c)
  obtain r c1 where call: "send_call bs c = (r, c1)" by (cases "send_call bs c") auto
  then have c1: "same_input c c1" by (auto simp: send_call_def same_input_def split: list.splits send_end.splits)
  show ?case
  proof (cases "bs = [] \<or> r = Inr 0 \<or> (\<exists>e. r = Inl e)")
    case True
    then show ?thesis using 1(2) call c1 by (auto simp: send_loop.simps [of bs] same_input_def split: if_splits)
  next
    case False
    then obtain n where n: "r = Inr n" "n \<noteq> 0" "bs \<noteq> []" by (cases r) auto
    then have "send_loop (drop n bs) c1 = (b, c')" using 1(2) call by (simp add: send_loop.simps [of bs])
    with 1(1) [OF n(3) call [symmetric] n(1,2) this] c1 show ?thesis by (simp add: same_input_def)
  qed
qed

lemma send_loop_ok:
  assumes "accepts c (length bs + m)"
  shows "\<exists>c'. send_loop bs c = (Inr True, c') \<and> sent c' = sent c @ bs \<and> accepts c' m"
  using assms
proof (induction bs c rule: send_loop.induct)
  case (1 bs c)
  show ?case
  proof (cases "bs = []")
    case True
    then show ?thesis using 1(2) by (simp add: send_loop.simps)
  next
    case False
    then obtain q qs where q: "send_quota c = q # qs" "q \<noteq> 0"
      using 1(2) by (cases "send_quota c") (auto simp: accepts_def)
    let ?n = "min q (length bs)" let ?c1 = "c\<lparr>send_quota := qs, sent := sent c @ take q bs\<rparr>"
    have call: "send_call bs c = (Inr ?n, ?c1)" using q by (simp add: send_call_def)
    have n: "?n \<noteq> 0" using False q by simp
    have "accepts ?c1 (length (drop ?n bs) + m)"
      using 1(2) q False by (cases bs) (auto simp: accepts_def)
    from 1(1) [OF False call [symmetric] refl n this] obtain c' where
      "send_loop (drop ?n bs) ?c1 = (Inr True, c')" "sent c' = sent ?c1 @ drop ?n bs" "accepts c' m" by blast
    moreover have "take q bs @ drop ?n bs = bs" by (cases "q \<le> length bs") (simp_all add: min_def)
    ultimately show ?thesis using False call n by (simp add: send_loop.simps [of bs c])
  qed
qed

lemma recv_loop_output: "recv_loop n acc c = (r, c') \<Longrightarrow> same_output c c' \<and>
   (\<forall>bs. r = Inr (Some bs) \<longrightarrow> length (stream c') + n = length (stream c))"
proof (induction n acc c arbitrary: r c' rule: recv_loop.induct)
  case (1 n acc c)
  show ?case
  proof (cases "n = 0")
    case True
    then show ?thesis using 1(2) by (simp add: recv_loop.simps same_output_def)
  next
    case False
    obtain x c1 where call: "recv_call n c = (x, c1)" by (cases "recv_call n c") auto
    then have c1: "same_output c c1"
      "\<forall>bs. x = Inr bs \<longrightarrow> length bs \<le> n \<and> length (stream c1) + length bs = length (stream c)"
      by (auto simp: recv_call_def same_output_def stream_def split: list.splits if_splits recv_end.splits)
    show ?thesis
    proof (cases "x = Inr [] \<or> (\<exists>e. x = Inl e)")
      case True
      then show ?thesis using 1(2) call c1(1) False by (auto simp: recv_loop.simps [of n])
    next
      case ne: False
      then obtain bs where x: "x = Inr bs" "bs \<noteq> []" by (cases x) auto
      then have "recv_loop (n - length bs) (acc @ bs) c1 = (r, c')"
        using 1(2) call False by (simp add: recv_loop.simps [of n])
      from 1(1) [OF False call [symmetric] x this] c1 x(1) show ?thesis by (auto simp: same_output_def)
    qed
  qed
qed

lemma recv_loop_length: "recv_loop n acc c = (Inr (Some bs), c') \<Longrightarrow> length bs = length acc + n"
proof (induction n acc c rule: recv_loop.induct)
  case (1 n acc c)
  obtain x c1 where call: "recv_call n c = (x, c1)" by (cases "recv_call n c") auto
  then have "\<forall>bs. x = Inr bs \<longrightarrow> length bs \<le> n"
    by (auto simp: recv_call_def split: list.splits if_splits recv_end.splits)
  then show ?case
    using 1(1) [OF _ call [symmetric]] 1(2) call
    by (cases x) (auto simp: recv_loop.simps [of n acc] split: if_splits)
qed

lemma recv_loop_ok:
  assumes "[] \<notin> set (incoming c)" "n \<le> length (stream c)"
  shows "\<exists>c'. recv_loop n acc c = (Inr (Some (acc @ take n (stream c))), c') \<and> stream c' = drop n (stream c) \<and>
     [] \<notin> set (incoming c')"
  using assms
proof (induction n acc c rule: recv_loop.induct)
  case (1 n acc c)
  show ?case
  proof (cases "n = 0")
    case True
    then show ?thesis using 1(2) by (simp add: recv_loop.simps)
  next
    case False
    then obtain x xs where x: "incoming c = x # xs" "x \<noteq> []"
      using 1(2,3) by (cases "incoming c") (auto simp: stream_def)
    obtain bs c1 where call: "recv_call n c = (Inr bs, c1)"
      using x by (cases "length x \<le> n") (simp_all add: recv_call_def)
    then have c1: "bs = take n x" "bs \<noteq> []" "stream c = bs @ stream c1" "length bs \<le> n" "[] \<notin> set (incoming c1)"
      using x False 1(2) by (auto simp: recv_call_def stream_def split: if_splits)
    have "n - length bs \<le> length (stream c1)" using 1(3) c1(3,4) by simp
    from 1(1) [OF False call [symmetric] refl c1(2,5) this] obtain c' where
      "recv_loop (n - length bs) (acc @ bs) c1 = (Inr (Some ((acc @ bs) @ take (n - length bs) (stream c1))), c')"
      "stream c' = drop (n - length bs) (stream c1)" "[] \<notin> set (incoming c')" by blast
    then show ?thesis
      using False call c1(2-4) by (simp add: recv_loop.simps [of n])
  qed
qed

text \<open>Lifted to sessions.\<close>

definition answered :: "session \<Rightarrow> byte list \<Rightarrow> session \<Rightarrow> bool" where
  "answered s bs s' \<longleftrightarrow> sent (conn s') = sent (conn s) @ bs \<and> incoming (conn s') = incoming (conn s) \<and>
     recv_end (conn s') = recv_end (conn s)"

lemma answered_trans: "answered s a s1 \<Longrightarrow> answered s1 b s2 \<Longrightarrow> answered s (a @ b) s2"
  by (simp add: answered_def)

lemma send_bytes_ok:
  assumes "accepts (conn s) (length bs + m)"
  obtains s' where "send_bytes bs s = (Inr True, s')" "pool s' = pool s" "answered s bs s'" "accepts (conn s') m"
proof -
  obtain c' where c': "send_loop bs (conn s) = (Inr True, c')" "sent c' = sent (conn s) @ bs" "accepts c' m"
    using send_loop_ok [OF assms] by blast
  have "fd_valid (conn s)" using assms by (simp add: accepts_def)
  then show thesis
    using c' send_loop_input [OF c'(1)]
    by (intro that [of "s\<lparr>conn := c'\<rparr>"]) (simp_all add: send_bytes_def Send_def answered_def same_input_def)
qed

lemma recv_bytes_ok:
  assumes "fd_valid (conn s)" "[] \<notin> set (incoming (conn s))" "stream (conn s) = bs @ rest" "length bs = n"
  obtains s' where "recv_bytes n s = (Inr (Some bs), s')" "pool s' = pool s" "same_output (conn s) (conn s')"
    "[] \<notin> set (incoming (conn s'))" "stream (conn s') = rest"
proof -
  have "n \<le> length (stream (conn s))" using assms by simp
  from recv_loop_ok [OF assms(2) this, of "[]"] obtain c' where
    c': "recv_loop n [] (conn s) = (Inr (Some bs), c')" "stream c' = rest" "[] \<notin> set (incoming c')"
    using assms(3,4) by auto
  show thesis
    using c' recv_loop_output [OF c'(1)] assms(1)
    by (intro that [of "s\<lparr>conn := c'\<rparr>"]) (simp_all add: recv_bytes_def Recv_def)
qed

lemma recv_bytes_length: "recv_bytes n s = (Inr (Some bs), s') \<Longrightarrow> length bs = n"
  using recv_loop_length [of n "[]" "conn s" bs]
  by (auto simp: recv_bytes_def Recv_def split: prod.splits if_splits)

text \<open>What a call of \<^verbatim>\<open>Recv\<close> finds at the end of the stream.\<close>

definition at_end :: "connection \<Rightarrow> err + byte list option" where
  "at_end c = (case recv_end c of Peer_closes \<Rightarrow> Inr None | Peer_silent \<Rightarrow> Inl NoReturn)"

lemma recv_bytes_closed:
  assumes "stream (conn s) = []" "0 < n" "[] \<notin> set (incoming (conn s))" "fd_valid (conn s)"
  shows "\<exists>s'. recv_bytes n s = (at_end (conn s), s') \<and> pool s' = pool s \<and> same_output (conn s) (conn s')"
proof -
  have "incoming (conn s) = []" using assms(1,3) by (cases "incoming (conn s)") (auto simp: stream_def)
  then show ?thesis
    using assms(2,4)
    by (auto simp: recv_bytes_def Recv_def recv_loop.simps [of n] recv_call_def same_output_def at_end_def split: recv_end.splits)
qed

lemma length_response [simp]: "length (response st p len) = 9"
  by (simp add: response_def encode_response_def)

lemma length_encode_request [simp]: "length (encode_request h) = 9"
  by (simp add: encode_request_def)

text \<open>The packed request header read back from the stream.\<close>

lemma decode_encode_request: "decode_request (encode_request h) = h"
proof -
  let ?p = "le_bytes 4 (req_page_id h)" and ?l = "le_bytes 4 (req_data_len h)"
  have "load 4 (op_type h # ?p @ ?l) 1 = ?p" "load 4 (op_type h # ?p @ ?l) 5 = ?l"
    by (simp_all add: load_def)
  then show ?thesis
    by (simp add: decode_request_def encode_request_def get_u32_def le_word_le_bytes)
qed

section \<open>Handlers on live pages\<close>

lemma on_pool_apply: "m (pool s) = (r, b) \<Longrightarrow> on_pool m s = (r, s\<lparr>pool := b\<rparr>)"
  by (simp add: on_pool_def)

lemma catch_std_Inr: "m s = (Inr a, s') \<Longrightarrow> catch_std m h s = (Inr a, s')"
  by (simp add: catch_std_def)

lemma handle_read_ok:
  assumes id: "idle (pool s) fl" and fr: "0 < frames (pool s)" and p: "pool_store (pool s) fl p = Some bs"
    and acc: "accepts (conn s) (9 + PAGE_SIZE + m)"
  shows "\<exists>s'. handle_read p s = (Inr Continue, s') \<and> answered s (response SUCCESS p (of_nat PAGE_SIZE) @ bs) s' \<and>
     accepts (conn s') m \<and> idle (pool s') fl \<and> pool_store (pool s') fl = pool_store (pool s) fl \<and>
     frames (pool s') = frames (pool s)"
proof -
  note i = idleD [OF id]
  have room: "card {q. 0 < pin_counts (pool s) q} < frames (pool s)" using i(3) fr by simp
  obtain f b1 b2 where b: "FetchPage p (pool s) = (Inr (Some f), b1)" "page_data b1 f = bs"
    "UnpinPage p False b1 = (Inr True, b2)" "bp_inv b2 fl" "pool_store b2 fl = pool_store (pool s) fl"
    "pin_counts b2 = pin_counts (pool s)" "frames b2 = frames (pool s)"
    by (rule bpm.read_page [OF i(1) p room i(4)]) blast
  let ?s1 = "s\<lparr>pool := b1\<rparr>"
  have "accepts (conn ?s1) (length (response SUCCESS p (of_nat PAGE_SIZE)) + (PAGE_SIZE + m))"
    using acc by (simp add: add.assoc)
  from send_bytes_ok [OF this] obtain s2 where s2: "send_bytes (response SUCCESS p (of_nat PAGE_SIZE)) ?s1 = (Inr True, s2)"
    "pool s2 = b1" "answered s (response SUCCESS p (of_nat PAGE_SIZE)) s2" "accepts (conn s2) (PAGE_SIZE + m)"
    by (auto simp: answered_def)
  have "accepts (conn s2) (length bs + m)" using s2(4) bpm.cells_length [OF i(1) p] by simp
  from send_bytes_ok [OF this] obtain s3 where s3: "send_bytes bs s2 = (Inr True, s3)" "pool s3 = b1"
    "answered s2 bs s3" "accepts (conn s3) m" using s2(2) by auto
  have "handle_read p s = (Inr Continue, s3\<lparr>pool := b2\<rparr>)"
    unfolding handle_read_def
    using b(1-3) s2(1,2) s3(1,2)
    by (intro catch_std_Inr)
      (simp add: bind_def on_pool_def read_frame_def continue_if_def)
  then show ?thesis
    using answered_trans [OF s2(3) s3(3)] s3(4) b i(2) by (auto simp: idle_def answered_def)
qed

lemma handle_write_ok:
  assumes id: "idle (pool s) fl" and fr: "0 < frames (pool s)" and p: "pool_store (pool s) fl p = Some old"
    and len: "length bs = PAGE_SIZE" and inp: "[] \<notin> set (incoming (conn s))" "stream (conn s) = bs @ rest"
    and acc: "accepts (conn s) (9 + m)"
  shows "\<exists>s'. handle_write p s = (Inr Continue, s') \<and> sent (conn s') = sent (conn s) @ response SUCCESS p 0 \<and>
     [] \<notin> set (incoming (conn s')) \<and> stream (conn s') = rest \<and> recv_end (conn s') = recv_end (conn s) \<and>
     accepts (conn s') m \<and> idle (pool s') fl \<and> pool_store (pool s') fl = (pool_store (pool s) fl)(p \<mapsto> bs) \<and>
     frames (pool s') = frames (pool s)"
proof -
  note i = idleD [OF id]
  have room: "card {q. 0 < pin_counts (pool s) q} < frames (pool s)" using i(3) fr by simp
  have fd: "fd_valid (conn s)" using acc by (simp add: accepts_def)
  obtain s1 where s1: "recv_bytes PAGE_SIZE s = (Inr (Some bs), s1)" "pool s1 = pool s"
    "same_output (conn s) (conn s1)" "[] \<notin> set (incoming (conn s1))" "stream (conn s1) = rest"
    by (rule recv_bytes_ok [OF fd inp len])
  obtain f b1 b2 where b: "FetchPage p (pool s) = (Inr (Some f), b1)" "page_data b1 f = old"
    "UnpinPage p True (put_data f bs b1) = (Inr True, b2)" "bp_inv b2 fl"
    "pool_store b2 fl = (pool_store (pool s) fl)(p \<mapsto> bs)"
    "pin_counts b2 = pin_counts (pool s)" "frames b2 = frames (pool s)"
    by (rule bpm.modify_page [OF i(1) p room len]) blast
  let ?s2 = "s1\<lparr>pool := b2\<rparr>"
  have "accepts (conn ?s2) (length (response SUCCESS p 0) + m)"
    using acc s1(3) by (simp add: accepts_def same_output_def)
  from send_bytes_ok [OF this] obtain s3 where s3: "send_bytes (response SUCCESS p 0) ?s2 = (Inr True, s3)"
    "pool s3 = b2" "answered ?s2 (response SUCCESS p 0) s3" "accepts (conn s3) m" by auto
  have "handle_write p s = (Inr Continue, s3)"
    using s1(1,2) b(1,3) s3(1)
    by (simp add: handle_write_def catch_std_def bind_def on_pool_def modify_def continue_if_def)
  then show ?thesis
    using s1 s3 b i(2) by (auto simp: idle_def answered_def same_output_def stream_def)
qed

section \<open>Whole connections\<close>

text \<open>A client that reads and writes pages; what it sends and what an ideal server answers.\<close>

datatype page_request = ReadReq page_id | WriteReq page_id "byte list"

fun wire :: "page_request \<Rightarrow> byte list" where
  "wire (ReadReq p) = encode_request \<lparr>op_type = OpType_code READ_PAGE, req_page_id = p, req_data_len = 0\<rparr>"
| "wire (WriteReq p bs) =
     encode_request \<lparr>op_type = OpType_code WRITE_PAGE, req_page_id = p, req_data_len = of_nat PAGE_SIZE\<rparr> @ bs"

fun serve :: "(page_id \<rightharpoonup> byte list) \<Rightarrow> page_request list \<Rightarrow> byte list \<times> (page_id \<rightharpoonup> byte list)" where
  "serve S [] = ([], S)"
| "serve S (ReadReq p # rs) =
     (response SUCCESS p (of_nat PAGE_SIZE) @ the (S p) @ fst (serve S rs), snd (serve S rs))"
| "serve S (WriteReq p bs # rs) =
     (response SUCCESS p 0 @ fst (serve (S(p \<mapsto> bs)) rs), snd (serve (S(p \<mapsto> bs)) rs))"

fun request_ok :: "page_id set \<Rightarrow> page_request \<Rightarrow> bool" where
  "request_ok ps (ReadReq p) \<longleftrightarrow> p \<in> ps"
| "request_ok ps (WriteReq p bs) \<longleftrightarrow> p \<in> ps \<and> length bs = PAGE_SIZE"

lemma client_loop_step:
  assumes "recv_bytes RequestHeader_size s = (Inr (Some (encode_request h)), s1)"
    "handle_request h s1 = (Inr Continue, s2)"
  shows "client_loop (\<lambda>_. True) k s = client_loop (\<lambda>_. True) (Suc k) s2"
  using assms by (simp add: client_loop.simps [of _ k s] decode_encode_request)

text \<open>What a session needs to serve requests that lead to the page store \<open>S\<close>.\<close>

definition ready :: "session \<Rightarrow> page_id list \<Rightarrow> (page_id \<rightharpoonup> byte list) \<Rightarrow> page_request list \<Rightarrow> bool" where
  "ready s fl S rs \<longleftrightarrow> idle (pool s) fl \<and> 0 < frames (pool s) \<and> pool_store (pool s) fl = S \<and>
     (\<forall>r \<in> set rs. request_ok (dom S) r) \<and> [] \<notin> set (incoming (conn s)) \<and>
     stream (conn s) = concat (map wire rs) \<and> accepts (conn s) (length (fst (serve S rs)))"

lemma serve_read_step:
  assumes "ready s fl S (ReadReq p # rs)"
  shows "\<exists>s2. client_loop (\<lambda>_. True) k s = client_loop (\<lambda>_. True) (Suc k) s2 \<and> ready s2 fl S rs \<and>
     sent (conn s2) = sent (conn s) @ response SUCCESS p (of_nat PAGE_SIZE) @ the (S p) \<and> recv_end (conn s2) = recv_end (conn s)"
proof -
  have r: "idle (pool s) fl" "0 < frames (pool s)" "pool_store (pool s) fl = S" "p \<in> dom S"
    "\<forall>r \<in> set rs. request_ok (dom S) r" "[] \<notin> set (incoming (conn s))"
    "accepts (conn s) (length (fst (serve S (ReadReq p # rs))))" "fd_valid (conn s)"
    using assms by (auto simp: ready_def accepts_def)
  let ?h = "\<lparr>op_type = OpType_code READ_PAGE, req_page_id = p, req_data_len = 0\<rparr>"
  have st: "stream (conn s) = encode_request ?h @ concat (map wire rs)" "length (encode_request ?h) = RequestHeader_size"
    using assms by (simp_all add: ready_def RequestHeader_size_def)
  obtain s1 where s1: "recv_bytes RequestHeader_size s = (Inr (Some (encode_request ?h)), s1)" "pool s1 = pool s"
    "same_output (conn s) (conn s1)" "[] \<notin> set (incoming (conn s1))" "stream (conn s1) = concat (map wire rs)"
    by (rule recv_bytes_ok [OF r(8,6) st])
  obtain bs where bs: "S p = Some bs" using r(4) by blast
  then have bs': "pool_store (pool s1) fl p = Some bs" using r(3) s1(2) by simp
  have id1: "idle (pool s1) fl" "0 < frames (pool s1)" using r(1,2) s1(2) by simp_all
  have acc: "accepts (conn s1) (9 + PAGE_SIZE + length (fst (serve S rs)))"
    using r(7) s1(3) bs bpm.cells_length [OF idleD(1) [OF id1(1)] bs'] by (simp add: accepts_def same_output_def)
  obtain s2 where s2: "handle_read p s1 = (Inr Continue, s2)" "answered s1 (response SUCCESS p (of_nat PAGE_SIZE) @ bs) s2"
    "accepts (conn s2) (length (fst (serve S rs)))" "idle (pool s2) fl" "pool_store (pool s2) fl = pool_store (pool s1) fl"
    "frames (pool s2) = frames (pool s1)"
    using handle_read_ok [OF id1 bs' acc] by blast
  have "handle_request ?h s1 = (Inr Continue, s2)" using s2(1) by (simp add: handle_request_def)
  note step = client_loop_step [OF s1(1) this, of k]
  have "ready s2 fl S rs"
    using s2 s1 r unfolding ready_def by (simp add: answered_def stream_def)
  moreover have "sent (conn s2) = sent (conn s) @ response SUCCESS p (of_nat PAGE_SIZE) @ the (S p)"
    "recv_end (conn s2) = recv_end (conn s)"
    using s2(2) s1(3) bs by (simp_all add: answered_def same_output_def)
  ultimately show ?thesis using step by blast
qed

lemma serve_write_step:
  assumes "ready s fl S (WriteReq p bs # rs)"
  shows "\<exists>s2. client_loop (\<lambda>_. True) k s = client_loop (\<lambda>_. True) (Suc k) s2 \<and> ready s2 fl (S(p \<mapsto> bs)) rs \<and>
     sent (conn s2) = sent (conn s) @ response SUCCESS p 0 \<and> recv_end (conn s2) = recv_end (conn s)"
proof -
  have r: "idle (pool s) fl" "0 < frames (pool s)" "pool_store (pool s) fl = S" "p \<in> dom S"
    "\<forall>r \<in> set rs. request_ok (dom S) r" "[] \<notin> set (incoming (conn s))"
    "accepts (conn s) (length (fst (serve S (WriteReq p bs # rs))))" "fd_valid (conn s)" "length bs = PAGE_SIZE"
    using assms by (auto simp: ready_def accepts_def)
  let ?h = "\<lparr>op_type = OpType_code WRITE_PAGE, req_page_id = p, req_data_len = of_nat PAGE_SIZE\<rparr>"
  have st: "stream (conn s) = encode_request ?h @ bs @ concat (map wire rs)" "length (encode_request ?h) = RequestHeader_size"
    using assms by (simp_all add: ready_def RequestHeader_size_def)
  obtain s1 where s1: "recv_bytes RequestHeader_size s = (Inr (Some (encode_request ?h)), s1)" "pool s1 = pool s"
    "same_output (conn s) (conn s1)" "[] \<notin> set (incoming (conn s1))" "stream (conn s1) = bs @ concat (map wire rs)"
    by (rule recv_bytes_ok [OF r(8,6) st])
  obtain old where old: "S p = Some old" using r(4) by blast
  then have old': "pool_store (pool s1) fl p = Some old" using r(3) s1(2) by simp
  have id1: "idle (pool s1) fl" "0 < frames (pool s1)" using r(1,2) s1(2) by simp_all
  have acc: "accepts (conn s1) (9 + length (fst (serve (S(p \<mapsto> bs)) rs)))"
    using r(7) s1(3) by (simp add: accepts_def same_output_def)
  obtain s2 where s2: "handle_write p s1 = (Inr Continue, s2)" "sent (conn s2) = sent (conn s1) @ response SUCCESS p 0"
    "[] \<notin> set (incoming (conn s2))" "stream (conn s2) = concat (map wire rs)"
    "accepts (conn s2) (length (fst (serve (S(p \<mapsto> bs)) rs)))" "idle (pool s2) fl"
    "pool_store (pool s2) fl = (pool_store (pool s1) fl)(p \<mapsto> bs)" "frames (pool s2) = frames (pool s1)"
    "recv_end (conn s2) = recv_end (conn s1)"
    using handle_write_ok [OF id1 old' r(9) s1(4,5) acc] by blast
  have "handle_request ?h s1 = (Inr Continue, s2)" using s2(1) by (simp add: handle_request_def)
  note step = client_loop_step [OF s1(1) this, of k]
  have S: "pool_store (pool s2) fl = S(p \<mapsto> bs)" using s2(7) s1(2) r(3) by metis
  have dom: "dom (S(p \<mapsto> bs)) = dom S" using r(4) by auto
  have "ready s2 fl (S(p \<mapsto> bs)) rs"
    unfolding ready_def dom using s2(3-6,8) s1(2) r(2,5) S by (intro conjI) simp_all
  moreover have "sent (conn s2) = sent (conn s) @ response SUCCESS p 0" "recv_end (conn s2) = recv_end (conn s)"
    using s2(2,9) s1(3) by (simp_all add: same_output_def)
  ultimately show ?thesis using step by blast
qed

text \<open>How the loop ends when every request has been answered: by the peer's close, or never.\<close>

definition loop_end :: "connection \<Rightarrow> err + unit" where
  "loop_end c = (case recv_end c of Peer_closes \<Rightarrow> Inr () | Peer_silent \<Rightarrow> Inl NoReturn)"

lemma client_loop_serves:
  assumes "ready s fl S rs"
  shows "\<exists>s'. client_loop (\<lambda>_. True) k s = Some (loop_end (conn s), s') \<and> sent (conn s') = sent (conn s) @ fst (serve S rs) \<and>
     fd_valid (conn s') \<and> idle (pool s') fl \<and> pool_store (pool s') fl = snd (serve S rs)"
  using assms
proof (induction rs arbitrary: s k S)
  case Nil
  have r: "0 < RequestHeader_size" "stream (conn s) = []" "[] \<notin> set (incoming (conn s))"
    "idle (pool s) fl" "pool_store (pool s) fl = S" "fd_valid (conn s)"
    using Nil by (simp_all add: RequestHeader_size_def ready_def accepts_def)
  from recv_bytes_closed [OF r(2,1,3,6)] obtain s' where
    "recv_bytes RequestHeader_size s = (at_end (conn s), s')" "pool s' = pool s" "same_output (conn s) (conn s')" by blast
  then show ?case
    using r(4-6) by (simp add: client_loop.simps [of _ k s] same_output_def at_end_def loop_end_def split: recv_end.splits)
next
  case (Cons r rs)
  obtain S1 a s2 where s2: "client_loop (\<lambda>_. True) k s = client_loop (\<lambda>_. True) (Suc k) s2" "ready s2 fl S1 rs"
    "sent (conn s2) = sent (conn s) @ a" "serve S (r # rs) = (a @ fst (serve S1 rs), snd (serve S1 rs))"
    "recv_end (conn s2) = recv_end (conn s)"
  proof (cases r)
    case (ReadReq p)
    from serve_read_step [OF Cons.prems [unfolded ReadReq], of k] show thesis
      using that ReadReq by (metis append.assoc serve.simps(2))
  next
    case (WriteReq p bs)
    from serve_write_step [OF Cons.prems [unfolded WriteReq], of k] show thesis
      using that WriteReq by (metis serve.simps(3))
  qed
  then have "loop_end (conn s2) = loop_end (conn s)" by (simp add: loop_end_def)
  with Cons.IH [OF s2(2), of "Suc k"] s2(1,3,4) show ?case by auto
qed

lemma handle_allocate_ok:
  assumes id: "idle (pool s) fl" and fr: "0 < frames (pool s)" and un: "unused_id (pool_store (pool s) fl)"
    and acc: "accepts (conn s) (9 + m)"
  shows "\<exists>p s'. handle_allocate s = (Inr Continue, s') \<and> answered s (response SUCCESS p 0) s' \<and>
     accepts (conn s') m \<and> p \<notin> dom (pool_store (pool s) fl) \<and> p \<noteq> 0 \<and> p \<noteq> INVALID_PAGE_ID \<and> idle (pool s') (tl fl) \<and>
     pool_store (pool s') (tl fl) = (pool_store (pool s) fl)(p \<mapsto> zero_page) \<and> frames (pool s') = frames (pool s)"
proof -
  note i = idleD [OF id]
  have room: "card {q. 0 < pin_counts (pool s) q} < frames (pool s)" using i(3) fr by simp
  obtain p f b1 where b1: "NewPage (pool s) = (Inr (p, Some f), b1)" "bp_inv b1 (tl fl)" "p \<notin> dom (pool_store (pool s) fl)"
      "p \<noteq> 0" "p \<noteq> INVALID_PAGE_ID" "pool_store b1 (tl fl) = (pool_store (pool s) fl)(p \<mapsto> zero_page)"
      "pin_counts b1 = (pin_counts (pool s))(p := 1)" "held b1 p f" "frames b1 = frames (pool s)"
    using bpm.new_some [OF i(1) un room] by blast
  from bpm.unpin_some [OF b1(2,8) disjI1 [OF TrueI]] obtain b2 where b2: "UnpinPage p True b1 = (Inr True, b2)"
      "bp_inv b2 (tl fl)" "pool_store b2 (tl fl) = pool_store b1 (tl fl)"
      "pin_counts b2 = (pin_counts b1)(p := pin_counts b1 p - 1)" "frames b2 = frames b1" by blast
  let ?s1 = "s\<lparr>pool := b2\<rparr>"
  have "accepts (conn ?s1) (length (response SUCCESS p 0) + m)" using acc by simp
  from send_bytes_ok [OF this] obtain s2 where s2: "send_bytes (response SUCCESS p 0) ?s1 = (Inr True, s2)"
    "pool s2 = b2" "answered ?s1 (response SUCCESS p 0) s2" "accepts (conn s2) m" by auto
  have "handle_allocate s = (Inr Continue, s2)"
    using b1(1) b2(1) s2(1) by (simp add: handle_allocate_def catch_std_def bind_def on_pool_def continue_if_def)
  moreover have "pin_counts b2 = (\<lambda>_. 0)" using b2(4) b1(7) i(2) by (auto simp: fun_eq_iff)
  ultimately show ?thesis using s2 b1 b2 by (auto simp: idle_def answered_def)
qed

lemma handle_deallocate_ok:
  assumes id: "idle (pool s) fl" and p: "p \<in> dom (pool_store (pool s) fl)" and acc: "accepts (conn s) (9 + m)"
  shows "\<exists>s'. handle_deallocate p s = (Inr Continue, s') \<and> answered s (response SUCCESS p 0) s' \<and>
     accepts (conn s') m \<and> idle (pool s') (p # fl) \<and>
     pool_store (pool s') (p # fl) = (pool_store (pool s) fl)(p := None)"
proof -
  note i = idleD [OF id]
  have live: "p \<in> live_pages (disk (pool s)) fl" using p by (simp add: dom_pool_store)
  obtain b where b: "DeletePage p (pool s) = (Inr True, b)" "op_ok (pool s) fl (Delete p) (RBool True) b (p # fl)"
    using delete_sim [OF i(1) live] i(2) by auto
  have a: "pool_store b (p # fl) = (pool_store (pool s) fl)(p := None)" "pin_counts b = pin_counts (pool s)"
    using op_ok_step [OF b(2)] by (auto elim!: spec_DeleteE dest!: pool_abs_eqD)
  let ?s1 = "s\<lparr>pool := b\<rparr>"
  have "accepts (conn ?s1) (length (response SUCCESS p 0) + m)" using acc by simp
  from send_bytes_ok [OF this] obtain s2 where s2: "send_bytes (response SUCCESS p 0) ?s1 = (Inr True, s2)"
    "pool s2 = b" "answered ?s1 (response SUCCESS p 0) s2" "accepts (conn s2) m" by auto
  have "handle_deallocate p s = (Inr Continue, s2)"
    using b(1) s2(1) by (simp add: handle_deallocate_def catch_std_def bind_def on_pool_def continue_if_def)
  then show ?thesis using s2 a op_ok_frames [OF b(2)] i(2) by (auto simp: idle_def answered_def)
qed

subsection \<open>Every connection ends\<close>

definition unread :: "session \<Rightarrow> nat" where
  "unread s = length (stream (conn s))"

text \<open>Computations that do not put bytes back into the stream.\<close>

definition shrinks :: "(session, 'a) comp \<Rightarrow> bool" where
  "shrinks m \<longleftrightarrow> (\<forall>s. unread (snd (m s)) \<le> unread s)"

lemma shrinks_basic:
  "shrinks (ret a)" "shrinks (throw e)" "shrinks (on_pool n)" "shrinks (read_frame f)"
  by (auto simp: shrinks_def on_pool_def read_frame_def unread_def split: prod.splits)

lemma shrinks_send: "shrinks (send_bytes bs)"
proof -
  have "stream c' = stream c" if "Send bs c = (b, c')" for b c c'
    using that send_loop_input [of bs c b c'] by (auto simp: Send_def stream_def same_input_def split: if_splits)
  then show ?thesis
    by (auto simp: shrinks_def send_bytes_def unread_def split: prod.splits)
qed

lemma recv_loop_shrinks: "length (stream (snd (recv_loop n acc c))) \<le> length (stream c)"
proof (induction n acc c rule: recv_loop.induct)
  case (1 n acc c)
  obtain x c1 where call: "recv_call n c = (x, c1)" by (cases "recv_call n c") auto
  then have "length (stream c1) \<le> length (stream c)"
    by (auto simp: recv_call_def stream_def split: list.splits if_splits recv_end.splits)
  then show ?case
    using 1 [OF _ call [symmetric]] call by (cases x) (auto simp: recv_loop.simps [of n])
qed

lemma shrinks_recv: "shrinks (recv_bytes n)"
  using recv_loop_shrinks [of n "[]"]
  by (auto simp: shrinks_def recv_bytes_def Recv_def unread_def split: prod.splits) (metis snd_conv)+

lemma shrinks_bind:
  assumes "shrinks m" "\<And>a. shrinks (f a)"
  shows "shrinks (bind m f)"
  unfolding shrinks_def
proof
  fix s
  show "unread (snd (bind m f s)) \<le> unread s"
  proof (cases "m s")
    case (Pair r s1)
    have "unread s1 \<le> unread s" using assms(1) Pair by (auto simp: shrinks_def dest: spec [of _ s])
    moreover have "unread (snd (f a s1)) \<le> unread s1" for a using assms(2) by (auto simp: shrinks_def)
    ultimately show ?thesis using Pair by (cases r) (auto simp: bind_def intro: order_trans)
  qed
qed

lemma shrinks_catch:
  assumes "shrinks m" "shrinks h"
  shows "shrinks (catch_std m h)"
  unfolding shrinks_def
proof
  fix s
  show "unread (snd (catch_std m h s)) \<le> unread s"
  proof (cases "m s")
    case (Pair r s1)
    have "unread s1 \<le> unread s" using assms(1) Pair by (auto simp: shrinks_def dest: spec [of _ s])
    moreover have "unread (snd (h s1)) \<le> unread s1" using assms(2) by (auto simp: shrinks_def)
    ultimately show ?thesis using Pair by (cases r) (auto simp: catch_std_def intro: order_trans)
  qed
qed

lemmas shrinks_rules = shrinks_basic shrinks_send shrinks_recv shrinks_bind shrinks_catch

lemma shrinks_handle_request: "shrinks (handle_request h)"
  unfolding handle_request_def handle_read_def handle_write_def handle_allocate_def
    handle_deallocate_def handle_unknown_def
  by (auto intro!: shrinks_rules split: option.splits)

lemma header_consumed:
  assumes "recv_bytes RequestHeader_size s = (Inr (Some bs), s1)"
  shows "unread s1 + 9 = unread s"
  using assms recv_loop_output [of 9 "[]" "conn s"]
  by (auto simp: recv_bytes_def Recv_def unread_def RequestHeader_size_def split: prod.splits if_splits)

subsection \<open>What a connection can end with\<close>

text \<open>
  \<open>frames_ok b\<close>: the replacer is the service's \<open>LRUReplacer\<close>, and every frame number the pool keeps
  is one of its frames. Every operation of the pool keeps this, whatever page ids it is called with,
  and throws nothing but \<^verbatim>\<open>std::exception\<close>s.
\<close>

definition frames_in :: "buffer_pool \<Rightarrow> frame_id set" where
  "frames_in b = {f. 0 \<le> f \<and> nat f < length (pages b)}"

fun lru_within :: "frame_id set \<Rightarrow> replacer \<Rightarrow> bool" where
  "lru_within F (LRUReplacer r) \<longleftrightarrow> set (lru_queue r) \<subseteq> F"
| "lru_within F (ClockReplacer r) \<longleftrightarrow> False"

definition table_within :: "frame_id set \<Rightarrow> (page_id \<times> frame_id) list \<Rightarrow> bool" where
  "table_within F t \<longleftrightarrow> snd ` set t \<subseteq> F"

definition frames_ok :: "buffer_pool \<Rightarrow> bool" where
  "frames_ok b \<longleftrightarrow> lru_within (frames_in b) (repl b) \<and> set (free_list b) \<subseteq> frames_in b \<and>
     table_within (frames_in b) (page_table b)"

lemma pool_fields [simp]:
  "frames_in (set_frame f pg b) = frames_in b" "frames_in (b\<lparr>disk := d\<rparr>) = frames_in b"
  "frames_in (b\<lparr>repl := rp\<rparr>) = frames_in b" "frames_in (b\<lparr>page_table := t\<rparr>) = frames_in b"
  "frames_in (b\<lparr>free_list := l\<rparr>) = frames_in b"
  "repl (set_frame f pg b) = repl b" "free_list (set_frame f pg b) = free_list b"
  "page_table (set_frame f pg b) = page_table b" "disk (set_frame f pg b) = disk b"
  by (simp_all add: frames_in_def set_frame_def)

lemma lru_within_keep [simp]:
  "lru_within F rp \<Longrightarrow> lru_within F (Pin f rp)" "lru_within F rp \<Longrightarrow> f \<in> F \<Longrightarrow> lru_within F (Unpin f rp)"
  by (cases rp; auto simp: LRU_Pin_def LRU_Unpin_def lru_queue_def split: option.splits)+

lemma lru_within_victim:
  "lru_within F rp \<Longrightarrow> Victim rp = (r, rp') \<Longrightarrow> lru_within F rp' \<and> (\<exists>v. r = Inr v \<and> (\<forall>f. v = Some f \<longrightarrow> f \<in> F))"
  by (cases rp) (auto simp: LRU_Victim_def lru_queue_def split: list.splits)

lemma table_within_keep [simp]:
  "table_within F t \<Longrightarrow> f \<in> F \<Longrightarrow> table_within F (AList.update p f t)"
  "table_within F t \<Longrightarrow> table_within F (AList.delete p t)"
proof -
  assume t: "table_within F t"
  show "table_within F (AList.delete p t)" using t by (auto simp: table_within_def AList.delete_eq)
  assume "f \<in> F"
  then show "table_within F (AList.update p f t)" using t unfolding table_within_def by (induction t) auto
qed

lemma table_within_pt: "table_within F (page_table b) \<Longrightarrow> pt b p = Some f \<Longrightarrow> f \<in> F"
  by (force simp: table_within_def pt_def dest: map_of_SomeD)

text \<open>What an operation of the pool may do; \<open>G\<close> is the result it may return.\<close>

definition safe_result :: "frame_id set \<Rightarrow> (frame_id set \<Rightarrow> 'a \<Rightarrow> bool) \<Rightarrow> (err + 'a) \<times> buffer_pool \<Rightarrow> bool" where
  "safe_result F G x \<longleftrightarrow> frames_ok (snd x) \<and> frames_in (snd x) = F \<and>
     (case fst x of Inl e \<Rightarrow> is_std_exception e | Inr a \<Rightarrow> G F a)"

definition pool_safe :: "(buffer_pool, 'a) comp \<Rightarrow> (frame_id set \<Rightarrow> 'a \<Rightarrow> bool) \<Rightarrow> bool" where
  "pool_safe m G \<longleftrightarrow> (\<forall>b. frames_ok b \<longrightarrow> safe_result (frames_in b) G (m b))"

lemma pool_safe_bind:
  assumes "pool_safe m G" "\<And>b a. frames_ok b \<Longrightarrow> G (frames_in b) a \<Longrightarrow> safe_result (frames_in b) H (f a b)"
  shows "pool_safe (bind m f) H"
  unfolding pool_safe_def
proof (intro allI impI)
  fix b assume b: "frames_ok b"
  obtain r b1 where m: "m b = (r, b1)" by fastforce
  then have b1: "safe_result (frames_in b) G (r, b1)" using assms(1) b by (auto simp: pool_safe_def)
  show "safe_result (frames_in b) H (bind m f b)"
  proof (cases r)
    case (Inl e)
    then show ?thesis using b1 m by (simp add: bind_def safe_result_def)
  next
    case (Inr a)
    then show ?thesis using b1 m assms(2) [of b1 a] by (simp add: bind_def safe_result_def)
  qed
qed

definition some_frame :: "frame_id set \<Rightarrow> frame_id option \<Rightarrow> bool" where
  "some_frame F r \<longleftrightarrow> (\<forall>f. r = Some f \<longrightarrow> f \<in> F)"

lemma evict_safe:
  assumes "frames_ok b" "f \<in> frames_in b"
  shows "safe_result (frames_in b) some_frame (evict f b)"
  using assms by (simp add: evict_def Let_def bind_def on_disk_def WritePage_def frames_ok_def some_frame_def safe_result_def)

lemma acquire_safe: "pool_safe acquire_frame some_frame"
  unfolding pool_safe_def
proof (intro allI impI)
  fix b assume b: "frames_ok b"
  show "safe_result (frames_in b) some_frame (acquire_frame b)"
  proof (cases "free_list b")
    case (Cons f fs)
    then show ?thesis using b by (simp add: acquire_frame_def frames_ok_def some_frame_def safe_result_def)
  next
    case Nil
    obtain r rp where v: "Victim (repl b) = (r, rp)" by fastforce
    then obtain o1 where o1: "lru_within (frames_in b) rp" "r = Inr o1" "\<forall>f. o1 = Some f \<longrightarrow> f \<in> frames_in b"
      using lru_within_victim [OF _ v] b by (auto simp: frames_ok_def)
    then have "frames_ok (b\<lparr>repl := rp\<rparr>)" using b by (simp add: frames_ok_def)
    then show ?thesis
      using evict_safe [of "b\<lparr>repl := rp\<rparr>"] Nil v o1 by (cases o1) (simp_all add: acquire_frame_def some_frame_def safe_result_def)
  qed
qed

lemma fetch_safe: "pool_safe (FetchPage p) some_frame"
proof -
  have load: "safe_result (frames_in b) some_frame (load_page p f b)" if "frames_ok b" "f \<in> frames_in b" for f b
    using that by (auto simp: load_page_def Let_def bind_def on_disk_def ReadPage_def frames_ok_def some_frame_def safe_result_def split: option.splits)
  have "pool_safe (bind acquire_frame (\<lambda>r. case r of None \<Rightarrow> ret None | Some f \<Rightarrow> load_page p f)) some_frame"
    by (rule pool_safe_bind [OF acquire_safe])
      (use load in \<open>auto simp: some_frame_def ret_def safe_result_def split: option.splits\<close>)
  then show ?thesis
    using table_within_pt by (auto simp: pool_safe_def FetchPage_def some_frame_def frames_ok_def safe_result_def split: option.splits)
qed

lemma new_safe: "pool_safe NewPage (\<lambda>F (p, r). some_frame F r)"
  unfolding NewPage_def
  by (rule pool_safe_bind [OF acquire_safe])
    (auto simp: some_frame_def ret_def bind_def on_disk_def AllocatePage_def install_page_def frames_ok_def Let_def safe_result_def
      split: option.splits)

lemma unpin_safe: "pool_safe (UnpinPage p d) (\<lambda>_ _. True)"
  using table_within_pt
  by (auto simp: pool_safe_def UnpinPage_def frames_ok_def Let_def safe_result_def split: option.splits)

lemma delete_safe: "pool_safe (DeletePage p) (\<lambda>_ _. True)"
  using table_within_pt
  by (auto simp: pool_safe_def DeletePage_def frames_ok_def safe_result_def split: option.splits)

text \<open>The errors of a connection: none but those that its peer causes.\<close>

definition may_end :: "connection \<Rightarrow> err \<Rightarrow> bool" where
  "may_end c e \<longleftrightarrow> e = NoReturn \<and> (recv_end c = Peer_silent \<or> send_end c = Send_blocks) \<or>
     e = Killed \<and> send_end c = Send_signals"

definition same_ends :: "connection \<Rightarrow> connection \<Rightarrow> bool" where
  "same_ends c c' \<longleftrightarrow> recv_end c' = recv_end c \<and> send_end c' = send_end c"

definition tame_result :: "connection \<Rightarrow> (err + 'a) \<times> session \<Rightarrow> bool" where
  "tame_result c x \<longleftrightarrow> frames_ok (pool (snd x)) \<and> same_ends c (conn (snd x)) \<and>
     (\<forall>e. fst x = Inl e \<longrightarrow> is_std_exception e \<or> may_end c e)"

definition tame :: "(session, 'a) comp \<Rightarrow> bool" where
  "tame m \<longleftrightarrow> (\<forall>s. frames_ok (pool s) \<longrightarrow> tame_result (conn s) (m s))"

lemma same_ends_may_end: "same_ends c c' \<Longrightarrow> may_end c' e \<longleftrightarrow> may_end c e"
  by (simp add: same_ends_def may_end_def)

lemma same_ends_trans: "same_ends c c1 \<Longrightarrow> same_ends c1 c2 \<Longrightarrow> same_ends c c2"
  by (simp add: same_ends_def)

lemma tame_on_pool: "pool_safe m G \<Longrightarrow> tame (on_pool m)"
  by (auto simp: tame_def tame_result_def pool_safe_def safe_result_def on_pool_def same_ends_def split: prod.splits)

lemma send_loop_errors: "send_loop bs c = (Inl e, c') \<Longrightarrow> may_end c e"
proof (induction bs c rule: send_loop.induct)
  case (1 bs c)
  obtain r c1 where call: "send_call bs c = (r, c1)" by (cases "send_call bs c") auto
  then have c1: "same_ends c c1" "\<forall>e. r = Inl e \<longrightarrow> may_end c e"
    by (auto simp: send_call_def same_ends_def may_end_def split: list.splits send_end.splits)
  show ?case
  proof (cases r)
    case (Inl x)
    then show ?thesis using 1(2) call c1 by (auto simp: send_loop.simps [of bs] split: if_splits)
  next
    case (Inr n)
    then show ?thesis
      using 1 call c1(1) by (auto simp: send_loop.simps [of bs c] same_ends_may_end split: if_splits)
  qed
qed

lemma recv_loop_errors: "recv_loop n acc c = (Inl e, c') \<Longrightarrow> may_end c e"
proof (induction n acc c rule: recv_loop.induct)
  case (1 n acc c)
  obtain r c1 where call: "recv_call n c = (r, c1)" by (cases "recv_call n c") auto
  then have c1: "same_ends c c1" "\<forall>e. r = Inl e \<longrightarrow> may_end c e"
    by (auto simp: recv_call_def same_ends_def may_end_def split: list.splits recv_end.splits if_splits)
  show ?case
  proof (cases r)
    case (Inl x)
    then show ?thesis using 1(2) call c1 by (auto simp: recv_loop.simps [of n] split: if_splits)
  next
    case (Inr n)
    then show ?thesis
      using 1 call c1(1) by (auto simp: recv_loop.simps [of _ _ c] same_ends_may_end split: if_splits)
  qed
qed

lemma tame_send: "tame (send_bytes bs)"
  using send_loop_errors send_loop_input [of bs]
  by (fastforce simp: tame_def tame_result_def send_bytes_def Send_def same_ends_def same_input_def split: prod.splits)

lemma tame_recv: "tame (recv_bytes n)"
  using recv_loop_errors [of n "[]"] recv_loop_output [of n "[]"]
  by (fastforce simp: tame_def tame_result_def recv_bytes_def Recv_def same_ends_def same_output_def split: prod.splits)

lemma tame_basic: "tame (ret a)" "tame (throw (RuntimeError m))" "tame (throw (OutOfRange m))" "tame (read_frame f)"
  by (simp_all add: tame_def tame_result_def ret_def throw_def read_frame_def same_ends_def)

lemma tame_bind:
  assumes "tame m" "\<And>a. tame (f a)"
  shows "tame (bind m f)"
  unfolding tame_def
proof (intro allI impI)
  fix s :: session assume s: "frames_ok (pool s)"
  obtain r s1 where m: "m s = (r, s1)" by fastforce
  then have s1: "tame_result (conn s) (r, s1)" using assms(1) s by (auto simp: tame_def)
  show "tame_result (conn s) (bind m f s)"
  proof (cases r)
    case (Inl e)
    then show ?thesis using s1 m by (simp add: bind_def tame_result_def)
  next
    case (Inr a)
    then have "tame_result (conn s1) (f a s1)" using assms(2) s1 by (simp add: tame_def tame_result_def)
    then show ?thesis using s1 m Inr by (auto simp: bind_def tame_result_def same_ends_may_end intro: same_ends_trans)
  qed
qed

lemma tame_catch:
  assumes "tame m" "tame h"
  shows "tame (catch_std m h)"
  unfolding tame_def
proof (intro allI impI)
  fix s :: session assume s: "frames_ok (pool s)"
  obtain r s1 where m: "m s = (r, s1)" by fastforce
  then have s1: "tame_result (conn s) (r, s1)" using assms(1) s by (auto simp: tame_def)
  then have "tame_result (conn s1) (h s1)" using assms(2) by (simp add: tame_def tame_result_def)
  then show "tame_result (conn s) (catch_std m h s)"
    using s1 m by (cases r) (auto simp: catch_std_def tame_result_def same_ends_may_end intro: same_ends_trans)
qed

lemma modify_safe: "pool_safe (modify f g) (\<lambda>_ _. True)"
  by (simp add: pool_safe_def safe_result_def modify_def put_data_def frames_ok_def)

lemmas tame_rules = tame_basic tame_send tame_recv tame_bind tame_catch tame_on_pool [OF fetch_safe]
  tame_on_pool [OF new_safe] tame_on_pool [OF unpin_safe] tame_on_pool [OF delete_safe] tame_on_pool [OF modify_safe]

lemma tame_handle_request: "tame (handle_request h)"
  unfolding handle_request_def handle_read_def handle_write_def handle_allocate_def
    handle_deallocate_def handle_unknown_def
  by (auto intro!: tame_rules split: option.splits)

lemma client_loop_ends:
  assumes "frames_ok (pool s)"
  shows "\<exists>x. client_loop running k s = Some x \<and> tame_result (conn s) x"
  using assms
proof (induction "unread s" arbitrary: k s rule: less_induct)
  case less
  obtain x s1 where rc: "recv_bytes RequestHeader_size s = (x, s1)" by fastforce
  have s1: "tame_result (conn s) (x, s1)" using tame_recv less.prems rc unfolding tame_def by metis
  show ?case
  proof (cases "running k \<and> (\<exists>bs. x = Inr (Some bs))")
    case False
    then have "\<not> running k \<or> x = Inr None \<or> (\<exists>e. x = Inl e)" by (metis not_Some_eq old.sum.exhaust)
    then show ?thesis
      using rc s1 less.prems by (auto simp: client_loop.simps [of running k s] tame_result_def same_ends_def)
  next
    case True
    then obtain bs where bs: "running k" "x = Inr (Some bs)" by blast
    obtain r s2 where h: "handle_request (decode_request bs) s1 = (r, s2)" by fastforce
    then have s2: "tame_result (conn s1) (r, s2)"
      using tame_handle_request [of "decode_request bs"] s1 by (auto simp: tame_def tame_result_def)
    have c: "same_ends (conn s) (conn s1)" "same_ends (conn s) (conn s2)"
      using s1 s2 by (auto simp: tame_result_def intro: same_ends_trans)
    have "unread s2 < unread s"
      using header_consumed [of s bs s1] rc bs shrinks_handle_request [of "decode_request bs"] h
      by (auto simp: shrinks_def dest!: spec [of _ s1])
    then obtain y where y: "client_loop running (Suc k) s2 = Some y" "tame_result (conn s2) y"
      using less.hyps [of s2 "Suc k"] s2 by (auto simp: tame_result_def)
    have y': "tame_result (conn s) y" using y(2) c(2) by (auto simp: tame_result_def same_ends_may_end intro: same_ends_trans)
    consider "r = Inr Continue" | "r = Inr Break" | e where "r = Inl e" by (metis loop_control.exhaust old.sum.exhaust)
    then show ?thesis
      by cases (use rc bs h y(1) y' s2 c in
        \<open>auto simp: client_loop.simps [of running k s] tame_result_def same_ends_may_end\<close>)
  qed
qed

section \<open>Properties\<close>

text \<open>
  C7. A connection that reads and writes live pages. However the operating system cuts the
  request stream into \<^verbatim>\<open>recv\<close> results and the replies into \<^verbatim>\<open>send\<close> results, \<open>HandleClient\<close> answers
  the requests in order as an ideal page server does: a write replaces the page, a read returns
  the bytes written last. After the last request no page stays pinned and the page store holds the
  result of the writes; when the peer then closes its end the socket is closed, and when it stays
  silent the handler waits in \<^verbatim>\<open>Recv\<close> with the socket open.
\<close>

theorem client_session_refines:
  assumes "idle (pool s) fl" "0 < frames (pool s)" "S = pool_store (pool s) fl"
    "\<forall>r \<in> set rs. request_ok (dom S) r" "[] \<notin> set (incoming (conn s))"
    "concat (incoming (conn s)) = concat (map wire rs)" "accepts (conn s) (length (fst (serve S rs)))"
  shows "\<exists>r s'. HandleClient (\<lambda>_. True) s = Some (r, s') \<and>
     (case recv_end (conn s) of Peer_closes \<Rightarrow> r = Inr () \<and> \<not> fd_valid (conn s')
      | Peer_silent \<Rightarrow> r = Inl NoReturn \<and> fd_valid (conn s')) \<and>
     sent (conn s') = sent (conn s) @ fst (serve S rs) \<and>
     idle (pool s') fl \<and> pool_store (pool s') fl = snd (serve S rs)"
proof -
  have "ready s fl S rs" using assms unfolding ready_def stream_def by blast
  from client_loop_serves [OF this, of 0] obtain s' where
    s': "client_loop (\<lambda>_. True) 0 s = Some (loop_end (conn s), s')" "sent (conn s') = sent (conn s) @ fst (serve S rs)"
      "fd_valid (conn s')" "idle (pool s') fl" "pool_store (pool s') fl = snd (serve S rs)" by blast
  then show ?thesis
    by (cases "recv_end (conn s)") (auto simp: HandleClient_def Socket_Close_def loop_end_def)
qed

lemma idle_new_service:
  assumes "disk_rep d fl" "num_pages d \<noteq> INVALID_PAGE_ID"
  shows "idle (svc_pool (StorageService_new d)) fl" "frames (svc_pool (StorageService_new d)) = 128"
    "unused_id (pool_store (svc_pool (StorageService_new d)) fl)"
    "dom (pool_store (svc_pool (StorageService_new d)) fl) = live_pages d fl"
proof -
  have eq: "svc_pool (StorageService_new d) = sample_pool 128 d" by (simp add: StorageService_new_def sample_pool_def)
  show "idle (svc_pool (StorageService_new d)) fl" "frames (svc_pool (StorageService_new d)) = 128"
    "unused_id (pool_store (svc_pool (StorageService_new d)) fl)"
    using sample_idle [OF assms, of 128] by (simp_all add: eq)
  show "dom (pool_store (svc_pool (StorageService_new d)) fl) = live_pages d fl"
    by (simp add: eq dom_pool_store sample_pool_reach(3) [OF assms(1)])
qed

theorem client_session_refines_witness:
  "\<exists>d s'. disk_rep d [] \<and>
     HandleClient (\<lambda>_. True) \<lparr>pool = svc_pool (StorageService_new d),
       conn = \<lparr>fd_valid = True, incoming = [wire (WriteReq 1 (replicate PAGE_SIZE 7)) @ wire (ReadReq 1)], recv_end = Peer_closes,
               send_quota = replicate 5000 4096, send_end = Send_blocks, sent = []\<rparr>\<rparr> = Some (Inr (), s') \<and>
     \<not> fd_valid (conn s') \<and> sent (conn s') = response SUCCESS 1 0 @ response SUCCESS 1 (of_nat PAGE_SIZE) @ replicate PAGE_SIZE 7"
proof -
  obtain d where d: "disk_rep d []" "1 \<in> live_pages d []" "num_pages d = 2" using one_page_store by blast
  have ni: "num_pages d \<noteq> INVALID_PAGE_ID" using d(3) by (simp add: INVALID_PAGE_ID_def)
  note v = idle_new_service [OF d(1) ni]
  let ?rs = "[WriteReq 1 (replicate PAGE_SIZE 7), ReadReq 1]"
  let ?S = "pool_store (svc_pool (StorageService_new d)) []"
  let ?s = "\<lparr>pool = svc_pool (StorageService_new d),
       conn = \<lparr>fd_valid = True, incoming = [wire (WriteReq 1 (replicate PAGE_SIZE 7)) @ wire (ReadReq 1)], recv_end = Peer_closes,
               send_quota = replicate 5000 4096, send_end = Send_blocks, sent = []\<rparr>\<rparr>"
  have r: "idle (pool ?s) []" "0 < frames (pool ?s)" "?S = pool_store (pool ?s) []" using v by simp_all
  have ok: "\<forall>r \<in> set ?rs. request_ok (dom ?S) r" using d(2) v(4) by simp
  have inp: "[] \<notin> set (incoming (conn ?s))" "concat (incoming (conn ?s)) = concat (map wire ?rs)"
    by (simp_all add: encode_request_def)
  have acc: "accepts (conn ?s) (length (fst (serve ?S ?rs)))"
    by (simp add: accepts_def PAGE_SIZE_def)
  have "fst (serve ?S ?rs) = response SUCCESS 1 0 @ response SUCCESS 1 (of_nat PAGE_SIZE) @ replicate PAGE_SIZE 7"
    by simp
  with client_session_refines [OF r ok inp acc] d(1) show ?thesis by auto
qed

text \<open>
  C28. What a connection can end with. Whatever bytes the peer sends, however they arrive and whatever
  page ids they name, \<open>HandleClient\<close> ends in one of three ways: it returns with the socket closed; it
  waits for ever, and then the peer keeps the connection open without sending, or without reading;
  or the process is killed by SIGPIPE. No exception leaves it, no null pointer is dereferenced, and
  the frames that the pool keeps account of stay its own.
\<close>

theorem handle_client_terminates:
  assumes "frames_ok (pool s)"
  shows "\<exists>r s'. HandleClient running s = Some (r, s') \<and> frames_ok (pool s') \<and>
     (r = Inr () \<and> \<not> fd_valid (conn s') \<or>
      r = Inl NoReturn \<and> (recv_end (conn s) = Peer_silent \<or> send_end (conn s) = Send_blocks) \<or>
      r = Inl Killed \<and> send_end (conn s) = Send_signals)"
proof -
  obtain r s' where "client_loop running 0 s = Some (r, s')" "tame_result (conn s) (r, s')"
    using client_loop_ends [OF assms] by force
  then show ?thesis
    by (cases r) (auto simp: HandleClient_def Socket_Close_def tame_result_def may_end_def)
qed

lemma new_service_frames: "frames_ok (svc_pool (StorageService_new d))"
  by (auto simp: StorageService_new_def BufferPoolManager_new_def frames_ok_def frames_in_def LRUReplacer_new_def
      lru_queue_def table_within_def)

theorem handle_client_terminates_witness:
  "\<exists>d s'. disk_rep d [] \<and> HandleClient (\<lambda>_. True) \<lparr>pool = svc_pool (StorageService_new d),
       conn = \<lparr>fd_valid = True, incoming = [[3, 99, 0, 0, 0], [0, 0, 0, 0, 0, 99, 0], [1, 2, 3]], recv_end = Peer_closes,
               send_quota = [4, 5, 7], send_end = Send_fails, sent = []\<rparr>\<rparr> = Some (Inr (), s') \<and>
     \<not> fd_valid (conn s')"
proof -
  obtain d where d: "disk_rep d []" using one_page_store by blast
  let ?s = "\<lparr>pool = svc_pool (StorageService_new d),
       conn = \<lparr>fd_valid = True, incoming = [[3, 99, 0, 0, 0], [0, 0, 0, 0, 0, 99, 0], [1, 2, 3]], recv_end = Peer_closes,
               send_quota = [4, 5, 7], send_end = Send_fails, sent = []\<rparr>\<rparr>"
  have "frames_ok (pool ?s)" by (simp add: new_service_frames)
  from handle_client_terminates [OF this, of "\<lambda>_. True"] d show ?thesis by auto
qed

text \<open>A request whose reply meets SIGPIPE.\<close>

definition peer_gone :: "session \<Rightarrow> bool" where
  "peer_gone s \<longleftrightarrow> fd_valid (conn s) \<and> send_quota (conn s) = [] \<and> send_end (conn s) = Send_signals"

lemma peer_gone_pool [simp]: "peer_gone (s\<lparr>pool := b\<rparr>) = peer_gone s"
  by (simp add: peer_gone_def)

lemma send_to_gone [simp]: "peer_gone s \<Longrightarrow> send_bytes (response st p n) s = (Inl Killed, s)"
proof -
  have "response st p n \<noteq> []" by (metis length_response list.size(3) zero_neq_numeral)
  then show "peer_gone s \<Longrightarrow> ?thesis"
    by (simp add: peer_gone_def send_bytes_def Send_def send_loop.simps [of "response st p n"] send_call_def)
qed

lemma safe_error: "pool_safe m G \<Longrightarrow> frames_ok b \<Longrightarrow> m b = (Inl e, b') \<Longrightarrow> is_std_exception e"
  by (force simp: pool_safe_def safe_result_def)

lemmas kill_simps = catch_std_def bind_def on_pool_def throw_def ret_def modify_def

lemma handle_request_killed:
  assumes "peer_gone s" "frames_ok (pool s)" "op_type h \<noteq> OpType_code WRITE_PAGE"
  shows "\<exists>s'. handle_request h s = (Inl Killed, s')"
proof -
  let ?p = "req_page_id h"
  have r: "\<exists>s'. handle_read ?p s = (Inl Killed, s')"
    using assms safe_error [OF fetch_safe [of ?p] assms(2)]
    by (cases "FetchPage ?p (pool s)" rule: prod.exhaust)
      (auto simp: handle_read_def kill_simps split: sum.splits option.splits)
  have a: "\<exists>s'. handle_allocate s = (Inl Killed, s')"
  proof (cases "NewPage (pool s)")
    case (Pair x b)
    have b: "frames_ok b" using new_safe assms(2) Pair by (force simp: pool_safe_def safe_result_def)
    show ?thesis
    proof (cases x)
      case (Inl e)
      then show ?thesis using Pair assms safe_error [OF new_safe assms(2)] by (auto simp: handle_allocate_def kill_simps)
    next
      case (Inr y)
      obtain p g where y: "y = (p, g)" by fastforce
      obtain z c where z: "UnpinPage p True b = (z, c)" by fastforce
      have "\<forall>e. z = Inl e \<longrightarrow> is_std_exception e" using safe_error [OF unpin_safe b] z by blast
      then show ?thesis using Pair Inr y z assms by (cases g; cases z) (auto simp: handle_allocate_def kill_simps)
    qed
  qed
  have d: "\<exists>s'. handle_deallocate ?p s = (Inl Killed, s')"
    using assms safe_error [OF delete_safe [of ?p] assms(2)]
    by (cases "DeletePage ?p (pool s)" rule: prod.exhaust)
      (auto simp: handle_deallocate_def kill_simps split: sum.splits)
  have u: "\<exists>s'. handle_unknown s = (Inl Killed, s')" using assms by (simp add: handle_unknown_def kill_simps)
  show ?thesis using r a d u assms(3) by (simp add: handle_request_def)
qed

lemma handle_write_killed:
  assumes "recv_bytes PAGE_SIZE s = (Inr (Some bs), s1)" "peer_gone s1" "frames_ok (pool s1)"
  shows "\<exists>s'. handle_write p s = (Inl Killed, s')"
proof (cases "FetchPage p (pool s1)")
  case (Pair x b)
  have b: "frames_ok b" using fetch_safe [of p] assms(3) Pair by (force simp: pool_safe_def safe_result_def)
  show ?thesis
  proof (cases x)
    case (Inl e)
    then show ?thesis using Pair assms safe_error [OF fetch_safe assms(3)] by (auto simp: handle_write_def kill_simps)
  next
    case (Inr g)
    let ?b = "\<lambda>f. put_data f bs b"
    have c: "\<forall>f e b'. UnpinPage p True (?b f) = (Inl e, b') \<longrightarrow> is_std_exception e"
      using safe_error [OF unpin_safe] b by (metis frames_ok_def pool_fields(1,6-8) put_data_def)
    show ?thesis
      using Pair Inr assms c by (cases g) (auto simp: handle_write_def kill_simps split: prod.splits sum.splits)
  qed
qed

text \<open>
  C31. A defect: a reply to a client that has gone kills the daemon. When the peer has closed its
  socket, so that \<^verbatim>\<open>send\<close> raises SIGPIPE, and a complete request has arrived from it, \<open>HandleClient\<close>
  ends the process, whatever the request asks. \<open>Stop\<close> does not run then: what other clients have
  written is still in the pool only.
\<close>

theorem reply_to_closed_peer_kills:
  assumes "frames_ok (pool s)" "fd_valid (conn s)" "[] \<notin> set (incoming (conn s))"
    "concat (incoming (conn s)) = encode_request h @ payload @ rest"
    "length payload = (if op_type h = OpType_code WRITE_PAGE then PAGE_SIZE else 0)"
    "send_quota (conn s) = []" "send_end (conn s) = Send_signals"
  shows "\<exists>s'. HandleClient (\<lambda>_. True) s = Some (Inl Killed, s')"
proof -
  have len: "length (encode_request h) = RequestHeader_size" by (simp add: RequestHeader_size_def)
  have st: "stream (conn s) = encode_request h @ payload @ rest" using assms(4) by (simp add: stream_def)
  obtain s1 where s1: "recv_bytes RequestHeader_size s = (Inr (Some (encode_request h)), s1)"
    "pool s1 = pool s" "same_output (conn s) (conn s1)" "[] \<notin> set (incoming (conn s1))" "stream (conn s1) = payload @ rest"
    by (rule recv_bytes_ok [OF assms(2,3) st len])
  have g: "peer_gone s1" "fd_valid (conn s1)" "frames_ok (pool s1)"
    using s1(2,3) assms(1,2,6,7) by (simp_all add: peer_gone_def same_output_def)
  have "\<exists>s2. handle_request h s1 = (Inl Killed, s2)"
  proof (cases "op_type h = OpType_code WRITE_PAGE")
    case True
    then have "length payload = PAGE_SIZE" using assms(5) by simp
    from recv_bytes_ok [OF g(2) s1(4,5) this] obtain s2 where s2: "recv_bytes PAGE_SIZE s1 = (Inr (Some payload), s2)"
      "pool s2 = pool s1" "same_output (conn s1) (conn s2)" by blast
    have "peer_gone s2" "frames_ok (pool s2)" using s2(2,3) g by (simp_all add: peer_gone_def same_output_def)
    from handle_write_killed [OF s2(1) this, of "req_page_id h"] show ?thesis using True by (simp add: handle_request_def)
  qed (rule handle_request_killed [OF g(1,3)])
  then show ?thesis
    using s1(1) by (auto simp: HandleClient_def client_loop.simps [of _ 0 s] decode_encode_request)
qed

theorem reply_to_closed_peer_kills_witness:
  "\<exists>d s'. disk_rep d [] \<and> HandleClient (\<lambda>_. True) \<lparr>pool = svc_pool (StorageService_new d),
       conn = \<lparr>fd_valid = True, incoming = [wire (WriteReq 1 (replicate PAGE_SIZE 7))], recv_end = Peer_closes,
               send_quota = [], send_end = Send_signals, sent = []\<rparr>\<rparr> = Some (Inl Killed, s')"
proof -
  obtain d where d: "disk_rep d []" using one_page_store by blast
  let ?s = "\<lparr>pool = svc_pool (StorageService_new d),
       conn = \<lparr>fd_valid = True, incoming = [wire (WriteReq 1 (replicate PAGE_SIZE 7))], recv_end = Peer_closes,
               send_quota = [], send_end = Send_signals, sent = []\<rparr>\<rparr>"
  let ?h = "\<lparr>op_type = OpType_code WRITE_PAGE, req_page_id = 1, req_data_len = of_nat PAGE_SIZE\<rparr>"
  have "frames_ok (pool ?s)" "fd_valid (conn ?s)" "[] \<notin> set (incoming (conn ?s))"
    "concat (incoming (conn ?s)) = encode_request ?h @ replicate PAGE_SIZE 7 @ []"
    "length (replicate PAGE_SIZE (7::byte)) = (if op_type ?h = OpType_code WRITE_PAGE then PAGE_SIZE else 0)"
    "send_quota (conn ?s) = []" "send_end (conn ?s) = Send_signals"
    by (simp_all add: new_service_frames encode_request_def)
  from reply_to_closed_peer_kills [OF this] d show ?thesis by blast
qed

text \<open>
  Allocation over the wire. While an unused page id is left, \<open>ALLOCATE_PAGE\<close> replies with a
  page nobody uses, which reads as zeros; \<open>DEALLOCATE_PAGE\<close> of it replies success and restores the
  page store, with the page id free again.
\<close>

lemma service_allocate_deallocate:
  assumes "idle (pool s) fl" "0 < frames (pool s)" "unused_id (pool_store (pool s) fl)" "accepts (conn s) 18"
  shows "\<exists>p s1 s2. handle_allocate s = (Inr Continue, s1) \<and> p \<notin> dom (pool_store (pool s) fl) \<and> p \<noteq> 0 \<and>
     pool_store (pool s1) (tl fl) = (pool_store (pool s) fl)(p \<mapsto> zero_page) \<and>
     handle_deallocate p s1 = (Inr Continue, s2) \<and> pool_store (pool s2) (p # tl fl) = pool_store (pool s) fl \<and>
     idle (pool s2) (p # tl fl) \<and> sent (conn s2) = sent (conn s) @ response SUCCESS p 0 @ response SUCCESS p 0"
proof -
  have acc: "accepts (conn s) (9 + 9)" using assms(4) by simp
  obtain p s1 where s1: "handle_allocate s = (Inr Continue, s1)" "answered s (response SUCCESS p 0) s1"
     "accepts (conn s1) 9" "p \<notin> dom (pool_store (pool s) fl)" "p \<noteq> 0" "idle (pool s1) (tl fl)"
     "pool_store (pool s1) (tl fl) = (pool_store (pool s) fl)(p \<mapsto> zero_page)"
    using handle_allocate_ok [OF assms(1-3) acc] by blast
  have dom: "p \<in> dom (pool_store (pool s1) (tl fl))" and acc1: "accepts (conn s1) (9 + 0)" using s1(3,7) by auto
  obtain s2 where s2: "handle_deallocate p s1 = (Inr Continue, s2)" "answered s1 (response SUCCESS p 0) s2"
     "idle (pool s2) (p # tl fl)" "pool_store (pool s2) (p # tl fl) = (pool_store (pool s1) (tl fl))(p := None)"
    using handle_deallocate_ok [OF s1(6) dom acc1] by blast
  have "pool_store (pool s2) (p # tl fl) = pool_store (pool s) fl"
    unfolding s2(4) s1(7) using s1(4) by auto
  then show ?thesis using s1 s2 answered_trans [OF s1(2) s2(2)] unfolding answered_def by blast
qed

end
