(* ===== verification/Shared_Store.thy ===== *)
theory Shared_Store
  imports Pinned_Store
begin

text \<open>
  The buffer pool as several clients use it at the same time. The interface \<open>pinned_store\<close> asks a
  client that unpins a page as not changed to know that the page is clean; when somebody else still
  has the page pinned this is not necessary, because the last one to unpin it is responsible. The
  locale \<open>shared_store\<close> adds this law, and that allocating and deleting a page leave the other pages
  clean. It is interpreted on the buffer pool as \<open>sp\<close>.
\<close>

locale shared_store = pinned_store fetch unpin new del get put ident st hold clean nframes
  for fetch :: "page_id \<Rightarrow> ('s, 'f option) comp"
    and unpin :: "page_id \<Rightarrow> bool \<Rightarrow> ('s, bool) comp"
    and new :: "('s, page_id \<times> 'f option) comp"
    and del :: "page_id \<Rightarrow> ('s, bool) comp"
    and get :: "'s \<Rightarrow> 'f \<Rightarrow> byte list"
    and put :: "'f \<Rightarrow> byte list \<Rightarrow> 's \<Rightarrow> 's"
    and ident :: "'s \<Rightarrow> 'f \<Rightarrow> page_id"
    and st :: "'s \<Rightarrow> (page_id \<rightharpoonup> byte list) \<Rightarrow> (page_id \<Rightarrow> int) \<Rightarrow> bool"
    and hold :: "'s \<Rightarrow> page_id \<Rightarrow> 'f \<Rightarrow> bool"
    and clean :: "'s \<Rightarrow> page_id \<Rightarrow> bool"
    and nframes :: "'s \<Rightarrow> nat" +
  assumes unpin_shared: "st s S P \<Longrightarrow> 0 < P p \<Longrightarrow> dirty \<or> clean s p \<or> 1 < P p \<Longrightarrow>
      \<exists>s'. unpin p dirty s = (Inr True, s') \<and> st s' S (P(p := P p - 1)) \<and> nframes s' = nframes s \<and>
        (\<forall>q. clean s q \<longrightarrow> clean s' q) \<and> (dirty \<longrightarrow> clean s' p) \<and>
        (\<forall>q g. hold s q g \<and> (q \<noteq> p \<or> 1 < P p) \<longrightarrow> hold s' q g)"
    and new_clean: "st s S P \<Longrightarrow> unused_id S \<Longrightarrow> new s = (Inr (p, r), s') \<Longrightarrow> clean s q \<Longrightarrow> q \<noteq> p \<Longrightarrow> clean s' q"
    and del_clean: "st s S P \<Longrightarrow> p \<in> dom S \<Longrightarrow> P p = 0 \<Longrightarrow> del p s = (Inr True, s') \<Longrightarrow> clean s q \<Longrightarrow> clean s' q"
    and put_clean: "st s S P \<Longrightarrow> hold s p f \<Longrightarrow> length d = PAGE_SIZE \<Longrightarrow> clean s q \<Longrightarrow> q \<noteq> p \<Longrightarrow> clean (put f d s) q"
begin

text \<open>
  Two clients share a page: one stores new bytes, the other unpins the page as not changed before
  the first unpins it as changed. The new bytes stay.
\<close>

lemma reader_leaves_first:
  assumes st: "st s S P" and p: "hold s p f" "P p = 2" and len: "length d = PAGE_SIZE"
  shows "\<exists>s1 s2. unpin p False (put f d s) = (Inr True, s1) \<and> unpin p True s1 = (Inr True, s2) \<and>
     st s2 (S(p \<mapsto> d)) (P(p := 0)) \<and> nframes s2 = nframes s \<and> clean s2 p"
proof -
  have t: "st (put f d s) (S(p \<mapsto> d)) P" "nframes (put f d s) = nframes s" using put_ok [OF st p(1) len] by blast+
  obtain s1 where s1: "unpin p False (put f d s) = (Inr True, s1)" "st s1 (S(p \<mapsto> d)) (P(p := 1))" "nframes s1 = nframes s"
    using unpin_shared [OF t(1), of p False] p(2) t(2) by auto
  then show ?thesis using unpin_shared [OF s1(2), of p True] by auto
qed

end

section \<open>The buffer pool\<close>

lemma pool_st_unpin_shared:
  assumes st: "pool_st b S P" and p: "0 < P p" and ok: "dirty \<or> synced b p \<or> 1 < P p"
  shows "\<exists>b'. UnpinPage p dirty b = (Inr True, b') \<and> pool_st b' S (P(p := P p - 1)) \<and> frames b' = frames b \<and>
     (\<forall>q. synced b q \<longrightarrow> synced b' q) \<and> (dirty \<longrightarrow> synced b' p) \<and>
     (\<forall>q g. held b q g \<and> (q \<noteq> p \<or> 1 < P p) \<longrightarrow> held b' q g)"
proof -
  obtain fl where fl: "bp_inv b fl" "pool_store b fl = S" "pin_counts b = P" using st by (rule pool_stE)
  then obtain f where t: "pt b p = Some f" "0 < pin_count (frame b f)" "P p = pin_count (frame b f)"
    using p by (auto simp: pin_counts_def split: option.splits)
  have hon: "unpin_honest b p dirty" using ok t by (auto simp: unpin_honest_def synced_def)
  obtain b' where b': "UnpinPage p dirty b = (Inr True, b')" "op_ok b fl (Unpin_op p dirty) (RBool True) b' fl"
    using unpin_sim [OF fl(1) hon] p fl(3) by auto
  from UnpinPage_ok [OF fl(1) t(1,2) hon] b'(1) have u: "pt b' = pt b" "disk b' = disk b"
      "frame b' f = (frame b f)\<lparr>pin_count := pin_count (frame b f) - 1, is_dirty := is_dirty (frame b f) \<or> dirty\<rparr>"
      "\<And>q g. q \<noteq> p \<Longrightarrow> pt b q = Some g \<Longrightarrow> frame b' g = frame b g" by auto
  have a: "pool_store b' fl = S" "pin_counts b' = P(p := P p - 1)"
    using op_ok_step [OF b'(2)] fl(2,3) by (auto elim!: spec_UnpinE dest!: pool_abs_eqD)
  have "synced b' q" if "synced b q" for q
    using that u t(1) by (cases "q = p") (auto simp: synced_def split: option.splits)
  moreover have "dirty \<Longrightarrow> synced b' p" using u t(1) by (simp add: synced_def)
  moreover have "held b' q g" if "held b q g" "q \<noteq> p \<or> 1 < P p" for q g
    using that u(1) a(2) fl(3) by (auto simp: held_pin_counts)
  ultimately show ?thesis using b' a op_ok_frames [OF b'(2)] unfolding pool_st_def by blast
qed

lemma delete_synced:
  assumes inv: "bp_inv s fl" and live: "p \<in> live_pages (disk s) fl" and pin: "pin_counts s p = 0"
    and ex: "DeletePage p s = (Inr True, s')" and q: "synced s q"
  shows "synced s' q"
proof -
  have nz: "q \<noteq> 0" if "pt s q = Some g" for g
    using bp_inv_entry [OF inv that] by (auto simp: entry_ok_def live_pages_def)
  show ?thesis
  proof (cases "pt s p")
    case None
    then show ?thesis
      using DeletePage_uncached [OF inv live None] ex q nz by (auto simp: synced_def split: option.splits)
  next
    case (Some f)
    then have "\<not> 0 < pin_count (frame s f)" using pin by (simp add: pin_counts_def)
    from DeletePage_cached [OF inv Some this] show ?thesis
      using ex q nz by (auto simp: synced_def split: option.splits)
  qed
qed

interpretation sp: shared_store FetchPage UnpinPage NewPage DeletePage page_data put_data frame_ident pool_st
  held synced frames
proof (unfold_locales, goal_cases)
  case (1 s S P p dirty)
  then show ?case by (rule pool_st_unpin_shared)
next
  case (2 s S P p r s' q)
  then show ?case using new_synced by (metis pool_stE)
next
  case (3 s S P p s' q)
  then obtain fl where fl: "bp_inv s fl" "pool_store s fl = S" "pin_counts s = P" by (elim pool_stE)
  then have "p \<in> live_pages (disk s) fl" using 3(2) by (metis dom_pool_store)
  then show ?case using delete_synced [OF fl(1)] 3(3-5) fl(3) by blast
next
  case (4 s S P p f d q)
  then show ?case using bpm.put_held by (metis pool_stE)
qed

end
