(* ===== verification/Concurrent_Service.thy ===== *)
theory Concurrent_Service
  imports Storage_Service Shared_Store "HOL-Library.Sublist"
begin

text \<open>
  The storage service with many connections at once and with its shutdown: the threads that run
  \<open>HandleClient\<close> and the thread that runs \<open>Stop\<close> (\<^verbatim>\<open>storage_service.cpp\<close>), interleaved. One step is
  one call of the buffer pool, which is atomic under its latch, or the copy of one byte between a
  frame and a buffer or the network, or one reply: \<^verbatim>\<open>HandleClient\<close> copies pages without any latch, so
  the bytes of two copies interleave. What a client sends is its script; whether a \<^verbatim>\<open>Send\<close> succeeds,
  fails or raises SIGPIPE is part of the schedule. The \<open>history\<close> records each request at the moment
  it takes effect.

  Two handlers that hold the same page, one of them to overwrite it, access its bytes without
  synchronisation (\<open>conflict\<close>): in C++ a data race. On schedules without a conflict the interleaving
  of single bytes is what the program does, and the clients see a linearizable page store. Clients
  that do not share a page that one of them writes never run into a conflict. For a reader and a
  writer of the same page a schedule is given in which the reader is sent a page that never existed.
\<close>

section \<open>State\<close>

datatype request = Read page_id | Write page_id "byte list" | Allocate | Deallocate page_id | Unknown

text \<open>\<open>Broken_off\<close> is no answer: the reply to a read could not be sent.\<close>

datatype answer = Page_bytes "byte list" | Okay | New_id page_id | Failed | Broken_off

text \<open>
  The position of a handler: at the test of \<^verbatim>\<open>is_running_\<close>; in \<^verbatim>\<open>Recv\<close>; with a request received; with
  a page pinned, while its bytes are sent or overwritten (with the bytes sent so far, or their
  number) and after that; about to send a reply; ended.
\<close>

datatype handler_pc =
    At_loop
  | At_recv
  | Received request
  | Reading page_id frame_id "byte list"
  | Read_sent page_id bool
  | Writing page_id frame_id "byte list" nat
  | Written page_id
  | Allocated page_id
  | Replying answer
  | Closed

record client =
  pc :: handler_pc
  todo :: "request list"
  answers :: "answer list"

datatype stop_pc = Not_stopped | Flag_cleared | Flushed | Pool_destroyed | Stopped

record service =
  running :: bool
  live_pool :: "buffer_pool option"
  closed_disk :: "disk_manager option"
  stopping :: stop_pc
  clients :: "client list"
  history :: "(nat \<times> request \<times> answer) list"

definition service_of :: "buffer_pool \<Rightarrow> request list list \<Rightarrow> service" where
  "service_of b scripts =
     \<lparr>running = True, live_pool = Some b, closed_disk = None, stopping = Not_stopped,
      clients = map (\<lambda>rs. \<lparr>pc = At_loop, todo = rs, answers = []\<rparr>) scripts, history = []\<rparr>"

definition set_client :: "nat \<Rightarrow> client \<Rightarrow> service \<Rightarrow> service" where
  "set_client i c s = s\<lparr>clients := (clients s)[i := c]\<rparr>"

definition goto :: "nat \<Rightarrow> handler_pc \<Rightarrow> service \<Rightarrow> service" where
  "goto i p s = set_client i ((clients s ! i)\<lparr>pc := p\<rparr>) s"

definition log_effect :: "nat \<Rightarrow> request \<Rightarrow> answer \<Rightarrow> service \<Rightarrow> service" where
  "log_effect i r a s = s\<lparr>history := history s @ [(i, r, a)]\<rparr>"

text \<open>
  A call through \<^verbatim>\<open>buffer_pool_manager_->\<close>, which is null once \<open>Stop\<close> has destroyed the pool; \<open>k\<close>
  continues with the result, \<open>h\<close> is the handler of \<^verbatim>\<open>std::exception\<close>.
\<close>

definition pool_call ::
  "(buffer_pool, 'a) comp \<Rightarrow> ('a \<Rightarrow> service \<Rightarrow> service) \<Rightarrow> (service \<Rightarrow> service) \<Rightarrow> service \<Rightarrow> err + service" where
  "pool_call m k h s =
     (case live_pool s of
        None \<Rightarrow> Inl NullDeref
      | Some b \<Rightarrow>
          (case m b of
             (Inr a, b') \<Rightarrow> Inr (k a (s\<lparr>live_pool := Some b'\<rparr>))
           | (Inl e, b') \<Rightarrow> if is_std_exception e then Inr (h (s\<lparr>live_pool := Some b'\<rparr>)) else Inl e))"

text \<open>Bytes of a frame, which are gone with the pool.\<close>

definition frame_access :: "(buffer_pool \<Rightarrow> service \<Rightarrow> service) \<Rightarrow> service \<Rightarrow> err + service" where
  "frame_access k s = (case live_pool s of None \<Rightarrow> Inl MemFault | Some b \<Rightarrow> Inr (k b s))"

section \<open>Steps of a handler\<close>

definition fail :: "nat \<Rightarrow> request \<Rightarrow> service \<Rightarrow> service" where
  "fail i r s = goto i (Replying Failed) (log_effect i r Failed s)"

definition call_pool :: "nat \<Rightarrow> request \<Rightarrow> service \<Rightarrow> err + service" where
  "call_pool i r =
     (case r of
        Read p \<Rightarrow> pool_call (FetchPage p)
          (\<lambda>page. case page of None \<Rightarrow> fail i r | Some f \<Rightarrow> goto i (Reading p f [])) (fail i r)
      | Write p bs \<Rightarrow> pool_call (FetchPage p)
          (\<lambda>page. case page of None \<Rightarrow> fail i r | Some f \<Rightarrow> goto i (Writing p f bs 0)) (fail i r)
      | Allocate \<Rightarrow> pool_call NewPage
          (\<lambda>(p, page). case page of
             None \<Rightarrow> fail i r
           | Some f \<Rightarrow> \<lambda>s. goto i (Allocated p) (log_effect i r (New_id p) s)) (fail i r)
      | Deallocate p \<Rightarrow> pool_call (DeletePage p)
          (\<lambda>ok. if ok then \<lambda>s. goto i (Replying Okay) (log_effect i r Okay s) else fail i r) (fail i r)
      | Unknown \<Rightarrow> \<lambda>s. Inr (fail i r s))"

definition deliver :: "nat \<Rightarrow> bool \<Rightarrow> answer \<Rightarrow> handler_pc \<Rightarrow> service \<Rightarrow> service" where
  "deliver i ok a p s =
     (let c = clients s ! i in set_client i (c\<lparr>pc := p, answers := answers c @ (if ok then [a] else [])\<rparr>) s)"

text \<open>
  One step of the thread of client \<open>i\<close>; \<open>ok\<close> is the result of \<^verbatim>\<open>send\<close>, if the step sends. A failed
  \<^verbatim>\<open>Send\<close> of an error reply is ignored, any other one ends the loop. The header of the reply to a read
  goes with the first byte; \<^verbatim>\<open>memcpy\<close> stores the bytes in ascending order.
\<close>

definition handler_step :: "nat \<Rightarrow> bool \<Rightarrow> service \<Rightarrow> err + service" where
  "handler_step i ok s =
     (let c = clients s ! i in
      case pc c of
        At_loop \<Rightarrow> Inr (goto i (if running s then At_recv else Closed) s)
      | At_recv \<Rightarrow>
          (case todo c of
             [] \<Rightarrow> Inr (goto i Closed s)
           | r # rs \<Rightarrow> Inr (set_client i (c\<lparr>pc := Received r, todo := rs\<rparr>) s))
      | Received r \<Rightarrow> call_pool i r s
      | Reading p f acc \<Rightarrow>
          if \<not> ok then Inr (goto i (Read_sent p False) (log_effect i (Read p) Broken_off s))
          else frame_access (\<lambda>b s.
            let acc' = acc @ [page_data b f ! length acc] in
            if length acc' < PAGE_SIZE then goto i (Reading p f acc') s
            else deliver i True (Page_bytes acc') (Read_sent p True) (log_effect i (Read p) (Page_bytes acc') s)) s
      | Read_sent p was_sent \<Rightarrow>
          pool_call (UnpinPage p False) (\<lambda>_. goto i (if was_sent then At_loop else Closed)) (goto i (Replying Failed)) s
      | Writing p f bs n \<Rightarrow>
          frame_access (\<lambda>b s.
            let s' = s\<lparr>live_pool := Some (put_data f ((page_data b f)[n := bs ! n]) b)\<rparr> in
            if Suc n < PAGE_SIZE then goto i (Writing p f bs (Suc n)) s'
            else goto i (Written p) (log_effect i (Write p bs) Okay s')) s
      | Written p \<Rightarrow> pool_call (UnpinPage p True) (\<lambda>_. goto i (Replying Okay)) (goto i (Replying Failed)) s
      | Allocated p \<Rightarrow> pool_call (UnpinPage p True) (\<lambda>_. goto i (Replying (New_id p))) (goto i (Replying Failed)) s
      | Replying a \<Rightarrow> Inr (deliver i ok a (if ok \<or> a = Failed then At_loop else Closed) s)
      | Closed \<Rightarrow> Inr s)"

section \<open>Steps of Stop, and schedules\<close>

text \<open>
  \<open>Stop\<close> clears the flag, flushes the pool, destroys it (its destructor flushes again) and closes the
  file. It does not wait for the handlers.
\<close>

definition stop_step :: "service \<Rightarrow> err + service" where
  "stop_step s =
     (case stopping s of
        Not_stopped \<Rightarrow> Inr (if running s then s\<lparr>running := False, stopping := Flag_cleared\<rparr> else s\<lparr>stopping := Stopped\<rparr>)
      | Flag_cleared \<Rightarrow>
          (case live_pool s of
             None \<Rightarrow> Inr (s\<lparr>stopping := Pool_destroyed\<rparr>)
           | Some b \<Rightarrow> (case FlushAllPages b of
                (Inl e, b') \<Rightarrow> Inl e
              | (Inr u, b') \<Rightarrow> Inr (s\<lparr>live_pool := Some b', stopping := Flushed\<rparr>)))
      | Flushed \<Rightarrow>
          (case live_pool s of
             None \<Rightarrow> Inr (s\<lparr>stopping := Pool_destroyed\<rparr>)
           | Some b \<Rightarrow> (case BufferPoolManager_destroy b of
                (Inl e, b') \<Rightarrow> Inl e
              | (Inr u, b') \<Rightarrow> Inr (s\<lparr>live_pool := None, closed_disk := Some (disk b'), stopping := Pool_destroyed\<rparr>)))
      | Pool_destroyed \<Rightarrow> Inr (s\<lparr>closed_disk := map_option Close (closed_disk s), stopping := Stopped\<rparr>)
      | Stopped \<Rightarrow> Inr s)"

text \<open>
  \<open>Serve_gone i\<close> is a step of a handler whose peer has closed its socket: if the step sends, SIGPIPE
  kills the process.
\<close>

datatype event = Serve nat bool | Serve_gone nat | Stopping

fun sends :: "handler_pc \<Rightarrow> bool" where
  "sends (Reading p f acc) = True"
| "sends (Replying a) = True"
| "sends _ = False"

fun event_step :: "event \<Rightarrow> service \<Rightarrow> err + service" where
  "event_step (Serve i ok) s = (if i < length (clients s) then handler_step i ok s else Inr s)"
| "event_step (Serve_gone i) s =
     (if i < length (clients s) then if sends (pc (clients s ! i)) then Inl Killed else handler_step i True s else Inr s)"
| "event_step Stopping s = stop_step s"

fun run_service :: "event list \<Rightarrow> service \<Rightarrow> err + service" where
  "run_service [] s = Inr s"
| "run_service (e # es) s = (case event_step e s of Inl x \<Rightarrow> Inl x | Inr s1 \<Rightarrow> run_service es s1)"

text \<open>
  The page whose bytes a handler accesses between fetching and unpinning it, and the page it
  overwrites. Two handlers whose accesses are ordered by the latch do not hold the page together: the
  one that unpins it before the other fetches it comes first.
\<close>

fun uses_page :: "handler_pc \<Rightarrow> page_id option" where
  "uses_page (Reading p f acc) = Some p"
| "uses_page (Read_sent p ok) = Some p"
| "uses_page (Writing p f bs n) = Some p"
| "uses_page (Written p) = Some p"
| "uses_page _ = None"

fun writes_page :: "handler_pc \<Rightarrow> page_id option" where
  "writes_page (Writing p f bs n) = Some p"
| "writes_page (Written p) = Some p"
| "writes_page _ = None"

definition conflict :: "service \<Rightarrow> bool" where
  "conflict s \<longleftrightarrow> (\<exists>i < length (clients s). \<exists>j < length (clients s). i \<noteq> j \<and>
     writes_page (pc (clients s ! i)) \<noteq> None \<and> uses_page (pc (clients s ! j)) = writes_page (pc (clients s ! i)))"

text \<open>No state that a schedule goes through has a conflict.\<close>

fun race_free :: "event list \<Rightarrow> service \<Rightarrow> bool" where
  "race_free [] s \<longleftrightarrow> \<not> conflict s"
| "race_free (e # es) s \<longleftrightarrow> \<not> conflict s \<and> (case event_step e s of Inl x \<Rightarrow> True | Inr s1 \<Rightarrow> race_free es s1)"

lemma no_conflict:
  assumes "\<not> conflict s" "i < length (clients s)" "j < length (clients s)" "i \<noteq> j" "writes_page (pc (clients s ! i)) = Some p"
  shows "uses_page (pc (clients s ! j)) \<noteq> Some p"
  using assms by (force simp: conflict_def)

section \<open>The sequential page store\<close>

text \<open>
  An ideal page store executes one request at a time; \<open>None\<close>: the answer is not a legal one. A read
  whose reply breaks off has no effect.
\<close>

fun legal :: "request \<times> answer \<Rightarrow> (page_id \<rightharpoonup> byte list) \<Rightarrow> (page_id \<rightharpoonup> byte list) option" where
  "legal (Read p, Page_bytes d) S = (if S p = Some d then Some S else None)"
| "legal (Read p, Broken_off) S = Some S"
| "legal (Write p d, Okay) S = (if S p \<noteq> None then Some (S(p \<mapsto> d)) else None)"
| "legal (Allocate, New_id p) S =
     (if S p = None \<and> p \<noteq> 0 \<and> p \<noteq> INVALID_PAGE_ID then Some (S(p \<mapsto> zero_page)) else None)"
| "legal (Deallocate p, Okay) S = (if S p \<noteq> None then Some (S(p := None)) else None)"
| "legal (Unknown, Failed) S = Some S"
| "legal _ S = None"

fun replay :: "(request \<times> answer) list \<Rightarrow> (page_id \<rightharpoonup> byte list) \<Rightarrow> (page_id \<rightharpoonup> byte list) option" where
  "replay [] S = Some S"
| "replay (x # xs) S = Option.bind (legal x S) (replay xs)"

lemma replay_snoc: "replay (xs @ [x]) S = Option.bind (replay xs S) (legal x)"
  by (induction xs arbitrary: S) (auto split: Option.bind_splits)

text \<open>The part of a history that belongs to client \<open>i\<close>.\<close>

definition own :: "nat \<Rightarrow> (nat \<times> request \<times> answer) list \<Rightarrow> (request \<times> answer) list" where
  "own i h = map snd (filter (\<lambda>x. fst x = i) h)"

lemma own_snoc: "own i (h @ [(j, r, a)]) = own i h @ (if j = i then [(r, a)] else [])"
  by (simp add: own_def)

section \<open>What every reachable state satisfies\<close>

fun in_hand :: "handler_pc \<Rightarrow> request list" where
  "in_hand (Received r) = [r]"
| "in_hand (Reading p f acc) = [Read p]"
| "in_hand (Writing p f bs n) = [Write p bs]"
| "in_hand _ = []"

fun undelivered :: "handler_pc \<Rightarrow> answer list" where
  "undelivered (Written p) = [Okay]"
| "undelivered (Allocated p) = [New_id p]"
| "undelivered (Replying a) = [a]"
| "undelivered _ = []"

fun holds_page :: "handler_pc \<Rightarrow> page_id option" where
  "holds_page (Reading p f acc) = Some p"
| "holds_page (Read_sent p ok) = Some p"
| "holds_page (Writing p f bs n) = Some p"
| "holds_page (Written p) = Some p"
| "holds_page (Allocated p) = Some p"
| "holds_page _ = None"

fun frame_of :: "handler_pc \<Rightarrow> (page_id \<times> frame_id) option" where
  "frame_of (Reading p f acc) = Some (p, f)"
| "frame_of (Writing p f bs n) = Some (p, f)"
| "frame_of _ = None"

fun dirties :: "handler_pc \<Rightarrow> page_id option" where
  "dirties (Writing p f bs n) = (if 0 < n then Some p else None)"
| "dirties (Written p) = Some p"
| "dirties (Allocated p) = Some p"
| "dirties _ = None"

definition pending :: "client \<Rightarrow> request list" where
  "pending c = in_hand (pc c) @ todo c"

text \<open>
  The pages in \<open>R\<close> may be read and written by every client. A page outside \<open>R\<close> may be given back by
  one client, once, if it is allocated at the start.
\<close>

fun request_safe :: "page_id set \<Rightarrow> request \<Rightarrow> bool" where
  "request_safe R (Read p) \<longleftrightarrow> p \<in> R"
| "request_safe R (Write p bs) \<longleftrightarrow> p \<in> R \<and> length bs = PAGE_SIZE"
| "request_safe R (Deallocate p) \<longleftrightarrow> p \<notin> R"
| "request_safe R r \<longleftrightarrow> True"

definition tally :: "(client \<Rightarrow> int) \<Rightarrow> client list \<Rightarrow> int" where
  "tally g cs = (\<Sum>j<length cs. g (cs ! j))"

lemma tally_upd:
  assumes "i < length cs"
  shows "tally g (cs[i := c]) = tally g cs - g (cs ! i) + g c"
proof -
  have "tally g (cs[i := c]) = g c + (\<Sum>j\<in>{..<length cs} - {i}. g (cs[i := c] ! j))"
    unfolding tally_def using assms by (simp add: sum.remove [of "{..<length cs}" i])
  also have "(\<Sum>j\<in>{..<length cs} - {i}. g (cs[i := c] ! j)) = (\<Sum>j\<in>{..<length cs} - {i}. g (cs ! j))"
    by (rule sum.cong) auto
  finally show ?thesis unfolding tally_def using assms by (simp add: sum.remove [of "{..<length cs}" i])
qed

lemma tally_ge:
  assumes "i < length cs" "\<And>c. 0 \<le> g c"
  shows "g (cs ! i) \<le> tally g cs"
  unfolding tally_def using assms by (intro member_le_sum) auto

lemma tally_ge2:
  assumes "i < length cs" "j < length cs" "i \<noteq> j" "\<And>c. 0 \<le> g c"
  shows "g (cs ! i) + g (cs ! j) \<le> tally g cs"
proof -
  have "(\<Sum>k\<in>{i, j}. g (cs ! k)) \<le> tally g cs"
    unfolding tally_def using assms by (intro sum_mono2) auto
  then show ?thesis using assms(3) by simp
qed

lemma tally_pos:
  assumes "0 < tally g cs"
  obtains j where "j < length cs" "0 < g (cs ! j)"
  using assms sum_nonpos [of "{..<length cs}" "\<lambda>j. g (cs ! j)"] unfolding tally_def by (meson lessThan_iff not_less)

definition pin_of :: "page_id \<Rightarrow> client \<Rightarrow> int" where
  "pin_of q c = of_bool (holds_page (pc c) = Some q)"

definition frees_of :: "page_id \<Rightarrow> client \<Rightarrow> int" where
  "frees_of q c = int (count_list (pending c) (Deallocate q))"

lemma frees_of_pos: "0 < frees_of q c \<longleftrightarrow> Deallocate q \<in> set (pending c)"
  by (simp add: frees_of_def) (metis bot_nat_0.not_eq_extremum count_list_0_iff)

definition allocs_of :: "client \<Rightarrow> int" where
  "allocs_of c = int (count_list (pending c) Allocate)"

lemma of_nonneg [simp]: "0 \<le> pin_of q c" "0 \<le> frees_of q c" "0 \<le> allocs_of c"
  by (simp_all add: pin_of_def frees_of_def allocs_of_def)

definition pool_view :: "buffer_pool \<Rightarrow> (page_id \<Rightarrow> int) \<Rightarrow> client list \<Rightarrow> bool" where
  "pool_view b P cs \<longleftrightarrow>
     length cs \<le> frames b \<and> (\<forall>q. P q = tally (pin_of q) cs) \<and>
     (\<forall>j < length cs. \<forall>p f. frame_of (pc (cs ! j)) = Some (p, f) \<longrightarrow> held b p f) \<and>
     (\<forall>q. synced b q \<or> (\<exists>j < length cs. dirties (pc (cs ! j)) = Some q))"

definition scripts_ok :: "page_id set \<Rightarrow> (page_id \<rightharpoonup> byte list) \<Rightarrow> (page_id \<Rightarrow> int) \<Rightarrow> client list \<Rightarrow> bool" where
  "scripts_ok R S P cs \<longleftrightarrow>
     R \<subseteq> dom S \<and> (\<forall>j < length cs. \<forall>r \<in> set (pending (cs ! j)). request_safe R r) \<and>
     (\<forall>q. tally (frees_of q) cs \<le> 1) \<and> (\<forall>q. 0 < tally (frees_of q) cs \<longrightarrow> q \<in> dom S \<and> P q = 0) \<and>
     spare_ids (nat (tally allocs_of cs)) S"

text \<open>The answers received: all of them if no \<^verbatim>\<open>Send\<close> has failed so far (\<open>sure\<close>).\<close>

definition told :: "bool \<Rightarrow> answer list \<Rightarrow> answer list \<Rightarrow> bool" where
  "told sure xs ys \<longleftrightarrow> (if sure then xs = ys else subseq xs ys)"

text \<open>As long as no \<^verbatim>\<open>Send\<close> fails a handler ends only when its client has nothing more to ask.\<close>

definition undisturbed :: "client \<Rightarrow> bool" where
  "undisturbed c \<longleftrightarrow> (pc c = Closed \<longrightarrow> todo c = []) \<and> (\<forall>p. pc c \<noteq> Read_sent p False)"

definition answers_ok :: "bool \<Rightarrow> request list list \<Rightarrow> (nat \<times> request \<times> answer) list \<Rightarrow> client list \<Rightarrow> bool" where
  "answers_ok sure scripts h cs \<longleftrightarrow>
     length cs = length scripts \<and>
     (\<forall>j < length cs. map fst (own j h) @ pending (cs ! j) = scripts ! j \<and>
        told sure (answers (cs ! j) @ undelivered (pc (cs ! j))) (map snd (own j h)) \<and>
        (sure \<longrightarrow> undisturbed (cs ! j)))"

text \<open>
  The bytes in the pool (\<open>T\<close>) and those of the ideal store (\<open>S\<close>) are the same, but for the pages that
  are being overwritten: these hold the new bytes up to the position reached and the old ones behind
  it. What a reader has sent is the beginning of the page in the ideal store.
\<close>

fun stored :: "handler_pc \<Rightarrow> page_id option" where
  "stored (Writing p f bs n) = (if 0 < n then Some p else None)"
| "stored _ = None"

fun copy_ok :: "(page_id \<rightharpoonup> byte list) \<Rightarrow> (page_id \<rightharpoonup> byte list) \<Rightarrow> handler_pc \<Rightarrow> bool" where
  "copy_ok S T (Reading p f acc) \<longleftrightarrow> length acc < PAGE_SIZE \<and> (\<exists>d. S p = Some d \<and> acc = take (length acc) d)"
| "copy_ok S T (Writing p f bs n) \<longleftrightarrow>
     n < PAGE_SIZE \<and> (\<exists>d. S p = Some d \<and> (0 < n \<longrightarrow> T p = Some (take n bs @ drop n d)))"
| "copy_ok S T _ \<longleftrightarrow> True"

definition copies :: "(page_id \<rightharpoonup> byte list) \<Rightarrow> (page_id \<rightharpoonup> byte list) \<Rightarrow> client list \<Rightarrow> bool" where
  "copies S T cs \<longleftrightarrow> dom T = dom S \<and>
     (\<forall>q. (\<forall>j < length cs. stored (pc (cs ! j)) \<noteq> Some q) \<longrightarrow> T q = S q) \<and>
     (\<forall>j < length cs. copy_ok S T (pc (cs ! j)))"

definition service_ok ::
  "page_id set \<Rightarrow> (page_id \<rightharpoonup> byte list) \<Rightarrow> request list list \<Rightarrow> bool \<Rightarrow> service \<Rightarrow> bool" where
  "service_ok R S0 scripts sure s \<longleftrightarrow>
     running s \<and>
     (\<exists>b S T P. live_pool s = Some b \<and> pool_st b T P \<and> replay (map snd (history s)) S0 = Some S \<and> copies S T (clients s) \<and>
        pool_view b P (clients s) \<and> scripts_ok R T P (clients s) \<and> answers_ok sure scripts (history s) (clients s))"

subsection \<open>Changing one client\<close>

lemma pool_view_upd:
  assumes v: "pool_view b P cs" and i: "i < length cs" and fr: "frames b' = frames b"
    and P': "\<And>q. P' q = P q - pin_of q (cs ! i) + pin_of q c"
    and keep: "\<And>q f. held b q f \<Longrightarrow> 0 < P q - pin_of q (cs ! i) \<Longrightarrow> held b' q f"
    and new: "\<And>p f. frame_of (pc c) = Some (p, f) \<Longrightarrow> held b' p f"
    and syn: "\<And>q. synced b q \<or> dirties (pc (cs ! i)) = Some q \<Longrightarrow> synced b' q \<or> dirties (pc c) = Some q"
  shows "pool_view b' P' (cs[i := c])"
proof -
  have old: "P q = tally (pin_of q) cs" for q using v by (simp add: pool_view_def)
  have others: "0 < P q - pin_of q (cs ! i)" if "j < length cs" "j \<noteq> i" "frame_of (pc (cs ! j)) = Some (q, f)" for j q f
  proof -
    have "pin_of q (cs ! j) = 1" using that(3) by (cases "pc (cs ! j)") (auto simp: pin_of_def)
    then show ?thesis using tally_ge2 [of i cs j "pin_of q"] i that(1,2) old by simp
  qed
  have "held b' q f" if "j < length cs" "frame_of (pc (cs[i := c] ! j)) = Some (q, f)" for j q f
    using that v i new [of q f] keep [of q f] others [of j q f] by (cases "j = i") (auto simp: pool_view_def)
  moreover have "synced b' q \<or> (\<exists>j < length cs. dirties (pc (cs[i := c] ! j)) = Some q)" for q
  proof (cases "synced b q \<or> dirties (pc (cs ! i)) = Some q")
    case True
    then show ?thesis using syn [of q] i by (metis nth_list_update_eq)
  next
    case False
    then obtain j where "j < length cs" "dirties (pc (cs ! j)) = Some q" "j \<noteq> i" using v unfolding pool_view_def by metis
    then show ?thesis by (metis nth_list_update_neq)
  qed
  ultimately show ?thesis using v fr P' tally_upd [OF i] by (simp add: pool_view_def)
qed

lemma copies_upd:
  assumes v: "copies S T cs" and i: "i < length cs" and d: "dom T' = dom S'" and own: "copy_ok S' T' (pc c)"
    and others: "\<And>j. j < length cs \<Longrightarrow> j \<noteq> i \<Longrightarrow> copy_ok S T (pc (cs ! j)) \<Longrightarrow> copy_ok S' T' (pc (cs ! j))"
    and eq: "\<And>q. stored (pc c) \<noteq> Some q \<Longrightarrow> \<forall>j < length cs. j \<noteq> i \<longrightarrow> stored (pc (cs ! j)) \<noteq> Some q \<Longrightarrow> T' q = S' q"
  shows "copies S' T' (cs[i := c])"
proof -
  have "T' q = S' q" if "\<forall>j < length cs. stored (pc (cs[i := c] ! j)) \<noteq> Some q" for q
    using that i eq [of q] by (auto simp: nth_list_update split: if_splits)
  then show ?thesis using v i d own others by (auto simp: copies_def nth_list_update)
qed

lemma copies_same:
  assumes v: "copies S T cs" and i: "i < length cs" and own: "copy_ok S T (pc c)" and st: "stored (pc (cs ! i)) = None"
  shows "copies S T (cs[i := c])"
proof (rule copies_upd [OF v i _ own])
  fix q assume "\<forall>j < length cs. j \<noteq> i \<longrightarrow> stored (pc (cs ! j)) \<noteq> Some q"
  then have "\<forall>j < length cs. stored (pc (cs ! j)) \<noteq> Some q" using st by (metis option.distinct(1))
  then show "T q = S q" using v by (simp add: copies_def)
qed (use v in \<open>auto simp: copies_def\<close>)

lemma copy_ok_free: "frame_of x = None \<Longrightarrow> copy_ok S T x"
  by (cases x) auto

lemma stored_free: "frame_of x = None \<Longrightarrow> stored x = None"
  by (cases x) auto

lemma copy_ok_other: "copy_ok S T x \<Longrightarrow> \<forall>f. frame_of x \<noteq> Some (p, f) \<Longrightarrow> copy_ok (S(p := a)) (T(p := b)) x"
  by (cases x) auto

lemma copy_ok_dom: "copy_ok S T x \<Longrightarrow> frame_of x = Some (p, f) \<Longrightarrow> p \<in> dom S"
  by (cases x) auto

lemma answers_ok_upd:
  assumes a: "answers_ok sure scripts h cs" and i: "i < length cs"
    and p: "pending (cs ! i) = map fst e @ pending c" and s: "sure' \<longrightarrow> sure"
    and u: "sure' \<Longrightarrow> undisturbed (cs ! i) \<Longrightarrow> undisturbed c"
    and t: "\<And>ys. told sure (answers (cs ! i) @ undelivered (pc (cs ! i))) ys \<Longrightarrow>
       told sure' (answers c @ undelivered (pc c)) (ys @ map snd e)"
  shows "answers_ok sure' scripts (h @ map (Pair i) e) (cs[i := c])"
proof -
  have own: "own j (h @ map (Pair i) e) = own j h @ (if j = i then e else [])" for j
    by (induction e) (auto simp: own_def comp_def)
  have weak: "told sure' xs ys" if "told sure xs ys" for xs ys
    using that s by (auto simp: told_def split: if_splits)
  show ?thesis
    using a i p s u t [of "map snd (own i h)"] weak unfolding answers_ok_def own by (auto simp: nth_list_update)
qed

lemma scripts_ok_upd:
  assumes o: "scripts_ok R S P cs" and i: "i < length cs" and p: "set (pending c) \<subseteq> set (pending (cs ! i))"
    and R: "R \<subseteq> dom S'" and f: "\<And>q. frees_of q c \<le> frees_of q (cs ! i)"
    and d: "\<And>q. 0 < tally (frees_of q) (cs[i := c]) \<Longrightarrow> q \<in> dom S \<Longrightarrow> P q = 0 \<Longrightarrow> q \<in> dom S' \<and> P' q = 0"
    and sp: "spare_ids (nat (tally allocs_of (cs[i := c]))) S'"
  shows "scripts_ok R S' P' (cs[i := c])"
proof -
  have le: "tally (frees_of q) (cs[i := c]) \<le> tally (frees_of q) cs" for q using tally_upd [OF i] f [of q] by simp
  have "tally (frees_of q) (cs[i := c]) \<le> 1" for q
  proof -
    have "tally (frees_of q) cs \<le> 1" using o by (simp add: scripts_ok_def)
    then show ?thesis using le [of q] by simp
  qed
  moreover have "q \<in> dom S' \<and> P' q = 0" if "0 < tally (frees_of q) (cs[i := c])" for q
  proof -
    have "0 < tally (frees_of q) cs" using that le [of q] by simp
    then show ?thesis using o d [OF that] by (simp add: scripts_ok_def)
  qed
  ultimately show ?thesis using o i p R sp unfolding scripts_ok_def by (auto simp: nth_list_update)
qed

lemma scripts_ok_same:
  assumes o: "scripts_ok R S P cs" and i: "i < length cs" and p: "pending c = pending (cs ! i)" and S: "dom S' = dom S"
    and d: "\<And>q. 0 < tally (frees_of q) cs \<Longrightarrow> P q = 0 \<Longrightarrow> P' q = 0"
  shows "scripts_ok R S' P' (cs[i := c])"
proof -
  have eq: "tally (frees_of q) (cs[i := c]) = tally (frees_of q) cs" "tally allocs_of (cs[i := c]) = tally allocs_of cs" for q
    using tally_upd [OF i] p by (simp_all add: frees_of_def allocs_of_def)
  have sp: "spare_ids (nat (tally allocs_of cs)) S" and R: "R \<subseteq> dom S" using o by (simp_all add: scripts_ok_def)
  show ?thesis
    by (rule scripts_ok_upd [OF o i])
      (use p S R d spare_ids_dom [OF _ sp, of S'] eq in \<open>simp_all add: frees_of_def\<close>)
qed

subsection \<open>The steps of a handler keep it\<close>

text \<open>The turns a client still needs at most.\<close>

fun turns_of :: "handler_pc \<Rightarrow> nat" where
  "turns_of At_loop = 2"
| "turns_of At_recv = 1"
| "turns_of (Received r) = PAGE_SIZE + 5"
| "turns_of (Reading p f acc) = 3 + (PAGE_SIZE - length acc)"
| "turns_of (Read_sent p ok) = 3"
| "turns_of (Writing p f bs n) = 4 + (PAGE_SIZE - n)"
| "turns_of (Written p) = 4"
| "turns_of (Allocated p) = 4"
| "turns_of (Replying a) = 3"
| "turns_of Closed = 0"

definition turns :: "client \<Rightarrow> nat" where
  "turns c = turns_of (pc c) + (if pc c = Closed then 0 else (PAGE_SIZE + 5) * length (todo c))"

text \<open>What one step of client \<open>i\<close> achieves.\<close>

definition step_ok ::
  "page_id set \<Rightarrow> (page_id \<rightharpoonup> byte list) \<Rightarrow> request list list \<Rightarrow> bool \<Rightarrow> nat \<Rightarrow> bool \<Rightarrow> service \<Rightarrow> bool" where
  "step_ok R S0 scripts sure i ok s \<longleftrightarrow>
     (\<exists>s' c. handler_step i ok s = Inr s' \<and> service_ok R S0 scripts (sure \<and> ok) s' \<and>
        clients s' = (clients s)[i := c] \<and> (turns c < turns (clients s ! i) \<or> pc (clients s ! i) = Closed \<and> c = clients s ! i))"

lemma step_okI:
  assumes "handler_step i ok s = Inr s'" "running s'" "live_pool s' = Some b" "pool_st b T P"
    "history s' = h @ map (Pair i) e" "replay (map snd h) S0 = Some U" "replay e U = Some S" "copies S T (clients s')"
    "clients s' = (clients s)[i := c]"
    "pool_view b P (clients s')" "scripts_ok R T P (clients s')" "answers_ok (sure \<and> ok) scripts (h @ map (Pair i) e) (clients s')"
    "turns c < turns (clients s ! i) \<or> pc (clients s ! i) = Closed \<and> c = clients s ! i"
  shows "step_ok R S0 scripts sure i ok s"
proof -
  have "replay (xs @ ys) V = Option.bind (replay xs V) (replay ys)" for xs ys V
    by (induction xs arbitrary: V) (auto split: Option.bind_splits)
  moreover have "map snd (map (Pair i) e) = e" by (simp add: comp_def)
  ultimately have "replay (map snd (history s')) S0 = Some S" using assms(5-7) by simp
  then have "service_ok R S0 scripts (sure \<and> ok) s'" using assms unfolding service_ok_def by auto
  then show ?thesis using assms unfolding step_ok_def by blast
qed

lemma service_okE:
  assumes "service_ok R S0 scripts sure s"
  obtains b S T P where "running s" "live_pool s = Some b" "pool_st b T P" "replay (map snd (history s)) S0 = Some S"
    "pool_view b P (clients s)" "scripts_ok R T P (clients s)" "answers_ok sure scripts (history s) (clients s)"
    "copies S T (clients s)"
  using assms by (auto simp: service_ok_def)

lemma told_mono: "told sure xs ys \<Longrightarrow> told (sure \<and> ok) xs ys"
  by (auto simp: told_def split: if_splits)

lemma told_snoc: "told sure xs ys \<Longrightarrow> told (sure \<and> ok) (xs @ zs) (ys @ zs)"
  by (auto simp: told_def list_emb_append_mono split: if_splits)

lemma told_lost: "told sure (xs @ zs) ys \<Longrightarrow> told False xs ys"
  using subseq_order.order_trans [OF prefix_imp_subseq [of xs "xs @ zs"]]
  by (auto simp: told_def split: if_splits)

text \<open>Steps that leave the pool alone.\<close>

lemma quiet_step:
  assumes ok: "service_ok R S0 scripts sure s" and i: "i < length (clients s)"
    and st: "handler_step i ok s = Inr s'" and s': "s' = s\<lparr>clients := (clients s)[i := c], history := history s @ map (Pair i) e\<rparr>"
    and e: "\<And>S. replay e S = Some S"
    and p: "pending (clients s ! i) = map fst e @ pending c" "\<forall>x \<in> set e. fst x = Unknown \<or> (\<exists>p. fst x = Read p)"
    and same: "holds_page (pc c) = holds_page (pc (clients s ! i))" "frame_of (pc c) = None"
      "dirties (pc c) = dirties (pc (clients s ! i))" "stored (pc (clients s ! i)) = None"
    and t: "\<And>ys. told sure (answers (clients s ! i) @ undelivered (pc (clients s ! i))) ys \<Longrightarrow>
       told (sure \<and> ok) (answers c @ undelivered (pc c)) (ys @ map snd e)"
    and u: "sure \<and> ok \<Longrightarrow> undisturbed (clients s ! i) \<Longrightarrow> undisturbed c"
    and w: "turns c < turns (clients s ! i) \<or> pc (clients s ! i) = Closed \<and> c = clients s ! i"
  shows "step_ok R S0 scripts sure i ok s"
proof -
  obtain b S T P where b: "running s" "live_pool s = Some b" "pool_st b T P" "replay (map snd (history s)) S0 = Some S"
    "pool_view b P (clients s)" "scripts_ok R T P (clients s)" "answers_ok sure scripts (history s) (clients s)"
    "copies S T (clients s)"
    using ok by (rule service_okE)
  have "pool_view b P ((clients s)[i := c])"
    by (rule pool_view_upd [OF b(5) i]) (use same in \<open>auto simp: pin_of_def\<close>)
  moreover have "count_list (pending c) (Deallocate q) = count_list (pending (clients s ! i)) (Deallocate q)"
    "count_list (pending c) Allocate = count_list (pending (clients s ! i)) Allocate" for q
    using p by (auto simp: count_list_0_iff)
  then have "tally (frees_of q) ((clients s)[i := c]) = tally (frees_of q) (clients s)"
    "tally allocs_of ((clients s)[i := c]) = tally allocs_of (clients s)" for q
    using tally_upd [OF i] by (simp_all add: frees_of_def allocs_of_def)
  then have "scripts_ok R T P ((clients s)[i := c])"
    using b(6) p(1) i unfolding scripts_ok_def by (auto simp: nth_list_update)
  moreover have "answers_ok (sure \<and> ok) scripts (history s @ map (Pair i) e) ((clients s)[i := c])"
    by (rule answers_ok_upd [OF b(7) i p(1)]) (use t u in auto)
  moreover have "copies S T ((clients s)[i := c])"
    by (rule copies_same [OF b(8) i copy_ok_free [OF same(2)] same(4)])
  ultimately show ?thesis
    using step_okI [OF st _ _ b(3) _ b(4) e, of c R sure scripts] b(1,2) w s' by simp
qed

lemma pins_room:
  assumes v: "pool_view b P cs" and i: "i < length cs" and h: "holds_page (pc (cs ! i)) = None"
  shows "npin P < frames b"
proof -
  have "{q. 0 < P q} \<subseteq> (\<lambda>j. the (holds_page (pc (cs ! j)))) ` ({..<length cs} - {i})"
  proof
    fix q assume "q \<in> {q. 0 < P q}"
    then have "0 < tally (pin_of q) cs" using v by (simp add: pool_view_def)
    then obtain j where j: "j < length cs" "0 < pin_of q (cs ! j)" by (rule tally_pos)
    then have "holds_page (pc (cs ! j)) = Some q" "j \<noteq> i" using h by (auto simp: pin_of_def of_bool_def split: if_splits)
    then show "q \<in> (\<lambda>j. the (holds_page (pc (cs ! j)))) ` ({..<length cs} - {i})" using j(1) by force
  qed
  then have "npin P \<le> card ({..<length cs} - {i})" unfolding npin_def by (meson card_image_le card_mono finite_Diff finite_imageI finite_lessThan le_trans)
  also have "\<dots> < length cs" using i by simp
  finally show ?thesis using v by (simp add: pool_view_def)
qed

lemma shared_not_freed:
  assumes o: "scripts_ok R S P cs" and p: "p \<in> R"
  shows "tally (frees_of p) cs = 0"
proof (rule ccontr)
  assume "tally (frees_of p) cs \<noteq> 0"
  moreover have "0 \<le> tally (frees_of p) cs" unfolding tally_def by (intro sum_nonneg) simp
  ultimately obtain j where j: "j < length cs" "0 < frees_of p (cs ! j)" by (metis less_le tally_pos)
  then have "request_safe R (Deallocate p)" using o frees_of_pos unfolding scripts_ok_def by blast
  then show False using p by simp
qed

text \<open>A page is fetched.\<close>

lemma fetch_step:
  assumes ok: "service_ok R S0 scripts sure s" and i: "i < length (clients s)"
    and pc: "pc (clients s ! i) = Received r" and p: "p \<in> R"
    and st: "\<And>b b' f. live_pool s = Some b \<Longrightarrow> FetchPage p b = (Inr (Some f), b') \<Longrightarrow>
        handler_step i ok s = Inr (goto i (nx f) (s\<lparr>live_pool := Some b'\<rparr>))"
    and nx: "\<And>f. in_hand (nx f) = [r] \<and> holds_page (nx f) = Some p \<and> frame_of (nx f) = Some (p, f) \<and>
        turns_of (nx f) \<le> PAGE_SIZE + 4 \<and> undelivered (nx f) = [] \<and> dirties (nx f) = None \<and>
        (\<forall>S T d. S p = Some d \<longrightarrow> copy_ok S T (nx f))"
  shows "step_ok R S0 scripts sure i ok s"
proof -
  obtain b S T P where b: "running s" "live_pool s = Some b" "pool_st b T P" "replay (map snd (history s)) S0 = Some S"
    "pool_view b P (clients s)" "scripts_ok R T P (clients s)" "answers_ok sure scripts (history s) (clients s)"
    "copies S T (clients s)"
    using ok by (rule service_okE)
  have dom: "p \<in> dom T" using b(6) p by (auto simp: scripts_ok_def)
  have "npin P < frames b" by (rule pins_room [OF b(5) i]) (simp add: pc)
  from pp.fetch_ok [OF b(3) dom this] obtain f b' where b': "FetchPage p b = (Inr (Some f), b')"
    "pool_st b' T (P(p := P p + 1))" "held b' p f" "frames b' = frames b"
    "\<forall>q. synced b q \<longrightarrow> synced b' q" "\<forall>q g. held b q g \<longrightarrow> held b' q g" by blast
  let ?c = "(clients s ! i)\<lparr>pc := nx f\<rparr>"
  have n: "nx f \<noteq> Closed" "\<forall>p. nx f \<noteq> Read_sent p False" using nx [of f] by auto
  have "pool_view b' (P(p := P p + 1)) ((clients s)[i := ?c])"
    by (rule pool_view_upd [OF b(5) i b'(4)]) (use nx [of f] pc b'(3,5,6) in \<open>auto simp: pin_of_def\<close>)
  moreover have pend: "pending ?c = pending (clients s ! i)" using nx [of f] pc by (simp add: pending_def)
  have "tally (frees_of p) (clients s) = 0" by (rule shared_not_freed [OF b(6) p])
  then have "scripts_ok R T (P(p := P p + 1)) ((clients s)[i := ?c])"
    using pend by (intro scripts_ok_same [OF b(6) i]) auto
  moreover have "answers_ok (sure \<and> ok) scripts (history s @ map (Pair i) []) ((clients s)[i := ?c])"
    by (rule answers_ok_upd [OF b(7) i]) (use pend pc nx [of f] n told_mono in \<open>auto simp: undisturbed_def\<close>)
  moreover have "copies S T ((clients s)[i := ?c])"
  proof (rule copies_same [OF b(8) i])
    obtain d where "S p = Some d" using dom b(8) by (auto simp: copies_def)
    then show "copy_ok S T (pc ?c)" using nx [of f] by simp
  qed (simp add: pc)
  ultimately show ?thesis
    using b(1) b'(2) b(4) nx [of f] n pc
    by (intro step_okI [OF st [OF b(2) b'(1)], where e = "[]" and h = "history s" and c = ?c])
      (auto simp: goto_def set_client_def turns_def)
qed

text \<open>A page is unpinned.\<close>

lemma unpin_step:
  assumes ok: "service_ok R S0 scripts sure s" and i: "i < length (clients s)"
    and h: "holds_page (pc (clients s ! i)) = Some p" and d: "dirties (pc (clients s ! i)) \<noteq> None \<longrightarrow> dirty"
    and sd: "stored (pc (clients s ! i)) = None"
    and st: "\<And>b b'. live_pool s = Some b \<Longrightarrow> UnpinPage p dirty b = (Inr True, b') \<Longrightarrow>
        handler_step i ok s = Inr (goto i nx (s\<lparr>live_pool := Some b'\<rparr>))"
    and nx: "holds_page nx = None" "in_hand nx = in_hand (pc (clients s ! i))" "turns_of nx < turns_of (pc (clients s ! i))"
      "undelivered nx = undelivered (pc (clients s ! i))" "dirties nx = None" "frame_of nx = None" "\<forall>p. nx \<noteq> Read_sent p False"
      "nx = Closed \<longrightarrow> pc (clients s ! i) = Read_sent p False"
  shows "step_ok R S0 scripts sure i ok s"
proof -
  obtain b S T P where b: "running s" "live_pool s = Some b" "pool_st b T P" "replay (map snd (history s)) S0 = Some S"
    "pool_view b P (clients s)" "scripts_ok R T P (clients s)" "answers_ok sure scripts (history s) (clients s)"
    "copies S T (clients s)"
    using ok by (rule service_okE)
  have P: "P p = tally (pin_of p) (clients s)" using b(5) by (simp add: pool_view_def)
  have mine: "pin_of p (clients s ! i) = 1" using h by (simp add: pin_of_def)
  have pos: "0 < P p" using tally_ge [OF i, of "pin_of p"] mine P by simp
  have "dirty \<or> synced b p \<or> 1 < P p"
  proof (rule ccontr)
    assume n: "\<not> (dirty \<or> synced b p \<or> 1 < P p)"
    then obtain j where j: "j < length (clients s)" "dirties (pc (clients s ! j)) = Some p"
      using b(5) unfolding pool_view_def by metis
    have "i \<noteq> j" using j(2) d n by auto
    moreover have "pin_of p (clients s ! j) = 1" using j(2) by (cases "pc (clients s ! j)") (auto simp: pin_of_def split: if_splits)
    ultimately have "2 \<le> P p" using tally_ge2 [OF i j(1), of "pin_of p"] mine P by simp
    then show False using n by simp
  qed
  from sp.unpin_shared [OF b(3) pos this] obtain b' where b': "UnpinPage p dirty b = (Inr True, b')"
    "pool_st b' T (P(p := P p - 1))" "frames b' = frames b" "\<forall>q. synced b q \<longrightarrow> synced b' q" "dirty \<longrightarrow> synced b' p"
    "\<forall>q g. held b q g \<and> (q \<noteq> p \<or> 1 < P p) \<longrightarrow> held b' q g" by blast
  let ?c = "(clients s ! i)\<lparr>pc := nx\<rparr>"
  have dp: "dirties (pc (clients s ! i)) = Some q \<Longrightarrow> q = p \<and> dirty" for q
    using h d by (cases "pc (clients s ! i)") (auto split: if_splits)
  have keep: "held b' q f" if "held b q f" "0 < P q - pin_of q (clients s ! i)" for q f
    using that mine b'(6) by (cases "q = p") auto
  have "pool_view b' (P(p := P p - 1)) ((clients s)[i := ?c])"
    by (rule pool_view_upd [OF b(5) i b'(3) _ keep]) (use nx h b'(4,5) dp in \<open>auto simp: pin_of_def\<close>)
  moreover have pend: "pending ?c = pending (clients s ! i)" using nx(2) by (simp add: pending_def)
  have "scripts_ok R T (P(p := P p - 1)) ((clients s)[i := ?c])"
    by (rule scripts_ok_same [OF b(6) i pend]) (use pos in auto)
  moreover have "answers_ok (sure \<and> ok) scripts (history s @ map (Pair i) []) ((clients s)[i := ?c])"
    by (rule answers_ok_upd [OF b(7) i]) (use pend nx told_mono in \<open>auto simp: undisturbed_def\<close>)
  moreover have "copies S T ((clients s)[i := ?c])"
    by (rule copies_same [OF b(8) i _ sd]) (use nx(6) copy_ok_free in simp)
  moreover have "pc (clients s ! i) \<noteq> Closed" using h by auto
  ultimately show ?thesis
    using b(1) b'(2) b(4) nx
    by (intro step_okI [OF st [OF b(2) b'(1)], where e = "[]" and h = "history s" and c = ?c])
      (auto simp: goto_def set_client_def turns_def)
qed

text \<open>Without a conflict nobody else stores into a page that a handler accesses.\<close>

lemma stored_writes: "stored x = Some p \<Longrightarrow> writes_page x = Some p"
  by (cases x) (auto split: if_splits)

lemma frame_uses: "frame_of x = Some (p, f) \<Longrightarrow> uses_page x = Some p"
  by (cases x) auto

lemma nobody_else_stores:
  assumes "\<not> conflict s" "i < length (clients s)" "uses_page (pc (clients s ! i)) = Some p" "j < length (clients s)" "j \<noteq> i"
  shows "stored (pc (clients s ! j)) \<noteq> Some p"
  using no_conflict [OF assms(1,4,2,5)] stored_writes assms(3) by blast

text \<open>One byte of a pinned page is sent.\<close>

lemma copy_step:
  assumes ok: "service_ok R S0 scripts sure s" and i: "i < length (clients s)" and nc: "\<not> conflict s"
    and pc: "pc (clients s ! i) = Reading p f acc"
  shows "step_ok R S0 scripts sure i True s"
proof -
  obtain b S T P where b: "running s" "live_pool s = Some b" "pool_st b T P" "replay (map snd (history s)) S0 = Some S"
    "pool_view b P (clients s)" "scripts_ok R T P (clients s)" "answers_ok sure scripts (history s) (clients s)"
    "copies S T (clients s)"
    using ok by (rule service_okE)
  let ?old = "clients s ! i" and ?d = "page_data b f" and ?acc = "acc @ [page_data b f ! length acc]"
  have held: "held b p f" using b(5) i pc by (simp add: pool_view_def)
  have T: "T p = Some ?d" using pp.get_ok [OF b(3) held] .
  have "stored (pc (clients s ! j)) \<noteq> Some p" if "j < length (clients s)" for j
    using nobody_else_stores [OF nc i _ that] pc by (cases "j = i") auto
  then have S: "S p = Some ?d" using b(8) T by (simp add: copies_def)
  have "copy_ok S T (pc ?old)" using b(8) i by (simp add: copies_def)
  then have acc: "length acc < PAGE_SIZE" "acc = take (length acc) ?d" using pc S by auto
  have len: "length ?d = PAGE_SIZE" using pp.st_length [OF b(3) T] .
  have acc': "?acc = take (Suc (length acc)) ?d" using acc len by (simp add: take_Suc_conv_app_nth)
  show ?thesis
  proof (cases "Suc (length acc) < PAGE_SIZE")
    case True
    let ?c = "?old\<lparr>pc := Reading p f ?acc\<rparr>"
    have v: "pool_view b P ((clients s)[i := ?c])"
      by (rule pool_view_upd [OF b(5) i]) (use pc held in \<open>auto simp: pin_of_def\<close>)
    have pend: "pending ?c = pending ?old" by (simp add: pending_def pc)
    have o: "scripts_ok R T P ((clients s)[i := ?c])" by (rule scripts_ok_same [OF b(6) i pend]) auto
    have a: "answers_ok (sure \<and> True) scripts (history s @ map (Pair i) []) ((clients s)[i := ?c])"
      by (rule answers_ok_upd [OF b(7) i]) (use pend pc told_mono in \<open>auto simp: undisturbed_def\<close>)
    have "copy_ok S T (pc ?c)" using True S acc' acc(1) len by auto
    then have cp: "copies S T ((clients s)[i := ?c])" by (rule copies_same [OF b(8) i]) (simp add: pc)
    have st: "handler_step i True s = Inr (goto i (Reading p f ?acc) s)"
      using True by (simp add: handler_step_def pc frame_access_def b(2))
    show ?thesis
      by (rule step_okI [OF st, where e = "[]" and h = "history s" and c = ?c and U = S and S = S and T = T and P = P])
        (use b v o a cp pc acc(1) in \<open>auto simp: goto_def set_client_def turns_def\<close>)
  next
    case False
    then have full: "?acc = ?d" "length ?d = Suc (length acc)" using acc' acc(1) len by simp_all
    let ?c = "?old\<lparr>pc := Read_sent p True, answers := answers ?old @ [Page_bytes ?d]\<rparr>"
    have v: "pool_view b P ((clients s)[i := ?c])"
      by (rule pool_view_upd [OF b(5) i]) (use pc in \<open>auto simp: pin_of_def\<close>)
    have pend: "pending ?old = map fst [(Read p, Page_bytes ?d)] @ pending ?c" by (simp add: pending_def pc)
    have "frees_of q ?c = frees_of q ?old" "allocs_of ?c = allocs_of ?old" for q
      using pend by (simp_all add: frees_of_def allocs_of_def)
    then have eq: "tally (frees_of q) ((clients s)[i := ?c]) = tally (frees_of q) (clients s)"
      "tally allocs_of ((clients s)[i := ?c]) = tally allocs_of (clients s)" for q using tally_upd [OF i] by simp_all
    have o: "scripts_ok R T P ((clients s)[i := ?c])"
      by (rule scripts_ok_upd [OF b(6) i]) (use b(6) eq pend in \<open>auto simp: scripts_ok_def frees_of_def\<close>)
    have a: "answers_ok (sure \<and> True) scripts (history s @ map (Pair i) [(Read p, Page_bytes ?d)]) ((clients s)[i := ?c])"
      by (rule answers_ok_upd [OF b(7) i pend])
        (use told_snoc [of sure _ _ True "[Page_bytes ?d]"] pc in \<open>auto simp: undisturbed_def\<close>)
    have cp: "copies S T ((clients s)[i := ?c])" by (rule copies_same [OF b(8) i]) (simp_all add: pc)
    have st: "handler_step i True s =
        Inr (deliver i True (Page_bytes ?d) (Read_sent p True) (log_effect i (Read p) (Page_bytes ?d) s))"
      using False full by (simp add: handler_step_def pc frame_access_def b(2) Let_def)
    show ?thesis
      by (rule step_okI [OF st, where e = "[(Read p, Page_bytes ?d)]" and h = "history s" and c = ?c and U = S and S = S
            and T = T and P = P])
        (use b v o a cp S pc acc(1) in \<open>auto simp: deliver_def Let_def log_effect_def set_client_def turns_def\<close>)
  qed
qed

text \<open>One byte of a pinned page is overwritten.\<close>

lemma overwrite_next:
  assumes "length bs = length d" "n < length d"
  shows "(take n bs @ drop n d)[n := bs ! n] = take (Suc n) bs @ drop (Suc n) d"
proof -
  have "drop n d = d ! n # drop (Suc n) d" using assms(2) by (rule Cons_nth_drop_Suc [symmetric])
  moreover have "length (take n bs) = n" using assms by simp
  ultimately show ?thesis using assms by (simp add: list_update_append take_Suc_conv_app_nth)
qed

lemma store_step:
  assumes ok: "service_ok R S0 scripts sure s" and i: "i < length (clients s)" and nc: "\<not> conflict s"
    and pc: "pc (clients s ! i) = Writing p f bs n"
  shows "step_ok R S0 scripts sure i ok s"
proof -
  obtain b S T P where b: "running s" "live_pool s = Some b" "pool_st b T P" "replay (map snd (history s)) S0 = Some S"
    "pool_view b P (clients s)" "scripts_ok R T P (clients s)" "answers_ok sure scripts (history s) (clients s)"
    "copies S T (clients s)"
    using ok by (rule service_okE)
  let ?old = "clients s ! i"
  let ?cur = "(page_data b f)[n := bs ! n]" let ?b = "put_data f ?cur b" let ?T = "T(p \<mapsto> ?cur)"
  have held: "held b p f" using b(5) i pc by (simp add: pool_view_def)
  have T: "T p = Some (page_data b f)" using pp.get_ok [OF b(3) held] .
  have len: "length (page_data b f) = PAGE_SIZE" using pp.st_length [OF b(3) T] .
  have "request_safe R (Write p bs)" using b(6) i pc by (auto simp: scripts_ok_def pending_def)
  then have p: "p \<in> R" "length bs = PAGE_SIZE" by simp_all
  have "copy_ok S T (pc ?old)" using b(8) i by (simp add: copies_def)
  then obtain d where n: "n < PAGE_SIZE" and d: "S p = Some d" "0 < n \<longrightarrow> T p = Some (take n bs @ drop n d)" using pc by auto
  have others: "stored (pc (clients s ! j)) \<noteq> Some p" "\<forall>g. frame_of (pc (clients s ! j)) \<noteq> Some (p, g)"
    if "j < length (clients s)" "j \<noteq> i" for j
    using nobody_else_stores [OF nc i _ that] no_conflict [OF nc i that(1)] that(2) frame_uses pc by auto
  have "T p = S p" if "n = 0"
  proof -
    have "stored (pc (clients s ! j)) \<noteq> Some p" if "j < length (clients s)" for j
      using others(1) [OF that] pc \<open>n = 0\<close> by (cases "j = i") auto
    then show ?thesis using b(8) by (simp add: copies_def)
  qed
  then have "page_data b f = take n bs @ drop n d" using d T by (cases "n = 0") auto
  moreover have ld: "length d = PAGE_SIZE"
  proof -
    have "length (take n bs @ drop n d) = PAGE_SIZE" using calculation len by simp
    then show ?thesis using p(2) n by auto
  qed
  ultimately have cur: "?cur = take (Suc n) bs @ drop (Suc n) d" using overwrite_next [of bs d n] p(2) n by simp
  have lc: "length ?cur = PAGE_SIZE" using len by simp
  note put = pp.put_ok [OF b(3) held lc] and cl = sp.put_clean [OF b(3) held lc]
  have dom: "dom ?T = dom T" using T by auto
  have cdom: "dom T = dom S" using b(8) by (simp add: copies_def)
  have sp: "spare_ids (nat (tally allocs_of (clients s))) ?T"
    by (rule spare_ids_dom [of _ T]) (use dom b(6) in \<open>simp_all add: scripts_ok_def\<close>)
  have eqT: "?T q = S' q" if "q \<noteq> p" "\<forall>j < length (clients s). j \<noteq> i \<longrightarrow> stored (pc (clients s ! j)) \<noteq> Some q" "S' q = S q" for q S'
  proof -
    have "stored (pc (clients s ! j)) \<noteq> Some q" if "j < length (clients s)" for j
      using that \<open>q \<noteq> p\<close> \<open>\<forall>j < length (clients s). j \<noteq> i \<longrightarrow> stored (pc (clients s ! j)) \<noteq> Some q\<close> pc by (cases "j = i") auto
    then have "T q = S q" using b(8) by (simp add: copies_def)
    then show ?thesis using that(1,3) by simp
  qed
  show ?thesis
  proof (cases "Suc n < PAGE_SIZE")
    case True
    let ?c = "?old\<lparr>pc := Writing p f bs (Suc n)\<rparr>"
    have v: "pool_view ?b P ((clients s)[i := ?c])"
      by (rule pool_view_upd [OF b(5) i]) (use pc put cl held in \<open>auto simp: pin_of_def split: if_splits\<close>)
    have pend: "pending ?c = pending ?old" by (simp add: pending_def pc)
    have o: "scripts_ok R ?T P ((clients s)[i := ?c])" by (rule scripts_ok_same [OF b(6) i pend dom]) auto
    have a: "answers_ok (sure \<and> ok) scripts (history s @ map (Pair i) []) ((clients s)[i := ?c])"
      by (rule answers_ok_upd [OF b(7) i]) (use pend pc told_mono in \<open>auto simp: undisturbed_def\<close>)
    have cp: "copies S ?T ((clients s)[i := ?c])"
    proof (rule copies_upd [OF b(8) i])
      show "dom ?T = dom S" using dom cdom by simp
      show "copy_ok S ?T (pc ?c)" using True d(1) cur by simp
      show "copy_ok S ?T (pc (clients s ! j))" if "j < length (clients s)" "j \<noteq> i" "copy_ok S T (pc (clients s ! j))" for j
        using copy_ok_other [OF that(3) others(2) [OF that(1,2)], of "S p" "Some ?cur"] by (simp add: fun_upd_triv)
      show "?T q = S q" if "stored (pc ?c) \<noteq> Some q" "\<forall>j < length (clients s). j \<noteq> i \<longrightarrow> stored (pc (clients s ! j)) \<noteq> Some q" for q
        using eqT [OF _ that(2), of S] that(1) by simp
    qed
    have st: "handler_step i ok s = Inr (goto i (Writing p f bs (Suc n)) (s\<lparr>live_pool := Some ?b\<rparr>))"
      using True by (simp add: handler_step_def pc frame_access_def b(2))
    show ?thesis
      by (rule step_okI [OF st, where e = "[]" and h = "history s" and c = ?c and U = S and S = S and T = ?T and P = P])
        (use b v o a cp put pc n in \<open>auto simp: goto_def set_client_def turns_def\<close>)
  next
    case False
    then have full: "?cur = bs" using cur n p(2) ld by simp
    let ?c = "?old\<lparr>pc := Written p\<rparr>" and ?S = "S(p \<mapsto> bs)"
    have v: "pool_view ?b P ((clients s)[i := ?c])"
      by (rule pool_view_upd [OF b(5) i]) (use pc put cl in \<open>auto simp: pin_of_def split: if_splits\<close>)
    have pend: "pending ?old = map fst [(Write p bs, Okay)] @ pending ?c" by (simp add: pending_def pc)
    have "frees_of q ?c = frees_of q ?old" "allocs_of ?c = allocs_of ?old" for q
      using pend by (simp_all add: frees_of_def allocs_of_def)
    then have eq: "tally (frees_of q) ((clients s)[i := ?c]) = tally (frees_of q) (clients s)"
      "tally allocs_of ((clients s)[i := ?c]) = tally allocs_of (clients s)" for q using tally_upd [OF i] by simp_all
    have o: "scripts_ok R ?T P ((clients s)[i := ?c])"
      by (rule scripts_ok_upd [OF b(6) i]) (use b(6) eq pend dom sp in \<open>auto simp: scripts_ok_def frees_of_def\<close>)
    have a: "answers_ok (sure \<and> ok) scripts (history s @ map (Pair i) [(Write p bs, Okay)]) ((clients s)[i := ?c])"
      by (rule answers_ok_upd [OF b(7) i pend]) (use told_snoc pc in \<open>auto simp: undisturbed_def\<close>)
    have cp: "copies ?S ?T ((clients s)[i := ?c])"
    proof (rule copies_upd [OF b(8) i])
      show "dom ?T = dom ?S" using dom cdom d(1) by auto
      show "copy_ok ?S ?T (pc (clients s ! j))" if "j < length (clients s)" "j \<noteq> i" "copy_ok S T (pc (clients s ! j))" for j
        by (rule copy_ok_other [OF that(3) others(2) [OF that(1,2)]])
      show "?T q = ?S q" if "stored (pc ?c) \<noteq> Some q" "\<forall>j < length (clients s). j \<noteq> i \<longrightarrow> stored (pc (clients s ! j)) \<noteq> Some q" for q
        using eqT [OF _ that(2), of ?S] full by (cases "q = p") auto
    qed simp
    have st: "handler_step i ok s = Inr (goto i (Written p) (log_effect i (Write p bs) Okay (s\<lparr>live_pool := Some ?b\<rparr>)))"
      using False by (simp add: handler_step_def pc frame_access_def b(2))
    show ?thesis
      by (rule step_okI [OF st, where e = "[(Write p bs, Okay)]" and h = "history s" and c = ?c and U = S and S = ?S
            and T = ?T and P = P])
        (use b v o a cp d(1) put pc n in \<open>auto simp: goto_def log_effect_def set_client_def turns_def\<close>)
  qed
qed

text \<open>A new page is allocated, and stays pinned until it is unpinned as changed.\<close>

lemma allocate_step:
  assumes ok: "service_ok R S0 scripts sure s" and i: "i < length (clients s)"
    and pc: "pc (clients s ! i) = Received Allocate"
  shows "step_ok R S0 scripts sure i ok s"
proof -
  obtain b S T P where b: "running s" "live_pool s = Some b" "pool_st b T P" "replay (map snd (history s)) S0 = Some S"
    "pool_view b P (clients s)" "scripts_ok R T P (clients s)" "answers_ok sure scripts (history s) (clients s)"
    "copies S T (clients s)"
    using ok by (rule service_okE)
  let ?old = "clients s ! i"
  have mine: "1 \<le> allocs_of ?old" by (simp add: allocs_of_def pending_def pc)
  then have pos: "1 \<le> tally allocs_of (clients s)" using tally_ge [OF i, of allocs_of] by simp
  then obtain n where n: "nat (tally allocs_of (clients s)) = Suc n" by (cases "nat (tally allocs_of (clients s))") auto
  have sp: "spare_ids (Suc n) T" using b(6) n by (simp add: scripts_ok_def)
  have "npin P < frames b" by (rule pins_room [OF b(5) i]) (simp add: pc)
  from pp.new_ok [OF b(3) spare_ids_unused [OF sp] this] obtain p f b' where b': "NewPage b = (Inr (p, Some f), b')"
    "p \<notin> dom T" "p \<noteq> 0" "p \<noteq> INVALID_PAGE_ID" "P p = 0" "pool_st b' (T(p \<mapsto> zero_page)) (P(p := 1))" "held b' p f"
    "frames b' = frames b" "\<forall>q g. held b q g \<longrightarrow> held b' q g" by blast
  have cl: "synced b' q" if "synced b q" "q \<noteq> p" for q
    by (rule sp.new_clean [OF b(3) spare_ids_unused [OF sp] b'(1) that])
  let ?c = "?old\<lparr>pc := Allocated p\<rparr>"
  have v: "pool_view b' (P(p := 1)) ((clients s)[i := ?c])"
    by (rule pool_view_upd [OF b(5) i b'(8)]) (use pc b'(5,9) cl in \<open>auto simp: pin_of_def\<close>)
  have pend: "pending ?old = map fst [(Allocate, New_id p)] @ pending ?c" by (simp add: pending_def pc)
  have "frees_of q ?c = frees_of q ?old" "allocs_of ?c = allocs_of ?old - 1" for q
    using pend by (simp_all add: frees_of_def allocs_of_def)
  then have eq: "tally (frees_of q) ((clients s)[i := ?c]) = tally (frees_of q) (clients s)"
    "tally allocs_of ((clients s)[i := ?c]) = tally allocs_of (clients s) - 1" for q using tally_upd [OF i] by simp_all
  have sp': "spare_ids (nat (tally allocs_of ((clients s)[i := ?c]))) (T(p \<mapsto> zero_page))"
    using spare_ids_new [OF sp, of p zero_page] n eq(2) pos by (simp add: nat_diff_distrib)
  have o: "scripts_ok R (T(p \<mapsto> zero_page)) (P(p := 1)) ((clients s)[i := ?c])"
    by (rule scripts_ok_upd [OF b(6) i _ _ _ _ sp'])
      (use b(6) eq(1) pend b'(2) in \<open>auto simp: scripts_ok_def frees_of_def\<close>)
  have a: "answers_ok (sure \<and> ok) scripts (history s @ map (Pair i) [(Allocate, New_id p)]) ((clients s)[i := ?c])"
    by (rule answers_ok_upd [OF b(7) i pend]) (use told_snoc pc in \<open>auto simp: undisturbed_def\<close>)
  have cdom: "dom T = dom S" using b(8) by (simp add: copies_def)
  have cp: "copies (S(p \<mapsto> zero_page)) (T(p \<mapsto> zero_page)) ((clients s)[i := ?c])"
  proof (rule copies_upd [OF b(8) i])
    show "dom (T(p \<mapsto> zero_page)) = dom (S(p \<mapsto> zero_page))" using cdom by simp
    show "copy_ok (S(p \<mapsto> zero_page)) (T(p \<mapsto> zero_page)) (pc (clients s ! j))" if "copy_ok S T (pc (clients s ! j))" for j
    proof (rule copy_ok_other [OF that])
      show "\<forall>f. frame_of (pc (clients s ! j)) \<noteq> Some (p, f)" using copy_ok_dom [OF that] b'(2) cdom by blast
    qed
    show "(T(p \<mapsto> zero_page)) q = (S(p \<mapsto> zero_page)) q"
      if "\<forall>j < length (clients s). j \<noteq> i \<longrightarrow> stored (pc (clients s ! j)) \<noteq> Some q" for q
    proof -
      have "stored (pc (clients s ! j)) \<noteq> Some q" if "j < length (clients s)" for j
        using that pc \<open>\<forall>j < length (clients s). j \<noteq> i \<longrightarrow> stored (pc (clients s ! j)) \<noteq> Some q\<close> by (cases "j = i") auto
      then show ?thesis using b(8) by (simp add: copies_def)
    qed
  qed simp
  have st: "handler_step i ok s = Inr (goto i (Allocated p) (log_effect i Allocate (New_id p) (s\<lparr>live_pool := Some b'\<rparr>)))"
    by (simp add: handler_step_def pc call_pool_def pool_call_def b(2) b'(1))
  show ?thesis
    by (rule step_okI [OF st, where e = "[(Allocate, New_id p)]" and h = "history s" and c = ?c and U = S
          and S = "S(p \<mapsto> zero_page)" and T = "T(p \<mapsto> zero_page)" and P = "P(p := 1)"])
      (use b v o a cp b' cdom pc in \<open>auto simp: goto_def log_effect_def set_client_def turns_def\<close>)
qed

text \<open>A page that nobody uses is given back.\<close>

lemma deallocate_step:
  assumes ok: "service_ok R S0 scripts sure s" and i: "i < length (clients s)"
    and pc: "pc (clients s ! i) = Received (Deallocate p)"
  shows "step_ok R S0 scripts sure i ok s"
proof -
  obtain b S T P where b: "running s" "live_pool s = Some b" "pool_st b T P" "replay (map snd (history s)) S0 = Some S"
    "pool_view b P (clients s)" "scripts_ok R T P (clients s)" "answers_ok sure scripts (history s) (clients s)"
    "copies S T (clients s)"
    using ok by (rule service_okE)
  let ?old = "clients s ! i" and ?c = "(clients s ! i)\<lparr>pc := Replying Okay\<rparr>"
  have "0 < frees_of p ?old" by (simp add: frees_of_pos pending_def pc)
  then have pos: "0 < tally (frees_of p) (clients s)" using tally_ge [OF i, of "frees_of p"] by simp
  then have p: "p \<in> dom T" "P p = 0" "tally (frees_of p) (clients s) \<le> 1" using b(6) by (simp_all add: scripts_ok_def)
  have nR: "p \<notin> R" using shared_not_freed [OF b(6), of p] pos by auto
  from pp.del_ok [OF b(3) p(1,2)] obtain b' where b': "DeletePage p b = (Inr True, b')" "pool_st b' (T(p := None)) P"
    "frames b' = frames b" "\<forall>q g. held b q g \<longrightarrow> held b' q g" by blast
  have cl: "synced b' q" if "synced b q" for q by (rule sp.del_clean [OF b(3) p(1,2) b'(1) that])
  have v: "pool_view b' P ((clients s)[i := ?c])"
    by (rule pool_view_upd [OF b(5) i b'(3)]) (use pc b'(4) cl in \<open>auto simp: pin_of_def\<close>)
  have pend: "pending ?old = map fst [(Deallocate p, Okay)] @ pending ?c" by (simp add: pending_def pc)
  have fr: "frees_of q ?c = frees_of q ?old - of_bool (q = p)" "allocs_of ?c = allocs_of ?old" for q
    using pend by (simp_all add: frees_of_def allocs_of_def)
  then have eq: "tally (frees_of q) ((clients s)[i := ?c]) = tally (frees_of q) (clients s) - of_bool (q = p)"
    "tally allocs_of ((clients s)[i := ?c]) = tally allocs_of (clients s)" for q using tally_upd [OF i] by simp_all
  have "dom (T(p := None)) \<subseteq> dom T" by auto
  then have sp: "spare_ids (nat (tally allocs_of ((clients s)[i := ?c]))) (T(p := None))"
    by (rule spare_ids_dom) (use b(6) eq(2) in \<open>simp add: scripts_ok_def\<close>)
  have ne: "q \<noteq> p" if "0 < tally (frees_of q) ((clients s)[i := ?c])" for q
    using that eq(1) [of q] p(3) by auto
  have "R \<subseteq> dom (T(p := None))" using b(6) nR by (auto simp: scripts_ok_def)
  then have o: "scripts_ok R (T(p := None)) P ((clients s)[i := ?c])"
    by (rule scripts_ok_upd [OF b(6) i _ _ _ _ sp, rotated]) (use fr(1) pend ne in auto)
  have a: "answers_ok (sure \<and> ok) scripts (history s @ map (Pair i) [(Deallocate p, Okay)]) ((clients s)[i := ?c])"
    by (rule answers_ok_upd [OF b(7) i pend]) (use told_snoc pc in \<open>auto simp: undisturbed_def\<close>)
  have cdom: "dom T = dom S" using b(8) by (simp add: copies_def)
  have free: "\<forall>g. frame_of (pc (clients s ! j)) \<noteq> Some (p, g)" if "j < length (clients s)" for j
    using b(5) that pp.hold_pins [OF b(3)] p(2) unfolding pool_view_def by (metis less_irrefl)
  have cp: "copies (S(p := None)) (T(p := None)) ((clients s)[i := ?c])"
  proof (rule copies_upd [OF b(8) i])
    show "dom (T(p := None)) = dom (S(p := None))" using cdom by simp
    show "copy_ok (S(p := None)) (T(p := None)) (pc (clients s ! j))" if "j < length (clients s)" "copy_ok S T (pc (clients s ! j))" for j
      by (rule copy_ok_other [OF that(2) free [OF that(1)]])
    show "(T(p := None)) q = (S(p := None)) q"
      if "\<forall>j < length (clients s). j \<noteq> i \<longrightarrow> stored (pc (clients s ! j)) \<noteq> Some q" for q
    proof -
      have "stored (pc (clients s ! j)) \<noteq> Some q" if "j < length (clients s)" for j
        using that pc \<open>\<forall>j < length (clients s). j \<noteq> i \<longrightarrow> stored (pc (clients s ! j)) \<noteq> Some q\<close> by (cases "j = i") auto
      then show ?thesis using b(8) by (simp add: copies_def)
    qed
  qed simp
  have st: "handler_step i ok s = Inr (goto i (Replying Okay) (log_effect i (Deallocate p) Okay (s\<lparr>live_pool := Some b'\<rparr>)))"
    by (simp add: handler_step_def pc call_pool_def pool_call_def b(2) b'(1))
  show ?thesis
    by (rule step_okI [OF st, where e = "[(Deallocate p, Okay)]" and h = "history s" and c = ?c and U = S
          and S = "S(p := None)" and T = "T(p := None)" and P = P])
      (use b v o a cp b' cdom pc p(1) in \<open>auto simp: goto_def log_effect_def set_client_def turns_def\<close>)
qed

lemma handler_step_ok:
  assumes "service_ok R S0 scripts sure s" and i: "i < length (clients s)" and nc: "\<not> conflict s"
  shows "step_ok R S0 scripts sure i ok s"
proof -
  have run: "running s" using assms(1) by (simp add: service_ok_def)
  have safe: "\<forall>r \<in> set (pending (clients s ! i)). request_safe R r" using assms(1) i by (auto simp: service_ok_def scripts_ok_def)
  let ?old = "clients s ! i"
  show ?thesis
  proof (cases "pc ?old")
    case At_loop
    show ?thesis
      by (rule quiet_step [OF assms(1) i, where c = "?old\<lparr>pc := At_recv\<rparr>" and e = "[]"])
        (use At_loop run told_mono in \<open>auto simp: handler_step_def goto_def set_client_def pending_def turns_def undisturbed_def\<close>)
  next
    case At_recv
    show ?thesis
    proof (cases "todo ?old")
      case Nil
      show ?thesis
        by (rule quiet_step [OF assms(1) i, where c = "?old\<lparr>pc := Closed\<rparr>" and e = "[]"])
          (use At_recv Nil told_mono in \<open>auto simp: handler_step_def goto_def set_client_def pending_def turns_def undisturbed_def\<close>)
    next
      case (Cons r rs)
      show ?thesis
        by (rule quiet_step [OF assms(1) i, where c = "?old\<lparr>pc := Received r, todo := rs\<rparr>" and e = "[]"])
          (use At_recv Cons told_mono in \<open>auto simp: handler_step_def set_client_def pending_def turns_def undisturbed_def\<close>)
    qed
  next
    case (Received r)
    have r: "request_safe R r" using safe Received by (simp add: pending_def)
    show ?thesis
    proof (cases r)
      case (Read p)
      show ?thesis
        by (rule fetch_step [OF assms(1) i Received, where nx = "\<lambda>f. Reading p f []"])
          (use r Received Read in \<open>auto simp: handler_step_def call_pool_def pool_call_def\<close>)
    next
      case (Write p bs)
      show ?thesis
        by (rule fetch_step [OF assms(1) i Received, where nx = "\<lambda>f. Writing p f bs 0"])
          (use r Received Write in \<open>auto simp: handler_step_def call_pool_def pool_call_def\<close>)
    next
      case Allocate
      then show ?thesis using allocate_step [OF assms(1) i] Received by simp
    next
      case (Deallocate p)
      then show ?thesis using deallocate_step [OF assms(1) i] Received by simp
    next
      case Unknown
      show ?thesis
        by (rule quiet_step [OF assms(1) i, where c = "?old\<lparr>pc := Replying Failed\<rparr>" and e = "[(Unknown, Failed)]"])
          (use Received Unknown told_snoc in \<open>auto simp: handler_step_def call_pool_def fail_def goto_def
             log_effect_def set_client_def pending_def turns_def undisturbed_def\<close>)
    qed
  next
    case (Reading p f acc)
    show ?thesis
    proof (cases ok)
      case True
      then show ?thesis using copy_step [OF assms(1) i nc Reading] by simp
    next
      case False
      have "copy_ok S T (pc ?old)" if "copies S T (clients s)" for S T using that i by (simp add: copies_def)
      then have "length acc < PAGE_SIZE" using assms(1) Reading by (fastforce simp: service_ok_def)
      then show ?thesis
        by (intro quiet_step [OF assms(1) i, where c = "?old\<lparr>pc := Read_sent p False\<rparr>" and e = "[(Read p, Broken_off)]"])
          (use False Reading told_snoc [of sure _ _ False "[Broken_off]"] told_lost [of False "answers ?old" "[Broken_off]"] in
            \<open>auto simp: handler_step_def goto_def log_effect_def set_client_def pending_def turns_def undisturbed_def\<close>)
    qed
  next
    case (Read_sent p was_sent)
    show ?thesis
      by (rule unpin_step [OF assms(1) i, where p = p and dirty = False and nx = "if was_sent then At_loop else Closed"])
        (use Read_sent in \<open>auto simp: handler_step_def pool_call_def\<close>)
  next
    case (Writing p f bs n)
    then show ?thesis by (rule store_step [OF assms(1) i nc])
  next
    case (Written p)
    show ?thesis
      by (rule unpin_step [OF assms(1) i, where p = p and dirty = True and nx = "Replying Okay"])
        (use Written in \<open>auto simp: handler_step_def pool_call_def\<close>)
  next
    case (Allocated p)
    show ?thesis
      by (rule unpin_step [OF assms(1) i, where p = p and dirty = True and nx = "Replying (New_id p)"])
        (use Allocated in \<open>auto simp: handler_step_def pool_call_def\<close>)
  next
    case (Replying a)
    let ?c = "?old\<lparr>pc := (if ok \<or> a = Failed then At_loop else Closed), answers := answers ?old @ (if ok then [a] else [])\<rparr>"
    show ?thesis
      by (rule quiet_step [OF assms(1) i, where c = ?c and e = "[]"])
        (use Replying told_mono told_lost in \<open>auto simp: handler_step_def deliver_def Let_def set_client_def pending_def turns_def undisturbed_def\<close>)
  next
    case Closed
    show ?thesis
      by (rule quiet_step [OF assms(1) i, where c = ?old and e = "[]"])
        (use Closed told_mono in \<open>auto simp: handler_step_def undisturbed_def\<close>)
  qed
qed

section \<open>Runs\<close>

fun is_turn :: "nat \<Rightarrow> event \<Rightarrow> bool" where
  "is_turn i (Serve j ok) \<longleftrightarrow> j = i"
| "is_turn i (Serve_gone j) \<longleftrightarrow> j = i"
| "is_turn i Stopping \<longleftrightarrow> False"

fun send_fails :: "event \<Rightarrow> bool" where
  "send_fails (Serve j ok) \<longleftrightarrow> \<not> ok"
| "send_fails (Serve_gone j) \<longleftrightarrow> True"
| "send_fails Stopping \<longleftrightarrow> False"

text \<open>The schedules without \<open>Stop\<close> and without SIGPIPE.\<close>

fun serving :: "event \<Rightarrow> bool" where
  "serving (Serve j ok) \<longleftrightarrow> True"
| "serving _ \<longleftrightarrow> False"

lemma service_ok_weaken: "service_ok R S0 scripts sure s \<Longrightarrow> service_ok R S0 scripts (sure \<and> ok) s"
  using told_mono [of sure _ _ ok] by (fastforce simp: service_ok_def answers_ok_def)

lemma turns_0: "turns c = 0 \<longleftrightarrow> pc c = Closed"
  by (cases "pc c") (auto simp: turns_def)

lemma run_ok:
  assumes "service_ok R S0 scripts sure s" "\<forall>e \<in> set es. serving e" "race_free es s"
  shows "\<exists>s'. run_service es s = Inr s' \<and> service_ok R S0 scripts (sure \<and> (\<forall>e \<in> set es. \<not> send_fails e)) s' \<and>
     length (clients s') = length (clients s) \<and>
     (\<forall>i < length (clients s). turns (clients s' ! i) \<le> turns (clients s ! i) - length (filter (is_turn i) es))"
  using assms
proof (induction es arbitrary: s sure)
  case (Cons e es)
  then obtain j ok where e: "e = Serve j ok" by (cases e) auto
  have nc: "\<not> conflict s" using Cons.prems(3) by simp
  obtain s1 where s1: "event_step e s = Inr s1" "service_ok R S0 scripts (sure \<and> ok) s1" "length (clients s1) = length (clients s)"
    "\<forall>i < length (clients s). turns (clients s1 ! i) \<le> turns (clients s ! i) - (if i = j then 1 else 0)"
  proof (cases "j < length (clients s)")
    case True
    from handler_step_ok [OF Cons.prems(1) True nc, of ok] obtain s1 c where h: "handler_step j ok s = Inr s1"
      "service_ok R S0 scripts (sure \<and> ok) s1" "clients s1 = (clients s)[j := c]"
      "turns c < turns (clients s ! j) \<or> pc (clients s ! j) = Closed \<and> c = clients s ! j"
      by (auto simp: step_ok_def)
    have "turns c \<le> turns (clients s ! j) - 1" using h(4) turns_0 [of c] by auto
    then show thesis using that [of s1] h e True by (auto simp: nth_list_update)
  next
    case False
    then show thesis using that [of s] service_ok_weaken [OF Cons.prems(1)] e by auto
  qed
  have "race_free es s1" using Cons.prems(3) s1(1) by simp
  from Cons.IH [OF s1(2) _ this] Cons.prems(2) obtain s' where s': "run_service es s1 = Inr s'"
    "service_ok R S0 scripts ((sure \<and> ok) \<and> (\<forall>e \<in> set es. \<not> send_fails e)) s'" "length (clients s') = length (clients s1)"
    "\<forall>i < length (clients s1). turns (clients s' ! i) \<le> turns (clients s1 ! i) - length (filter (is_turn i) es)" by auto
  have "turns (clients s' ! i) \<le> turns (clients s ! i) - length (filter (is_turn i) (e # es))" if "i < length (clients s)" for i
    using s'(4) s1(3,4) that e by (fastforce split: if_splits)
  moreover have "service_ok R S0 scripts (sure \<and> (\<forall>x \<in> set (e # es). \<not> send_fails x)) s'"
    using s'(2) e by (simp add: conj_assoc)
  ultimately show ?case using s1(1,3) s'(1,3) by auto
qed simp

text \<open>
  What the scripts of all clients may ask, in a store \<open>S\<close>: the shared pages \<open>R\<close> are allocated, a page
  that is given back is allocated and given back once, and enough page ids are left.
\<close>

definition scripts_safe :: "page_id set \<Rightarrow> (page_id \<rightharpoonup> byte list) \<Rightarrow> request list list \<Rightarrow> bool" where
  "scripts_safe R S scripts \<longleftrightarrow>
     R \<subseteq> dom S \<and> (\<forall>r \<in> set (concat scripts). request_safe R r) \<and>
     (\<forall>q. count_list (concat scripts) (Deallocate q) \<le> 1) \<and> (\<forall>q. Deallocate q \<in> set (concat scripts) \<longrightarrow> q \<in> dom S) \<and>
     spare_ids (count_list (concat scripts) Allocate) S"

lemma tally_start:
  assumes "\<And>c. g c = int (count_list (pending c) x)"
  shows "tally g (map (\<lambda>rs. \<lparr>pc = At_loop, todo = rs, answers = []\<rparr>) scripts) = int (count_list (concat scripts) x)"
proof -
  have "tally g cs = sum_list (map g cs)" for cs
    by (simp add: tally_def sum_list_sum_nth atLeast0LessThan)
  moreover have "sum_list (map (\<lambda>rs. int (count_list rs x)) scripts) = int (count_list (concat scripts) x)"
    by (induction scripts) simp_all
  ultimately show ?thesis by (simp add: comp_def assms pending_def)
qed

lemma service_ok_start:
  assumes "pool_st b S (\<lambda>_. 0)" "length scripts \<le> frames b" "scripts_safe R S scripts"
  shows "service_ok R S scripts True (service_of b scripts)"
proof -
  let ?cs = "map (\<lambda>rs. \<lparr>pc = At_loop, todo = rs, answers = []\<rparr>) scripts"
  have t: "tally (frees_of q) ?cs = int (count_list (concat scripts) (Deallocate q))"
    "tally allocs_of ?cs = int (count_list (concat scripts) Allocate)" for q
    by (rule tally_start, simp add: frees_of_def allocs_of_def)+
  have "0 < count_list (concat scripts) (Deallocate q) \<Longrightarrow> Deallocate q \<in> set (concat scripts)" for q
    by (metis count_list_0_iff less_irrefl)
  then have "q \<in> dom S" if "0 < int (count_list (concat scripts) (Deallocate q))" for q
    using that assms(3) unfolding scripts_safe_def by (metis of_nat_0_less_iff)
  moreover have "request_safe R r" if "j < length ?cs" "r \<in> set (pending (?cs ! j))" for j r
  proof -
    have "r \<in> set (concat scripts)" using that by (auto simp: pending_def intro: nth_mem)
    then show ?thesis using assms(3) unfolding scripts_safe_def by blast
  qed
  ultimately have "scripts_ok R S (\<lambda>_. 0) ?cs"
    using assms(3) unfolding scripts_ok_def scripts_safe_def t by (simp add: of_nat_le_1_iff)
  moreover have "tally (pin_of q) ?cs = 0" for q by (simp add: tally_def pin_of_def)
  then have "pool_view b (\<lambda>_. 0) ?cs" using assms(2) pp.clean_idle [OF assms(1)] by (simp add: pool_view_def)
  moreover have "answers_ok True scripts [] ?cs"
    by (simp add: answers_ok_def own_def pending_def told_def undisturbed_def)
  moreover have "copies S S ?cs" by (simp add: copies_def)
  ultimately show ?thesis using assms(1) by (simp add: service_ok_def service_of_def) blast
qed

text \<open>
  Clients that do not share a page that one of them writes: every page in a \<open>Write\<close> of one client
  is in no \<open>Read\<close> and no \<open>Write\<close> of another one.
\<close>

fun used_by :: "request \<Rightarrow> page_id option" where
  "used_by (Read p) = Some p"
| "used_by (Write p bs) = Some p"
| "used_by _ = None"

fun written_by :: "request \<Rightarrow> page_id option" where
  "written_by (Write p bs) = Some p"
| "written_by _ = None"

definition separate :: "request list list \<Rightarrow> bool" where
  "separate scripts \<longleftrightarrow> (\<forall>i < length scripts. \<forall>j < length scripts. i \<noteq> j \<longrightarrow>
     (\<forall>r \<in> set (scripts ! i). \<forall>r' \<in> set (scripts ! j). written_by r \<noteq> None \<longrightarrow> used_by r' \<noteq> written_by r))"

text \<open>A handler uses and writes only pages that its client has named in a request.\<close>

definition from_script :: "request list \<Rightarrow> client \<Rightarrow> bool" where
  "from_script rs c \<longleftrightarrow> set (pending c) \<subseteq> set rs \<and>
     (\<forall>p. uses_page (pc c) = Some p \<longrightarrow> (\<exists>r \<in> set rs. used_by r = Some p)) \<and>
     (\<forall>p. writes_page (pc c) = Some p \<longrightarrow> (\<exists>r \<in> set rs. written_by r = Some p))"

definition scripted :: "request list list \<Rightarrow> service \<Rightarrow> bool" where
  "scripted scripts s \<longleftrightarrow> length (clients s) = length scripts \<and>
     (\<forall>i < length scripts. from_script (scripts ! i) (clients s ! i))"

lemma separate_no_conflict:
  assumes "separate scripts" "scripted scripts s"
  shows "\<not> conflict s"
proof
  assume "conflict s"
  then obtain i j p where ij: "i < length scripts" "j < length scripts" "i \<noteq> j" "writes_page (pc (clients s ! i)) = Some p"
    "uses_page (pc (clients s ! j)) = Some p" using assms(2) unfolding conflict_def scripted_def by fastforce
  have "from_script (scripts ! i) (clients s ! i)" "from_script (scripts ! j) (clients s ! j)"
    using assms(2) ij(1,2) by (simp_all add: scripted_def)
  then obtain r r' where r: "r \<in> set (scripts ! i)" "written_by r = Some p" and r': "r' \<in> set (scripts ! j)" "used_by r' = Some p"
    using ij(4,5) unfolding from_script_def by blast
  show False using assms(1) ij(1-3) r r' unfolding separate_def by (metis option.distinct(1))
qed

text \<open>A step changes its own client only, and keeps it to its script.\<close>

definition moves :: "nat \<Rightarrow> request list \<Rightarrow> service \<Rightarrow> service \<Rightarrow> bool" where
  "moves i rs s s' \<longleftrightarrow> (\<exists>c. clients s' = (clients s)[i := c] \<and> from_script rs c)"

lemma moves_goto:
  "clients u = clients s \<Longrightarrow> from_script rs ((clients s ! i)\<lparr>pc := p\<rparr>) \<Longrightarrow> moves i rs s (goto i p u)"
  by (auto simp: moves_def goto_def set_client_def)

lemma pool_call_result:
  assumes "pool_call m k h s = Inr s'"
  obtains a b where "s' = k a (s\<lparr>live_pool := Some b\<rparr>)" | b where "s' = h (s\<lparr>live_pool := Some b\<rparr>)"
  using assms by (auto simp: pool_call_def split: option.splits prod.splits sum.splits if_splits)

lemma handler_moves:
  assumes st: "handler_step i ok s = Inr s'" and c: "from_script rs (clients s ! i)"
  shows "moves i rs s s'"
proof -
  let ?c = "clients s ! i"
  have idle: "from_script rs (?c\<lparr>pc := p\<rparr>)" if "in_hand p = []" "uses_page p = None" "writes_page p = None" for p
    using that c by (auto simp: from_script_def pending_def)
  have free: "moves i rs s (goto i p u)" if "clients u = clients s" "in_hand p = []" "uses_page p = None" "writes_page p = None" for u p
    using that by (auto intro!: moves_goto idle)
  have failed: "moves i rs s (fail i r u)" if "clients u = clients s" for u r
    using that by (auto simp: fail_def log_effect_def intro!: free)
  show ?thesis
  proof (cases "pc ?c")
    case At_loop
    then show ?thesis using st by (auto simp: handler_step_def intro!: free)
  next
    case At_recv
    show ?thesis
    proof (cases "todo ?c")
      case Nil
      then show ?thesis using st At_recv by (auto simp: handler_step_def intro!: free)
    next
      case (Cons r rs')
      have "from_script rs (?c\<lparr>pc := Received r, todo := rs'\<rparr>)"
        using c At_recv Cons by (auto simp: from_script_def pending_def)
      then show ?thesis using st At_recv Cons by (auto simp: handler_step_def moves_def set_client_def)
    qed
  next
    case (Received r)
    have r: "r \<in> set rs" using c Received by (simp add: from_script_def pending_def)
    have hold: "from_script rs (?c\<lparr>pc := Reading p f []\<rparr>)" if "r = Read p" for p f
      using that c r Received by (force simp: from_script_def pending_def)
    have hold': "from_script rs (?c\<lparr>pc := Writing p f bs 0\<rparr>)" if "r = Write p bs" for p f bs
      using that c r Received by (force simp: from_script_def pending_def)
    have call: "call_pool i r s = Inr s'" using st Received by (simp add: handler_step_def)
    show ?thesis
    proof (cases r)
      case (Read p)
      then show ?thesis using call hold [OF Read]
        by (auto simp: call_pool_def elim!: pool_call_result split: option.splits intro!: failed moves_goto)
    next
      case (Write p bs)
      then show ?thesis using call hold' [OF Write]
        by (auto simp: call_pool_def elim!: pool_call_result split: option.splits intro!: failed moves_goto)
    next
      case Unknown
      then show ?thesis using call by (auto simp: call_pool_def intro!: failed)
    qed (use call in \<open>auto simp: call_pool_def log_effect_def elim!: pool_call_result split: option.splits prod.splits if_splits intro!: free failed\<close>)
  next
    case (Reading p f acc)
    then obtain r where r: "r \<in> set rs" "used_by r = Some p" "set (todo ?c) \<subseteq> set rs" "Read p \<in> set rs"
      using c by (auto simp: from_script_def pending_def)
    have "from_script rs (?c\<lparr>pc := Reading p f x\<rparr>)" "from_script rs (?c\<lparr>pc := Read_sent p x', answers := y\<rparr>)"
      "from_script rs (?c\<lparr>pc := Read_sent p x'\<rparr>)" for x x' y
      using r by (auto simp: from_script_def pending_def)
    then show ?thesis
      using st Reading by (auto simp: handler_step_def frame_access_def Let_def deliver_def log_effect_def moves_def goto_def set_client_def
          split: if_splits option.splits)
  next
    case (Read_sent p w)
    then show ?thesis using st by (auto simp: handler_step_def elim!: pool_call_result intro!: free)
  next
    case (Writing p f bs n)
    then have w: "Write p bs \<in> set rs" "set (todo ?c) \<subseteq> set rs" using c by (auto simp: from_script_def pending_def)
    have "from_script rs (?c\<lparr>pc := Writing p f bs x\<rparr>)" "from_script rs (?c\<lparr>pc := Written p\<rparr>)" for x
      using w by (force simp: from_script_def pending_def)+
    then show ?thesis
      using st Writing by (auto simp: handler_step_def frame_access_def Let_def log_effect_def moves_def goto_def set_client_def
          split: if_splits option.splits)
  next
    case (Written p)
    then show ?thesis using st by (auto simp: handler_step_def elim!: pool_call_result intro!: free)
  next
    case (Allocated p)
    then show ?thesis using st by (auto simp: handler_step_def elim!: pool_call_result intro!: free)
  next
    case (Replying a)
    have "from_script rs (?c\<lparr>pc := At_loop, answers := y\<rparr>)" "from_script rs (?c\<lparr>pc := Closed, answers := y\<rparr>)" for y
      using c by (auto simp: from_script_def pending_def)
    then have "moves i rs s (deliver i ok a p s)" if "p = At_loop \<or> p = Closed" for p
      using that by (auto simp: moves_def deliver_def Let_def set_client_def simp del: append_Nil2)
    then show ?thesis using st Replying by (auto simp: handler_step_def)
  next
    case Closed
    then have "s' = s" using st by (simp add: handler_step_def)
    then show ?thesis using c unfolding moves_def by (intro exI [of _ ?c]) simp
  qed
qed

lemma separate_race_free:
  assumes "separate scripts" "scripted scripts s" "\<forall>e \<in> set es. serving e"
  shows "race_free es s"
  using assms(2,3)
proof (induction es arbitrary: s)
  case Nil
  then show ?case using separate_no_conflict [OF assms(1)] by simp
next
  case (Cons e es)
  obtain i ok where e: "e = Serve i ok" using Cons.prems(2) by (cases e) auto
  have "scripted scripts s1" if "event_step e s = Inr s1" for s1
  proof (cases "i < length (clients s)")
    case i: True
    then have h: "handler_step i ok s = Inr s1" using that e by simp
    have "from_script (scripts ! i) (clients s ! i)" using Cons.prems(1) i by (simp add: scripted_def)
    from handler_moves [OF h this] Cons.prems(1) i show ?thesis by (auto simp: scripted_def nth_list_update moves_def)
  next
    case False
    then show ?thesis using that e Cons.prems(1) by simp
  qed
  then show ?case
    using separate_no_conflict [OF assms(1) Cons.prems(1)] Cons.IH Cons.prems(2) by (auto split: sum.splits)
qed

lemma separate_start:
  assumes "separate scripts" "\<forall>e \<in> set es. serving e"
  shows "race_free es (service_of b scripts)"
  by (rule separate_race_free [OF assms(1) _ assms(2)])
    (simp add: scripted_def service_of_def from_script_def pending_def)

section \<open>One thread alone\<close>

text \<open>
  Without other threads the steps are those of the sequential model: a handler does to the pool what
  \<open>handle_request\<close> does, and the steps of the stopping thread do what \<open>StorageService_Stop\<close> does.
\<close>

fun request_of :: "RequestHeader \<Rightarrow> session \<Rightarrow> request option" where
  "request_of h x =
     (if op_type h = OpType_code READ_PAGE then Some (Read (req_page_id h))
      else if op_type h = OpType_code WRITE_PAGE then
        (case recv_bytes PAGE_SIZE x of (Inr (Some bs), _) \<Rightarrow> Some (Write (req_page_id h) bs) | _ \<Rightarrow> None)
      else if op_type h = OpType_code ALLOCATE_PAGE then Some Allocate
      else if op_type h = OpType_code DEALLOCATE_PAGE then Some (Deallocate (req_page_id h))
      else Some Unknown)"

fun alone :: "nat \<Rightarrow> nat \<Rightarrow> service \<Rightarrow> err + service" where
  "alone 0 i s = Inr s"
| "alone (Suc n) i s = (case event_step (Serve i True) s of Inl e \<Rightarrow> Inl e | Inr s' \<Rightarrow> alone n i s')"

lemma alone_run: "alone n i s = run_service (replicate n (Serve i True)) s"
  by (induction n arbitrary: s) (simp_all split: sum.splits)

lemmas concurrent_simps = eval_nat_numeral handler_step_def call_pool_def pool_call_def frame_access_def fail_def
  goto_def set_client_def log_effect_def deliver_def Let_def

lemmas sequential_simps = catch_std_def bind_def on_pool_def send_bytes_def throw_def ret_def read_frame_def
  modify_def continue_if_def

definition ends_as :: "nat \<Rightarrow> service \<Rightarrow> buffer_pool \<Rightarrow> bool" where
  "ends_as i s b \<longleftrightarrow> (\<exists>n. case alone n i s of Inl e \<Rightarrow> False | Inr s' \<Rightarrow> live_pool s' = Some b \<and> pc (clients s' ! i) = At_loop)"

lemma ends_asI: "(case alone n i s of Inl e \<Rightarrow> False | Inr s' \<Rightarrow> live_pool s' = Some b \<and> pc (clients s' ! i) = At_loop) \<Longrightarrow> ends_as i s b"
  by (auto simp: ends_as_def)

lemma fetch_result_cases:
  obtains (null) "r = Inr None" | (exc) e where "r = Inl e" | (page) f where "r = Inr (Some f)"
  by (metis not_None_eq old.sum.exhaust)

lemma alone_plus: "alone (m + n) i s = (case alone m i s of Inl e \<Rightarrow> Inl e | Inr s' \<Rightarrow> alone n i s')"
  by (induction m arbitrary: s) (auto split: sum.splits)

text \<open>The copies of a page byte by byte, without anybody in between.\<close>

lemma read_bytes_alone:
  assumes "i < length (clients s)" "pc (clients s ! i) = Reading p f acc" "live_pool s = Some b" "length acc + Suc n = PAGE_SIZE"
  shows "\<exists>s'. alone (Suc n) i s = Inr s' \<and> live_pool s' = Some b \<and> length (clients s') = length (clients s) \<and>
     pc (clients s' ! i) = Read_sent p True \<and>
     (length (page_data b f) = PAGE_SIZE \<longrightarrow>
        answers (clients s' ! i) = answers (clients s ! i) @ [Page_bytes (acc @ drop (length acc) (page_data b f))])"
  using assms
proof (induction n arbitrary: s acc)
  case 0
  then have "drop (length acc) d = [d ! length acc]" if "length d = PAGE_SIZE" for d :: "byte list"
    using Cons_nth_drop_Suc [of "length acc" d] that by simp
  then show ?case using 0
    by (simp add: handler_step_def frame_access_def deliver_def log_effect_def set_client_def Let_def)
next
  case (Suc n)
  let ?acc = "acc @ [page_data b f ! length acc]"
  let ?s = "goto i (Reading p f ?acc) s"
  have st: "event_step (Serve i True) s = Inr ?s"
    using Suc.prems by (simp add: handler_step_def frame_access_def)
  have "i < length (clients ?s)" "pc (clients ?s ! i) = Reading p f ?acc" "live_pool ?s = Some b" "length ?acc + Suc n = PAGE_SIZE"
    using Suc.prems by (simp_all add: goto_def set_client_def)
  moreover have "?acc @ drop (length ?acc) d = acc @ drop (length acc) d" if "length d = PAGE_SIZE" "d = page_data b f" for d
    using Cons_nth_drop_Suc [of "length acc" d] that Suc.prems(4) by simp
  ultimately show ?case using Suc.IH [of ?s ?acc] st Suc.prems(1) by (auto simp: goto_def set_client_def)
qed

lemma put_data_twice: "put_data f bs (put_data f cs b) = put_data f bs b"
  by (cases "nat f < length (pages b)") (simp_all add: put_data_def set_frame_def frame_def list_update_beyond not_less)

lemma write_bytes_alone:
  assumes "i < length (clients s)" "pc (clients s ! i) = Writing p f bs n" "live_pool s = Some (put_data f (take n bs @ drop n d) b)"
    "nat f < length (pages b)" "length bs = PAGE_SIZE" "length d = PAGE_SIZE" "n + Suc m = PAGE_SIZE"
  shows "\<exists>s'. alone (Suc m) i s = Inr s' \<and> live_pool s' = Some (put_data f bs b) \<and> length (clients s') = length (clients s) \<and>
     pc (clients s' ! i) = Written p"
  using assms
proof (induction m arbitrary: s n)
  case 0
  let ?b = "put_data f (take n bs @ drop n d) b"
  have "(page_data ?b f)[n := bs ! n] = take (Suc n) bs @ drop (Suc n) d"
    using 0 overwrite_next [of bs d n] by (simp add: page_data_def put_data_def set_frame_def frame_def)
  then have "put_data f ((page_data ?b f)[n := bs ! n]) ?b = put_data f bs b" using 0 by (simp add: put_data_twice)
  then show ?case using 0
    by (simp add: handler_step_def frame_access_def goto_def log_effect_def set_client_def Let_def)
next
  case (Suc m)
  let ?b = "put_data f (take n bs @ drop n d) b"
  let ?s = "goto i (Writing p f bs (Suc n)) (s\<lparr>live_pool := Some (put_data f (take (Suc n) bs @ drop (Suc n) d) b)\<rparr>)"
  have "(page_data ?b f)[n := bs ! n] = take (Suc n) bs @ drop (Suc n) d"
    using Suc.prems overwrite_next [of bs d n] by (simp add: page_data_def put_data_def set_frame_def frame_def)
  then have st: "event_step (Serve i True) s = Inr ?s"
    using Suc.prems by (simp add: handler_step_def frame_access_def put_data_twice)
  have "i < length (clients ?s)" "pc (clients ?s ! i) = Writing p f bs (Suc n)"
    "live_pool ?s = Some (put_data f (take (Suc n) bs @ drop (Suc n) d) b)" "Suc n + Suc m = PAGE_SIZE"
    using Suc.prems by (simp_all add: goto_def set_client_def)
  from Suc.IH [OF this(1-3) Suc.prems(4-6) this(4)] show ?case using st by (simp add: goto_def set_client_def)
qed

lemma Send_error: "Send bs c = (Inl e, c') \<Longrightarrow> \<not> is_std_exception e"
  using send_loop_errors [of bs c e c'] by (auto simp: Send_def may_end_def split: if_splits)

lemma ends_as_after: "alone n i s = Inr s1 \<Longrightarrow> ends_as i s1 b \<Longrightarrow> ends_as i s b"
  unfolding ends_as_def by (metis (no_types, lifting) alone_plus old.sum.simps(6))

text \<open>The last steps of a request whose page is unpinned.\<close>

lemma unpin_alone:
  assumes "i < length (clients s)" "live_pool s = Some b1" "UnpinPage p d b1 = (u, b2)" "case u of Inl e \<Rightarrow> is_std_exception e | Inr _ \<Rightarrow> True"
    "pc (clients s ! i) = Read_sent p True \<and> \<not> d \<or> pc (clients s ! i) = Written p \<and> d"
  shows "ends_as i s b2"
proof (cases "pc (clients s ! i) = Written p \<or> (\<exists>e. u = Inl e)")
  case True
  then show ?thesis using assms by (cases u; intro ends_asI [where n = 2]) (auto simp: concurrent_simps)
next
  case False
  then show ?thesis using assms by (cases u; intro ends_asI [where n = 1]) (auto simp: concurrent_simps)
qed

lemma read_alone:
  assumes "handle_read p \<lparr>pool = b, conn = c\<rparr> = (Inr Continue, x)" "i < length (clients s)"
    "pc (clients s ! i) = Received (Read p)" "live_pool s = Some b"
  shows "ends_as i s (pool x)"
proof -
  obtain r b1 where f: "FetchPage p b = (r, b1)" by fastforce
  obtain u b2 where u: "UnpinPage p False b1 = (u, b2)" by fastforce
  show ?thesis
  proof (cases r rule: fetch_result_cases)
    case (page f)
    have x: "pool x = b2" "case u of Inl e \<Rightarrow> is_std_exception e | Inr _ \<Rightarrow> True"
      using assms(1) f u page
      by (auto simp: handle_read_def sequential_simps dest: Send_error split: if_splits prod.splits sum.splits)
    let ?s = "goto i (Reading p f []) (s\<lparr>live_pool := Some b1\<rparr>)"
    have 1: "alone 1 i s = Inr ?s" using assms(2-4) f page by (simp add: concurrent_simps)
    have "i < length (clients ?s)" "pc (clients ?s ! i) = Reading p f []" "live_pool ?s = Some b1"
      "length ([] :: byte list) + Suc (PAGE_SIZE - 1) = PAGE_SIZE"
      using assms(2) by (simp_all add: goto_def set_client_def)
    from read_bytes_alone [OF this] obtain s1 where s1: "alone (Suc (PAGE_SIZE - 1)) i ?s = Inr s1" "live_pool s1 = Some b1"
      "length (clients s1) = length (clients ?s)" "pc (clients s1 ! i) = Read_sent p True" by blast
    have "i < length (clients s1)" using s1(3) assms(2) by (simp add: goto_def set_client_def)
    from unpin_alone [OF this s1(2) u x(2)] s1(4) have "ends_as i s1 b2" by simp
    then show ?thesis using ends_as_after [OF 1 ends_as_after [OF s1(1)]] x(1) by simp
  qed (use assms f in \<open>intro ends_asI [where n = 2], auto simp: concurrent_simps handle_read_def sequential_simps dest: Send_error split: if_splits prod.splits sum.splits\<close>)+
qed

text \<open>The frame that a fetch returns is one of the pool and holds a whole page.\<close>

definition whole_page :: "page_id \<Rightarrow> buffer_pool \<Rightarrow> bool" where
  "whole_page p b \<longleftrightarrow> (\<forall>f b1. FetchPage p b = (Inr (Some f), b1) \<longrightarrow>
     nat f < length (pages b1) \<and> length (page_data b1 f) = PAGE_SIZE)"

lemma write_alone:
  assumes "handle_write p \<lparr>pool = b, conn = c\<rparr> = (Inr Continue, x)" "i < length (clients s)"
    "recv_bytes PAGE_SIZE \<lparr>pool = b, conn = c\<rparr> = (Inr (Some bs), y)" "length bs = PAGE_SIZE" "whole_page p b"
    "pc (clients s ! i) = Received (Write p bs)" "live_pool s = Some b"
  shows "ends_as i s (pool x)"
proof -
  have y: "pool y = b" using assms(3) by (auto simp: recv_bytes_def split: prod.splits)
  obtain r b1 where f: "FetchPage p b = (r, b1)" by fastforce
  show ?thesis
  proof (cases r rule: fetch_result_cases)
    case (page f)
    let ?d = "page_data b1 f"
    have d: "nat f < length (pages b1)" "length ?d = PAGE_SIZE" using assms(5) f page \<open>FetchPage p b = (r, b1)\<close> by (auto simp: whole_page_def)
    obtain u b2 where u: "UnpinPage p True (put_data f bs b1) = (u, b2)" by fastforce
    have x: "pool x = b2" "case u of Inl e \<Rightarrow> is_std_exception e | Inr _ \<Rightarrow> True"
      using assms(1,3) \<open>FetchPage p b = (r, b1)\<close> u page y
      by (auto simp: handle_write_def sequential_simps dest: Send_error split: if_splits prod.splits sum.splits)
    let ?s = "goto i (Writing p f bs 0) (s\<lparr>live_pool := Some b1\<rparr>)"
    have 1: "alone 1 i s = Inr ?s" using assms(2,6,7) \<open>FetchPage p b = (r, b1)\<close> page by (simp add: concurrent_simps)
    have "put_data f (take 0 bs @ drop 0 ?d) b1 = b1" by (simp add: put_same)
    then have "i < length (clients ?s)" "pc (clients ?s ! i) = Writing p f bs 0"
      "live_pool ?s = Some (put_data f (take 0 bs @ drop 0 ?d) b1)"
      using assms(2) by (simp_all add: goto_def set_client_def)
    from write_bytes_alone [OF this d(1) assms(4) d(2), of "PAGE_SIZE - 1"] obtain s1 where
      s1: "alone (Suc (PAGE_SIZE - 1)) i ?s = Inr s1" "live_pool s1 = Some (put_data f bs b1)"
      "length (clients s1) = length (clients ?s)" "pc (clients s1 ! i) = Written p" by auto
    have "i < length (clients s1)" using s1(3) assms(2) by (simp add: goto_def set_client_def)
    from unpin_alone [OF this s1(2) u x(2)] s1(4) have "ends_as i s1 b2" by simp
    then show ?thesis using ends_as_after [OF 1 ends_as_after [OF s1(1)]] x(1) by simp
  next
    case null
    then show ?thesis
      using assms f y by (intro ends_asI [where n = 2])
        (clarsimp simp: concurrent_simps handle_write_def sequential_simps dest: Send_error split: if_splits prod.splits sum.splits)
  next
    case (exc e)
    then show ?thesis
      using assms f y by (intro ends_asI [where n = 2])
        (clarsimp simp: concurrent_simps handle_write_def sequential_simps dest: Send_error split: if_splits prod.splits sum.splits)
  qed
qed

lemma allocate_alone:
  assumes "handle_allocate \<lparr>pool = b, conn = c\<rparr> = (Inr Continue, x)" "i < length (clients s)"
    "pc (clients s ! i) = Received Allocate" "live_pool s = Some b"
  shows "ends_as i s (pool x)"
proof -
  obtain r b1 where f: "NewPage b = (r, b1)" by fastforce
  consider (exc) e where "r = Inl e" | (null) p where "r = Inr (p, None)" | (page) p f where "r = Inr (p, Some f)"
    by (metis not_None_eq old.sum.exhaust surj_pair)
  then show ?thesis
  proof cases
    case (page p g)
    obtain u b2 where u: "UnpinPage p True b1 = (u, b2)" by fastforce
    show ?thesis
      using assms f page u
      by (intro ends_asI [where n = 3])
        (auto simp: concurrent_simps handle_allocate_def sequential_simps dest: Send_error split: if_splits prod.splits sum.splits)
  qed (use assms f in \<open>intro ends_asI [where n = 2], auto simp: concurrent_simps handle_allocate_def sequential_simps dest: Send_error split: if_splits prod.splits sum.splits\<close>)+
qed

lemma deallocate_alone:
  assumes "handle_deallocate p \<lparr>pool = b, conn = c\<rparr> = (Inr Continue, x)" "i < length (clients s)"
    "pc (clients s ! i) = Received (Deallocate p)" "live_pool s = Some b"
  shows "ends_as i s (pool x)"
  using assms by (intro ends_asI [where n = 2])
    (auto simp: concurrent_simps handle_deallocate_def sequential_simps dest: Send_error split: if_splits prod.splits sum.splits)

lemma unknown_alone:
  assumes "handle_unknown \<lparr>pool = b, conn = c\<rparr> = (Inr Continue, x)" "i < length (clients s)"
    "pc (clients s ! i) = Received Unknown" "live_pool s = Some b"
  shows "ends_as i s (pool x)"
  using assms by (intro ends_asI [where n = 2])
    (auto simp: concurrent_simps handle_unknown_def sequential_simps dest: Send_error split: if_splits prod.splits sum.splits)

lemma handler_alone:
  assumes h: "handle_request h \<lparr>pool = b, conn = c\<rparr> = (Inr Continue, x)" and i: "i < length (clients s)"
    and r: "request_of h \<lparr>pool = b, conn = c\<rparr> = Some r" "pc (clients s ! i) = Received r" and b: "live_pool s = Some b"
    and w: "whole_page (req_page_id h) b"
  shows "ends_as i s (pool x)"
proof -
  have d: "OpType_code READ_PAGE \<noteq> OpType_code WRITE_PAGE" by simp
  consider "op_type h = OpType_code READ_PAGE" | "op_type h = OpType_code WRITE_PAGE" | "op_type h = OpType_code ALLOCATE_PAGE"
    | "op_type h = OpType_code DEALLOCATE_PAGE" | "\<forall>k. op_type h \<noteq> OpType_code k" by (metis OpType.exhaust)
  then show ?thesis
  proof cases
    case 1
    then show ?thesis using read_alone [OF _ i _ b] h r by (simp add: handle_request_def)
  next
    case 2
    then obtain bs y where bs: "recv_bytes PAGE_SIZE \<lparr>pool = b, conn = c\<rparr> = (Inr (Some bs), y)" "r = Write (req_page_id h) bs"
      using r(1) by (auto split: prod.splits sum.splits option.splits)
    have "length bs = PAGE_SIZE" using recv_bytes_length [OF bs(1)] .
    then show ?thesis using write_alone [OF _ i bs(1) _ w _ b] h r(2) bs(2) 2 by (simp add: handle_request_def)
  next
    case 3
    then show ?thesis using allocate_alone [OF _ i _ b] h r by (simp add: handle_request_def)
  next
    case 4
    then show ?thesis using deallocate_alone [OF _ i _ b] h r by (simp add: handle_request_def)
  next
    case 5
    note n = 5 [THEN spec, of READ_PAGE] 5 [THEN spec, of WRITE_PAGE] 5 [THEN spec, of ALLOCATE_PAGE] 5 [THEN spec, of DEALLOCATE_PAGE]
    then show ?thesis using unknown_alone [OF _ i _ b] h r by (simp add: handle_request_def)
  qed
qed

lemma stop_alone:
  assumes "running s" "live_pool s = Some b" "stopping s = Not_stopped" "bind FlushAllPages (\<lambda>_. BufferPoolManager_destroy) b = (Inr (), b')"
  shows "\<exists>s'. run_service [Stopping, Stopping, Stopping, Stopping] s = Inr s' \<and> live_pool s' = None \<and> \<not> running s' \<and>
     stopping s' = Stopped \<and> closed_disk s' = Some (snd (StorageService_Stop \<lparr>svc_pool = b, is_running = True\<rparr>))"
proof -
  obtain b1 where "FlushAllPages b = (Inr (), b1)" "BufferPoolManager_destroy b1 = (Inr (), b')"
    using assms(4) by (auto simp: bind_def split: prod.splits sum.splits)
  then show ?thesis using assms by (simp add: stop_step_def StorageService_Stop_def bind_def)
qed

section \<open>Properties\<close>

text \<open>Two clients for the witnesses.\<close>

abbreviation sample_scripts :: "request list list" where
  "sample_scripts \<equiv> [[Write 1 zero_page, Read 1], [Allocate, Unknown]]"

lemma sample_scripts_ok:
  "\<exists>b S. pool_st b S (\<lambda>_. 0) \<and> length sample_scripts \<le> frames b \<and> scripts_safe {1} S sample_scripts \<and> separate sample_scripts"
proof -
  obtain b S where b: "pool_st b S (\<lambda>_. 0)" "frames b = 128" "spare_ids 1000 S" "1 \<in> dom S" using sample_store by blast
  have "spare_ids 1 S" by (rule spare_ids_mono [OF b(3)]) simp
  moreover have "length zero_page = PAGE_SIZE" by (simp add: zero_page_def)
  ultimately have "scripts_safe {1} S sample_scripts" using b(4) by (simp add: scripts_safe_def)
  moreover have "separate sample_scripts" by (auto simp: separate_def less_Suc_eq nth_Cons split: nat.splits)
  ultimately show ?thesis using b(1,2) by (intro exI [of _ b] exI [of _ S]) simp
qed

lemma sample_turns: "i < 2 \<Longrightarrow> length (filter (is_turn i) (concat (replicate n [Serve 0 True, Serve 1 True]))) = n"
  by (induction n) (auto simp: less_Suc_eq numeral_2_eq_2)

lemma sample_events:
  "\<forall>e \<in> set (concat (replicate n [Serve 0 True, Serve 1 True])). serving e \<and> \<not> send_fails e \<and> e \<noteq> Stopping"
  by auto



text \<open>Runs in two parts.\<close>

lemma run_service_append:
  "run_service (es @ es') s = (case run_service es s of Inl e \<Rightarrow> Inl e | Inr s' \<Rightarrow> run_service es' s')"
  by (induction es arbitrary: s) (auto split: sum.splits)

lemma race_free_append: "race_free (es @ es') s \<Longrightarrow> run_service es s = Inr s' \<Longrightarrow> \<not> conflict s'"
  by (induction es arbitrary: s) (auto split: sum.splits, cases es', auto)

lemma held_in_range: "pool_st b S P \<Longrightarrow> held b p f \<Longrightarrow> nat f < length (pages b)"
  by (elim pool_stE) (auto simp: held_def bp_inv_def entry_ok_def)

text \<open>A handler takes up a request, and has overwritten the first bytes of a page.\<close>

lemma take_up:
  assumes "i < length (clients s)" "clients s ! i = \<lparr>pc = At_loop, todo = r # rs, answers = as\<rparr>" "running s" "live_pool s = Some b"
    "FetchPage p b = (Inr (Some f), b')" "r = Read p \<and> nx = Reading p f [] \<or> (\<exists>bs. r = Write p bs \<and> nx = Writing p f bs 0)"
  shows "alone 3 i s = Inr (s\<lparr>live_pool := Some b', clients := (clients s)[i := \<lparr>pc = nx, todo = rs, answers = as\<rparr>]\<rparr>)"
  using assms by (auto simp: concurrent_simps)

lemma write_part_alone:
  assumes "i < length (clients s)" "clients s ! i = \<lparr>pc = Writing p f bs n, todo = rs, answers = as\<rparr>"
    "live_pool s = Some (put_data f (take n bs @ drop n d) b)"
    "nat f < length (pages b)" "length bs = PAGE_SIZE" "length d = PAGE_SIZE" "n + m < PAGE_SIZE"
  shows "alone m i s = Inr (s\<lparr>live_pool := Some (put_data f (take (n + m) bs @ drop (n + m) d) b),
     clients := (clients s)[i := \<lparr>pc = Writing p f bs (n + m), todo = rs, answers = as\<rparr>]\<rparr>)"
  using assms
proof (induction m arbitrary: s n)
  case 0
  then have "(clients s)[i := \<lparr>pc = Writing p f bs n, todo = rs, answers = as\<rparr>] = clients s" by (metis list_update_id)
  then show ?case using 0(3) by (cases s) simp
next
  case (Suc m)
  let ?b = "put_data f (take n bs @ drop n d) b"
  let ?s = "s\<lparr>live_pool := Some (put_data f (take (Suc n) bs @ drop (Suc n) d) b),
     clients := (clients s)[i := \<lparr>pc = Writing p f bs (Suc n), todo = rs, answers = as\<rparr>]\<rparr>"
  have "(page_data ?b f)[n := bs ! n] = take (Suc n) bs @ drop (Suc n) d"
    using Suc.prems overwrite_next [of bs d n] by (simp add: page_data_def put_data_def set_frame_def frame_def)
  then have st: "event_step (Serve i True) s = Inr ?s"
    using Suc.prems by (simp add: handler_step_def frame_access_def put_data_twice goto_def set_client_def)
  have "i < length (clients ?s)" "clients ?s ! i = \<lparr>pc = Writing p f bs (Suc n), todo = rs, answers = as\<rparr>"
    "live_pool ?s = Some (put_data f (take (Suc n) bs @ drop (Suc n) d) b)" "Suc n + m < PAGE_SIZE"
    using Suc.prems by simp_all
  from Suc.IH [OF this(1-3) Suc.prems(4-6) this(4)] show ?case using st by simp
qed

lemma clients_end:
  assumes "pool_st b S (\<lambda>_. 0)" "length scripts \<le> frames b" "scripts_safe R S scripts" "\<forall>e \<in> set es. serving e"
    "race_free es (service_of b scripts)"
    "\<forall>i < length scripts. (PAGE_SIZE + 5) * length (scripts ! i) + 2 \<le> length (filter (is_turn i) es)"
  shows "\<exists>s b' S'. run_service es (service_of b scripts) = Inr s \<and> live_pool s = Some b' \<and> pool_st b' S' (\<lambda>_. 0) \<and>
     replay (map snd (history s)) S = Some S' \<and> running s \<and> length (clients s) = length scripts \<and>
     (\<forall>i < length scripts. pc (clients s ! i) = Closed) \<and>
     answers_ok (\<forall>e \<in> set es. \<not> send_fails e) scripts (history s) (clients s)"
proof -
  let ?s = "service_of b scripts"
  have start: "length (clients ?s) = length scripts" "\<forall>i < length scripts. turns (clients ?s ! i) = (PAGE_SIZE + 5) * length (scripts ! i) + 2"
    by (simp_all add: service_of_def turns_def)
  obtain s where s: "run_service es ?s = Inr s" "service_ok R S scripts (\<forall>e \<in> set es. \<not> send_fails e) s"
    "length (clients s) = length scripts"
    "\<forall>i < length scripts. turns (clients s ! i) \<le> turns (clients ?s ! i) - length (filter (is_turn i) es)"
    using run_ok [OF service_ok_start [OF assms(1-3)] assms(4,5)] start(1) by auto
  have closed: "pc (clients s ! i) = Closed" if "i < length scripts" for i
  proof -
    have "turns (clients s ! i) = 0" using s(4) start(2) assms(6) that by (metis diff_is_0_eq le_zero_eq)
    then show ?thesis by (simp add: turns_0)
  qed
  obtain b' S' T P' where b: "live_pool s = Some b'" "pool_st b' T P'" "replay (map snd (history s)) S = Some S'"
    "pool_view b' P' (clients s)" "answers_ok (\<forall>e \<in> set es. \<not> send_fails e) scripts (history s) (clients s)" "copies S' T (clients s)"
    using s(2) by (rule service_okE)
  have "T q = S' q" for q using b(6) s(3) closed by (simp add: copies_def)
  then have "T = S'" by (simp add: fun_eq_iff)
  moreover have "P' q = 0" for q using b(4) s(3) closed by (simp add: pool_view_def tally_def pin_of_def)
  then have "P' = (\<lambda>_. 0)" by (simp add: fun_eq_iff)
  moreover have "running s" using s(2) by (simp add: service_ok_def)
  ultimately show ?thesis using s(1,3) b closed by blast
qed

lemma handler_keeps_stopping: "handler_step i ok s = Inr s' \<Longrightarrow> stopping s' = stopping s"
  by (auto simp: handler_step_def call_pool_def pool_call_def frame_access_def fail_def goto_def set_client_def
      log_effect_def deliver_def Let_def
      split: handler_pc.splits list.splits request.splits option.splits prod.splits sum.splits if_splits)

lemma run_keeps_stopping: "\<forall>e \<in> set es. serving e \<Longrightarrow> run_service es s = Inr s' \<Longrightarrow> stopping s' = stopping s"
proof (induction es arbitrary: s)
  case (Cons e es)
  from Cons.prems(1) obtain i ok where e: "e = Serve i ok" by (cases e) auto
  from Cons.prems(2) obtain s1 where s1: "event_step e s = Inr s1" "run_service es s1 = Inr s'" by (auto split: sum.splits)
  have "stopping s1 = stopping s" using s1(1) e handler_keeps_stopping by (auto split: if_splits)
  then show ?case using Cons.IH [OF _ s1(2)] Cons.prems(1) by simp
qed simp



text \<open>
  C30. A defect: \<^verbatim>\<open>HandleClient\<close> copies pages without a latch, so a client that reads a page while
  another one overwrites it can be sent a page that was never stored. For every position \<open>k\<close> there is
  an interleaving of one writer and one reader, both well-behaved, in which the reader is sent the
  first \<open>k\<close> bytes of the new page and the rest of the old one; on the way the two handlers hold the
  page together.
\<close>

theorem reader_sees_torn_page:
  assumes "pool_st b S (\<lambda>_. 0)" "2 \<le> frames b" "S p = Some d" "length d' = PAGE_SIZE"
    "take k d' \<noteq> take k d" "drop k d' \<noteq> drop k d" "bytes = take k d' @ drop k d"
    "es = replicate (3 + k) (Serve 0 True) @ replicate 3 (Serve 1 True) @ replicate PAGE_SIZE (Serve 1 True)"
  shows "\<exists>s. run_service es (service_of b [[Write p d'], [Read p]]) = Inr s \<and>
     answers (clients s ! 1) = [Page_bytes bytes] \<and> bytes \<noteq> d \<and> bytes \<noteq> d' \<and>
     \<not> race_free es (service_of b [[Write p d'], [Read p]])"
proof -
  have len: "length d = PAGE_SIZE" by (rule pp.st_length [OF assms(1,3)])
  have k: "k < PAGE_SIZE"
  proof (rule ccontr)
    assume "\<not> k < PAGE_SIZE"
    then show False using assms(4,6) len by simp
  qed
  let ?s = "service_of b [[Write p d'], [Read p]]"
  have p: "p \<in> dom S" using assms(3) by blast
  have "npin (\<lambda>_. 0) < frames b" using assms(2) by (simp add: npin_def)
  from pp.fetch_ok [OF assms(1) p this] obtain f b1 where b1: "FetchPage p b = (Inr (Some f), b1)"
    "pool_st b1 S ((\<lambda>_. 0)(p := 1))" "held b1 p f" "frames b1 = frames b" by auto
  let ?w = "\<lambda>n. \<lparr>pc = Writing p f d' n, todo = [], answers = []\<rparr>" and ?r = "\<lambda>x. \<lparr>pc = x, todo = [], answers = []\<rparr>"
  let ?s1 = "?s\<lparr>live_pool := Some b1, clients := [?w 0, \<lparr>pc = At_loop, todo = [Read p], answers = []\<rparr>]\<rparr>"
  have r1: "alone 3 0 ?s = Inr ?s1"
    using take_up [of 0 ?s "Write p d'" "[]" "[]" b p f b1 "Writing p f d' 0"] b1(1) by (simp add: service_of_def)
  have d: "page_data b1 f = d" using pp.get_ok [OF b1(2,3)] assms(3) by simp
  have "put_data f (take 0 d' @ drop 0 d) b1 = b1" using d put_same [of f b1] by simp
  moreover have inr: "nat f < length (pages b1)" using b1(2,3) by (rule held_in_range)
  ultimately have r2: "alone k 0 ?s1 = Inr (?s1\<lparr>live_pool := Some (put_data f bytes b1),
       clients := [?w k, \<lparr>pc = At_loop, todo = [Read p], answers = []\<rparr>]\<rparr>)"
    using write_part_alone [of 0 ?s1 p f d' 0 "[]" "[]" d b1 k] assms(4,7) len k by simp
  let ?b2 = "put_data f bytes b1"
  have lb: "length bytes = PAGE_SIZE" using assms(4,7) len k by simp
  have b2: "pool_st ?b2 (S(p \<mapsto> bytes)) ((\<lambda>_. 0)(p := 1))" "frames ?b2 = frames b1"
    using pp.put_ok [OF b1(2,3) lb] by blast+
  have "npin ((\<lambda>_. 0)(p := 1)) < frames ?b2" using b2(2) b1(4) assms(2) by (simp add: npin_def)
  moreover have "p \<in> dom (S(p \<mapsto> bytes))" by simp
  ultimately obtain g b3 where b3: "FetchPage p ?b2 = (Inr (Some g), b3)" "held b3 p g"
    "pool_st b3 (S(p \<mapsto> bytes)) (((\<lambda>_. 0)(p := 1))(p := ((\<lambda>_. 0)(p := 1)) p + 1))"
    using pp.fetch_ok [OF b2(1)] by blast
  have d3: "page_data b3 g = bytes" using pp.get_ok [OF b3(3,2)] by simp
  let ?s2 = "?s1\<lparr>live_pool := Some ?b2, clients := [?w k, \<lparr>pc = At_loop, todo = [Read p], answers = []\<rparr>]\<rparr>"
  let ?s3 = "?s2\<lparr>live_pool := Some b3, clients := [?w k, ?r (Reading p g [])]\<rparr>"
  have r3: "alone 3 1 ?s2 = Inr ?s3"
    using take_up [of 1 ?s2 "Read p" "[]" "[]" ?b2 p g b3 "Reading p g []"] b3(1) by (simp add: service_of_def)
  have "Suc (PAGE_SIZE - 1) = PAGE_SIZE" by simp
  then obtain s4 where s4: "alone PAGE_SIZE 1 ?s3 = Inr s4" "answers (clients s4 ! 1) = [Page_bytes bytes]"
    using read_bytes_alone [of 1 ?s3 p g "[]" b3 "PAGE_SIZE - 1"] d3 lb by auto
  let ?e1 = "replicate (3 + k) (Serve 0 True) @ replicate 3 (Serve 1 True)"
  have "alone (3 + k) 0 ?s = Inr ?s2" using r1 r2 by (simp only: alone_plus old.sum.simps(6))
  then have r: "run_service ?e1 ?s = Inr ?s3"
    using r3 unfolding run_service_append alone_run [symmetric] by simp
  have "run_service es ?s = Inr s4"
    using r s4(1) unfolding assms(8) append_assoc [symmetric] run_service_append [of ?e1] alone_run by simp
  moreover have "conflict ?s3" unfolding conflict_def by (rule exI [of _ 0]) (simp add: exI [of _ 1])
  then have "\<not> race_free es ?s"
    using race_free_append [of ?e1 _ ?s, OF _ r] unfolding assms(8) append_assoc [symmetric] by blast
  moreover have "bytes \<noteq> d" "bytes \<noteq> d'"
  proof -
    have "take k bytes = take k d'" "drop k bytes = drop k d" using assms(4,7) k by simp_all
    then show "bytes \<noteq> d" "bytes \<noteq> d'" using assms(5,6) by auto
  qed
  ultimately show ?thesis using s4(2) by blast
qed

theorem reader_sees_torn_page_witness:
  "\<exists>b s es d. length d = PAGE_SIZE \<and> run_service es (service_of b [[Write 1 (map ((+) 1) d)], [Read 1]]) = Inr s \<and>
     answers (clients s ! 1) = [Page_bytes (take 2048 (map ((+) 1) d) @ drop 2048 d)]"
proof -
  obtain b S where b: "pool_st b S (\<lambda>_. 0)" "frames b = 128" "1 \<in> dom S" using sample_store by blast
  then obtain d where d: "S 1 = Some d" by blast
  have len: "length d = PAGE_SIZE" by (rule pp.st_length [OF b(1) d])
  let ?d' = "map ((+) 1) d"
  have "take 2048 ?d' ! 0 \<noteq> take 2048 d ! 0" "drop 2048 ?d' ! 0 \<noteq> drop 2048 d ! 0"
    using len by (simp_all add: PAGE_SIZE_def)
  then have ne: "take 2048 ?d' \<noteq> take 2048 d" "drop 2048 ?d' \<noteq> drop 2048 d" by metis+
  have "2 \<le> frames b" "length ?d' = PAGE_SIZE" using b(2) len by simp_all
  from reader_sees_torn_page [OF b(1) this(1) d this(2) ne refl refl] show ?thesis using len by blast
qed

text \<open>
  C32. A defect of \<open>Stop\<close>: it does not wait for the handlers. When a connection is open and waits in
  \<^verbatim>\<open>Recv\<close> while the service is stopped, the next page request that arrives on it dereferences the
  destroyed buffer pool.
\<close>

theorem request_after_stop_crashes:
  assumes "pool_st b S P" "running s" "live_pool s = Some b" "stopping s = Not_stopped" "i < length (clients s)"
    "pc (clients s ! i) = At_recv" "todo (clients s ! i) = r # rs" "r \<noteq> Unknown"
  shows "run_service [Stopping, Stopping, Stopping, Stopping, Serve i True, Serve i True] s = Inl NullDeref"
proof -
  obtain fl where fl: "bp_inv b fl" using assms(1) by (rule pool_stE)
  obtain c where c: "FlushAllPages b = (Inr (), c)" "op_ok b fl FlushAll RUnit c fl" using flush_all_sim [OF fl] by blast
  obtain d where d: "FlushAllPages c = (Inr (), d)" using flush_all_sim [of c fl] op_ok_frames [OF c(2)] by blast
  show ?thesis
    using assms(2-8) c(1) d
    by (cases r) (simp_all add: stop_step_def BufferPoolManager_destroy_def handler_step_def set_client_def call_pool_def pool_call_def)
qed

theorem request_after_stop_crashes_witness:
  "\<exists>s. running s \<and> live_pool s \<noteq> None \<and>
     run_service [Stopping, Stopping, Stopping, Stopping, Serve 0 True, Serve 0 True] s = Inl NullDeref"
proof -
  obtain b S where b: "pool_st b S (\<lambda>_. 0)" using sample_store by blast
  let ?s = "\<lparr>running = True, live_pool = Some b, closed_disk = None, stopping = Not_stopped,
      clients = [\<lparr>pc = At_recv, todo = [Read 1], answers = []\<rparr>], history = []\<rparr>"
  have "running ?s" "live_pool ?s = Some b" "stopping ?s = Not_stopped" "0 < length (clients ?s)"
    "pc (clients ?s ! 0) = At_recv" "todo (clients ?s ! 0) = Read 1 # []" "Read 1 \<noteq> Unknown" by simp_all
  from request_after_stop_crashes [OF b this] show ?thesis by (intro exI [of _ ?s]) simp
qed

end
