(* ===== verification/Handles.thy ===== *)
theory Handles
  imports Main
begin

text \<open>
  Variables that own handles of the operating system (descriptors of sockets, threads). A world has
  the variables that are alive, each with the value of its handle, the handles that are open, and a
  flag that is set when a handle is released that is not open. One value of the handle means none;
  it is the parameter \<open>null\<close>. The lemmas are about the patterns that the classes of \<open>Sockets\<close> and
  \<open>Threads\<close> share: releasing what a variable has, storing what was acquired, moving from one
  variable to another, and the end of a variable's life.
\<close>

record 'h world =
  object :: "nat \<Rightarrow> 'h option"
  is_open :: "'h \<Rightarrow> bool"
  misused :: bool

definition no_objects :: "'h world" where
  "no_objects = \<lparr>object = Map.empty, is_open = (\<lambda>_. False), misused = False\<rparr>"

definition os_release :: "'h \<Rightarrow> 'h world \<Rightarrow> 'h world" where
  "os_release h w = (if is_open w h then w\<lparr>is_open := (is_open w)(h := False)\<rparr> else w\<lparr>misused := True\<rparr>)"

text \<open>A system call has returned \<open>h\<close>.\<close>

definition os_acquired :: "'h \<Rightarrow> 'h \<Rightarrow> 'h world \<Rightarrow> 'h world" where
  "os_acquired null h w = (if h = null then w else w\<lparr>is_open := (is_open w)(h := True)\<rparr>)"

definition handle_of :: "'h \<Rightarrow> nat \<Rightarrow> 'h world \<Rightarrow> 'h" where
  "handle_of null v w = (case object w v of None \<Rightarrow> null | Some h \<Rightarrow> h)"

definition set_handle :: "nat \<Rightarrow> 'h \<Rightarrow> 'h world \<Rightarrow> 'h world" where
  "set_handle v h w = w\<lparr>object := (object w)(v \<mapsto> h)\<rparr>"

definition ends_life :: "nat \<Rightarrow> 'h world \<Rightarrow> 'h world" where
  "ends_life v w = w\<lparr>object := (object w)(v := None)\<rparr>"

definition alive :: "nat \<Rightarrow> 'h world \<Rightarrow> bool" where
  "alive v w \<longleftrightarrow> object w v \<noteq> None"

definition fresh_handle :: "'h \<Rightarrow> 'h \<Rightarrow> 'h world \<Rightarrow> bool" where
  "fresh_handle null h w \<longleftrightarrow> h = null \<or> \<not> is_open w h"

definition release :: "'h \<Rightarrow> nat \<Rightarrow> 'h world \<Rightarrow> 'h world" where
  "release null v w =
     (if handle_of null v w \<noteq> null then set_handle v null (os_release (handle_of null v w) w) else w)"

lemmas handle_defs = no_objects_def os_release_def os_acquired_def handle_of_def set_handle_def
  ends_life_def alive_def fresh_handle_def release_def

text \<open>
  Two invariants: every valid variable has an open handle of its own and nothing was misused; every
  open handle has an owner.
\<close>

definition sole :: "'h \<Rightarrow> 'h world \<Rightarrow> bool" where
  "sole null w \<longleftrightarrow> \<not> misused w \<and> (\<forall>v h. object w v = Some h \<and> h \<noteq> null \<longrightarrow> is_open w h) \<and>
     (\<forall>v u h. object w v = Some h \<and> object w u = Some h \<and> h \<noteq> null \<longrightarrow> v = u)"

definition kept :: "'h \<Rightarrow> 'h world \<Rightarrow> bool" where
  "kept null w \<longleftrightarrow> (\<forall>h. is_open w h \<longrightarrow> h \<noteq> null \<and> (\<exists>v. object w v = Some h))"

lemma soleD:
  assumes "sole null w"
  shows "\<not> misused w"
    and "object w v = Some h \<Longrightarrow> h \<noteq> null \<Longrightarrow> is_open w h"
    and "object w v = Some h \<Longrightarrow> object w u = Some h \<Longrightarrow> h \<noteq> null \<Longrightarrow> v = u"
  using assms unfolding sole_def by blast+

lemma soleI:
  assumes "\<not> misused w"
    and "\<And>v h. object w v = Some h \<Longrightarrow> h \<noteq> null \<Longrightarrow> is_open w h"
    and "\<And>v u h. object w v = Some h \<Longrightarrow> object w u = Some h \<Longrightarrow> h \<noteq> null \<Longrightarrow> v = u"
  shows "sole null w"
  using assms unfolding sole_def by blast

lemma keptE:
  assumes "kept null w" "is_open w h"
  obtains v where "h \<noteq> null" "object w v = Some h"
  using assms unfolding kept_def by blast

lemma keptI:
  assumes "\<And>h. is_open w h \<Longrightarrow> \<exists>v. h \<noteq> null \<and> object w v = Some h"
  shows "kept null w"
  using assms unfolding kept_def by blast

lemma start_ok: "sole null no_objects" "kept null no_objects"
  by (simp_all add: no_objects_def sole_def kept_def)

section \<open>Release\<close>

lemma release_valid:
  assumes "sole null w" "object w v = Some h" "h \<noteq> null"
  shows "release null v w = w\<lparr>object := (object w)(v \<mapsto> null), is_open := (is_open w)(h := False)\<rparr>"
  using assms soleD(2)[OF assms] by (simp add: release_def set_handle_def os_release_def handle_of_def)

lemma release_null: "handle_of null v w = null \<Longrightarrow> release null v w = w"
  by (simp add: release_def)

lemma handle_cases:
  obtains (null) "handle_of null v w = null" | (valid) h where "object w v = Some h" "h \<noteq> null"
  by (cases "object w v") (auto simp: handle_of_def)

lemma sole_release:
  assumes "sole null w" shows "sole null (release null v w)"
proof (cases rule: handle_cases [of null v w])
  case (valid h)
  show ?thesis unfolding release_valid[OF assms valid]
  proof (rule soleI, goal_cases)
    case 1 then show ?case using soleD(1)[OF assms] by simp
  next
    case (2 u g) then show ?case using soleD(2)[OF assms, of u g] soleD(3)[OF assms, of u g v] valid
      by (auto split: if_splits)
  next
    case (3 u x g) then show ?case using soleD(3)[OF assms, of u g x] by (auto split: if_splits)
  qed
qed (simp add: release_null assms)

lemma kept_release:
  assumes "sole null w" "kept null w" shows "kept null (release null v w)"
proof (cases rule: handle_cases [of null v w])
  case (valid h)
  show ?thesis unfolding release_valid[OF assms(1) valid]
  proof (rule keptI, goal_cases)
    case (1 g)
    then have g: "is_open w g" "g \<noteq> h" by (simp_all split: if_splits)
    then obtain x where "g \<noteq> null" "object w x = Some g" using keptE[OF assms(2)] by blast
    then show ?case using valid g(2) by (intro exI[of _ x]) auto
  qed
qed (simp add: release_null assms)

lemma handle_of_release [simp]: "handle_of null v (release null v w) = null"
  by (simp add: release_def handle_of_def set_handle_def)

lemma handle_of_release_other: "u \<noteq> v \<Longrightarrow> handle_of null u (release null v w) = handle_of null u w"
  by (simp add: release_def handle_of_def set_handle_def os_release_def)

lemma handle_of_dead: "\<not> alive v w \<Longrightarrow> handle_of null v w = null"
  by (simp add: alive_def handle_of_def)

section \<open>Acquire\<close>

lemma sole_acquire:
  assumes "sole null w" "fresh_handle null h w"
  shows "sole null (set_handle v h (os_acquired null h w))"
proof (rule soleI, goal_cases)
  case 1 then show ?case using soleD(1)[OF assms(1)] by (simp add: set_handle_def os_acquired_def)
next
  case (2 u g) then show ?case
    using soleD(2)[OF assms(1), of u g] by (auto simp: set_handle_def os_acquired_def split: if_splits)
next
  case (3 u x g) then show ?case
    using soleD(2)[OF assms(1), of u g] soleD(2)[OF assms(1), of x g] soleD(3)[OF assms(1), of u g x] assms(2)
    by (auto simp: set_handle_def os_acquired_def fresh_handle_def split: if_splits)
qed

lemma kept_acquire:
  assumes "kept null w" "handle_of null v w = null"
  shows "kept null (set_handle v h (os_acquired null h w))"
proof (rule keptI)
  fix g assume g: "is_open (set_handle v h (os_acquired null h w)) g"
  show "\<exists>x. g \<noteq> null \<and> object (set_handle v h (os_acquired null h w)) x = Some g"
  proof (cases "is_open w g")
    case True
    then obtain x where x: "g \<noteq> null" "object w x = Some g" using keptE[OF assms(1)] by blast
    then have "x \<noteq> v" using assms(2) by (auto simp: handle_of_def)
    with x show ?thesis by (intro exI[of _ x]) (simp add: set_handle_def os_acquired_def)
  next
    case False
    then have "g = h" "h \<noteq> null" using g by (auto simp: set_handle_def os_acquired_def split: if_splits)
    then show ?thesis by (intro exI[of _ v]) (simp add: set_handle_def)
  qed
qed

lemma set_null: "set_handle v null (os_acquired null null w) = set_handle v null w"
  by (simp add: os_acquired_def)

lemma sole_null: "sole null w \<Longrightarrow> sole null (set_handle v null w)"
  using sole_acquire[of null w null v] by (simp add: fresh_handle_def set_null)

lemma kept_null: "kept null w \<Longrightarrow> handle_of null v w = null \<Longrightarrow> kept null (set_handle v null w)"
  using kept_acquire[of null w v null] by (simp add: set_null)

section \<open>Moves and ends of life\<close>

lemma sole_move:
  assumes "sole null w" "v \<noteq> u"
  shows "sole null (set_handle u null (set_handle v (handle_of null u w) w))"
proof (rule soleI, goal_cases)
  case 1 then show ?case using soleD(1)[OF assms(1)] by (simp add: set_handle_def)
next
  case (2 x g) then show ?case
    using soleD(2)[OF assms(1), of x g] soleD(2)[OF assms(1), of u g]
    by (auto simp: set_handle_def handle_of_def split: if_splits option.splits)
next
  case (3 x y g) then show ?case
    using soleD(3)[OF assms(1), of x g y] soleD(3)[OF assms(1), of x g u] soleD(3)[OF assms(1), of y g u]
    by (auto simp: set_handle_def handle_of_def split: if_splits option.splits)
qed

lemma kept_move:
  assumes "kept null w" "handle_of null v w = null" "v \<noteq> u"
  shows "kept null (set_handle u null (set_handle v (handle_of null u w) w))"
proof (rule keptI)
  fix g assume "is_open (set_handle u null (set_handle v (handle_of null u w) w)) g"
  then obtain x where x: "g \<noteq> null" "object w x = Some g" using keptE[OF assms(1)] by (auto simp: set_handle_def)
  have "x \<noteq> v" using x assms(2) by (auto simp: handle_of_def)
  with x assms(3) show "\<exists>y. g \<noteq> null \<and> object (set_handle u null (set_handle v (handle_of null u w) w)) y = Some g"
    by (intro exI[of _ "if x = u then v else x"]) (auto simp: set_handle_def handle_of_def)
qed

lemma sole_end:
  assumes "sole null w" shows "sole null (ends_life v w)"
proof (rule soleI, goal_cases)
  case 1 then show ?case using soleD(1)[OF assms] by (simp add: ends_life_def)
next
  case (2 u g) then show ?case using soleD(2)[OF assms, of u g] by (auto simp: ends_life_def split: if_splits)
next
  case (3 u x g) then show ?case using soleD(3)[OF assms, of u g x] by (auto simp: ends_life_def split: if_splits)
qed

lemma kept_end:
  assumes "kept null w" "handle_of null v w = null"
  shows "kept null (ends_life v w)"
proof (rule keptI)
  fix g assume "is_open (ends_life v w) g"
  then obtain x where x: "g \<noteq> null" "object w x = Some g" using keptE[OF assms(1)] by (auto simp: ends_life_def)
  have "x \<noteq> v" using x assms(2) by (auto simp: handle_of_def)
  with x show "\<exists>x. g \<noteq> null \<and> object (ends_life v w) x = Some g"
    by (intro exI[of _ x]) (simp add: ends_life_def)
qed

end
