(* ===== verification/Sockets.thy ===== *)
theory Sockets
  imports Handles
begin

text \<open>
  Ownership of descriptors: the classes \<^verbatim>\<open>Socket\<close> and \<^verbatim>\<open>ServerSocket\<close> of
  \<^verbatim>\<open>common/include/common/socket.hpp\<close> and \<^verbatim>\<open>common/src/socket.cpp\<close> (POSIX branch). Objects are
  numbered variables that are alive or not; the world also has the descriptors that the operating
  system has open. What the system calls return is an argument. The result: every open descriptor
  belongs to exactly one live object, none is closed twice, and none is left open when the objects
  are gone, also when \<open>Connect\<close> and \<open>Listen\<close> fail half way. \<open>Send\<close> and \<open>Recv\<close> are in
  \<open>Storage_Service\<close>.
\<close>

section \<open>Descriptors\<close>

type_synonym fd = int

definition INVALID_SOCKET :: fd where
  "INVALID_SOCKET = -1"

abbreviation fd_of :: "nat \<Rightarrow> fd world \<Rightarrow> fd" where
  "fd_of \<equiv> handle_of INVALID_SOCKET"

abbreviation set_fd :: "nat \<Rightarrow> fd \<Rightarrow> fd world \<Rightarrow> fd world" where
  "set_fd \<equiv> set_handle"

abbreviation os_close :: "fd \<Rightarrow> fd world \<Rightarrow> fd world" where
  "os_close \<equiv> os_release"

text \<open>\<^verbatim>\<open>socket\<close> or \<^verbatim>\<open>accept\<close> has returned \<open>f\<close>.\<close>

abbreviation os_opened :: "fd \<Rightarrow> fd world \<Rightarrow> fd world" where
  "os_opened \<equiv> os_acquired INVALID_SOCKET"

section \<open>Socket\<close>

definition Socket_IsValid :: "nat \<Rightarrow> fd world \<Rightarrow> bool" where
  "Socket_IsValid v w \<longleftrightarrow> fd_of v w \<noteq> INVALID_SOCKET"

definition Socket_close :: "nat \<Rightarrow> fd world \<Rightarrow> fd world" where
  "Socket_close v w = (if Socket_IsValid v w then set_fd v INVALID_SOCKET (os_close (fd_of v w) w) else w)"

definition Socket_new :: "nat \<Rightarrow> fd world \<Rightarrow> fd world" where
  "Socket_new v = set_fd v INVALID_SOCKET"

definition Socket_of_fd :: "nat \<Rightarrow> fd \<Rightarrow> fd world \<Rightarrow> fd world" where
  "Socket_of_fd v f = set_fd v f"

definition Socket_destroy :: "nat \<Rightarrow> fd world \<Rightarrow> fd world" where
  "Socket_destroy v w = ends_life v (Socket_close v w)"

definition Socket_move :: "nat \<Rightarrow> nat \<Rightarrow> fd world \<Rightarrow> fd world" where
  "Socket_move v other w = set_fd other INVALID_SOCKET (set_fd v (fd_of other w) w)"

definition Socket_move_assign :: "nat \<Rightarrow> nat \<Rightarrow> fd world \<Rightarrow> fd world" where
  "Socket_move_assign v other w =
     (if v \<noteq> other then
        (let w1 = Socket_close v w in set_fd other INVALID_SOCKET (set_fd v (fd_of other w1) w1))
      else w)"

text \<open>
  \<open>addr\<close>: \<^verbatim>\<open>getaddrinfo\<close> succeeds; \<open>f\<close>: the result of \<^verbatim>\<open>socket\<close>; \<open>con\<close>: \<^verbatim>\<open>connect\<close> succeeds.
\<close>

definition Connect :: "nat \<Rightarrow> bool \<Rightarrow> fd \<Rightarrow> bool \<Rightarrow> fd world \<Rightarrow> bool \<times> fd world" where
  "Connect v addr f con w =
     (let w1 = Socket_close v w in
      if \<not> addr then (False, w1)
      else
        (let w2 = set_fd v f (os_opened f w1) in
         if fd_of v w2 = INVALID_SOCKET then (False, w2)
         else if \<not> con then (False, Socket_close v w2)
         else (True, w2)))"

section \<open>ServerSocket\<close>

definition ServerSocket_IsValid :: "nat \<Rightarrow> fd world \<Rightarrow> bool" where
  "ServerSocket_IsValid v w \<longleftrightarrow> fd_of v w \<noteq> INVALID_SOCKET"

definition ServerSocket_Close :: "nat \<Rightarrow> fd world \<Rightarrow> fd world" where
  "ServerSocket_Close v w = (if ServerSocket_IsValid v w then set_fd v INVALID_SOCKET (os_close (fd_of v w) w) else w)"

definition ServerSocket_new :: "nat \<Rightarrow> fd world \<Rightarrow> fd world" where
  "ServerSocket_new v = set_fd v INVALID_SOCKET"

definition ServerSocket_destroy :: "nat \<Rightarrow> fd world \<Rightarrow> fd world" where
  "ServerSocket_destroy v w = ends_life v (ServerSocket_Close v w)"

definition ServerSocket_move :: "nat \<Rightarrow> nat \<Rightarrow> fd world \<Rightarrow> fd world" where
  "ServerSocket_move v other w = set_fd other INVALID_SOCKET (set_fd v (fd_of other w) w)"

definition ServerSocket_move_assign :: "nat \<Rightarrow> nat \<Rightarrow> fd world \<Rightarrow> fd world" where
  "ServerSocket_move_assign v other w =
     (if v \<noteq> other then
        (let w1 = ServerSocket_Close v w in set_fd other INVALID_SOCKET (set_fd v (fd_of other w1) w1))
      else w)"

text \<open>\<open>f\<close>: the result of \<^verbatim>\<open>socket\<close>; \<open>bnd\<close>, \<open>lst\<close>: \<^verbatim>\<open>bind\<close> and \<^verbatim>\<open>listen\<close> succeed.\<close>

definition Listen :: "nat \<Rightarrow> fd \<Rightarrow> bool \<Rightarrow> bool \<Rightarrow> fd world \<Rightarrow> bool \<times> fd world" where
  "Listen v f bnd lst w =
     (let w1 = ServerSocket_Close v w; w2 = set_fd v f (os_opened f w1) in
      if fd_of v w2 = INVALID_SOCKET then (False, w2)
      else if \<not> bnd then (False, ServerSocket_Close v w2)
      else if \<not> lst then (False, ServerSocket_Close v w2)
      else (True, w2))"

text \<open>\<open>f\<close>: the result of \<^verbatim>\<open>accept\<close>, if it is called; \<open>client\<close>: the variable of the new socket.\<close>

definition Accept :: "nat \<Rightarrow> nat \<Rightarrow> fd \<Rightarrow> fd world \<Rightarrow> fd world" where
  "Accept v client f w =
     (if \<not> ServerSocket_IsValid v w then Socket_of_fd client INVALID_SOCKET w
      else if f = INVALID_SOCKET then Socket_of_fd client INVALID_SOCKET w
      else Socket_of_fd client f (os_opened f w))"

section \<open>Programs that use sockets\<close>

datatype socket_op =
    New nat | Destroy nat | Close_it nat | Move nat nat | Move_assign nat nat | Connect_to nat bool fd bool
  | Server_new nat | Server_destroy nat | Server_close nat | Server_move nat nat | Server_move_assign nat nat
  | Listen_on nat fd bool bool | Accept_on nat nat fd

fun perform :: "socket_op \<Rightarrow> fd world \<Rightarrow> fd world" where
  "perform (New v) w = Socket_new v w"
| "perform (Destroy v) w = Socket_destroy v w"
| "perform (Close_it v) w = Socket_close v w"
| "perform (Move v u) w = Socket_move v u w"
| "perform (Move_assign v u) w = Socket_move_assign v u w"
| "perform (Connect_to v addr f con) w = snd (Connect v addr f con w)"
| "perform (Server_new v) w = ServerSocket_new v w"
| "perform (Server_destroy v) w = ServerSocket_destroy v w"
| "perform (Server_close v) w = ServerSocket_Close v w"
| "perform (Server_move v u) w = ServerSocket_move v u w"
| "perform (Server_move_assign v u) w = ServerSocket_move_assign v u w"
| "perform (Listen_on v f bnd lst) w = snd (Listen v f bnd lst w)"
| "perform (Accept_on v c f) w = Accept v c f w"

text \<open>
  What C++ and the operating system guarantee: a constructor runs on a variable that is not alive,
  other methods on live objects, and a descriptor that is returned was not open.
\<close>

fun possible :: "socket_op \<Rightarrow> fd world \<Rightarrow> bool" where
  "possible (New v) w \<longleftrightarrow> \<not> alive v w"
| "possible (Server_new v) w \<longleftrightarrow> \<not> alive v w"
| "possible (Destroy v) w \<longleftrightarrow> alive v w"
| "possible (Server_destroy v) w \<longleftrightarrow> alive v w"
| "possible (Close_it v) w \<longleftrightarrow> alive v w"
| "possible (Server_close v) w \<longleftrightarrow> alive v w"
| "possible (Move v u) w \<longleftrightarrow> \<not> alive v w \<and> alive u w"
| "possible (Server_move v u) w \<longleftrightarrow> \<not> alive v w \<and> alive u w"
| "possible (Move_assign v u) w \<longleftrightarrow> alive v w \<and> alive u w"
| "possible (Server_move_assign v u) w \<longleftrightarrow> alive v w \<and> alive u w"
| "possible (Connect_to v addr f con) w \<longleftrightarrow> alive v w \<and> fresh_handle INVALID_SOCKET f (Socket_close v w)"
| "possible (Listen_on v f bnd lst) w \<longleftrightarrow> alive v w \<and> fresh_handle INVALID_SOCKET f (ServerSocket_Close v w)"
| "possible (Accept_on v c f) w \<longleftrightarrow> alive v w \<and> \<not> alive c w \<and> fresh_handle INVALID_SOCKET f w"

inductive socket_run :: "fd world \<Rightarrow> bool" where
  start: "socket_run no_objects"
| step: "socket_run w \<Longrightarrow> possible x w \<Longrightarrow> socket_run (perform x w)"

lemma Socket_close_release: "Socket_close = release INVALID_SOCKET"
  by (simp add: fun_eq_iff Socket_close_def Socket_IsValid_def release_def)

text \<open>\<open>ServerSocket\<close> has the same code as \<open>Socket\<close> for its descriptor.\<close>

lemma server_same [simp]:
  "ServerSocket_IsValid = Socket_IsValid" "ServerSocket_Close = Socket_close"
  "ServerSocket_new = Socket_new" "ServerSocket_destroy = Socket_destroy" "ServerSocket_move = Socket_move"
  "ServerSocket_move_assign = Socket_move_assign"
  by (simp_all add: fun_eq_iff ServerSocket_IsValid_def Socket_IsValid_def ServerSocket_Close_def
      Socket_close_def ServerSocket_new_def Socket_new_def ServerSocket_destroy_def Socket_destroy_def
      ServerSocket_move_def Socket_move_def ServerSocket_move_assign_def Socket_move_assign_def)

definition owned :: "fd world \<Rightarrow> bool" where
  "owned w \<longleftrightarrow> sole INVALID_SOCKET w \<and> kept INVALID_SOCKET w"

lemma owned_close: "owned w \<Longrightarrow> owned (Socket_close v w)"
  by (simp add: owned_def Socket_close_release sole_release kept_release)

lemma fd_of_close [simp]: "fd_of v (Socket_close v w) = INVALID_SOCKET"
  by (simp add: Socket_close_release)

lemma owned_open:
  "owned w \<Longrightarrow> fd_of v w = INVALID_SOCKET \<Longrightarrow> fresh_handle INVALID_SOCKET f w \<Longrightarrow> owned (set_fd v f (os_opened f w))"
  by (simp add: owned_def sole_acquire kept_acquire)

lemma owned_invalid: "owned w \<Longrightarrow> fd_of v w = INVALID_SOCKET \<Longrightarrow> owned (set_fd v INVALID_SOCKET w)"
  by (simp add: owned_def sole_null kept_null)

lemma owned_end: "owned w \<Longrightarrow> fd_of v w = INVALID_SOCKET \<Longrightarrow> owned (ends_life v w)"
  by (simp add: owned_def sole_end kept_end)

lemma owned_move:
  "owned w \<Longrightarrow> fd_of v w = INVALID_SOCKET \<Longrightarrow> v \<noteq> u \<Longrightarrow> owned (set_fd u INVALID_SOCKET (set_fd v (fd_of u w) w))"
  by (simp add: owned_def sole_move kept_move)

lemma owned_move_assign: "owned w \<Longrightarrow> owned (Socket_move_assign v u w)"
  by (simp add: Socket_move_assign_def Let_def owned_move owned_close)

lemma owned_Connect:
  assumes "owned w" "fresh_handle INVALID_SOCKET f (Socket_close v w)"
  shows "owned (snd (Connect v addr f con w))"
  using owned_close[OF assms(1), of v] owned_open[OF owned_close[OF assms(1), of v] fd_of_close assms(2)]
  by (simp add: Connect_def Let_def owned_close)

lemma owned_Listen:
  assumes "owned w" "fresh_handle INVALID_SOCKET f (ServerSocket_Close v w)"
  shows "owned (snd (Listen v f bnd lst w))"
  using owned_open[OF owned_close[OF assms(1), of v] fd_of_close] assms(2)
  by (simp add: Listen_def Let_def owned_close)

lemma owned_Accept:
  assumes "owned w" "\<not> alive c w" "fresh_handle INVALID_SOCKET f w"
  shows "owned (Accept v c f w)"
  using owned_open[OF assms(1) handle_of_dead[OF assms(2)] assms(3)]
    owned_invalid[OF assms(1) handle_of_dead[OF assms(2)]]
  by (simp add: Accept_def Socket_of_fd_def)

lemma owned_perform:
  assumes "owned w" "possible x w"
  shows "owned (perform x w)"
proof (cases x)
  case (Move v u)
  then show ?thesis using assms owned_move[OF assms(1) handle_of_dead, of v u]
    by (auto simp: Socket_move_def)
next
  case (Server_move v u)
  then show ?thesis using assms owned_move[OF assms(1) handle_of_dead, of v u]
    by (auto simp: Socket_move_def)
qed (use assms in \<open>auto simp: Socket_new_def Socket_destroy_def handle_of_dead
      intro!: owned_invalid owned_close owned_end owned_move_assign owned_Connect owned_Listen owned_Accept\<close>)

lemma owned_start: "owned no_objects"
  by (simp add: owned_def start_ok)

lemma socket_run_owned: "socket_run w \<Longrightarrow> owned w"
  by (induction rule: socket_run.induct) (auto intro: owned_start owned_perform)

section \<open>The property\<close>

text \<open>
  In every run of programs that construct, connect, listen, accept, move, move-assign, close and
  destroy sockets, with any outcome of the system calls: no descriptor is closed twice, every open
  descriptor is held by exactly one live object, every live object that is valid holds an open
  descriptor, and when no object is left no descriptor is open.
\<close>

lemma socket_ownership:
  assumes "socket_run w"
  shows "\<not> misused w \<and> (\<forall>f. is_open w f \<longleftrightarrow> (\<exists>!v. object w v = Some f \<and> f \<noteq> INVALID_SOCKET)) \<and>
    (\<forall>v. Socket_IsValid v w \<longrightarrow> is_open w (fd_of v w)) \<and>
    (object w = Map.empty \<longrightarrow> (\<forall>f. \<not> is_open w f))"
proof -
  have o: "sole INVALID_SOCKET w" "kept INVALID_SOCKET w"
    using socket_run_owned[OF assms] by (simp_all add: owned_def)
  have "is_open w f \<longleftrightarrow> (\<exists>!v. object w v = Some f \<and> f \<noteq> INVALID_SOCKET)" for f
    using soleD[OF o(1)] o(2) unfolding kept_def by metis
  moreover have "Socket_IsValid v w \<Longrightarrow> is_open w (fd_of v w)" for v
    using soleD(2)[OF o(1), of v] by (auto simp: Socket_IsValid_def handle_of_def split: option.splits)
  moreover have "object w = Map.empty \<Longrightarrow> \<not> is_open w f" for f using o(2) by (auto simp: kept_def)
  ultimately show ?thesis using soleD(1)[OF o(1)] by blast
qed

text \<open>A server listens on descriptor 3, accepts 4, moves the client to another variable; a connection
  attempt that is refused closes its descriptor 5 again.\<close>

definition sample_run :: "fd world" where
  "sample_run = perform (Connect_to 3 True 5 False) (perform (New 3) (perform (Destroy 1)
     (perform (Move 2 1) (perform (Accept_on 0 1 4) (perform (Listen_on 0 3 True True)
       (perform (Server_new 0) no_objects))))))"

lemmas socket_defs = Socket_IsValid_def Socket_close_def Socket_new_def Socket_of_fd_def Socket_destroy_def Socket_move_def
  Connect_def Listen_def Accept_def INVALID_SOCKET_def

lemma sample_run_run: "socket_run sample_run"
  unfolding sample_run_def
  by (intro socket_run.intros) (simp_all add: socket_defs handle_defs)

end
