(* ===== verification/Threads.thy ===== *)
theory Threads
  imports Handles
begin

text \<open>
  The class \<^verbatim>\<open>Thread\<close> of \<^verbatim>\<open>common/include/common/concurrency.hpp\<close> (POSIX branch): a variable holds
  the id of a thread that may still be joined, or 0. The operating system's threads are handles of
  \<open>Handles\<close>; open means not yet joined and not detached. The result: whatever a program does with
  its \<open>Thread\<close> objects, \<^verbatim>\<open>pthread_join\<close> and \<^verbatim>\<open>pthread_detach\<close> are called at most once for a thread.
  That holds as long as every \<^verbatim>\<open>pthread_create\<close> succeeds (\<open>failed_create_misused\<close>).
  What a destructor or a move assignment drops is neither joined nor detached.
\<close>

type_synonym tid = nat

definition NO_THREAD :: tid where
  "NO_THREAD = 0"

text \<open>What the new thread executes: the task it was given, if it is not empty.\<close>

definition PosixRunner :: "('s \<Rightarrow> 's) option \<Rightarrow> 's \<Rightarrow> 's" where
  "PosixRunner task s = (case task of None \<Rightarrow> s | Some f \<Rightarrow> f s)"

definition Thread_new :: "nat \<Rightarrow> tid world \<Rightarrow> tid world" where
  "Thread_new v = set_handle v NO_THREAD"

text \<open>
  \<open>created\<close>: the id that \<^verbatim>\<open>pthread_create\<close> stores, or \<open>None\<close> when it fails. Its result is ignored, and
  \<^verbatim>\<open>thread_\<close> was not initialised: after a failure it has the indeterminate value \<open>junk\<close>.
\<close>

definition Thread_of_task :: "nat \<Rightarrow> tid option \<Rightarrow> tid \<Rightarrow> tid world \<Rightarrow> tid world" where
  "Thread_of_task v created junk w =
     (case created of
        Some t \<Rightarrow> set_handle v t (os_acquired NO_THREAD t w)
      | None \<Rightarrow> set_handle v junk w)"

definition Thread_destroy :: "nat \<Rightarrow> tid world \<Rightarrow> tid world" where
  "Thread_destroy v = ends_life v"

definition Thread_move :: "nat \<Rightarrow> nat \<Rightarrow> tid world \<Rightarrow> tid world" where
  "Thread_move v other w = set_handle other NO_THREAD (set_handle v (handle_of NO_THREAD other w) w)"

definition Thread_move_assign :: "nat \<Rightarrow> nat \<Rightarrow> tid world \<Rightarrow> tid world" where
  "Thread_move_assign v other w =
     (if v \<noteq> other then set_handle other NO_THREAD (set_handle v (handle_of NO_THREAD other w) w) else w)"

definition Join :: "nat \<Rightarrow> tid world \<Rightarrow> tid world" where
  "Join v w =
     (if handle_of NO_THREAD v w \<noteq> NO_THREAD
      then set_handle v NO_THREAD (os_release (handle_of NO_THREAD v w) w) else w)"

definition Detach :: "nat \<Rightarrow> tid world \<Rightarrow> tid world" where
  "Detach v w =
     (if handle_of NO_THREAD v w \<noteq> NO_THREAD
      then set_handle v NO_THREAD (os_release (handle_of NO_THREAD v w) w) else w)"

lemma join_detach_release: "Join = release NO_THREAD" "Detach = release NO_THREAD"
  by (simp_all add: fun_eq_iff Join_def Detach_def release_def)

section \<open>Programs that use threads\<close>

inductive thread_run :: "tid world \<Rightarrow> bool" where
  "thread_run no_objects"
| "thread_run w \<Longrightarrow> \<not> alive v w \<Longrightarrow> thread_run (Thread_new v w)"
| "thread_run w \<Longrightarrow> \<not> alive v w \<Longrightarrow> t \<noteq> NO_THREAD \<Longrightarrow> \<not> is_open w t \<Longrightarrow> thread_run (Thread_of_task v (Some t) junk w)"
| "thread_run w \<Longrightarrow> alive v w \<Longrightarrow> thread_run (Thread_destroy v w)"
| "thread_run w \<Longrightarrow> \<not> alive v w \<Longrightarrow> alive u w \<Longrightarrow> thread_run (Thread_move v u w)"
| "thread_run w \<Longrightarrow> alive v w \<Longrightarrow> alive u w \<Longrightarrow> thread_run (Thread_move_assign v u w)"
| "thread_run w \<Longrightarrow> alive v w \<Longrightarrow> thread_run (Join v w)"
| "thread_run w \<Longrightarrow> alive v w \<Longrightarrow> thread_run (Detach v w)"

lemma thread_run_sole: "thread_run w \<Longrightarrow> sole NO_THREAD w"
proof (induction rule: thread_run.induct)
  case (5 w v u)
  then have "v \<noteq> u" by auto
  with 5 show ?case by (simp add: Thread_move_def sole_move)
qed (auto simp: start_ok Thread_new_def Thread_of_task_def Thread_destroy_def Thread_move_assign_def
      join_detach_release fresh_handle_def sole_null sole_acquire sole_end sole_move sole_release)

lemma threads_never_misused:
  assumes "thread_run w"
  shows "\<not> misused w" "alive v w \<Longrightarrow> handle_of NO_THREAD v w \<noteq> NO_THREAD \<Longrightarrow> is_open w (handle_of NO_THREAD v w)"
  using soleD(1,2)[OF thread_run_sole[OF assms]] by (auto simp: alive_def handle_of_def)

text \<open>A move assignment to a variable that has a thread drops it: nobody can join or detach it any more.\<close>

lemma move_assign_drops:
  assumes w: "sole NO_THREAD w" and v: "object w v = Some t" "t \<noteq> NO_THREAD" and u: "alive u w" "u \<noteq> v"
  shows "is_open (Thread_move_assign v u w) t \<and> (\<forall>x. object (Thread_move_assign v u w) x \<noteq> Some t)"
proof -
  obtain r where r: "object w u = Some r" using u(1) by (auto simp: alive_def)
  have "r \<noteq> t" using soleD(3)[OF w v(1) _ v(2), of u] r u(2) by blast
  moreover have "object w x \<noteq> Some t" if "x \<noteq> v" for x
    using soleD(3)[OF w v(1) _ v(2), of x] that by blast
  ultimately have "object (Thread_move_assign v u w) x \<noteq> Some t" for x
    using u(2) v(2) r by (simp add: Thread_move_assign_def set_handle_def handle_of_def)
  moreover have "is_open (Thread_move_assign v u w) t"
    using soleD(2)[OF w v] by (simp add: Thread_move_assign_def set_handle_def)
  ultimately show ?thesis by blast
qed

text \<open>A thread that could not be created is detached under an id that is no thread's.\<close>

lemma failed_create_misused:
  assumes "junk \<noteq> NO_THREAD" "\<not> is_open w junk"
  shows "misused (Detach v (Thread_of_task v None junk w))"
  using assms by (simp add: Detach_def Thread_of_task_def handle_defs)

end
