(* ===== verification/Logger.thy ===== *)
theory Logger
  imports Main
begin

text \<open>
  The formatting of log messages in \<^verbatim>\<open>common/include/common/logger.hpp\<close>: the variadic \<open>FormatImpl\<close>,
  the line that \<open>Log\<close> prints, and the entry points of the namespace \<^verbatim>\<open>spdlog\<close>. An argument is the
  text that its \<^verbatim>\<open>operator<<\<close> inserts; the current time is an argument of the model. The mutex of the
  log is in \<open>Locks\<close>.
\<close>

section \<open>Numbers as text\<close>

text \<open>\<^verbatim>\<open>std::to_string\<close> of an unsigned number, and with leading zeros up to a width.\<close>

definition digit :: "nat \<Rightarrow> char" where
  "digit n = char_of (48 + n)"

fun to_string :: "nat \<Rightarrow> string" where
  "to_string n = (if n < 10 then [digit n] else to_string (n div 10) @ [digit (n mod 10)])"

declare to_string.simps [simp del]

definition padded :: "nat \<Rightarrow> nat \<Rightarrow> string" where
  "padded width n = replicate (width - length (to_string n)) CHR ''0'' @ to_string n"

section \<open>Messages\<close>

text \<open>
  The time stamp: \<^verbatim>\<open>std::put_time\<close> with the format \<^verbatim>\<open>%Y-%m-%d %H:%M:%S\<close> in the C locale, for years
  of four digits. What \<^verbatim>\<open>std::localtime\<close> returns is the argument; \<open>None\<close> is a null pointer.
\<close>

record tm =
  tm_year :: nat
  tm_mon :: nat
  tm_mday :: nat
  tm_hour :: nat
  tm_min :: nat
  tm_sec :: nat

definition GetCurrentTimestamp :: "tm option \<Rightarrow> string" where
  "GetCurrentTimestamp timeinfo =
     (case timeinfo of
        None \<Rightarrow> ''0000-00-00 00:00:00''
      | Some t \<Rightarrow>
          padded 4 (tm_year t + 1900) @ ''-'' @ padded 2 (tm_mon t + 1) @ ''-'' @ padded 2 (tm_mday t) @ '' '' @
          padded 2 (tm_hour t) @ '':'' @ padded 2 (tm_min t) @ '':'' @ padded 2 (tm_sec t))"

text \<open>The recursion over the arguments and the \<^verbatim>\<open>while\<close> loop over the characters in one function.\<close>

fun FormatImpl :: "string \<Rightarrow> string list \<Rightarrow> string" where
  "FormatImpl format [] = format"
| "FormatImpl [] (first # args) = []"
| "FormatImpl (c # format) (first # args) =
     (if c = CHR ''{'' \<and> format \<noteq> [] \<and> hd format = CHR ''}'' then first @ FormatImpl (tl format) args
      else c # FormatImpl format (first # args))"

definition Format :: "string \<Rightarrow> string list \<Rightarrow> string" where
  "Format format args = FormatImpl format args"

definition Log_line :: "tm option \<Rightarrow> string \<Rightarrow> string \<Rightarrow> string" where
  "Log_line timeinfo level msg = ''['' @ GetCurrentTimestamp timeinfo @ ''] [aether] ['' @ level @ ''] '' @ msg @ [CHR 0x0A]"

datatype log_level = Debug | Info | Warn | Error | Critical

fun level_name :: "log_level \<Rightarrow> string" where
  "level_name Debug = ''DEBUG''"
| "level_name Info = ''INFO''"
| "level_name Warn = ''WARN''"
| "level_name Error = ''ERROR''"
| "level_name Critical = ''CRITICAL''"

definition log_message :: "log_level \<Rightarrow> string \<Rightarrow> string list \<Rightarrow> tm option \<Rightarrow> string" where
  "log_message l format args timeinfo = Log_line timeinfo (level_name l) (Format format args)"

section \<open>Placeholders\<close>

text \<open>The text has no placeholder.\<close>

fun plain :: "string \<Rightarrow> bool" where
  "plain [] \<longleftrightarrow> True"
| "plain (c # cs) \<longleftrightarrow> \<not> (c = CHR ''{'' \<and> cs \<noteq> [] \<and> hd cs = CHR ''}'') \<and> plain cs"

lemma FormatImpl_plain: "plain p \<Longrightarrow> FormatImpl p args = p"
  by (induction p args rule: FormatImpl.induct) auto

lemma FormatImpl_piece: "plain p \<Longrightarrow> FormatImpl (p @ ''{}'' @ rest) (a # args) = p @ a @ FormatImpl rest args"
  by (induction p) (auto simp: hd_append)

text \<open>
  Texts without placeholders, each followed by a placeholder, and a last text: the arguments replace
  the placeholders in order. Without further arguments the last text is printed as it is, whatever it
  contains; further arguments are dropped.
\<close>

lemma format_substitutes:
  assumes "\<forall>(p, a) \<in> set xs. plain p" "plain rest \<or> extra = []"
  shows "Format (concat (map (\<lambda>(p, a). p @ ''{}'') xs) @ rest) (map snd xs @ extra) =
    concat (map (\<lambda>(p, a). p @ a) xs) @ rest"
  using assms unfolding Format_def
proof (induction xs)
  case Nil
  then show ?case by (cases extra) (auto simp: FormatImpl_plain)
next
  case (Cons x xs)
  obtain p a where x: "x = (p, a)" by (cases x)
  have "plain p" using Cons.prems(1) x by simp
  from FormatImpl_piece[OF this] Cons show ?case by (simp add: x)
qed

section \<open>Width of a time stamp\<close>

lemma length_to_string_less: "n < 10 ^ Suc k \<Longrightarrow> length (to_string n) \<le> Suc k"
proof (induction k arbitrary: n)
  case (Suc k)
  show ?case
  proof (cases "n < 10")
    case False
    have "n div 10 < 10 ^ Suc k" using Suc.prems by (simp add: less_mult_imp_div_less)
    from Suc.IH [OF this] False show ?thesis by (simp add: to_string.simps [of n])
  qed (simp add: to_string.simps)
qed (simp add: to_string.simps)

lemma length_padded: "n < 10 ^ Suc k \<Longrightarrow> length (padded (Suc k) n) = Suc k"
  using length_to_string_less [of n k] by (simp add: padded_def)

lemma length_padded_2: "n < 100 \<Longrightarrow> length (padded 2 n) = 2"
  by (rule length_padded [where k = 1, unfolded Suc_1]) simp

lemma length_padded_4: "n < 10000 \<Longrightarrow> length (padded 4 n) = 4"
proof -
  have "Suc 3 = 4" by simp
  then show "n < 10000 \<Longrightarrow> length (padded 4 n) = 4" using length_padded [of n 3] by simp
qed

lemma timestamp_length:
  assumes "tm_year t + 1900 < 10000" "tm_mon t < 12" "tm_mday t \<le> 31" "tm_hour t < 24" "tm_min t < 60" "tm_sec t \<le> 60"
  shows "length (GetCurrentTimestamp (Some t)) = 19"
  using assms by (simp add: GetCurrentTimestamp_def length_padded_2 length_padded_4)

end
