(* ===== verification/Daemon.thy ===== *)
theory Daemon
  imports Concurrent_Service Sockets Threads Logger
begin

text \<open>
  The daemon: the arguments, the signals and the outcome of \<^verbatim>\<open>services/storage/main.cpp\<close>, and the
  part of \<^verbatim>\<open>storage_service.cpp\<close> that starts the service and accepts connections. The steps of the
  handlers and of \<open>Stop\<close> are those of \<open>Concurrent_Service\<close>, sockets those of \<open>Sockets\<close>, threads
  those of \<open>Threads\<close>. The contents of the file system, the results of system calls, the signals and
  the schedule are arguments.
\<close>

section \<open>Numbers as text\<close>

text \<open>\<^verbatim>\<open>std::stoi\<close>, with \<open>None\<close> for its two exceptions.\<close>

definition is_digit :: "char \<Rightarrow> bool" where
  "is_digit c \<longleftrightarrow> 48 \<le> (of_char c :: nat) \<and> (of_char c :: nat) \<le> 57"

definition is_space :: "char \<Rightarrow> bool" where
  "is_space c \<longleftrightarrow> (of_char c :: nat) = 32 \<or> (9 \<le> (of_char c :: nat) \<and> (of_char c :: nat) \<le> 13)"

definition digits_value :: "string \<Rightarrow> nat" where
  "digits_value ds = foldl (\<lambda>n c. 10 * n + (of_char c - 48)) 0 ds"

definition stoi :: "string \<Rightarrow> int option" where
  "stoi s =
     (let t = dropWhile is_space s;
          neg = (t \<noteq> [] \<and> hd t = CHR ''-'');
          u = (if t \<noteq> [] \<and> (hd t = CHR ''-'' \<or> hd t = CHR ''+'') then tl t else t);
          ds = takeWhile is_digit u;
          n = (if neg then - int (digits_value ds) else int (digits_value ds))
      in if ds = [] \<or> n < - (2 ^ 31) \<or> 2 ^ 31 \<le> n then None else Some n)"

section \<open>Arguments\<close>

text \<open>
  The loop over \<^verbatim>\<open>argv\<close> behind the program name. An option that takes a value and is the last word is
  ignored like an unknown word.
\<close>

datatype parsed = Options "16 word" string | Help | Threw

fun parse_args :: "string list \<Rightarrow> 16 word \<Rightarrow> string \<Rightarrow> parsed" where
  "parse_args [] port db = Options port db"
| "parse_args (arg # rest) port db =
     (if (arg = ''--port'' \<or> arg = ''-p'') \<and> rest \<noteq> [] then
        (case stoi (hd rest) of
           None \<Rightarrow> Threw
         | Some n \<Rightarrow> parse_args (tl rest) (word_of_int n) db)
      else if (arg = ''--db'' \<or> arg = ''-d'') \<and> rest \<noteq> [] then parse_args (tl rest) port (hd rest)
      else if arg = ''--help'' \<or> arg = ''-h'' then Help
      else parse_args rest port db)"

definition default_port :: "16 word" where
  "default_port = 9001"

definition default_db :: string where
  "default_db = ''aether.db''"

section \<open>Signals\<close>

datatype signal = SIGINT | SIGTERM | Other_signal

definition SignalHandler :: "signal \<Rightarrow> bool \<Rightarrow> bool" where
  "SignalHandler sig shutdown_requested = (if sig = SIGINT \<or> sig = SIGTERM then True else shutdown_requested)"

definition shutdown_requested :: "signal list \<Rightarrow> bool" where
  "shutdown_requested sigs = foldl (\<lambda>flag sig. SignalHandler sig flag) False sigs"

section \<open>Starting the service\<close>

text \<open>
  \<open>port_\<close> and the variable 0 of the server socket belong to the service. \<open>net\<close>: the result of
  \<open>InitializeNetwork\<close>, which is true on POSIX; \<open>f\<close>, \<open>bnd\<close>, \<open>lst\<close>: those of the calls of \<open>Listen\<close>.
\<close>

definition InitializeNetwork :: bool where
  "InitializeNetwork = True"

definition StorageService_Start ::
  "16 word \<Rightarrow> fd \<Rightarrow> bool \<Rightarrow> bool \<Rightarrow> (storage_service \<times> fd world, unit) comp" where
  "StorageService_Start port f bnd lst =
     (\<lambda>(v, w).
        if is_running v then (Inr (), (v, w))
        else if \<not> InitializeNetwork then (Inl (RuntimeError ''Failed to initialize network system''), (v, w))
        else
          (case Listen 0 f bnd lst w of
             (False, w1) \<Rightarrow>
               (Inl (RuntimeError (''StorageService failed to listen on port '' @ to_string (unat port))), (v, w1))
           | (True, w1) \<Rightarrow> (Inr (), (v\<lparr>is_running := True\<rparr>, w1))))"

section \<open>Accepting connections\<close>

text \<open>
  The thread that accepts. Socket variable 0 is the server socket, 1 is \<open>client_socket\<close>, the others
  are the shared sockets of the handler threads; thread variable 1 is \<open>client_thread\<close>.
\<close>

record acceptor =
  socks :: "fd world"
  threads :: "tid world"
  handlers :: "nat list"
  accepting :: bool

text \<open>
  One round of its loop. \<open>run1\<close>, \<open>run2\<close>: the value of \<^verbatim>\<open>is_running_\<close> at its two tests; \<open>f\<close>: the result
  of \<^verbatim>\<open>accept\<close>; \<open>n\<close>: the new shared socket; \<open>created\<close>, \<open>junk\<close>: the outcome of creating the thread. When
  that fails, the task, which owns the shared socket, is never run and never deleted.
\<close>

definition acceptor_round :: "nat \<Rightarrow> fd \<Rightarrow> tid option \<Rightarrow> tid \<Rightarrow> bool \<Rightarrow> bool \<Rightarrow> acceptor \<Rightarrow> acceptor" where
  "acceptor_round n f created junk run1 run2 a =
     (if \<not> accepting a then a
      else if \<not> run1 then a\<lparr>accepting := False\<rparr>
      else
        (let w1 = Accept 0 1 f (socks a) in
         if \<not> run2 then a\<lparr>socks := Socket_destroy 1 w1, accepting := False\<rparr>
         else if Socket_IsValid 1 w1 then
           a\<lparr>socks := Socket_destroy 1 (Socket_move n 1 w1),
             threads := Thread_destroy 1 (Detach 1 (Thread_of_task 1 created junk (threads a))),
             handlers := (if created = None then handlers a else handlers a @ [n])\<rparr>
         else a\<lparr>socks := Socket_destroy 1 w1\<rparr>))"

text \<open>
  A handler thread moves the shared socket \<open>n\<close> to the parameter \<open>m\<close> of \<open>HandleClient\<close>, which closes
  it at its end; then both objects are destroyed. No other thread uses \<open>n\<close> or \<open>m\<close>, so these steps are
  taken together.
\<close>

definition handler_exit :: "nat \<Rightarrow> nat \<Rightarrow> fd world \<Rightarrow> fd world" where
  "handler_exit m n w = Socket_destroy n (Socket_destroy m (Socket_close m (Socket_move m n w)))"

inductive acceptor_run :: "acceptor \<Rightarrow> bool" where
  started: "Listen 0 f bnd lst (ServerSocket_new 0 no_objects) = (True, w) \<Longrightarrow>
    acceptor_run \<lparr>socks = w, threads = no_objects, handlers = [], accepting = True\<rparr>"
| round: "acceptor_run a \<Longrightarrow> fresh_handle INVALID_SOCKET f (socks a) \<Longrightarrow> 1 < n \<Longrightarrow> \<not> alive n (socks a) \<Longrightarrow>
    t \<noteq> NO_THREAD \<Longrightarrow> \<not> is_open (threads a) t \<Longrightarrow> acceptor_run (acceptor_round n f (Some t) junk run1 run2 a)"
| handled: "acceptor_run a \<Longrightarrow> n \<in> set (handlers a) \<Longrightarrow> 1 < m \<Longrightarrow> \<not> alive m (socks a) \<Longrightarrow>
    acceptor_run (a\<lparr>socks := handler_exit m n (socks a), handlers := removeAll n (handlers a)\<rparr>)"
| server_closed: "acceptor_run a \<Longrightarrow> acceptor_run (a\<lparr>socks := ServerSocket_Close 0 (socks a)\<rparr>)"

section \<open>The whole run\<close>

type_synonym file_system = "string \<Rightarrow> byte list option"

datatype outcome = Exited nat file_system | Terminated file_system | Crashed err | Still_running service

text \<open>
  \<^verbatim>\<open>main\<close>. \<open>es\<close> is the schedule of the handlers and of the main thread, whose steps are those of
  \<open>Stop\<close>; without a signal it stays in its wait loop. \<open>file_left db fs d\<close>: the files when the disk
  manager \<open>d\<close> has been destroyed.
\<close>

definition file_left :: "string \<Rightarrow> file_system \<Rightarrow> disk_manager \<Rightarrow> file_system" where
  "file_left db fs d = fs(db \<mapsto> db_file (Close d))"

definition main_steps :: "signal list \<Rightarrow> event list \<Rightarrow> event list" where
  "main_steps sigs es = (if shutdown_requested sigs then es else filter (\<lambda>e. e \<noteq> Stopping) es)"

definition run_daemon ::
  "file_system \<Rightarrow> bool \<Rightarrow> bool \<Rightarrow> string list \<Rightarrow> fd \<Rightarrow> bool \<Rightarrow> bool \<Rightarrow> request list list \<Rightarrow> event list \<Rightarrow> signal list \<Rightarrow> outcome" where
  "run_daemon fs can_create can_reopen args f bnd lst scripts es sigs =
     (case parse_args args default_port default_db of
        Help \<Rightarrow> Exited 0 fs
      | Threw \<Rightarrow> Terminated fs
      | Options port db \<Rightarrow>
          (case DiskManager_new (fs db) can_create can_reopen of
             Inl e \<Rightarrow> Exited 1 (if fs db = None \<and> can_create then fs(db \<mapsto> []) else fs)
           | Inr d \<Rightarrow>
               (case StorageService_Start port f bnd lst (StorageService_new d, ServerSocket_new 0 no_objects) of
                  (Inl e, (v, w)) \<Rightarrow> Exited 1 (file_left db fs (disk (snd (BufferPoolManager_destroy (svc_pool v)))))
                | (Inr u, (v, w)) \<Rightarrow>
                    (case run_service (main_steps sigs es) (service_of (svc_pool v) scripts) of
                       Inl e \<Rightarrow> Crashed e
                     | Inr s \<Rightarrow>
                         (case closed_disk s of
                            Some d' \<Rightarrow> if stopping s = Stopped then Exited 0 (file_left db fs d') else Still_running s
                          | None \<Rightarrow> Still_running s)))))"

section \<open>What the arguments mean\<close>

lemma digit_code: "n < 10 \<Longrightarrow> (of_char (digit n) :: nat) = 48 + n"
  by (simp add: digit_def)

lemma is_digit_digit: "n < 10 \<Longrightarrow> is_digit (digit n)"
  by (simp add: is_digit_def digit_code)

lemma to_string_digits: "list_all is_digit (to_string n) \<and> to_string n \<noteq> []"
proof (induction n rule: to_string.induct)
  case (1 n)
  then show ?case by (cases "n < 10") (simp_all add: to_string.simps [of n] is_digit_digit)
qed

lemma digits_value_snoc: "digits_value (ds @ [c]) = 10 * digits_value ds + (of_char c - 48)"
  by (simp add: digits_value_def)

lemma digits_value_to_string: "digits_value (to_string n) = n"
proof (induction n rule: to_string.induct)
  case (1 n)
  show ?case
  proof (cases "n < 10")
    case True
    then show ?thesis by (simp add: to_string.simps digits_value_def digit_code)
  next
    case False
    then have "to_string n = to_string (n div 10) @ [digit (n mod 10)]" by (subst to_string.simps) simp
    with 1[OF False] show ?thesis by (simp add: digits_value_snoc digit_code)
  qed
qed

lemma stoi_to_string:
  assumes "n < 2 ^ 31" shows "stoi (to_string n) = Some (int n)"
proof -
  obtain c cs where c: "to_string n = c # cs" "is_digit c" "list_all is_digit (c # cs)"
    using to_string_digits[of n] by (cases "to_string n") auto
  have "\<not> is_space c" "c \<noteq> CHR ''-''" "c \<noteq> CHR ''+''" using c(2) by (auto simp: is_digit_def is_space_def)
  moreover have "takeWhile is_digit (c # cs) = c # cs"
    using c(3) by (simp add: list_all_iff)
  ultimately show ?thesis
    using assms c(1) digits_value_to_string[of n] by (simp add: stoi_def Let_def del: takeWhile.simps takeWhile_eq_all_conv)
qed

datatype daemon_option = Port_option bool nat | Db_option bool string | Ignored string

fun option_args :: "daemon_option \<Rightarrow> string list" where
  "option_args (Port_option long n) = [if long then ''--port'' else ''-p'', to_string n]"
| "option_args (Db_option long fl) = [if long then ''--db'' else ''-d'', fl]"
| "option_args (Ignored s) = [s]"

fun well_formed :: "daemon_option \<Rightarrow> bool" where
  "well_formed (Port_option long n) \<longleftrightarrow> n < 2 ^ 31"
| "well_formed (Db_option long fl) \<longleftrightarrow> True"
| "well_formed (Ignored s) \<longleftrightarrow> s \<notin> {''--port'', ''-p'', ''--db'', ''-d'', ''--help'', ''-h''}"

fun ports_of :: "daemon_option list \<Rightarrow> nat list" where
  "ports_of [] = []"
| "ports_of (Port_option long n # os) = n # ports_of os"
| "ports_of (_ # os) = ports_of os"

fun files_of :: "daemon_option list \<Rightarrow> string list" where
  "files_of [] = []"
| "files_of (Db_option long fl # os) = fl # files_of os"
| "files_of (_ # os) = files_of os"

lemma last_snoc_default: "last (d # xs @ [x]) = x" "last (d # (x # xs)) = last (x # xs)"
  by simp_all

lemma parse_options:
  assumes "list_all well_formed os"
  shows "parse_args (concat (map option_args os) @ rest) port db =
    parse_args rest (last (port # map of_nat (ports_of os))) (last (db # files_of os))"
  using assms
proof (induction os arbitrary: port db)
  case (Cons x os)
  then have IH: "parse_args (concat (map option_args os) @ rest) p d =
      parse_args rest (last (p # map of_nat (ports_of os))) (last (d # files_of os))" for p d by simp
  show ?case
  proof (cases x)
    case (Port_option long n)
    then show ?thesis using Cons.prems IH[of "of_nat n" db] by (simp add: stoi_to_string)
  next
    case (Db_option long fl)
    then show ?thesis using IH[of port fl] by simp
  next
    case (Ignored s)
    then show ?thesis using Cons.prems IH[of port db] by simp
  qed
qed simp

section \<open>Connections are not lost\<close>

lemma alive_simps [simp]:
  "alive u (set_handle v h w) \<longleftrightarrow> u = v \<or> alive u w" "alive u (ends_life v w) \<longleftrightarrow> u \<noteq> v \<and> alive u w"
  "alive u (os_acquired x h w) \<longleftrightarrow> alive u w" "alive u (os_release h w) \<longleftrightarrow> alive u w" "\<not> alive u no_objects"
  by (auto simp: handle_defs)

lemma handle_of_simps [simp]:
  "handle_of x u (set_handle v h w) = (if u = v then h else handle_of x u w)"
  "handle_of x u (ends_life v w) = (if u = v then x else handle_of x u w)"
  "handle_of x u (os_acquired y h w) = handle_of x u w" "handle_of x u (os_release h w) = handle_of x u w"
  by (auto simp: handle_defs)

lemma alive_close: "alive u (Socket_close v w) \<longleftrightarrow> alive u w"
  by (auto simp: Socket_close_def Socket_IsValid_def) (auto simp: handle_defs split: option.splits)

lemma fd_of_close_if: "fd_of u (Socket_close v w) = (if u = v then INVALID_SOCKET else fd_of u w)"
  by (simp add: Socket_close_def Socket_IsValid_def)

definition acceptor_inv :: "acceptor \<Rightarrow> bool" where
  "acceptor_inv a \<longleftrightarrow> owned (socks a) \<and> sole NO_THREAD (threads a) \<and> (\<forall>v. \<not> alive v (threads a)) \<and>
     (\<forall>t. \<not> is_open (threads a) t) \<and> distinct (handlers a) \<and> (\<forall>n \<in> set (handlers a). 1 < n \<and> fd_of n (socks a) \<noteq> INVALID_SOCKET) \<and>
     (\<forall>v. alive v (socks a) \<longleftrightarrow> v = 0 \<or> v \<in> set (handlers a))"

text \<open>A thread that is created, detached and whose object is destroyed leaves no handle.\<close>

lemma spawn_detached:
  assumes "sole NO_THREAD w" "\<forall>v. \<not> alive v w" "\<forall>t. \<not> is_open w t" "t \<noteq> NO_THREAD"
  shows "let w' = Thread_destroy 1 (Detach 1 (Thread_of_task 1 (Some t) junk w)) in
    sole NO_THREAD w' \<and> (\<forall>v. \<not> alive v w') \<and> (\<forall>x. \<not> is_open w' x)"
proof -
  have s: "sole NO_THREAD (Detach 1 (Thread_of_task 1 (Some t) junk w))"
    using assms by (simp add: join_detach_release sole_release Thread_of_task_def sole_acquire fresh_handle_def)
  then show ?thesis using assms sole_end[OF s]
    by (simp add: Thread_destroy_def) (auto simp: Detach_def Thread_of_task_def handle_defs split: if_splits)
qed

lemma acceptor_start:
  assumes "Listen 0 f bnd lst (ServerSocket_new 0 no_objects) = (True, w)" "fresh_handle INVALID_SOCKET f no_objects"
  shows "acceptor_inv \<lparr>socks = w, threads = no_objects, handlers = [], accepting = True\<rparr>"
proof -
  have "owned (ServerSocket_new 0 no_objects)" by (simp add: Socket_new_def owned_invalid owned_start handle_of_dead)
  then have "owned w" using owned_Listen[of "ServerSocket_new 0 no_objects" f 0 bnd lst] assms
    by (simp add: fresh_handle_def) (simp add: handle_defs Socket_new_def Socket_close_def Socket_IsValid_def)
  moreover have "alive v w \<longleftrightarrow> v = 0" for v
    using assms(1) by (auto simp: Listen_def Let_def alive_close Socket_new_def split: if_splits)
  ultimately show ?thesis by (simp add: acceptor_inv_def start_ok) (simp add: no_objects_def)
qed

lemma owned_move_obj:
  "owned w \<Longrightarrow> \<not> alive v w \<Longrightarrow> alive u w \<Longrightarrow> owned (Socket_move v u w)"
  using owned_move[of w v u] handle_of_dead[of v w] by (auto simp: Socket_move_def)

lemma owned_destroy: "owned w \<Longrightarrow> owned (Socket_destroy v w)"
  by (simp add: Socket_destroy_def owned_end owned_close)

lemma destroy_view [simp]:
  "alive u (Socket_destroy v w) \<longleftrightarrow> u \<noteq> v \<and> alive u w"
  "fd_of u (Socket_destroy v w) = (if u = v then INVALID_SOCKET else fd_of u w)"
  by (auto simp: Socket_destroy_def alive_close fd_of_close_if)

lemma move_view [simp]:
  "alive u (Socket_move v x w) \<longleftrightarrow> u = v \<or> u = x \<or> alive u w"
  "fd_of u (Socket_move v x w) = (if u = x then INVALID_SOCKET else if u = v then fd_of x w else fd_of u w)"
  by (auto simp: Socket_move_def)

lemma accept_view [simp]:
  "alive u (Accept v c f w) \<longleftrightarrow> u = c \<or> alive u w"
  "u \<noteq> c \<Longrightarrow> fd_of u (Accept v c f w) = fd_of u w"
  by (auto simp: Accept_def Socket_of_fd_def)

lemma acceptor_round_inv:
  assumes a: "acceptor_inv a" and f: "fresh_handle INVALID_SOCKET f (socks a)" and n: "1 < n" "\<not> alive n (socks a)"
    and t: "t \<noteq> NO_THREAD"
  shows "acceptor_inv (acceptor_round n f (Some t) junk run1 run2 a)"
proof -
  let ?w = "Accept 0 1 f (socks a)" and ?th = "Thread_destroy 1 (Detach 1 (Thread_of_task 1 (Some t) junk (threads a)))"
  have i: "owned (socks a)" "\<And>v. alive v (socks a) \<longleftrightarrow> v = 0 \<or> v \<in> set (handlers a)" "distinct (handlers a)"
    "\<And>n. n \<in> set (handlers a) \<Longrightarrow> 1 < n \<and> fd_of n (socks a) \<noteq> INVALID_SOCKET"
    using a by (auto simp: acceptor_inv_def)
  have one: "1 \<notin> set (handlers a)" "n \<notin> set (handlers a)" using i(2,4) n by force+
  then have w: "owned ?w" using owned_Accept[OF i(1) _ f] i(2) by simp
  have new: "owned (Socket_move n 1 ?w)" using owned_move_obj[OF w, of n 1] n by simp
  have th: "sole NO_THREAD ?th \<and> (\<forall>v. \<not> alive v ?th) \<and> (\<forall>x. \<not> is_open ?th x)"
    using spawn_detached[of "threads a" t] a t by (simp add: acceptor_inv_def Let_def)
  have dropped: "acceptor_inv (a\<lparr>socks := Socket_destroy 1 ?w, accepting := c\<rparr>)" for c
    using a owned_destroy[OF w, of 1] one i(4) n by (auto simp: acceptor_inv_def)
  have "acceptor_inv (a\<lparr>socks := Socket_destroy 1 (Socket_move n 1 ?w), threads := ?th, handlers := handlers a @ [n]\<rparr>)"
    if "Socket_IsValid 1 ?w"
    using that th owned_destroy[OF new, of 1] one i n by (auto simp: acceptor_inv_def Socket_IsValid_def)
  moreover have "acceptor_inv (a\<lparr>socks := Socket_destroy 1 ?w\<rparr>)" using dropped[of "accepting a"] by simp
  moreover have "acceptor_inv (a\<lparr>accepting := False\<rparr>)" using a by (simp add: acceptor_inv_def)
  ultimately show ?thesis using a dropped by (simp add: acceptor_round_def Let_def)
qed

lemma handler_exit_inv:
  assumes a: "acceptor_inv a" and n: "n \<in> set (handlers a)" and m: "1 < m" "\<not> alive m (socks a)"
  shows "acceptor_inv (a\<lparr>socks := handler_exit m n (socks a), handlers := removeAll n (handlers a)\<rparr>)"
proof -
  have i: "owned (socks a)" "alive n (socks a)" using a n by (auto simp: acceptor_inv_def)
  have "m \<noteq> n" using i(2) m(2) by blast
  moreover have "m \<noteq> 0" "m \<notin> set (handlers a)" "n \<noteq> 0" using a m n by (auto simp: acceptor_inv_def)
  moreover have "owned (handler_exit m n (socks a))"
    using owned_move_obj[OF i(1) m(2) i(2)] by (simp add: handler_exit_def owned_destroy owned_close)
  ultimately show ?thesis using a
    by (auto simp: acceptor_inv_def handler_exit_def alive_close fd_of_close_if distinct_removeAll)
qed

lemma acceptor_run_inv: "acceptor_run a \<Longrightarrow> acceptor_inv a"
proof (induction rule: acceptor_run.induct)
  case (started f bnd lst w)
  then show ?case using acceptor_start[OF started] by (simp add: fresh_handle_def no_objects_def)
next
  case (round a f n t junk run1 run2)
  then show ?case using acceptor_round_inv by blast
next
  case (handled a n m)
  then show ?case using handler_exit_inv by blast
next
  case (server_closed a)
  then have "0 \<notin> set (handlers a)" by (auto simp: acceptor_inv_def)
  with server_closed.IH show ?case by (auto simp: acceptor_inv_def owned_close alive_close fd_of_close_if)
qed

text \<open>
  C19. No connection leaks. However the rounds of the accepting thread, the ends of handlers and the
  closing of the server socket are ordered, and whatever \<^verbatim>\<open>accept\<close> returns, as long as threads can be created: no descriptor or thread
  is released twice, every handler that runs owns an open connection of its own, the open
  descriptors are those of the server socket and of the running handlers, and all threads are
  detached.
\<close>

theorem connections_accounted:
  assumes "acceptor_run a"
  shows "\<not> misused (socks a) \<and> \<not> misused (threads a) \<and> (\<forall>t. \<not> is_open (threads a) t) \<and>
    inj_on (\<lambda>n. fd_of n (socks a)) (set (handlers a)) \<and>
    {f. is_open (socks a) f} =
      (\<lambda>n. fd_of n (socks a)) ` set (handlers a) \<union> ({fd_of 0 (socks a)} - {INVALID_SOCKET})"
proof -
  have a: "acceptor_inv a" by (rule acceptor_run_inv[OF assms])
  then have s: "sole INVALID_SOCKET (socks a)" "kept INVALID_SOCKET (socks a)"
    and h: "\<forall>n \<in> set (handlers a). 1 < n \<and> fd_of n (socks a) \<noteq> INVALID_SOCKET"
      "\<And>v. alive v (socks a) \<longleftrightarrow> v = 0 \<or> v \<in> set (handlers a)"
    by (simp_all add: acceptor_inv_def owned_def)
  have obj: "object (socks a) v = Some f" if "fd_of v (socks a) = f" "f \<noteq> INVALID_SOCKET" for v f
    using that by (auto simp: handle_of_def split: option.splits)
  have fd: "fd_of v (socks a) = f" "v = 0 \<or> v \<in> set (handlers a)" if "object (socks a) v = Some f" for v f
    using that h(2)[of v] by (auto simp: handle_of_def alive_def)
  have "inj_on (\<lambda>n. fd_of n (socks a)) (set (handlers a))"
    using soleD(3)[OF s(1)] obj h(1) by (auto intro!: inj_onI)
  moreover have "is_open (socks a) f \<longleftrightarrow>
      f \<in> (\<lambda>n. fd_of n (socks a)) ` set (handlers a) \<union> ({fd_of 0 (socks a)} - {INVALID_SOCKET})" for f
  proof
    assume "is_open (socks a) f"
    then obtain v where "f \<noteq> INVALID_SOCKET" "object (socks a) v = Some f" using keptE[OF s(2)] by blast
    then show "f \<in> (\<lambda>n. fd_of n (socks a)) ` set (handlers a) \<union> ({fd_of 0 (socks a)} - {INVALID_SOCKET})"
      using fd[of v f] by auto
  next
    assume "f \<in> (\<lambda>n. fd_of n (socks a)) ` set (handlers a) \<union> ({fd_of 0 (socks a)} - {INVALID_SOCKET})"
    then obtain v where "fd_of v (socks a) = f" "f \<noteq> INVALID_SOCKET" using h(1) by auto
    then show "is_open (socks a) f" using soleD(2)[OF s(1) obj] by blast
  qed
  ultimately show ?thesis using a soleD(1)[OF s(1)] soleD(1)[of NO_THREAD "threads a"]
    by (auto simp: acceptor_inv_def)
qed

text \<open>Two connections are accepted; the first handler ends, and the service is stopped.\<close>

definition sample_acceptor :: acceptor where
  "sample_acceptor =
     acceptor_round 4 (-1) (Some 9) 0 False False
       (let a = acceptor_round 3 5 (Some 8) 0 True True (acceptor_round 2 4 (Some 7) 0 True True
          \<lparr>socks = snd (Listen 0 3 True True (ServerSocket_new 0 no_objects)), threads = no_objects, handlers = [], accepting = True\<rparr>)
        in a\<lparr>socks := handler_exit 6 2 (socks a), handlers := removeAll 2 (handlers a)\<rparr>)"

lemmas acceptor_defs = acceptor_round_def handler_exit_def Thread_of_task_def Detach_def Thread_destroy_def NO_THREAD_def

lemma sample_acceptor_run: "acceptor_run sample_acceptor"
proof -
  have l: "Listen 0 3 True True (ServerSocket_new 0 no_objects) =
      (True, snd (Listen 0 3 True True (ServerSocket_new 0 no_objects)))"
    by (simp add: socket_defs handle_defs)
  show ?thesis unfolding sample_acceptor_def Let_def
    by (rule acceptor_run.round, rule acceptor_run.handled, rule acceptor_run.round, rule acceptor_run.round,
        rule acceptor_run.started [OF l]) (simp_all add: acceptor_defs socket_defs handle_defs)
qed

theorem connections_accounted_witness:
  "\<not> misused (socks sample_acceptor) \<and> handlers sample_acceptor = [3] \<and> \<not> is_open (socks sample_acceptor) 4 \<and>
   {f. is_open (socks sample_acceptor) f} = {3, 5}"
proof -
  have h: "handlers sample_acceptor = [3]" "fd_of 3 (socks sample_acceptor) = 5" "fd_of 0 (socks sample_acceptor) = 3"
    by (simp_all add: sample_acceptor_def acceptor_defs socket_defs handle_defs)
  have e: "{f. is_open (socks sample_acceptor) f} = {3, 5}"
    using connections_accounted[OF sample_acceptor_run] h by (auto simp: INVALID_SOCKET_def)
  have "(4::int) \<notin> {3, 5}" by simp
  then have "\<not> is_open (socks sample_acceptor) 4" unfolding e [symmetric] by (simp only: mem_Collect_eq not_False_eq_True)
  then show ?thesis using connections_accounted[OF sample_acceptor_run] h(1) e by blast
qed

text \<open>
  C37. A defect of \<open>Start\<close>: when no thread can be created for an accepted connection, its descriptor
  stays open although no handler will ever close it, and the accepting thread detaches an
  indeterminate id, which is undefined if it is not 0.
\<close>

theorem failed_thread_leaks_connection:
  assumes "acceptor_run a" "accepting a" "Socket_IsValid 0 (socks a)" "f \<noteq> INVALID_SOCKET" "\<not> is_open (socks a) f"
    "1 < n" "\<not> alive n (socks a)"
  shows "is_open (socks (acceptor_round n f None junk True True a)) f \<and>
    fd_of n (socks (acceptor_round n f None junk True True a)) = f \<and>
    n \<notin> set (handlers (acceptor_round n f None junk True True a)) \<and>
    (\<forall>m \<in> set (handlers (acceptor_round n f None junk True True a)). fd_of m (socks (acceptor_round n f None junk True True a)) \<noteq> f) \<and>
    (junk \<noteq> NO_THREAD \<longrightarrow> misused (threads (acceptor_round n f None junk True True a)))"
proof -
  let ?w = "Accept 0 1 f (socks a)" and ?a = "acceptor_round n f None junk True True a"
  have a: "acceptor_inv a" by (rule acceptor_run_inv [OF assms(1)])
  have w: "?w = set_fd 1 f (os_opened f (socks a))" using assms(3,4) by (simp add: Accept_def Socket_of_fd_def)
  have r: "socks ?a = Socket_destroy 1 (Socket_move n 1 ?w)" "handlers ?a = handlers a"
    "threads ?a = Thread_destroy 1 (Detach 1 (Thread_of_task 1 None junk (threads a)))"
    using assms(2,4) w by (simp_all add: acceptor_round_def Let_def Socket_IsValid_def)
  have n: "n \<notin> set (handlers a)" using a assms(6,7) by (auto simp: acceptor_inv_def)
  have other: "fd_of m (socks a) \<noteq> f \<and> m \<noteq> 1 \<and> m \<noteq> n" if m: "m \<in> set (handlers a)" for m
  proof -
    have s: "sole INVALID_SOCKET (socks a)" "1 < m" "fd_of m (socks a) \<noteq> INVALID_SOCKET"
      using a m by (auto simp: acceptor_inv_def owned_def)
    then have "is_open (socks a) (fd_of m (socks a))"
      using soleD(2) [OF s(1), of m] by (auto simp: handle_of_def split: option.splits)
    then show ?thesis using assms(5) s(2) m n by auto
  qed
  have "is_open (socks ?a) f \<and> fd_of n (socks ?a) = f"
    using assms(4,6) unfolding r(1) w
    by (simp add: Socket_destroy_def Socket_close_def Socket_IsValid_def Socket_move_def)
      (simp add: handle_defs)
  moreover have "fd_of m (socks ?a) \<noteq> f" if "m \<in> set (handlers a)" for m
    using other [OF that] unfolding r(1) w by simp
  moreover have "misused (threads ?a)" if "junk \<noteq> NO_THREAD"
    using failed_create_misused [OF that, of "threads a" 1] a unfolding r(3)
    by (simp add: acceptor_inv_def Thread_destroy_def ends_life_def)
  ultimately show ?thesis using n r(2) by simp
qed

theorem failed_thread_leaks_connection_witness:
  "\<exists>a. handlers (acceptor_round 2 4 None 9 True True a) = [] \<and> is_open (socks (acceptor_round 2 4 None 9 True True a)) 4 \<and>
     misused (threads (acceptor_round 2 4 None 9 True True a))"
proof -
  let ?w = "snd (Listen 0 3 True True (ServerSocket_new 0 no_objects))"
  let ?a = "\<lparr>socks = ?w, threads = no_objects, handlers = [], accepting = True\<rparr>"
  have l: "Listen 0 3 True True (ServerSocket_new 0 no_objects) = (True, ?w)" by (simp add: socket_defs handle_defs)
  note run = acceptor_run.started [OF l]
  have "accepting ?a" "Socket_IsValid 0 (socks ?a)" "(4::int) \<noteq> INVALID_SOCKET" "\<not> is_open (socks ?a) 4" "(1::nat) < 2" "\<not> alive 2 (socks ?a)"
    by (simp_all add: socket_defs handle_defs)
  note t = failed_thread_leaks_connection [OF run this, of 9]
  have "handlers (acceptor_round 2 4 None 9 True True ?a) = []" by (simp add: acceptor_round_def Let_def)
  then show ?thesis using t by (intro exI [of _ ?a]) (simp add: NO_THREAD_def)
qed

section \<open>Options of the daemon\<close>

text \<open>
  C29. The arguments mean what the usage text says. For a list of options, each a port below
  \<open>2^31\<close> in decimal or a file name, in either spelling, possibly with other words between them, the
  daemon uses the last port, modulo \<open>2^16\<close>, and the last file, and the defaults where none is given.
\<close>

theorem daemon_options:
  assumes "list_all well_formed os"
  shows "parse_args (concat (map option_args os)) default_port default_db =
    Options (last (9001 # map of_nat (ports_of os))) (last (''aether.db'' # files_of os))"
  using parse_options[OF assms, of "[]" default_port default_db]
  by (simp only: append_Nil2 parse_args.simps default_port_def default_db_def)

theorem daemon_options_witness:
  "parse_args (concat (map option_args [Port_option True 70000, Ignored ''x'', Db_option False ''--help''])) default_port default_db =
    Options 4464 ''--help''"
proof -
  have "list_all well_formed [Port_option True 70000, Ignored ''x'', Db_option False ''--help'']" by simp
  from daemon_options[OF this] show ?thesis by simp
qed

text \<open>
  A port that is not a number ends the daemon by an uncaught exception: \<^verbatim>\<open>std::stoi\<close> throws
  outside the \<^verbatim>\<open>try\<close> block of \<^verbatim>\<open>main\<close>, which would report the error and return 1.
\<close>

lemma bad_port_terminates:
  assumes "list_all well_formed os" "stoi s = None"
  shows "run_daemon fs can_create can_reopen (concat (map option_args os) @ [''--port'', s] @ rest) f bnd lst scripts es sigs =
    Terminated fs"
  using assms(2) unfolding run_daemon_def parse_options[OF assms(1)] by simp

end
