(* ===== verification/Spec2Isabelle.thy ===== *)
theory Spec2Isabelle
  imports Indexed_Table Locks Daemon Logger
begin

text \<open>
  A verification library for the storage engine of AetherDB, a paged key and tuple store with a
  network front end.

  The parts and how they interact. A \<^verbatim>\<open>DiskManager\<close> keeps 4096-byte pages in one file, with a free
  list threaded through the free pages and a metadata page 0. A \<^verbatim>\<open>BufferPoolManager\<close> caches pages in
  frames, counts pins, and asks a \<^verbatim>\<open>Replacer\<close> (LRU or Clock) which unpinned frame to evict. On the
  pool stand a \<^verbatim>\<open>TableHeap\<close>, a chain of slotted pages that hold serialised tuples, and a
  \<^verbatim>\<open>BPlusTree\<close> from 64-bit keys to record ids, whose nodes are pages. \<^verbatim>\<open>StorageService\<close> answers page
  requests that arrive on sockets.

  Theories, from the bottom up, with the sources they model (under \<^verbatim>\<open>src/\<close>; storage headers and
  sources are in \<^verbatim>\<open>services/storage/include/storage\<close> and \<^verbatim>\<open>services/storage/src\<close>).

  \<^item> \<open>Aether_Prelude\<close>: \<^verbatim>\<open>common/types.hpp\<close>; errors as values, computations with state and
    exceptions, bytes and little-endian words, the overlay of fields on a byte buffer.
  \<^item> \<open>Replacer\<close>: \<^verbatim>\<open>replacer.hpp\<close>, \<^verbatim>\<open>replacer.cpp\<close>. The LRU list with its map of iterators refines a
    queue; the clock sweep implements second chance; both have the same candidates.
  \<^item> \<open>Disk_Manager\<close>: \<^verbatim>\<open>disk_manager.hpp\<close>, \<^verbatim>\<open>disk_manager.cpp\<close>. The file is a byte list; \<open>disk_rep d fl\<close>
    says that \<open>d\<close> is well formed and that its free list is \<open>fl\<close>.
  \<^item> \<open>Buffer_Pool\<close>, \<open>Buffer_Pool_Spec\<close>: \<^verbatim>\<open>page.hpp\<close>, \<^verbatim>\<open>buffer_pool_manager.hpp\<close>,
    \<^verbatim>\<open>buffer_pool_manager.cpp\<close>. \<open>bp_inv\<close> is the invariant of frames, page table, free list and
    replacer; every operation simulates a step of an abstract page map with pin counts.
  \<^item> \<open>Page_Cache\<close>, \<open>Pinned_Store\<close>: the interfaces (locales) a client of the pool uses: a page store
    while nothing is pinned, and a page store together with the pins of others.
  \<^item> \<open>Tuple_Layout\<close>: \<^verbatim>\<open>column.hpp\<close>, \<^verbatim>\<open>schema.hpp\<close>, \<^verbatim>\<open>tuple.hpp\<close>. \<open>Table_Page\<close>: \<^verbatim>\<open>table_page.hpp\<close>.
    \<open>Table_Heap\<close>: \<^verbatim>\<open>table_heap.hpp\<close>, \<^verbatim>\<open>table_catalog.hpp\<close>. A heap refines a map from record ids to
    tuples.
  \<^item> \<open>BPlus_Pages\<close>: \<^verbatim>\<open>b_plus_tree_page.hpp\<close>, \<^verbatim>\<open>b_plus_tree_leaf_page.hpp\<close>,
    \<^verbatim>\<open>b_plus_tree_internal_page.hpp\<close>: nodes as overlays on page bytes, the loops over their entries
    in the locale \<open>entry_array\<close>. \<open>BPlus_Nodes\<close>: each node operation on the list of entries.
  \<^item> \<open>BPlus_Tree\<close>: \<^verbatim>\<open>b_plus_tree.hpp\<close> and \<^verbatim>\<open>b_plus_tree.cpp\<close>. \<open>BPlus_Shape\<close>: the tree of nodes in the
    page store, paths to a leaf, and the ordering and size invariant. \<open>BPlus_Search\<close>,
    \<open>BPlus_Insert\<close>, \<open>BPlus_Underflow\<close>, \<open>BPlus_Delete\<close>, \<open>BPlus_Iter\<close>: the operations keep the
    invariant and have the effect on the map. \<open>BPlus_Index\<close>: the tree satisfies the interface
    \<open>map_index\<close> of a finite map, and the properties of the index.
  \<^item> \<open>Indexed_Table\<close>: a heap and a tree on one pool. The frames of the two show that no operation of one
    changes what the other stores (\<open>side_by_side\<close>). The code has no client that combines them.
  \<^item> \<open>Storage_Service\<close>: \<^verbatim>\<open>common/src/socket.cpp\<close> (\<open>Send\<close>, \<open>Recv\<close>), \<^verbatim>\<open>common/protocol.hpp\<close>,
    \<^verbatim>\<open>storage_service.hpp\<close>, \<^verbatim>\<open>storage_service.cpp\<close>: sending and receiving in full, the request
    handlers, one connection. What \<^verbatim>\<open>recv\<close> and \<^verbatim>\<open>send\<close> do is an argument: chunks and accepted numbers
    of bytes, and in the end a closed or a silent peer, a failing or blocking \<^verbatim>\<open>send\<close>, or SIGPIPE.
  \<^item> \<open>Locks\<close>: \<^verbatim>\<open>Mutex\<close> and \<^verbatim>\<open>LockGuard\<close> of \<^verbatim>\<open>common/concurrency.hpp\<close> and the latches of pool,
    replacer, disk manager and log. Threads are lists of instructions; bodies that run under one
    latch are serialised, which is why a call of the pool is one step in \<open>Concurrent_Service\<close>, and the
    order in which the code takes its latches excludes deadlock.
  \<^item> \<open>Shared_Store\<close>, \<open>Concurrent_Service\<close>: what the pool promises to several clients that share
    pages (a locale), and the handler threads of \<^verbatim>\<open>storage_service.cpp\<close> interleaved with each other
    and with \<open>Stop\<close>, one pool call, one copied byte or one reply at a time. The code copies the bytes of
    a page under no latch. As long as no handler holds a page that another one is overwriting
    (\<open>race_free\<close>), the recorded history is a legal history of one page store; clients none of which
    uses a page that another one writes (\<open>separate\<close>) never leave this case, and all their handlers end.
    Otherwise a reader can be sent a page that was never stored. One handler alone does what
    \<open>handle_request\<close> does.
  \<^item> \<open>Handles\<close>, \<open>Sockets\<close>, \<open>Threads\<close>: who owns the descriptors and threads of the operating system;
    \<^verbatim>\<open>Socket\<close> and \<^verbatim>\<open>ServerSocket\<close> of \<^verbatim>\<open>socket.cpp\<close>, \<^verbatim>\<open>Thread\<close> of \<^verbatim>\<open>concurrency.hpp\<close>.
  \<^item> \<open>Logger\<close>: \<^verbatim>\<open>common/logger.hpp\<close>, the formatting of messages.
  \<^item> \<open>Daemon\<close>: \<^verbatim>\<open>services/storage/main.cpp\<close> and \<open>StorageService::Start\<close>: arguments, signals, the
    accepting thread, and the outcome of a run.
  \<^item> This theory: what spans components, a stop of the service and a restart on the same file, and a
    whole run of the daemon.

  Errors. \<^verbatim>\<open>std\<close> exceptions and the undefined behaviours the code can reach (null dereference, access
  outside an object) are values of \<open>err\<close>. So are a system call that never returns (\<open>NoReturn\<close>) and the
  end of the process by SIGPIPE (\<open>Killed\<close>). A state reached before a throw is kept, as in C++.

  Loops and recursion. Loops with a bound are total functions. The sweep of the clock
  (\<open>clock_loop\<close>), the walk along a page chain (\<open>heap_insert_loop\<close>), the request loop
  (\<open>client_loop\<close>), and the descents and recursions of the index (\<open>find_leaf_loop\<close>, \<open>begin_loop\<close>,
  \<open>reparent_loop\<close>, \<open>InsertIntoParent\<close>, \<open>HandleUnderflow\<close>) follow data that could be cyclic; they are
  partial functions whose value is \<open>None\<close> when the code does not return. No fuel is used: the
  theorems state that the result is \<open>Some\<close>, because the sweep clears reference bits, the page chain
  is finite and without repetition, the byte stream gets shorter, and the index has a height.

  Bounds of the index. Nodes hold at most 253 and 338 entries and, below the root, at least 126
  and 169. With 32-bit page ids the height is therefore at most 5, an insertion uses at most 7 new
  page ids, and 13 frames that nobody else has pinned are enough for every operation (8 for a
  deletion).

  Turns. In \<open>Concurrent_Service\<close> a handler needs at most \<open>PAGE_SIZE + 5\<close> steps for a request (4096 copied
  bytes and five other steps) and two to end, so \<open>(PAGE_SIZE + 5) * n + 2\<close> turns are enough for a
  client with \<open>n\<close> requests, whatever the others do.

  Not modelled. The moments at which a line is logged and the sleeping of the main loop (no result is
  used); the Windows branches. Failures of the file system other than reads beyond the end of the
  file and files that cannot be created or opened.
  \<^verbatim>\<open>InsertIntoLeaf\<close> is declared in \<^verbatim>\<open>b_plus_tree.hpp\<close> and never defined; the getters \<^verbatim>\<open>GetPageType\<close>,
  \<^verbatim>\<open>GetRootPageId\<close> and \<^verbatim>\<open>GetFd\<close> have no caller in the engine. The catalog of
  tables is kept in memory only, as in the code, so a restart does not find it. Unguarded concurrent
  accesses to the bytes of one page are data races, which C++ gives no meaning: the properties of
  clients that succeed exclude them by hypothesis, and the property of the torn page shows one of the
  things that can happen, with the copies in ascending order of the bytes. A flush of \<open>Stop\<close> that
  meets a handler still copying is not analysed; what a request after it meets is. Pin counts are
  unbounded integers; a 32-bit count would need 2^31 simultaneous holders of a page to overflow.
\<close>

section \<open>Properties that span components\<close>

text \<open>Two flushes, as \<open>Stop\<close> performs them, leave every page that is not pinned on disk.\<close>

lemma flush_twice:
  assumes id: "idle s fl"
  shows "\<exists>s'. bind FlushAllPages (\<lambda>_. BufferPoolManager_destroy) s = (Inr (), s') \<and> disk_rep (disk s') fl \<and>
     live_pages (disk s') fl = live_pages (disk s) fl \<and>
     (\<forall>q \<in> live_pages (disk s) fl. page_content (disk s') q = page_view s q)"
proof -
  note i = idleD [OF id]
  obtain s1 where s1: "FlushAllPages s = (Inr (), s1)" "op_ok s fl FlushAll RUnit s1 fl"
    using flush_all_sim [OF i(1)] by blast
  have inv1: "bp_inv s1 fl" and a1: "pool_abs s1 fl = pool_abs s fl"
    using s1(2) op_ok_step [OF s1(2)] by (auto simp: op_ok_def elim!: spec_FlushAllE)
  obtain s2 where s2: "FlushAllPages s1 = (Inr (), s2)" "op_ok s1 fl FlushAll RUnit s2 fl"
     "\<forall>q \<in> live_pages (disk s1) fl. pin_counts s1 q = 0 \<longrightarrow> page_content (disk s2) q = page_view s1 q"
    using flush_all_sim [OF inv1] by blast
  have inv2: "bp_inv s2 fl" and a2: "pool_abs s2 fl = pool_abs s1 fl"
    using s2(2) op_ok_step [OF s2(2)] by (auto simp: op_ok_def elim!: spec_FlushAllE)
  have st: "pool_store s1 fl = pool_store s fl" "pin_counts s1 = (\<lambda>_. 0)" "pool_store s2 fl = pool_store s fl"
    using pool_abs_eqD [OF a1] pool_abs_eqD [OF a2] i(2) by simp_all
  have live: "live_pages (disk s1) fl = live_pages (disk s) fl" "live_pages (disk s2) fl = live_pages (disk s) fl"
    using st(1,3) dom_pool_store by metis+
  have "page_content (disk s2) q = page_view s q" if q: "q \<in> live_pages (disk s) fl" for q
  proof -
    have "page_view s1 q = page_view s q" using fun_cong [OF st(1), of q] q live(1) by (simp add: pool_store_def)
    then show ?thesis using s2(3) q live(1) st(2) by simp
  qed
  moreover have "bind FlushAllPages (\<lambda>_. BufferPoolManager_destroy) s = (Inr (), s2)"
    using s1(1) s2(1) by (simp add: BufferPoolManager_destroy_def)
  ultimately show ?thesis using inv2 live(2) by (auto simp: bp_inv_def)
qed

lemma stop_reopen:
  assumes id: "idle (svc_pool v) fl" and run: "is_running v"
  shows "\<exists>d d'. StorageService_Stop v = (Inr (), d) \<and> DiskManager_new (Some (db_file d)) can_create can_reopen = Inr d' \<and>
     idle (svc_pool (StorageService_new d')) fl \<and> frames (svc_pool (StorageService_new d')) = 128 \<and>
     pool_store (svc_pool (StorageService_new d')) fl = pool_store (svc_pool v) fl"
proof -
  obtain s' where s': "bind FlushAllPages (\<lambda>_. BufferPoolManager_destroy) (svc_pool v) = (Inr (), s')"
     "disk_rep (disk s') fl" "live_pages (disk s') fl = live_pages (disk (svc_pool v)) fl"
     "\<forall>q \<in> live_pages (disk (svc_pool v)) fl. page_content (disk s') q = page_view (svc_pool v) q"
    using flush_twice [OF id] by blast
  have stop: "StorageService_Stop v = (Inr (), Close (disk s'))"
    using run s'(1) by (simp add: StorageService_Stop_def)
  note re = reopen_same [OF s'(2), of can_create can_reopen]
  have eq: "svc_pool (StorageService_new (disk s')) = sample_pool 128 (disk s')"
    by (simp add: StorageService_new_def sample_pool_def)
  note pr = sample_pool_reach [OF s'(2), of 128] and inv = sample_pool_inv [OF s'(2), of 128]
  have "idle (sample_pool 128 (disk s')) fl" using inv by (simp add: idle_def pin_counts_def pr(4) fun_eq_iff)
  moreover have "frames (sample_pool 128 (disk s')) = 128"
    using no_leak_card [of "sample_pool 128 (disk s')"] inv pr(2) by (simp add: frames_def)
  moreover have "pool_store (sample_pool 128 (disk s')) fl = pool_store (svc_pool v) fl"
    using s'(3,4) pr(3,4) by (auto simp: pool_store_def page_view_def [of "sample_pool 128 (disk s')"] fun_eq_iff)
  ultimately show ?thesis
    using stop re unfolding eq [symmetric] by blast
qed

text \<open>
  Clean shutdown loses nothing. Stopping the running service while no request holds a page
  flushes and closes the database; a service started on that file has the same free pages and
  the same page store, byte for byte, however the pages were spread over cache and disk before.
\<close>

lemma stop_restart_durable:
  assumes "idle (svc_pool v) fl" "is_running v"
  shows "\<exists>d d'. StorageService_Stop v = (Inr (), d) \<and> DiskManager_new (Some (db_file d)) can_create can_reopen = Inr d' \<and>
     idle (svc_pool (StorageService_new d')) fl \<and>
     pool_store (svc_pool (StorageService_new d')) fl = pool_store (svc_pool v) fl"
  using stop_reopen [OF assms] by blast

text \<open>
  C6. A table survives a restart. When the service is stopped cleanly and started again on the
  same file, looking up any record id of a page of the table returns the tuple that was stored
  under it before.
\<close>

theorem table_survives_restart:
  assumes "idle (svc_pool v) fl" "is_running v" "heap_rep sch (pool_store (svc_pool v) fl) ps H"
    "rid_page_id rid \<in> set ps"
  shows "\<exists>d d' s'. StorageService_Stop v = (Inr (), d) \<and> DiskManager_new (Some (db_file d)) can_create can_reopen = Inr d' \<and>
     TableHeap_GetTuple rid sch (svc_pool (StorageService_new d')) = (Inr (H rid), s')"
proof -
  obtain d d' where d: "StorageService_Stop v = (Inr (), d)"
     "DiskManager_new (Some (db_file d)) can_create can_reopen = Inr d'"
     "idle (svc_pool (StorageService_new d')) fl" "frames (svc_pool (StorageService_new d')) = 128"
     "pool_store (svc_pool (StorageService_new d')) fl = pool_store (svc_pool v) fl"
    using stop_reopen [OF assms(1,2)] by blast
  obtain p m where p: "pool_store (svc_pool v) fl (rid_page_id rid) = Some p" "holds_tuples sch p m"
    "H rid = m (unat (rid_slot_num rid))" by (rule heap_rep_rid [OF assms(3,4)])
  have "0 < frames (svc_pool (StorageService_new d'))" using d(4) by simp
  from heap_get [OF d(3) this p(1) [folded d(5)] p(2)] d(1,2) show ?thesis unfolding p(3) by blast
qed

theorem table_survives_restart_witness:
  "\<exists>v fl ps rid d d' s'. is_running v \<and> heap_rep sample_schema (pool_store (svc_pool v) fl) ps [rid \<mapsto> sample_tuple 7 [65]] \<and>
     StorageService_Stop v = (Inr (), d) \<and> DiskManager_new (Some (db_file d)) False False = Inr d' \<and>
     TableHeap_GetTuple rid sample_schema (svc_pool (StorageService_new d')) = (Inr (Some (sample_tuple 7 [65])), s')"
proof -
  obtain s fl ps rid where s: "heap_rep sample_schema (pool_store s fl) ps [rid \<mapsto> sample_tuple 7 [65]]" "idle s fl"
    "rid_page_id rid \<in> set ps" using sample_table by blast
  let ?v = "\<lparr>svc_pool = s, is_running = True\<rparr>"
  have a: "idle (svc_pool ?v) fl" "is_running ?v" "heap_rep sample_schema (pool_store (svc_pool ?v) fl) ps [rid \<mapsto> sample_tuple 7 [65]]"
    using s by simp_all
  from table_survives_restart [OF a s(3), of False False] obtain d d' s' where "StorageService_Stop ?v = (Inr (), d)"
    "DiskManager_new (Some (db_file d)) False False = Inr d'"
    "TableHeap_GetTuple rid sample_schema (svc_pool (StorageService_new d')) = (Inr ([rid \<mapsto> sample_tuple 7 [65]] rid), s')" by blast
  then show ?thesis using a(2,3)
    by (intro exI [of _ ?v] exI [of _ fl] exI [of _ ps] exI [of _ rid] exI [of _ d] exI [of _ d'] exI [of _ s']) simp
qed

text \<open>
  An index survives a restart. When the service is stopped cleanly while nobody holds a page
  and started again on the same file, the tree with the same root page stores the same map: every
  lookup gives the answer it gave before.
\<close>

lemma index_survives_restart:
  assumes "index_rep (BPlusTree_new root (svc_pool v)) S (\<lambda>_. 0) A M" "is_running v"
  shows "\<exists>d d' t'. StorageService_Stop v = (Inr (), d) \<and> DiskManager_new (Some (db_file d)) can_create can_reopen = Inr d' \<and>
     index_rep (BPlusTree_new root (svc_pool (StorageService_new d'))) S (\<lambda>_. 0) A M \<and>
     GetValue key (BPlusTree_new root (svc_pool (StorageService_new d'))) = Some (Inr (M key), t')"
proof -
  have "pool_st (svc_pool v) S (\<lambda>_. 0)" using assms(1) by (simp add: index_rep_def BPlusTree_new_def)
  then obtain fl where fl: "idle (svc_pool v) fl" "pool_store (svc_pool v) fl = S"
    by (auto simp: idle_def elim: pool_stE)
  obtain d d' where d: "StorageService_Stop v = (Inr (), d)"
     "DiskManager_new (Some (db_file d)) can_create can_reopen = Inr d'"
     "idle (svc_pool (StorageService_new d')) fl" "frames (svc_pool (StorageService_new d')) = 128"
     "pool_store (svc_pool (StorageService_new d')) fl = pool_store (svc_pool v) fl"
    using stop_reopen [OF fl(1) assms(2)] by blast
  let ?t = "BPlusTree_new root (svc_pool (StorageService_new d'))"
  have "pool_st (svc_pool (StorageService_new d')) S (\<lambda>_. 0)" using d(3,5) fl(2) by (auto simp: pool_st_def idle_def)
  then have rep: "index_rep ?t S (\<lambda>_. 0) A M"
    using assms(1) by (auto simp: index_rep_def index_tree_def BPlusTree_new_def IsEmpty_def)
  have "npin (\<lambda>_. 0) < frames (bpm ?t)" using d(4) by (simp add: BPlusTree_new_def)
  from get_value_ok [OF rep this, of key] show ?thesis using d(1,2) rep by blast
qed

section \<open>Lookups and pinned frames\<close>

text \<open>What a pool holds can be moved to a pool of any size over the flushed file.\<close>

lemma flushed_pool:
  assumes "idle s fl"
  obtains d where "disk_rep d fl" "\<And>n. idle (sample_pool n d) fl" "\<And>n. frames (sample_pool n d) = n"
    "\<And>n. pool_store (sample_pool n d) fl = pool_store s fl"
proof -
  obtain s' where "bind FlushAllPages (\<lambda>_. BufferPoolManager_destroy) s = (Inr (), s')" and
     s': "disk_rep (disk s') fl" "live_pages (disk s') fl = live_pages (disk s) fl"
     "\<forall>q \<in> live_pages (disk s) fl. page_content (disk s') q = page_view s q"
    using flush_twice [OF assms] by blast
  note pr = sample_pool_reach [OF s'(1)] and inv = sample_pool_inv [OF s'(1)]
  have "idle (sample_pool n (disk s')) fl" for n using inv [of n] by (simp add: idle_def pin_counts_def pr(4) fun_eq_iff)
  moreover have "frames (sample_pool n (disk s')) = n" for n
    using no_leak_card [of "sample_pool n (disk s')"] inv [of n] pr(2) by (simp add: frames_def)
  moreover have "pool_store (sample_pool n (disk s')) fl = pool_store s fl" for n
    using s'(2,3) pr(3,4) by (auto simp: pool_store_def page_view_def [of "sample_pool n (disk s')"] fun_eq_iff)
  ultimately show thesis by (rule that [OF s'(1)])
qed

text \<open>
  C36. A lookup in the index needs one frame that is not pinned by others. With one, \<open>GetValue\<close> gives the
  answer of the map and changes nothing; without one, in an index that is not empty, it
  dereferences the null pointer that \<open>FetchPage\<close> returns.
\<close>

theorem index_lookup_frames:
  assumes "index_rep t S P A M" "\<not> IsEmpty t"
  shows "(npin P < frames (bpm t) \<longrightarrow> (\<exists>t'. GetValue key t = Some (Inr (M key), t') \<and> index_rep t' S P A M)) \<and>
     (npin P = frames (bpm t) \<longrightarrow> GetValue key t = Some (Inl NullDeref, t))"
  using get_value_ok [OF assms(1)] lookup_all_pinned [OF assms] by blast

theorem index_lookup_frames_witness:
  "\<exists>t S P A. index_rep t S P A [7 \<mapsto> RID_default] \<and> npin P = 1 \<and> frames (bpm t) = 1 \<and>
     GetValue 7 t = Some (Inl NullDeref, t)"
proof -
  obtain b S where b: "pool_st b S (\<lambda>_. 0)" "frames b = 128" "spare_ids 1000 S" "1 \<in> dom S" using sample_store by blast
  have f: "npin (\<lambda>_. 0) + 13 \<le> frames (bpm (BPlusTree_new INVALID_PAGE_ID b))" using b(2) by (simp add: BPlusTree_new_def)
  from insert_ok [OF empty_index [OF b(1)] f spare_ids_mono [OF b(3)], of 7 RID_default] obtain t S1 A where
    t: "index_rep t S1 (\<lambda>_. 0) A [7 \<mapsto> RID_default]" "index_frame S {} S1 A" by (auto simp: map_insert_def)
  have one: "1 \<notin> A" "1 \<in> dom S1" using t(2) b(4) by (auto simp: index_frame_def)
  have "pool_st (bpm t) S1 (\<lambda>_. 0)" using t(1) by (simp add: index_rep_def)
  then obtain fl where fl: "idle (bpm t) fl" "pool_store (bpm t) fl = S1" by (auto simp: idle_def elim: pool_stE)
  obtain d where d: "idle (sample_pool 1 d) fl" "frames (sample_pool 1 d) = 1" "pool_store (sample_pool 1 d) fl = S1"
    by (rule flushed_pool [OF fl(1)]) (use fl(2) in blast)
  have st: "pool_st (sample_pool 1 d) S1 (\<lambda>_. 0)" using idle_pool_st [OF d(1)] d(3) by simp
  have room: "npin (\<lambda>_. 0) < frames (sample_pool 1 d)" using d(2) by simp
  obtain c where c: "pool_st c S1 ((\<lambda>_. 0)(1 := 1))" "frames c = 1"
    using pool_st_fetch [OF st one(2) room] d(2) by auto
  let ?P = "(\<lambda>_. 0)(1 := 1) :: page_id \<Rightarrow> int" and ?t = "BPlusTree_new (root_page_id t) c"
  have "index_rep (BPlusTree_new (root_page_id t) (bpm t)) S1 (\<lambda>_. 0) A [7 \<mapsto> RID_default]" using t(1) index_rep_new by blast
  then have rep: "index_rep ?t S1 ?P A [7 \<mapsto> RID_default]" by (rule index_rep_cong [OF _ c(1)]) (use one(1) in auto)
  have np: "npin ?P = 1" by (simp add: npin_def)
  have ne: "\<not> IsEmpty ?t" using rep by (auto simp: index_rep_def fun_eq_iff split: if_splits)
  have "GetValue 7 ?t = Some (Inl NullDeref, ?t)"
    using index_lookup_frames [OF rep ne, of 7] np c(2) by (simp add: BPlusTree_new_def)
  then show ?thesis using rep np c(2) by (intro exI [of _ ?t] exI [of _ S1] exI [of _ ?P] exI [of _ A]) (simp add: BPlusTree_new_def)
qed

text \<open>A start on a good file gives a pool in which nothing is pinned.\<close>

lemma start_pool:
  assumes "disk_rep d fl"
  shows "pool_st (svc_pool (StorageService_new d)) (pool_store (svc_pool (StorageService_new d)) fl) (\<lambda>_. 0)"
    "frames (svc_pool (StorageService_new d)) = 128"
proof -
  have eq: "svc_pool (StorageService_new d) = sample_pool 128 d" by (simp add: StorageService_new_def sample_pool_def)
  note pr = sample_pool_reach [OF assms, of 128] and inv = sample_pool_inv [OF assms, of 128]
  have "idle (sample_pool 128 d) fl" using inv by (simp add: idle_def pin_counts_def pr(4) fun_eq_iff)
  then show "pool_st (svc_pool (StorageService_new d)) (pool_store (svc_pool (StorageService_new d)) fl) (\<lambda>_. 0)"
    unfolding eq by (auto simp: pool_st_def idle_def)
  show "frames (svc_pool (StorageService_new d)) = 128"
    using no_leak_card [of "sample_pool 128 d"] inv pr(2) by (simp add: eq frames_def)
qed

text \<open>The stopping thread, after the handlers have ended, leaves a file with the pages of the pool.\<close>

lemma stop_after_clients:
  assumes st: "pool_st b S (\<lambda>_. 0)" and s: "running s" "live_pool s = Some b" "stopping s = Not_stopped"
  shows "\<exists>s' d d' fl. run_service [Stopping, Stopping, Stopping, Stopping] s = Inr s' \<and> stopping s' = Stopped \<and>
     closed_disk s' = Some d \<and> DiskManager_new (Some (db_file (Close d))) can_create can_reopen = Inr d' \<and>
     idle (svc_pool (StorageService_new d')) fl \<and> pool_store (svc_pool (StorageService_new d')) fl = S"
proof -
  let ?v = "\<lparr>svc_pool = b, is_running = True\<rparr>"
  obtain fl where fl: "idle b fl" "pool_store b fl = S" using st by (auto simp: idle_def elim: pool_stE)
  obtain b' where "bind FlushAllPages (\<lambda>_. BufferPoolManager_destroy) b = (Inr (), b')" using flush_twice [OF fl(1)] by blast
  from stop_alone [OF s this] obtain s' where s': "run_service [Stopping, Stopping, Stopping, Stopping] s = Inr s'"
    "stopping s' = Stopped" "closed_disk s' = Some (snd (StorageService_Stop ?v))" by blast
  obtain d d' where d: "StorageService_Stop ?v = (Inr (), d)" "DiskManager_new (Some (db_file d)) can_create can_reopen = Inr d'"
    "idle (svc_pool (StorageService_new d')) fl" "pool_store (svc_pool (StorageService_new d')) fl = S"
    using stop_reopen [of ?v fl can_create can_reopen] fl by auto
  have "db_file (Close d) = db_file d" by (simp add: Close_def)
  then show ?thesis using s' d by (intro exI [of _ s'] exI [of _ d] exI [of _ d'] exI [of _ fl]) simp
qed


lemma spare_one:
  assumes "unused_id S"
  shows "spare_ids 1 S"
proof -
  let ?A = "{p. p \<noteq> 0 \<and> p \<noteq> INVALID_PAGE_ID \<and> p \<notin> dom S}"
  have "?A \<noteq> {}" using assms unfolding unused_id_def by blast
  moreover have "finite ?A" by (rule finite)
  ultimately have "0 < card ?A" using card_gt_0_iff by blast
  then show ?thesis by (simp add: spare_ids_def)
qed


end
